(* ===== verification/Prelude.thy ===== *)
theory Prelude
  imports Main "HOL-Library.Word"
begin

text \<open>
  Shared vocabulary of the development: C strings as character lists, the error
  values every verb of \<^verbatim>\<open>machteld\<close> raises, the integer limits the C code compares against,
  and the generic facts on lists, words and results that the component theories use.
\<close>

section \<open>Collections of facts\<close>

named_theorems model_simps \<open>definitions and equations that evaluate the model\<close>
named_theorems result_simps \<open>facts that take results of fallible operations apart\<close>

section \<open>Characters and C strings\<close>

text \<open>
  A C string is the list of its bytes up to, and without, the terminating NUL; a byte is
  an Isabelle \<open>char\<close> (0 to 255). A Tcl string carries its length, so it may hold NUL bytes.
\<close>

type_synonym cstr = string

abbreviation NUL :: char where "NUL \<equiv> CHR 0x00"
abbreviation TAB :: char where "TAB \<equiv> CHR 0x09"
abbreviation LF :: char where "LF \<equiv> CHR 0x0A"
abbreviation CR :: char where "CR \<equiv> CHR 0x0D"
abbreviation DQ :: char where "DQ \<equiv> CHR 0x22"
abbreviation BS :: char where "BS \<equiv> CHR 0x5C"
abbreviation SPC :: char where "SPC \<equiv> CHR 0x20"

abbreviation byte_of :: "char \<Rightarrow> nat" where "byte_of c \<equiv> of_char c"

text \<open>The comparisons \<^verbatim>\<open>c >= '0' && c <= '9'\<close> and the like, on unsigned byte values.\<close>

definition in_range :: "char \<Rightarrow> char \<Rightarrow> char \<Rightarrow> bool" where
  "in_range lo hi c \<longleftrightarrow> byte_of lo \<le> byte_of c \<and> byte_of c \<le> byte_of hi"

abbreviation is_digit :: "char \<Rightarrow> bool" where "is_digit \<equiv> in_range CHR ''0'' CHR ''9''"

definition digit_val :: "char \<Rightarrow> nat" where
  "digit_val c = byte_of c - 48"

lemma digit_val_less: "is_digit c \<Longrightarrow> digit_val c < 10"
  by (auto simp: in_range_def digit_val_def)

text \<open>ASCII lower-casing as the code spells it, letter by letter.\<close>

definition ascii_lower :: "char \<Rightarrow> char" where
  "ascii_lower c = (if in_range CHR ''A'' CHR ''Z'' c then char_of (byte_of c + 32) else c)"

text \<open>\<^verbatim>\<open>strchr(s, c) != NULL\<close> for a character other than NUL is membership.\<close>

abbreviation strchr :: "cstr \<Rightarrow> char \<Rightarrow> bool" where "strchr s c \<equiv> c \<in> set s"

text \<open>\<^verbatim>\<open>%u\<close>: the decimal digits of a number, most significant first.\<close>

fun dec_of_nat :: "nat \<Rightarrow> cstr" where
  "dec_of_nat n = (if n < 10 then [char_of (48 + n)] else dec_of_nat (n div 10) @ [char_of (48 + n mod 10)])"

declare dec_of_nat.simps [simp del]

definition dec_of_int :: "int \<Rightarrow> cstr" where
  "dec_of_int i = (if i < 0 then ''-'' @ dec_of_nat (nat (- i)) else dec_of_nat (nat i))"

definition hex_digit :: "nat \<Rightarrow> char" where
  "hex_digit n = ''0123456789abcdef'' ! n"

text \<open>\<^verbatim>\<open>%.Ns\<close>: at most \<open>n\<close> bytes of a C string, which ends at its first NUL.\<close>

definition c_prefix :: "nat \<Rightarrow> string \<Rightarrow> cstr" where
  "c_prefix n s = take n (takeWhile (\<lambda>c. c \<noteq> NUL) s)"

section \<open>Integer limits\<close>

abbreviation LLONG_MAX :: nat where "LLONG_MAX \<equiv> 9223372036854775807"
abbreviation ULLONG_MAX :: nat where "ULLONG_MAX \<equiv> 18446744073709551615"
abbreviation INT_MAX :: nat where "INT_MAX \<equiv> 2147483647"
abbreviation SIZE_MAX :: "64 word" where "SIZE_MAX \<equiv> 18446744073709551615"

type_synonym size_t = "64 word"
type_synonym dword = "32 word"
type_synonym wstr = "16 word list"

section \<open>Results of Tcl commands\<close>

text \<open>
  Every verb fails with the error code \<^verbatim>\<open>{MACHTELD <DOMAIN> <code>}\<close> and a message; a wrong
  argument count answered by \<^verbatim>\<open>Tcl_WrongNumArgs\<close> and an error left by a Tcl library call are
  kept apart because no code of the \<^verbatim>\<open>MACHTELD\<close> family is set for them.
\<close>

datatype mt_error =
    MtError (err_domain: string) (err_code: string) (err_msg: string)
  | WrongNumArgs
  | TclError

type_synonym 'a res = "mt_error + 'a"

definition bind_res :: "'a res \<Rightarrow> ('a \<Rightarrow> 'b res) \<Rightarrow> 'b res" where
  "bind_res m f = (case m of Inl e \<Rightarrow> Inl e | Inr a \<Rightarrow> f a)"

lemma bind_res_simps [simp]:
  "bind_res (Inl e) f = Inl e"
  "bind_res (Inr a) f = f a"
  by (simp_all add: bind_res_def)

lemma bind_res_Inr [result_simps]:
  "bind_res m f = Inr b \<longleftrightarrow> (\<exists>a. m = Inr a \<and> f a = Inr b)"
  by (cases m) auto

lemma bind_res_Inl [result_simps]:
  "bind_res m f = Inl e \<longleftrightarrow> m = Inl e \<or> (\<exists>a. m = Inr a \<and> f a = Inl e)"
  by (cases m) auto

text \<open>Running a fallible operation over a list, stopping at the first failure.\<close>

fun map_res :: "('a \<Rightarrow> 'b res) \<Rightarrow> 'a list \<Rightarrow> 'b list res" where
  "map_res f [] = Inr []"
| "map_res f (x # xs) = bind_res (f x) (\<lambda>y. bind_res (map_res f xs) (\<lambda>ys. Inr (y # ys)))"

lemma map_res_length: "map_res f xs = Inr ys \<Longrightarrow> length ys = length xs"
  by (induction xs arbitrary: ys) (auto simp: result_simps)

lemma map_res_map: "(\<And>x. x \<in> set xs \<Longrightarrow> f x = Inr (g x)) \<Longrightarrow> map_res f xs = Inr (map g xs)"
  by (induction xs) auto

lemma map_res_cong [fundef_cong]:
  "xs = ys \<Longrightarrow> (\<And>x. x \<in> set ys \<Longrightarrow> f x = g x) \<Longrightarrow> map_res f xs = map_res g ys"
  by (induction ys arbitrary: xs) auto

section \<open>Words\<close>

lemma unat_add_no_wrap:
  fixes a b :: "64 word"
  shows "unat a + unat b < 18446744073709551616 \<Longrightarrow> unat (a + b) = unat a + unat b"
  by (simp add: unat_word_ariths)

lemma size_max_word: "(SIZE_MAX :: 64 word) = - 1"
  by simp

lemma unat_lt64: "unat (w :: 64 word) < 18446744073709551616"
  using unsigned_less [of w] by simp

lemma unat_le64: "unat (w :: 64 word) \<le> 18446744073709551615"
  using unat_lt64 [of w] by linarith

lemma unat_sub_le:
  fixes a b :: "64 word"
  shows "b \<le> a \<Longrightarrow> unat (a - b) = unat a - unat b"
  by (simp add: unat_sub)

section \<open>Lists\<close>

lemma takeWhile_all: "\<forall>x\<in>set xs. P x \<Longrightarrow> takeWhile P xs = xs"
  by (simp add: takeWhile_eq_all_conv)

lemma replicate_snoc: "replicate n x @ x # xs = x # replicate n x @ xs"
  by (induction n) auto

end
