(* ===== verification/Bytes.thy ===== *)
theory Bytes
  imports Prelude "HOL-Library.List_Lexorder"
begin

text \<open>
  Bytes in memory: \<^verbatim>\<open>memcmp\<close>, the little-endian fields of the buffers that Windows fills, and wide C strings.
\<close>

section \<open>Comparison\<close>

text \<open>\<^verbatim>\<open>memcmp\<close> on the bytes of two keys of the same length: -1, 0 or 1.\<close>

fun memcmp :: "string \<Rightarrow> string \<Rightarrow> int" where
  "memcmp (a # x) (b # y) =
    (if byte_of a < (byte_of b :: nat) then - 1 else if byte_of b < (byte_of a :: nat) then 1 else memcmp x y)"
| "memcmp x y = 0"

lemma memcmp_lex:
  "length x = length y \<Longrightarrow> memcmp x y \<le> 0 \<longleftrightarrow> map byte_of x \<le> (map byte_of y :: nat list)"
  by (induction x y rule: memcmp.induct) auto

lemma memcmp_eq: "length x = length y \<Longrightarrow> memcmp x y = 0 \<longleftrightarrow> x = y"
  by (induction x y rule: memcmp.induct) (auto simp: not_less)

section \<open>Fields of buffers\<close>

text \<open>Fields of the buffers that Windows fills: a \<^verbatim>\<open>DWORD\<close> and a UTF-16 unit are stored least byte first.\<close>

definition dword_at :: "string \<Rightarrow> nat \<Rightarrow> nat" where
  "dword_at b i = byte_of (b ! i) + 256 * byte_of (b ! (i + 1)) + 65536 * byte_of (b ! (i + 2)) + 16777216 * byte_of (b ! (i + 3))"

fun wide_of :: "string \<Rightarrow> wstr" where
  "wide_of (a # b # r) = word_of_nat (byte_of a + 256 * byte_of b) # wide_of r"
| "wide_of r = []"

definition dword_bytes :: "nat \<Rightarrow> string" where
  "dword_bytes n = [char_of (n mod 256), char_of (n div 256 mod 256), char_of (n div 65536 mod 256), char_of (n div 16777216 mod 256)]"

definition wide_bytes :: "wstr \<Rightarrow> string" where
  "wide_bytes u = concat (map (\<lambda>c. [char_of (unat c mod 256), char_of (unat c div 256)]) u)"

lemma dword_at_bytes: "n < 4294967296 \<Longrightarrow> dword_at (xs @ dword_bytes n @ ys) (length xs) = n"
proof -
  assume n: "n < 4294967296"
  define a b c where "a = n div 256" and "b = a div 256" and "c = b div 256"
  have "n = n mod 256 + 256 * a" "a = a mod 256 + 256 * b" "b = b mod 256 + 256 * c" by (simp_all add: a_def b_def c_def)
  then have "n mod 256 + 256 * (a mod 256) + 65536 * (b mod 256) + 16777216 * c = n" by linarith
  moreover have "b = n div 65536" "c = n div 16777216" by (simp_all add: a_def b_def c_def div_mult2_eq [symmetric])
  moreover have "n div 16777216 < 256" using n by (simp add: less_mult_imp_div_less)
  ultimately show ?thesis by (simp add: dword_at_def dword_bytes_def nth_append a_def)
qed

lemma length_wide_bytes [simp]: "length (wide_bytes u) = 2 * length u" "length (dword_bytes n) = 4"
  by (induction u) (simp_all add: wide_bytes_def dword_bytes_def)

lemma wide_of_bytes: "wide_of (wide_bytes u) = u"
proof (induction u)
  case (Cons c u)
  have "unat c < 65536" using unsigned_less [of c] by simp
  then have "unat c mod 256 + 256 * (unat c div 256) = unat c" "unat c div 256 < 256" by auto
  then show ?case using Cons by (simp add: wide_bytes_def)
qed (simp add: wide_bytes_def)

section \<open>Wide C strings\<close>

text \<open>A wide C string ends at its first zero unit; \<^verbatim>\<open>wcslen\<close> is the length of this part.\<close>

definition wcs :: "wstr \<Rightarrow> wstr" where
  "wcs w = takeWhile (\<lambda>u. u \<noteq> 0) w"

end
