(* ===== verification/Cmdline.thy ===== *)
theory Cmdline
  imports Prelude "HOL-Library.While_Combinator"
begin

text \<open>
  Windows command-line construction, \<^verbatim>\<open>src/winjob_cmdline.c\<close>: the growable byte buffer
  \<^verbatim>\<open>sb_t\<close>, the \<^verbatim>\<open>CommandLineToArgvW\<close> quoting of \<^verbatim>\<open>wj_escape_arg\<close> and
  \<^verbatim>\<open>wj_make_cmdline\<close>, batch-file detection, and the defensive \<^verbatim>\<open>cmd.exe /c\<close> quoting of
  \<^verbatim>\<open>wj_make_batch_cmdline\<close>. The C allocator is a parameter: a function of an abstract
  heap and a size that says whether the request is met. The counters \<^verbatim>\<open>slashes\<close> and
  \<^verbatim>\<open>backslashes\<close>, C \<^verbatim>\<open>int\<close>s bounded by the length of the argument, are naturals
  (a Windows command line is far below \<open>2\<^bsup>31\<^esup>\<close> bytes); lengths and capacities are 64-bit words.
\<close>

section \<open>The growable byte buffer\<close>

type_synonym 'm allocator = "'m \<Rightarrow> size_t \<Rightarrow> bool \<times> 'm"

record sb_t =
  sb_p :: string
  sb_len :: size_t
  sb_cap :: size_t
  sb_failed :: bool

type_synonym 'm sb_st = "sb_t \<times> 'm"

definition strlen :: "cstr \<Rightarrow> size_t" where
  "strlen s = of_nat (length s)"

definition sb_init :: "'m allocator \<Rightarrow> 'm \<Rightarrow> bool \<times> 'm sb_st" where
  "sb_init alloc m =
    (case alloc m 64 of
       (False, m') \<Rightarrow> (False, (\<lparr>sb_p = [], sb_len = 0, sb_cap = 0, sb_failed = True\<rparr>, m'))
     | (True, m') \<Rightarrow> (True, (\<lparr>sb_p = [], sb_len = 0, sb_cap = 64, sb_failed = False\<rparr>, m')))"

text \<open>The doubling loop of \<^verbatim>\<open>sb_ensure\<close>; the \<^verbatim>\<open>break\<close> leaves \<^verbatim>\<open>cap = need\<close>, which also ends the loop.\<close>

definition sb_grow_step :: "size_t \<Rightarrow> size_t \<Rightarrow> size_t" where
  "sb_grow_step need cap = (if cap > SIZE_MAX div 2 then need else cap * 2)"

definition sb_grow :: "size_t \<Rightarrow> size_t \<Rightarrow> size_t" where
  "sb_grow need cap = while (\<lambda>cap. cap < need) (sb_grow_step need) cap"

definition sb_ensure :: "'m allocator \<Rightarrow> size_t \<Rightarrow> 'm sb_st \<Rightarrow> bool \<times> 'm sb_st" where
  "sb_ensure alloc extra st =
    (let (b, m) = st in
     if sb_failed b then (False, st)
     else if extra > SIZE_MAX - sb_len b - 1 then (False, (b\<lparr>sb_failed := True\<rparr>, m))
     else let need = sb_len b + extra + 1 in
       if need > sb_cap b then
         let cap = sb_grow need (sb_cap b) in
         (case alloc m cap of
            (False, m') \<Rightarrow> (False, (b\<lparr>sb_failed := True\<rparr>, m'))
          | (True, m') \<Rightarrow> (True, (b\<lparr>sb_cap := cap\<rparr>, m')))
       else (True, st))"

definition sb_write :: "string \<Rightarrow> sb_t \<Rightarrow> sb_t" where
  "sb_write s b = b\<lparr>sb_p := take (unat (sb_len b)) (sb_p b) @ s, sb_len := sb_len b + strlen s\<rparr>"

definition sb_putc :: "'m allocator \<Rightarrow> char \<Rightarrow> 'm sb_st \<Rightarrow> bool \<times> 'm sb_st" where
  "sb_putc alloc c st =
    (case sb_ensure alloc 1 st of
       (False, st') \<Rightarrow> (False, st')
     | (True, (b, m)) \<Rightarrow> (True, (sb_write [c] b, m)))"

definition sb_puts :: "'m allocator \<Rightarrow> cstr \<Rightarrow> 'm sb_st \<Rightarrow> bool \<times> 'm sb_st" where
  "sb_puts alloc s st =
    (case sb_ensure alloc (strlen s) st of
       (False, st') \<Rightarrow> (False, st')
     | (True, (b, m)) \<Rightarrow> (True, (sb_write s b, m)))"

definition xstrdup :: "'m allocator \<Rightarrow> cstr \<Rightarrow> 'm \<Rightarrow> cstr option \<times> 'm" where
  "xstrdup alloc s m = (let (ok, m') = alloc m (strlen s + 1) in (if ok then Some s else None, m'))"

text \<open>The callers that ignore the status of \<^verbatim>\<open>sb_putc\<close> and \<^verbatim>\<open>sb_puts\<close> rely on the sticky \<^verbatim>\<open>failed\<close> flag.\<close>

abbreviation putc :: "'m allocator \<Rightarrow> char \<Rightarrow> 'm sb_st \<Rightarrow> 'm sb_st" where
  "putc alloc c st \<equiv> snd (sb_putc alloc c st)"

abbreviation puts :: "'m allocator \<Rightarrow> cstr \<Rightarrow> 'm sb_st \<Rightarrow> 'm sb_st" where
  "puts alloc s st \<equiv> snd (sb_puts alloc s st)"

section \<open>Argument escaping\<close>

text \<open>\<^verbatim>\<open>for (; slashes > 0; slashes--) sb_putc(&b, '\\');\<close>\<close>

primrec put_slashes :: "'m allocator \<Rightarrow> nat \<Rightarrow> 'm sb_st \<Rightarrow> 'm sb_st" where
  "put_slashes alloc 0 st = st"
| "put_slashes alloc (Suc n) st = put_slashes alloc n (putc alloc BS st)"

text \<open>The counting pass: \<^verbatim>\<open>growth\<close> and \<^verbatim>\<open>hasSpace\<close>.\<close>

fun escape_scan :: "cstr \<Rightarrow> bool \<Rightarrow> size_t \<Rightarrow> bool \<times> size_t" where
  "escape_scan [] hasSpace growth = (hasSpace, growth)"
| "escape_scan (c # s) hasSpace growth =
    (if c = DQ \<or> c = BS then escape_scan s hasSpace (growth + 1)
     else if c = SPC \<or> c = TAB then escape_scan s True growth
     else escape_scan s hasSpace growth)"

text \<open>The emitting pass; it returns the final \<^verbatim>\<open>slashes\<close>.\<close>

fun escape_loop :: "'m allocator \<Rightarrow> cstr \<Rightarrow> nat \<Rightarrow> 'm sb_st \<Rightarrow> nat \<times> 'm sb_st" where
  "escape_loop alloc [] slashes st = (slashes, st)"
| "escape_loop alloc (c # s) slashes st =
    (if c = BS then escape_loop alloc s (slashes + 1) (putc alloc BS st)
     else if c = DQ then
       escape_loop alloc s 0 (putc alloc DQ (putc alloc BS (put_slashes alloc slashes st)))
     else escape_loop alloc s 0 (putc alloc c st))"

definition wj_escape_arg :: "'m allocator \<Rightarrow> cstr option \<Rightarrow> 'm \<Rightarrow> cstr option \<times> 'm" where
  "wj_escape_arg alloc arg m =
    (case arg of None \<Rightarrow> (None, m) | Some s \<Rightarrow>
      if length s = 0 then xstrdup alloc [DQ, DQ] m
      else let (hasSpace, growth) = escape_scan s False 0 in
        if growth = 0 \<and> \<not> hasSpace then xstrdup alloc s m
        else case sb_init alloc m of
          (False, (b, m')) \<Rightarrow> (None, m')
        | (True, st) \<Rightarrow>
            let st = (if hasSpace then putc alloc DQ st else st);
                (slashes, st) = escape_loop alloc s 0 st;
                st = (if hasSpace then putc alloc DQ (put_slashes alloc slashes st) else st);
                (b, m') = st
            in if sb_failed b then (None, m') else (Some (sb_p b), m'))"

fun make_cmdline_loop :: "'m allocator \<Rightarrow> bool \<Rightarrow> cstr option list \<Rightarrow> 'm sb_st \<Rightarrow> bool \<times> 'm sb_st" where
  "make_cmdline_loop alloc first [] st = (True, st)"
| "make_cmdline_loop alloc first (a # as) st =
    (let (b, m) = (if first then st else putc alloc SPC st);
         (e, m) = wj_escape_arg alloc a m
     in case e of
          None \<Rightarrow> (False, (b, m))
        | Some t \<Rightarrow> (case sb_puts alloc t (b, m) of
              (False, st') \<Rightarrow> (False, st')
            | (True, st') \<Rightarrow> make_cmdline_loop alloc False as st'))"

definition wj_make_cmdline ::
  "'m allocator \<Rightarrow> int \<Rightarrow> cstr option list option \<Rightarrow> 'm \<Rightarrow> cstr option \<times> 'm" where
  "wj_make_cmdline alloc argc argv m =
    (if argc < 0 \<or> (argc > 0 \<and> argv = None) then (None, m)
     else case sb_init alloc m of
       (False, (b, m')) \<Rightarrow> (None, m')
     | (True, st) \<Rightarrow>
        (case make_cmdline_loop alloc True (take (nat argc) (case argv of None \<Rightarrow> [] | Some as \<Rightarrow> as)) st of
           (False, (b, m')) \<Rightarrow> (None, m')
         | (True, (b, m')) \<Rightarrow> if sb_failed b then (None, m') else (Some (sb_p b), m')))"

section \<open>Batch detection\<close>

fun ci_eq :: "cstr \<Rightarrow> cstr \<Rightarrow> bool" where
  "ci_eq (a # as) (b # bs) = (if ascii_lower a \<noteq> ascii_lower b then False else ci_eq as bs)"
| "ci_eq as bs = (as = [] \<and> bs = [])"

fun find_dot :: "cstr \<Rightarrow> cstr option \<Rightarrow> cstr option" where
  "find_dot [] dot = dot"
| "find_dot (c # s) dot =
    (if c = CHR ''/'' \<or> c = BS then find_dot s None
     else if c = CHR ''.'' then find_dot s (Some (c # s))
     else find_dot s dot)"

definition wj_is_batch_target :: "cstr \<Rightarrow> bool" where
  "wj_is_batch_target exe =
    (case find_dot exe None of
       None \<Rightarrow> False
     | Some dot \<Rightarrow> ci_eq dot ''.bat'' \<or> ci_eq dot ''.cmd'')"

section \<open>Batch command lines\<close>

definition neutral :: cstr where "neutral = ''%%cd:~,''"

fun append_neutralized :: "'m allocator \<Rightarrow> cstr \<Rightarrow> 'm sb_st \<Rightarrow> 'm sb_st" where
  "append_neutralized alloc [] st = st"
| "append_neutralized alloc (c # s) st =
    append_neutralized alloc s
      (putc alloc c (if c = CHR ''%'' then puts alloc neutral st else st))"

definition BATCH_UNQUOTED :: cstr where
  "BATCH_UNQUOTED = ''#$*+-./:?@'' @ [BS] @ ''_''"

definition is_ascii_alnum :: "char \<Rightarrow> bool" where
  "is_ascii_alnum c \<longleftrightarrow>
     is_digit c \<or> in_range CHR ''a'' CHR ''z'' c \<or> in_range CHR ''A'' CHR ''Z'' c"

text \<open>The test inside the scan that decides whether an argument needs quotes.\<close>

definition batch_needs_quote :: "char \<Rightarrow> bool" where
  "batch_needs_quote c \<longleftrightarrow>
     (let asciiNeedsQuote = byte_of c < (0x80::nat) \<and>
            \<not> (is_ascii_alnum c \<or> (c \<noteq> NUL \<and> strchr BATCH_UNQUOTED c));
          isControl = byte_of c < (0x20::nat) \<or> byte_of c = (0x7f::nat)
      in asciiNeedsQuote \<or> isControl)"

fun batch_loop :: "'m allocator \<Rightarrow> cstr \<Rightarrow> nat \<Rightarrow> 'm sb_st \<Rightarrow> nat \<times> 'm sb_st" where
  "batch_loop alloc [] backslashes st = (backslashes, st)"
| "batch_loop alloc (c # s) backslashes st =
    (if c = BS then batch_loop alloc s (backslashes + 1) (putc alloc c st)
     else batch_loop alloc s 0 (putc alloc c
       (if c = DQ then putc alloc DQ (put_slashes alloc backslashes st)
        else if c = CHR ''%'' \<or> c = CR then puts alloc neutral st
        else st)))"

definition append_batch_arg :: "'m allocator \<Rightarrow> cstr \<Rightarrow> 'm sb_st \<Rightarrow> 'm sb_st" where
  "append_batch_arg alloc arg st =
    (let quote = (if length arg = 0 \<or> last arg = BS then True else list_ex batch_needs_quote arg);
         st = (if quote then putc alloc DQ st else st);
         (backslashes, st) = batch_loop alloc arg 0 st
     in if quote then putc alloc DQ (put_slashes alloc backslashes st) else st)"

definition has_cr_or_lf :: "cstr \<Rightarrow> bool" where
  "has_cr_or_lf s \<longleftrightarrow> strchr s CR \<or> strchr s LF"

text \<open>The errors of \<^verbatim>\<open>wj_make_batch_cmdline\<close> are the texts it stores in \<^verbatim>\<open>*err\<close>.\<close>

fun batch_args_loop :: "'m allocator \<Rightarrow> cstr list \<Rightarrow> 'm sb_st \<Rightarrow> (string + 'm sb_st) \<times> 'm" where
  "batch_args_loop alloc [] st = (Inr st, snd st)"
| "batch_args_loop alloc (a # as) st =
    (if has_cr_or_lf a then (Inl ''batch argument may not contain a carriage return or newline'', snd st)
     else let st = append_batch_arg alloc a (putc alloc SPC st)
       in if sb_failed (fst st) then (Inl ''out of memory'', snd st)
          else batch_args_loop alloc as st)"

definition wj_make_batch_cmdline ::
  "'m allocator \<Rightarrow> cstr option \<Rightarrow> int \<Rightarrow> cstr list option \<Rightarrow> 'm \<Rightarrow> (string + cstr) \<times> 'm" where
  "wj_make_batch_cmdline alloc script argc args m =
    (case script of
       None \<Rightarrow> (Inl ''invalid batch command-line input'', m)
     | Some s \<Rightarrow>
       if argc < 0 \<or> (argc > 0 \<and> args = None) then (Inl ''invalid batch command-line input'', m)
       else if strchr s DQ \<or> (length s > 0 \<and> last s = BS) then
         (Inl ''batch script path may not contain a quote or end with a backslash'', m)
       else if has_cr_or_lf s then
         (Inl ''batch script path may not contain a carriage return or newline'', m)
       else case sb_init alloc m of
         (False, (b, m')) \<Rightarrow> (Inl ''out of memory'', m')
       | (True, st) \<Rightarrow>
         let st = puts alloc (''cmd.exe /e:ON /v:OFF /d /c '' @ [DQ]) st;
             st = putc alloc DQ st;
             st = append_neutralized alloc s st;
             st = putc alloc DQ st
         in case batch_args_loop alloc (take (nat argc) (case args of None \<Rightarrow> [] | Some as \<Rightarrow> as)) st of
              (Inl e, m') \<Rightarrow> (Inl e, m')
            | (Inr st, _) \<Rightarrow>
                let (b, m') = putc alloc DQ st
                in if sb_failed b then (Inl ''out of memory'', m') else (Inr (sb_p b), m'))"

section \<open>The contract of an append-only buffer\<close>

text \<open>
  What the escaping code relies on: a failed buffer stays failed, an append that did not
  fail added exactly its text, and a \<open>reliable\<close> buffer (one whose allocator always
  delivers) fails only for lack of address space. \<open>writes st st' out\<close> says that \<open>st'\<close>
  is \<open>st\<close> after appending \<open>out\<close>; it composes, so a routine that emits characters one at a
  time is proved by following its control flow.
\<close>

locale append_buffer =
  fixes put :: "string \<Rightarrow> 's \<Rightarrow> 's"
    and content :: "'s \<Rightarrow> string"
    and bad :: "'s \<Rightarrow> bool"
    and inv :: "'s \<Rightarrow> bool"
    and reliable :: bool
    and limit :: nat
  assumes inv_put: "inv b \<Longrightarrow> length s < limit \<Longrightarrow> inv (put s b)"
    and bad_put: "bad b \<Longrightarrow> bad (put s b)"
    and content_put: "inv b \<Longrightarrow> length s < limit \<Longrightarrow> \<not> bad (put s b) \<Longrightarrow> content (put s b) = content b @ s"
    and room: "reliable \<Longrightarrow> inv b \<Longrightarrow> \<not> bad b \<Longrightarrow> length (content b) + length s < limit \<Longrightarrow> \<not> bad (put s b)"
begin

definition writes :: "'s \<Rightarrow> 's \<Rightarrow> string \<Rightarrow> bool" where
  "writes st st' out \<longleftrightarrow> (inv st \<longrightarrow>
     inv st' \<and> (bad st \<longrightarrow> bad st') \<and> (\<not> bad st' \<longrightarrow> content st' = content st @ out) \<and>
     (reliable \<longrightarrow> \<not> bad st \<longrightarrow> length (content st) + length out < limit \<longrightarrow> \<not> bad st'))"

lemma writes_refl: "writes st st []"
  by (simp add: writes_def)

lemma writes_trans:
  assumes "writes st st' a" "writes st' st'' b"
  shows "writes st st'' (a @ b)"
  using assms unfolding writes_def by force

lemma writes_put: "length s < limit \<Longrightarrow> writes st (put s st) s"
  by (auto simp: writes_def inv_put bad_put content_put room)

lemma writes_then_put:
  "writes st st' a \<Longrightarrow> length s < limit \<Longrightarrow> writes st (put s st') (a @ s)"
  using writes_trans writes_put by blast

lemma writes_bad: "writes st st' out \<Longrightarrow> inv st \<Longrightarrow> bad st \<Longrightarrow> bad st'"
  by (simp add: writes_def)

lemma writes_inv: "writes st st' out \<Longrightarrow> inv st \<Longrightarrow> inv st'"
  by (simp add: writes_def)

lemma writes_content:
  "writes st st' out \<Longrightarrow> inv st \<Longrightarrow> \<not> bad st' \<Longrightarrow> content st' = content st @ out"
  by (simp add: writes_def)

lemma writes_ok:
  "writes st st' out \<Longrightarrow> inv st \<Longrightarrow> reliable \<Longrightarrow> \<not> bad st \<Longrightarrow> length (content st) + length out < limit
   \<Longrightarrow> \<not> bad st' \<and> content st' = content st @ out"
  unfolding writes_def by blast

end

section \<open>The byte buffer meets the contract\<close>

definition sb_max :: nat where "sb_max = 18446744073709551615"

definition sb_inv :: "'m sb_st \<Rightarrow> bool" where
  "sb_inv st \<longleftrightarrow> unat (sb_len (fst st)) = length (sb_p (fst st)) \<and>
     (\<not> sb_failed (fst st) \<longrightarrow> sb_len (fst st) < sb_cap (fst st))"

definition alloc_ok :: "'m allocator \<Rightarrow> bool" where
  "alloc_ok alloc \<longleftrightarrow> (\<forall>m n. fst (alloc m n))"

lemma alloc_ok_always: "alloc_ok (\<lambda>(m::'m) n. (True, m))"
  by (simp add: alloc_ok_def)

text \<open>The doubling loop ends: each step at least reaches \<open>need\<close> or moves the capacity up.\<close>

lemma sb_grow_step_larger:
  assumes "0 < cap" "cap < need"
  shows "cap < sb_grow_step need cap"
proof (cases "cap > SIZE_MAX div 2")
  case True
  then show ?thesis using assms by (simp add: sb_grow_step_def)
next
  case False
  then have le: "unat cap \<le> 9223372036854775807" by (simp add: not_less word_le_nat_alt)
  then have "unat (cap * 2) = unat cap * 2" by (simp add: unat_word_ariths)
  moreover have "0 < unat cap" using assms(1) by (simp add: word_greater_zero_iff unat_gt_0)
  ultimately show ?thesis using False by (simp add: sb_grow_step_def word_less_nat_alt)
qed

lemma sb_grow_reaches:
  assumes "0 < cap"
  shows "\<exists>c. while_option (\<lambda>cap. cap < need) (sb_grow_step need) cap = Some c \<and> need \<le> c \<and> 0 < c"
proof -
  have "\<exists>c. while_option (\<lambda>cap. cap < need) (sb_grow_step need) cap = Some c"
  proof (rule measure_while_option_Some [where P = "\<lambda>c. 0 < c" and f = "\<lambda>c. 18446744073709551616 - unat c"])
    show "0 < cap" by (rule assms)
    fix s assume "0 < s" "s < need"
    then have "s < sb_grow_step need s" by (rule sb_grow_step_larger)
    moreover have "unat (sb_grow_step need s) < 18446744073709551616"
      using unat_lt64 [of "sb_grow_step need s"] by simp
    ultimately show "0 < sb_grow_step need s \<and>
        18446744073709551616 - unat (sb_grow_step need s) < 18446744073709551616 - unat s"
      by (auto simp: word_less_nat_alt)
  qed
  then obtain c where c: "while_option (\<lambda>cap. cap < need) (sb_grow_step need) cap = Some c" by blast
  from while_option_stop [OF c] have "need \<le> c" by simp
  moreover have "0 < c"
  proof (rule while_option_rule [OF _ c, of "\<lambda>c. 0 < c"])
    show "0 < cap" by (rule assms)
    fix s assume "0 < s" "s < need"
    then show "0 < sb_grow_step need s" using sb_grow_step_larger [of s need] by auto
  qed
  ultimately show ?thesis using c by blast
qed

lemma sb_grow_ge: "0 < cap \<Longrightarrow> need \<le> sb_grow need cap"
  using sb_grow_reaches [of cap need] by (auto simp: sb_grow_def while_def)

lemma sb_inv_len: "sb_inv st \<Longrightarrow> length (sb_p (fst st)) < 18446744073709551616"
  using unat_lt64 [of "sb_len (fst st)"] by (simp add: sb_inv_def)

text \<open>What \<^verbatim>\<open>sb_ensure\<close> promises on success: nothing but the capacity changed, and the text fits.\<close>

lemma sb_ensure_ok:
  assumes "sb_ensure alloc extra st = (True, st')" "sb_inv st"
  shows "\<not> sb_failed (fst st) \<and> \<not> sb_failed (fst st') \<and> sb_p (fst st') = sb_p (fst st) \<and>
    sb_len (fst st') = sb_len (fst st) \<and> unat (sb_len (fst st)) + unat extra + 1 < 18446744073709551616 \<and>
    sb_len (fst st) + extra < sb_cap (fst st')"
proof -
  obtain b m where st: "st = (b, m)" by (cases st)
  have nf: "\<not> sb_failed b" and le: "extra \<le> SIZE_MAX - sb_len b - 1"
    using assms(1) by (auto simp: sb_ensure_def st Let_def not_less split: if_splits)
  have cap: "sb_len b < sb_cap b" using assms(2) nf by (simp add: sb_inv_def st)
  then have lt: "unat (sb_len b) < 18446744073709551615"
    using unat_lt64 [of "sb_cap b"] by (simp add: word_less_nat_alt)
  have "unat (SIZE_MAX - sb_len b) = 18446744073709551615 - unat (sb_len b)"
    by (subst unat_sub_le) (use lt in \<open>simp_all add: word_le_nat_alt\<close>)
  moreover from this have "unat (SIZE_MAX - sb_len b - 1) = 18446744073709551615 - unat (sb_len b) - 1"
    by (subst unat_sub_le) (use lt in \<open>simp_all add: word_le_nat_alt\<close>)
  ultimately have sum: "unat (sb_len b) + unat extra + 1 < 18446744073709551616"
    using le lt by (simp add: word_le_nat_alt)
  then have s1: "unat (sb_len b + extra) = unat (sb_len b) + unat extra"
    by (intro unat_add_no_wrap) simp
  then have s2: "unat (sb_len b + extra + 1) = unat (sb_len b) + unat extra + 1"
    using sum by (subst unat_add_no_wrap) simp_all
  have pos: "0 < sb_cap b" using cap by (auto simp: word_less_nat_alt)
  have grow: "sb_len b + extra < sb_grow (sb_len b + extra + 1) (sb_cap b)"
    using sb_grow_ge [OF pos, of "sb_len b + extra + 1"] s1 s2
    by (simp add: word_less_nat_alt word_le_nat_alt)
  have fits: "sb_len b + extra < sb_cap b" if "\<not> sb_len b + extra + 1 > sb_cap b"
    using that s1 s2 by (simp add: word_less_nat_alt not_less)
  show ?thesis
    using assms(1) nf le sum grow fits
    by (auto simp: sb_ensure_def st Let_def not_less split: if_splits prod.splits bool.splits)
qed

lemma sb_ensure_fail:
  "sb_ensure alloc extra st = (False, st') \<Longrightarrow>
   sb_failed (fst st') \<and> sb_p (fst st') = sb_p (fst st) \<and> sb_len (fst st') = sb_len (fst st)"
  by (auto simp: sb_ensure_def Let_def split: if_splits prod.splits bool.splits)

lemma sb_ensure_reliable:
  assumes "alloc_ok alloc" "sb_inv st" "\<not> sb_failed (fst st)"
    and "length (sb_p (fst st)) + unat extra < sb_max"
  shows "fst (sb_ensure alloc extra st)"
proof -
  obtain b m where st: "st = (b, m)" by (cases st)
  have len: "unat (sb_len b) = length (sb_p b)" using assms(2) by (simp add: sb_inv_def st)
  have "unat (SIZE_MAX - sb_len b) = 18446744073709551615 - unat (sb_len b)"
    by (subst unat_sub_le) (use assms(4) len in \<open>simp_all add: word_le_nat_alt sb_max_def st\<close>)
  moreover from this have "unat (SIZE_MAX - sb_len b - 1) = 18446744073709551615 - unat (sb_len b) - 1"
    by (subst unat_sub_le) (use assms(4) len in \<open>simp_all add: word_le_nat_alt sb_max_def st\<close>)
  ultimately have "\<not> extra > SIZE_MAX - sb_len b - 1"
    using assms(4) len by (simp add: word_less_nat_alt sb_max_def st)
  then show ?thesis
    using assms(1,3) by (auto simp: sb_ensure_def st Let_def alloc_ok_def split: prod.splits bool.splits)
      (metis fst_conv)
qed

lemma sb_putc_puts: "sb_putc alloc c st = sb_puts alloc [c] st"
  by (simp add: sb_putc_def sb_puts_def strlen_def)

lemma sb_puts_cases:
  assumes "sb_inv st" "length s < sb_max"
  shows "(fst (sb_puts alloc s st) \<and> \<not> sb_failed (fst st) \<and> \<not> sb_failed (fst (puts alloc s st)) \<and>
           sb_p (fst (puts alloc s st)) = sb_p (fst st) @ s \<and> sb_inv (puts alloc s st)) \<or>
         (\<not> fst (sb_puts alloc s st) \<and> sb_failed (fst (puts alloc s st)) \<and> sb_inv (puts alloc s st))"
proof -
  obtain ok st' where Pair: "sb_ensure alloc (strlen s) st = (ok, st')"
    by (cases "sb_ensure alloc (strlen s) st") auto
  have n: "unat (strlen s) = length s"
    using assms(2) by (simp add: strlen_def sb_max_def unat_of_nat)
  show ?thesis
  proof (cases ok)
    case True
    with Pair have e: "sb_ensure alloc (strlen s) st = (True, st')" by simp
    note ok = sb_ensure_ok [OF e assms(1)]
    obtain b m where st': "st' = (b, m)" by (cases st')
    have "unat (sb_len b + strlen s) = unat (sb_len b) + length s"
      using ok n st' by (subst unat_add_no_wrap) auto
    then show ?thesis
      using ok e st' assms(1) n
      by (auto simp: sb_puts_def sb_write_def sb_inv_def)
  next
    case False
    with Pair have e: "sb_ensure alloc (strlen s) st = (False, st')" by simp
    from sb_ensure_fail [OF e] show ?thesis
      using e assms(1) by (auto simp: sb_puts_def sb_inv_def)
  qed
qed

lemma sb_puts_sticky: "sb_failed (fst st) \<Longrightarrow> sb_failed (fst (puts alloc s st))"
  by (auto simp: sb_puts_def sb_ensure_def Let_def split: prod.splits bool.splits)

lemma sb_puts_room:
  assumes "alloc_ok alloc" "sb_inv st" "\<not> sb_failed (fst st)" "length (sb_p (fst st)) + length s < sb_max"
  shows "\<not> sb_failed (fst (puts alloc s st))"
proof -
  have n: "unat (strlen s) = length s"
    using assms(4) by (simp add: strlen_def sb_max_def unat_of_nat)
  have "fst (sb_ensure alloc (strlen s) st)"
    by (rule sb_ensure_reliable) (use assms n in auto)
  then show ?thesis
    using sb_puts_cases [of st s alloc] assms
    by (auto simp: sb_puts_def split: prod.splits bool.splits)
qed

interpretation sb: append_buffer "puts alloc" "\<lambda>st. sb_p (fst st)" "\<lambda>st. sb_failed (fst st)"
    sb_inv "alloc_ok alloc" sb_max for alloc :: "'m allocator"
proof unfold_locales
  show "\<And>b s. sb_inv b \<Longrightarrow> length s < sb_max \<Longrightarrow> sb_inv (puts alloc s b)"
    using sb_puts_cases by blast
  show "\<And>b s. sb_failed (fst b) \<Longrightarrow> sb_failed (fst (puts alloc s b))"
    by (rule sb_puts_sticky)
  show "\<And>b s. sb_inv b \<Longrightarrow> length s < sb_max \<Longrightarrow> \<not> sb_failed (fst (puts alloc s b)) \<Longrightarrow>
      sb_p (fst (puts alloc s b)) = sb_p (fst b) @ s"
    using sb_puts_cases by blast
  show "\<And>b s. alloc_ok alloc \<Longrightarrow> sb_inv b \<Longrightarrow> \<not> sb_failed (fst b) \<Longrightarrow>
      length (sb_p (fst b)) + length s < sb_max \<Longrightarrow> \<not> sb_failed (fst (puts alloc s b))"
    by (rule sb_puts_room)
qed

abbreviation sb_writes :: "'m allocator \<Rightarrow> 'm sb_st \<Rightarrow> 'm sb_st \<Rightarrow> string \<Rightarrow> bool" where
  "sb_writes alloc \<equiv> append_buffer.writes (\<lambda>st. sb_p (fst st)) (\<lambda>st. sb_failed (fst st)) sb_inv (alloc_ok alloc) sb_max"

lemma sb_writes_putc: "sb_writes alloc st st' a \<Longrightarrow> sb_writes alloc st (putc alloc c st') (a @ [c])"
  unfolding sb_putc_puts by (erule sb.writes_then_put) (simp add: sb_max_def)

lemma sb_writes_puts: "sb_writes alloc st st' a \<Longrightarrow> length s < sb_max \<Longrightarrow> sb_writes alloc st (puts alloc s st') (a @ s)"
  by (rule sb.writes_then_put)

lemma sb_init_cases:
  "sb_init alloc m = (ok, st) \<Longrightarrow>
   sb_inv st \<and> sb_p (fst st) = [] \<and> sb_failed (fst st) = (\<not> ok) \<and> (alloc_ok alloc \<longrightarrow> ok)"
  by (auto simp: sb_init_def sb_inv_def alloc_ok_def word_less_nat_alt split: prod.splits bool.splits)
    (metis fst_conv)+

section \<open>What the escaping routines write\<close>

text \<open>The text of an escaped argument, as a function of the argument alone.\<close>

fun escape_body :: "nat \<Rightarrow> cstr \<Rightarrow> cstr" where
  "escape_body n [] = []"
| "escape_body n (c # s) =
    (if c = BS then BS # escape_body (n + 1) s
     else if c = DQ then replicate n BS @ [BS, DQ] @ escape_body 0 s
     else c # escape_body 0 s)"

fun trailing_slashes :: "nat \<Rightarrow> cstr \<Rightarrow> nat" where
  "trailing_slashes n [] = n"
| "trailing_slashes n (c # s) = (if c = BS then trailing_slashes (n + 1) s else trailing_slashes 0 s)"

definition escape_quoted :: "cstr \<Rightarrow> bool" where
  "escape_quoted s \<longleftrightarrow> SPC \<in> set s \<or> TAB \<in> set s"

definition escape_spec :: "cstr \<Rightarrow> cstr" where
  "escape_spec s =
    (if s = [] then [DQ, DQ]
     else if escape_quoted s then [DQ] @ escape_body 0 s @ replicate (trailing_slashes 0 s) BS @ [DQ]
     else escape_body 0 s)"

lemma escape_body_plain: "DQ \<notin> set s \<Longrightarrow> escape_body n s = s"
  by (induction n s rule: escape_body.induct) auto

lemma escape_scan_space: "fst (escape_scan s h g) = (h \<or> escape_quoted s)"
  by (induction s h g rule: escape_scan.induct) (auto simp: escape_quoted_def)

lemma escape_scan_growth:
  "snd (escape_scan s h g) = g + of_nat (length (List.filter (\<lambda>c. c = DQ \<or> c = BS) s))"
  by (induction s h g rule: escape_scan.induct) auto

lemma escape_scan_zero:
  assumes "length s < sb_max" "snd (escape_scan s h 0) = 0"
  shows "DQ \<notin> set s"
proof -
  let ?k = "length (List.filter (\<lambda>c. c = DQ \<or> c = BS) s)"
  have "?k < 18446744073709551616"
    using assms(1) length_filter_le [of "\<lambda>c. c = DQ \<or> c = BS" s] unfolding sb_max_def by linarith
  then have "unat (of_nat ?k :: size_t) = ?k" by (simp add: unat_of_nat)
  then have "?k = 0" using assms(2) by (simp add: escape_scan_growth)
  then show ?thesis by (auto simp: filter_empty_conv)
qed

lemma put_slashes_writes:
  "sb_writes alloc st0 st a \<Longrightarrow> sb_writes alloc st0 (put_slashes alloc n st) (a @ replicate n BS)"
proof (induction n arbitrary: st a)
  case (Suc n)
  from Suc.IH [OF sb_writes_putc [OF Suc.prems]] show ?case by simp
qed simp

lemma escape_loop_slashes: "fst (escape_loop alloc s n st) = trailing_slashes n s"
  by (induction s arbitrary: n st) auto

lemma escape_loop_writes:
  "sb_writes alloc st0 st a \<Longrightarrow> sb_writes alloc st0 (snd (escape_loop alloc s n st)) (a @ escape_body n s)"
proof (induction s arbitrary: n st a)
  case (Cons c s)
  show ?case
    using Cons.IH [OF sb_writes_putc [OF Cons.prems], of "n + 1" BS]
      Cons.IH [OF sb_writes_putc [OF Cons.prems], of 0 c]
      Cons.IH [OF sb_writes_putc [OF sb_writes_putc [OF put_slashes_writes [OF Cons.prems]]], of 0 DQ BS n]
    by auto
qed simp

lemma sb_final_text:
  assumes "sb_init alloc m = (True, st0)" "sb_writes alloc st0 st out"
  shows "(\<not> sb_failed (fst st) \<longrightarrow> sb_p (fst st) = out \<and> length out < sb_max) \<and>
    (alloc_ok alloc \<longrightarrow> length out < sb_max \<longrightarrow> \<not> sb_failed (fst st))"
proof (intro conjI impI)
  note i = sb_init_cases [OF assms(1)]
  have inv: "sb_inv st" by (rule sb.writes_inv [OF assms(2)]) (use i in simp)
  { assume nf: "\<not> sb_failed (fst st)"
    then show "sb_p (fst st) = out" using sb.writes_content [OF assms(2)] i by simp
    have "unat (sb_cap (fst st)) \<le> 18446744073709551615" by (rule unat_le64)
    then show "length out < sb_max"
      using inv nf \<open>sb_p (fst st) = out\<close> by (simp add: sb_inv_def word_less_nat_alt sb_max_def) }
  assume "alloc_ok alloc" "length out < sb_max"
  then show "\<not> sb_failed (fst st)" using sb.writes_ok [OF assms(2)] i by simp
qed

text \<open>The states the emitting part of \<^verbatim>\<open>wj_escape_arg\<close> goes through.\<close>

lemma escape_emit_writes:
  assumes "s \<noteq> []"
  shows "sb_writes alloc st0 
    (let st = (if escape_quoted s then putc alloc DQ st0 else st0);
         (slashes, st) = escape_loop alloc s 0 st
     in if escape_quoted s then putc alloc DQ (put_slashes alloc slashes st) else st) (escape_spec s)"
proof (cases "escape_quoted s")
  case True
  have "sb_writes alloc st0 (snd (escape_loop alloc s 0 (putc alloc DQ st0))) ([DQ] @ escape_body 0 s)"
    using escape_loop_writes [OF sb_writes_putc [OF sb.writes_refl], of alloc st0 s 0 DQ] by simp
  from sb_writes_putc [OF put_slashes_writes [OF this], of DQ] show ?thesis
    using True assms
    by (auto simp: escape_spec_def Let_def case_prod_unfold escape_loop_slashes)
next
  case False
  show ?thesis
    using escape_loop_writes [OF sb.writes_refl, of alloc st0 s 0] False assms
    by (simp add: escape_spec_def Let_def case_prod_unfold)
qed

lemma wj_escape_arg_spec:
  assumes "length s < sb_max"
  shows "case fst (wj_escape_arg alloc (Some s) m) of
      None \<Rightarrow> \<not> (alloc_ok alloc \<and> length (escape_spec s) < sb_max)
    | Some t \<Rightarrow> t = escape_spec s \<and> length t < sb_max"
proof -
  obtain h g where sc: "escape_scan s False 0 = (h, g)" by (cases "escape_scan s False 0") auto
  have h: "h = escape_quoted s" using escape_scan_space [of s False 0] sc by simp
  consider "s = []" | "s \<noteq> []" "g = 0" "\<not> h" | "s \<noteq> []" "g \<noteq> 0 \<or> h" by blast
  then show ?thesis
  proof cases
    case 1
    then show ?thesis
      by (auto simp: wj_escape_arg_def xstrdup_def escape_spec_def alloc_ok_def sb_max_def split: prod.splits)
        (metis fst_conv)
  next
    case 2
    then have "DQ \<notin> set s" using escape_scan_zero [OF assms, of False] sc by simp
    then have "escape_spec s = s" using 2 h by (simp add: escape_spec_def escape_body_plain)
    then show ?thesis
      using 2 sc assms
      by (auto simp: wj_escape_arg_def xstrdup_def alloc_ok_def split: prod.splits)
        (metis fst_conv)
  next
    case 3
    obtain ok st0 where i: "sb_init alloc m = (ok, st0)" by (cases "sb_init alloc m") auto
    show ?thesis
    proof (cases ok)
      case False
      then show ?thesis using 3 sc i sb_init_cases [OF i]
        by (auto simp: wj_escape_arg_def split: prod.splits)
    next
      case True
      with i have i: "sb_init alloc m = (True, st0)" by simp
      from sb_final_text [OF i escape_emit_writes [OF 3(1), of alloc st0]]
      show ?thesis using 3 sc i h
        by (auto simp: wj_escape_arg_def Let_def case_prod_unfold)
    qed
  qed
qed

text \<open>The text of a command line.\<close>

fun cmdline_text :: "bool \<Rightarrow> cstr list \<Rightarrow> cstr" where
  "cmdline_text first [] = []"
| "cmdline_text first (a # as) = (if first then [] else [SPC]) @ escape_spec a @ cmdline_text False as"

lemma make_cmdline_loop_writes:
  assumes "sb_writes alloc st0 st a" "make_cmdline_loop alloc first args st = (True, st')"
    and "\<forall>x\<in>set args. \<forall>s. x = Some s \<longrightarrow> length s < sb_max"
  shows "\<exists>as. args = map Some as \<and> sb_writes alloc st0 st' (a @ cmdline_text first as)"
  using assms
proof (induction args arbitrary: first st a)
  case (Cons x args)
  define st1 where "st1 = (if first then st else putc alloc SPC st)"
  have w1: "sb_writes alloc st0 st1 (a @ (if first then [] else [SPC]))"
    using Cons.prems(1) sb_writes_putc [OF Cons.prems(1), of SPC] by (simp add: st1_def)
  obtain b m where bm: "st1 = (b, m)" by (cases st1)
  obtain e m2 where e: "wj_escape_arg alloc x m = (e, m2)" by (cases "wj_escape_arg alloc x m")
  obtain t where t: "e = Some t"
    using Cons.prems(2) bm e by (cases e) (auto simp: st1_def [symmetric])
  obtain s where s: "x = Some s" using e t by (cases x) (auto simp: wj_escape_arg_def)
  have ts: "t = escape_spec s" "length t < sb_max"
    using wj_escape_arg_spec [of s alloc m] Cons.prems(3) s e t by auto
  obtain st2 where p: "sb_puts alloc t (b, m2) = (True, st2)"
      and rest: "make_cmdline_loop alloc False args st2 = (True, st')"
    using Cons.prems(2) bm e t by (auto simp: st1_def [symmetric] split: prod.splits bool.splits)
  have "sb_writes alloc st0 (b, m2) (a @ (if first then [] else [SPC]))"
    using w1 by (simp add: bm append_buffer.writes_def [OF sb.append_buffer_axioms] sb_inv_def)
  from sb_writes_puts [OF this ts(2)] p ts(1)
  have "sb_writes alloc st0 st2 ((a @ (if first then [] else [SPC])) @ escape_spec s)" by simp
  from Cons.IH [OF this rest] Cons.prems(3) obtain as where
    "args = map Some as" "sb_writes alloc st0 st' (((a @ (if first then [] else [SPC])) @ escape_spec s) @ cmdline_text False as)"
    by auto
  then show ?case using s by (intro exI [of _ "s # as"]) simp
qed simp

lemma make_cmdline_loop_total:
  assumes "alloc_ok alloc" "sb_inv st" "\<not> sb_failed (fst st)"
    and "length (sb_p (fst st)) + length (cmdline_text first as) < sb_max" 
    and "\<forall>s\<in>set as. length s < sb_max"
  shows "fst (make_cmdline_loop alloc first (map Some as) st)"
  using assms(2-)
proof (induction as arbitrary: first st)
  case (Cons s as)
  define st1 where "st1 = (if first then st else putc alloc SPC st)"
  have "sb_writes alloc st st1 (if first then [] else [SPC])"
    using sb_writes_putc [OF sb.writes_refl, of alloc st SPC] sb.writes_refl [of alloc st] by (simp add: st1_def)
  from sb.writes_ok [OF this] sb.writes_inv [OF this]
  have s1: "sb_inv st1" "\<not> sb_failed (fst st1)" "sb_p (fst st1) = sb_p (fst st) @ (if first then [] else [SPC])"
    using assms(1) Cons.prems by auto
  obtain b m where bm: "st1 = (b, m)" by (cases st1)
  have "fst (wj_escape_arg alloc (Some s) m) = Some (escape_spec s)"
    using wj_escape_arg_spec [of s alloc m] Cons.prems assms(1)
    by (auto split: option.splits)
  then obtain m2 where e: "wj_escape_arg alloc (Some s) m = (Some (escape_spec s), m2)"
    by (cases "wj_escape_arg alloc (Some s) m") auto
  have len: "length (escape_spec s) < sb_max" using Cons.prems by simp
  have inv: "sb_inv (b, m2)" using s1 bm by (simp add: sb_inv_def)
  have nf: "\<not> sb_failed (fst (puts alloc (escape_spec s) (b, m2)))"
    by (rule sb_puts_room [OF assms(1) inv]) (use s1 bm Cons.prems in auto)
  then obtain st2 where p: "sb_puts alloc (escape_spec s) (b, m2) = (True, st2)"
      and s2: "\<not> sb_failed (fst st2)" "sb_inv st2" "sb_p (fst st2) = sb_p b @ escape_spec s"
    using sb_puts_cases [OF inv len, of alloc] by (cases "sb_puts alloc (escape_spec s) (b, m2)") auto
  have "fst (make_cmdline_loop alloc False (map Some as) st2)"
    by (rule Cons.IH) (use s1 s2 bm Cons.prems in auto)
  then show ?case using bm e p by (simp add: st1_def [symmetric])
qed simp

section \<open>What the batch routines write\<close>

fun neutralized :: "cstr \<Rightarrow> cstr" where
  "neutralized [] = []"
| "neutralized (c # s) = (if c = CHR ''%'' then neutral @ [c] else [c]) @ neutralized s"

fun batch_body :: "nat \<Rightarrow> cstr \<Rightarrow> cstr" where
  "batch_body n [] = []"
| "batch_body n (c # s) =
    (if c = BS then BS # batch_body (n + 1) s
     else if c = DQ then replicate n BS @ [DQ, DQ] @ batch_body 0 s
     else if c = CHR ''%'' \<or> c = CR then neutral @ [c] @ batch_body 0 s
     else c # batch_body 0 s)"

definition batch_quoted :: "cstr \<Rightarrow> bool" where
  "batch_quoted s \<longleftrightarrow> s = [] \<or> last s = BS \<or> (\<exists>c\<in>set s. batch_needs_quote c)"

definition batch_arg_text :: "cstr \<Rightarrow> cstr" where
  "batch_arg_text s =
    (if batch_quoted s then [DQ] @ batch_body 0 s @ replicate (trailing_slashes 0 s) BS @ [DQ]
     else batch_body 0 s)"

definition batch_prefix :: cstr where
  "batch_prefix = ''cmd.exe /e:ON /v:OFF /d /c '' @ [DQ]"

definition batch_payload :: "cstr \<Rightarrow> cstr list \<Rightarrow> cstr" where
  "batch_payload s as = [DQ] @ neutralized s @ [DQ] @ concat (map (\<lambda>a. SPC # batch_arg_text a) as)"

definition batch_text :: "cstr \<Rightarrow> cstr list \<Rightarrow> cstr" where
  "batch_text s as = batch_prefix @ batch_payload s as @ [DQ]"

definition batch_valid :: "cstr \<Rightarrow> cstr list \<Rightarrow> bool" where
  "batch_valid s as \<longleftrightarrow>
     DQ \<notin> set s \<and> \<not> (s \<noteq> [] \<and> last s = BS) \<and> (\<forall>t\<in>insert s (set as). CR \<notin> set t \<and> LF \<notin> set t)"

lemma neutral_small: "length neutral < sb_max"
  by (simp add: neutral_def sb_max_def)

lemma append_neutralized_writes:
  "sb_writes alloc st0 st a \<Longrightarrow> sb_writes alloc st0 (append_neutralized alloc s st) (a @ neutralized s)"
proof (induction s arbitrary: st a)
  case (Cons c s)
  show ?case
    using Cons.IH [OF sb_writes_putc [OF Cons.prems], of c]
      Cons.IH [OF sb_writes_putc [OF sb_writes_puts [OF Cons.prems neutral_small]], of c]
    by auto
qed simp

lemma batch_loop_slashes: "fst (batch_loop alloc s n st) = trailing_slashes n s"
  by (induction s arbitrary: n st) auto

lemma batch_loop_writes:
  "sb_writes alloc st0 st a \<Longrightarrow> sb_writes alloc st0 (snd (batch_loop alloc s n st)) (a @ batch_body n s)"
proof (induction s arbitrary: n st a)
  case (Cons c s)
  show ?case
    using Cons.IH [OF sb_writes_putc [OF Cons.prems], of "n + 1" BS]
      Cons.IH [OF sb_writes_putc [OF Cons.prems], of 0 c]
      Cons.IH [OF sb_writes_putc [OF sb_writes_putc [OF put_slashes_writes [OF Cons.prems]]], of 0 DQ DQ n]
      Cons.IH [OF sb_writes_putc [OF sb_writes_puts [OF Cons.prems neutral_small]], of 0 c]
    by auto
qed simp

lemma append_batch_arg_writes:
  assumes "sb_writes alloc st0 st a"
  shows "sb_writes alloc st0 (append_batch_arg alloc s st) (a @ batch_arg_text s)"
proof -
  have q: "(if length s = 0 \<or> last s = BS then True else list_ex batch_needs_quote s) = batch_quoted s"
    by (auto simp: batch_quoted_def list_ex_iff)
  show ?thesis
  proof (cases "batch_quoted s")
    case True
    have "sb_writes alloc st0 (snd (batch_loop alloc s 0 (putc alloc DQ st))) ((a @ [DQ]) @ batch_body 0 s)"
      by (rule batch_loop_writes [OF sb_writes_putc [OF assms]])
    from sb_writes_putc [OF put_slashes_writes [OF this], of DQ] show ?thesis
      using True unfolding append_batch_arg_def q
      by (simp add: batch_arg_text_def Let_def case_prod_unfold batch_loop_slashes)
  next
    case False
    then show ?thesis
      using batch_loop_writes [OF assms, of s 0] unfolding append_batch_arg_def q
      by (simp add: batch_arg_text_def Let_def case_prod_unfold)
  qed
qed

lemma batch_args_loop_spec:
  assumes "sb_writes alloc st0 st a" "sb_inv st0"
  shows "case fst (batch_args_loop alloc as st) of
      Inl e \<Rightarrow> (\<exists>s\<in>set as. has_cr_or_lf s) \<or>
        \<not> (alloc_ok alloc \<and> \<not> sb_failed (fst st0) \<and>
           length (sb_p (fst st0)) + length (a @ concat (map (\<lambda>s. SPC # batch_arg_text s) as)) < sb_max)
    | Inr st' \<Rightarrow> (\<forall>s\<in>set as. \<not> has_cr_or_lf s) \<and>
        sb_writes alloc st0 st' (a @ concat (map (\<lambda>s. SPC # batch_arg_text s) as))"
  using assms
proof (induction as arbitrary: st a)
  case (Cons s as)
  define st1 where "st1 = append_batch_arg alloc s (putc alloc SPC st)"
  have w: "sb_writes alloc st0 st1 (a @ SPC # batch_arg_text s)"
    using append_batch_arg_writes [OF sb_writes_putc [OF Cons.prems(1)], of s SPC] by (simp add: st1_def)
  have ok: "alloc_ok alloc \<Longrightarrow> \<not> sb_failed (fst st0) \<Longrightarrow>
      length (sb_p (fst st0)) + length (a @ SPC # batch_arg_text s) < sb_max \<Longrightarrow> \<not> sb_failed (fst st1)"
    using sb.writes_ok [OF w] Cons.prems(2) by blast
  show ?case
  proof (cases "has_cr_or_lf s \<or> sb_failed (fst st1)")
    case True
    then show ?thesis using ok by (auto simp: Let_def st1_def [symmetric])
  next
    case False
    then show ?thesis
      using Cons.IH [OF w Cons.prems(2)]
      by (auto simp: Let_def st1_def [symmetric] split: sum.splits)
  qed
qed simp

lemma take_nat_all: "nat (int (length as)) = length as"
  by simp

lemma wj_make_batch_cmdline_spec:
  "case fst (wj_make_batch_cmdline alloc (Some s) (int (length as)) (Some as) m) of
     Inl e \<Rightarrow> \<not> batch_valid s as \<or> \<not> (alloc_ok alloc \<and> length (batch_text s as) < sb_max)
   | Inr t \<Rightarrow> batch_valid s as \<and> t = batch_text s as"
proof (cases "DQ \<notin> set s \<and> \<not> (s \<noteq> [] \<and> last s = BS) \<and> \<not> has_cr_or_lf s")
  case False
  then show ?thesis
    by (auto simp: wj_make_batch_cmdline_def batch_valid_def has_cr_or_lf_def)
next
  case True
  obtain ok st0 where i: "sb_init alloc m = (ok, st0)" by (cases "sb_init alloc m") auto
  show ?thesis
  proof (cases ok)
    case False
    then show ?thesis
      using True i sb_init_cases [OF i] by (auto simp: wj_make_batch_cmdline_def split: prod.splits)
  next
    case okT: True
    with i have i: "sb_init alloc m = (True, st0)" by simp
    note init = sb_init_cases [OF i]
    define st1 where "st1 = putc alloc DQ (append_neutralized alloc s
      (putc alloc DQ (puts alloc (''cmd.exe /e:ON /v:OFF /d /c '' @ [DQ]) st0)))"
    have "sb_writes alloc st0 (puts alloc (''cmd.exe /e:ON /v:OFF /d /c '' @ [DQ]) st0) ([] @ batch_prefix)"
      unfolding batch_prefix_def by (rule sb_writes_puts [OF sb.writes_refl]) (simp add: sb_max_def)
    from sb_writes_putc [OF append_neutralized_writes [OF sb_writes_putc [OF this]], of DQ]
    have w1: "sb_writes alloc st0 st1 (batch_prefix @ [DQ] @ neutralized s @ [DQ])"
      by (simp add: st1_def)
    note loop = batch_args_loop_spec [OF w1, of as]
    obtain r m2 where r: "batch_args_loop alloc as st1 = (r, m2)" by (cases "batch_args_loop alloc as st1")
    have eq: "fst (wj_make_batch_cmdline alloc (Some s) (int (length as)) (Some as) m) =
        (case r of Inl e \<Rightarrow> Inl e
         | Inr st \<Rightarrow> if sb_failed (fst (putc alloc DQ st)) then Inl ''out of memory''
             else Inr (sb_p (fst (putc alloc DQ st))))"
      using True i okT r
      by (auto simp: wj_make_batch_cmdline_def Let_def st1_def case_prod_unfold split: sum.splits)
    show ?thesis
    proof (cases r)
      case (Inl e)
      then show ?thesis
        using r loop init unfolding eq
        by (auto simp: batch_valid_def has_cr_or_lf_def batch_text_def batch_payload_def)
    next
      case (Inr st2)
      with loop r init have l: "\<forall>s\<in>set as. \<not> has_cr_or_lf s"
        "sb_writes alloc st0 st2 (batch_prefix @ batch_payload s as)"
        by (auto simp: batch_payload_def)
      note fin = sb_final_text [OF i sb_writes_putc [OF l(2), of DQ]]
      show ?thesis
        using True Inr l(1) fin unfolding eq
        by (auto simp: batch_valid_def has_cr_or_lf_def batch_text_def)
    qed
  qed
qed

section \<open>Round trip through the Windows argument rules\<close>

text \<open>
  The documented parsing rules of \<^verbatim>\<open>CommandLineToArgvW\<close>, code of the operating system, as a
  predicate on a scanner: \<open>scan q cur rest\<close> lists the arguments that \<open>rest\<close> yields when
  \<open>cur\<close> is the argument read so far and \<open>q\<close> tells whether a quoted part is open. The
  even-backslash rule is not stated for a closing quote followed by another quote, where
  Windows versions differ.
\<close>

definition arg_space :: "char \<Rightarrow> bool" where
  "arg_space c \<longleftrightarrow> c = SPC \<or> c = TAB"

definition argv_rules :: "(bool \<Rightarrow> cstr \<Rightarrow> cstr \<Rightarrow> cstr list) \<Rightarrow> bool" where
  "argv_rules scan \<longleftrightarrow>
     (\<forall>cur. scan False cur [] = [cur]) \<and>
     (\<forall>cur w c rest. arg_space w \<longrightarrow> \<not> arg_space c \<longrightarrow>
        scan False cur (w # c # rest) = cur # scan False [] (c # rest)) \<and>
     (\<forall>q cur c rest. c \<noteq> DQ \<longrightarrow> c \<noteq> BS \<longrightarrow> (q \<or> \<not> arg_space c) \<longrightarrow>
        scan q cur (c # rest) = scan q (cur @ [c]) rest) \<and>
     (\<forall>q cur n rest. (rest = [] \<or> hd rest \<noteq> DQ \<and> hd rest \<noteq> BS) \<longrightarrow>
        scan q cur (replicate n BS @ rest) = scan q (cur @ replicate n BS) rest) \<and>
     (\<forall>q cur n rest. (q \<longrightarrow> rest = [] \<or> hd rest \<noteq> DQ) \<longrightarrow>
        scan q cur (replicate (2 * n) BS @ DQ # rest) = scan (\<not> q) (cur @ replicate n BS) rest) \<and>
     (\<forall>q cur n rest.
        scan q cur (replicate (2 * n + 1) BS @ DQ # rest) = scan q (cur @ replicate n BS @ [DQ]) rest)"

lemma argv_rules_dest:
  assumes "argv_rules scan"
  shows "scan False cur [] = [cur]"
    and "arg_space w \<Longrightarrow> \<not> arg_space c \<Longrightarrow> scan False cur (w # c # rest) = cur # scan False [] (c # rest)"
    and "c \<noteq> DQ \<Longrightarrow> c \<noteq> BS \<Longrightarrow> q \<or> \<not> arg_space c \<Longrightarrow> scan q cur (c # rest) = scan q (cur @ [c]) rest"
    and "rest = [] \<or> hd rest \<noteq> DQ \<and> hd rest \<noteq> BS \<Longrightarrow>
      scan q cur (replicate n BS @ rest) = scan q (cur @ replicate n BS) rest"
    and "(q \<Longrightarrow> rest = [] \<or> hd rest \<noteq> DQ) \<Longrightarrow>
      scan q cur (replicate (2 * n) BS @ DQ # rest) = scan (\<not> q) (cur @ replicate n BS) rest"
    and "scan q cur (replicate (2 * n + 1) BS @ DQ # rest) = scan q (cur @ replicate n BS @ [DQ]) rest"
proof -
  note r = assms [unfolded argv_rules_def]
  show "scan False cur [] = [cur]"
    by (rule r [THEN conjunct1, rule_format]; auto)
  show "arg_space w \<Longrightarrow> \<not> arg_space c \<Longrightarrow> scan False cur (w # c # rest) = cur # scan False [] (c # rest)"
    by (rule r [THEN conjunct2, THEN conjunct1, rule_format]; auto)
  show "c \<noteq> DQ \<Longrightarrow> c \<noteq> BS \<Longrightarrow> q \<or> \<not> arg_space c \<Longrightarrow> scan q cur (c # rest) = scan q (cur @ [c]) rest"
    by (rule r [THEN conjunct2, THEN conjunct2, THEN conjunct1, rule_format]; auto)
  show "rest = [] \<or> hd rest \<noteq> DQ \<and> hd rest \<noteq> BS \<Longrightarrow>
      scan q cur (replicate n BS @ rest) = scan q (cur @ replicate n BS) rest"
    by (rule r [THEN conjunct2, THEN conjunct2, THEN conjunct2, THEN conjunct1, rule_format]; auto)
  show "(q \<Longrightarrow> rest = [] \<or> hd rest \<noteq> DQ) \<Longrightarrow>
      scan q cur (replicate (2 * n) BS @ DQ # rest) = scan (\<not> q) (cur @ replicate n BS) rest"
    by (rule r [THEN conjunct2, THEN conjunct2, THEN conjunct2, THEN conjunct2, THEN conjunct1, rule_format]; auto)
  show "scan q cur (replicate (2 * n + 1) BS @ DQ # rest) = scan q (cur @ replicate n BS @ [DQ]) rest"
    by (rule r [THEN conjunct2, THEN conjunct2, THEN conjunct2, THEN conjunct2, THEN conjunct2, rule_format]; auto)
qed

lemma replicate_double: "replicate n x @ replicate n x = replicate (2 * n) x"
  by (simp add: replicate_add [symmetric] mult_2)

lemma scan_slashes_quote:
  assumes "argv_rules scan"
  shows "scan q cur (replicate n BS @ replicate n BS @ BS # DQ # t) = scan q (cur @ replicate n BS @ [DQ]) t"
proof -
  have "replicate n BS @ replicate n BS @ BS # DQ # t = (replicate n BS @ replicate n BS @ [BS]) @ DQ # t"
    by simp
  also have "replicate n BS @ replicate n BS @ [BS] = replicate (2 * n + 1) BS"
    by (simp add: append_assoc [symmetric] replicate_double replicate_app_Cons_same del: append_assoc)
  finally show ?thesis by (simp only: argv_rules_dest(6) [OF assms])
qed

lemma scan_quoted:
  assumes "argv_rules scan" "rest = [] \<or> hd rest \<noteq> DQ"
  shows "scan True cur (replicate n BS @ escape_body n s @ replicate (trailing_slashes n s) BS @ DQ # rest) =
    scan False (cur @ replicate n BS @ s) rest"
proof (induction s arbitrary: n cur)
  case Nil
  show ?case using argv_rules_dest(5) [OF assms(1), of True rest cur n] assms(2)
    by (simp add: replicate_double append_assoc [symmetric] del: append_assoc)
next
  case (Cons c s)
  consider "c = BS" | "c = DQ" | "c \<noteq> BS" "c \<noteq> DQ" by blast
  then show ?case
  proof cases
    case 1
    then show ?thesis using Cons.IH [of cur "n + 1"] by (simp add: replicate_app_Cons_same)
  next
    case 2
    show ?thesis
      using 2 Cons.IH [of "cur @ replicate n BS @ [DQ]" 0] scan_slashes_quote [OF assms(1)] by simp
  next
    case 3
    then show ?thesis
      using Cons.IH [of "cur @ replicate n BS @ [c]" 0]
        argv_rules_dest(4) [OF assms(1), of "c # escape_body 0 s @ replicate (trailing_slashes 0 s) BS @ DQ # rest" True cur n]
        argv_rules_dest(3) [OF assms(1), of c True] by simp
  qed
qed

lemma scan_unquoted:
  assumes "argv_rules scan" "rest = [] \<or> hd rest = SPC" "\<forall>c\<in>set s. \<not> arg_space c"
  shows "scan False cur (replicate n BS @ escape_body n s @ rest) = scan False (cur @ replicate n BS @ s) rest"
  using assms(3)
proof (induction s arbitrary: n cur)
  case Nil
  show ?case using argv_rules_dest(4) [OF assms(1), of rest False cur n] assms(2) by auto
next
  case (Cons c s)
  consider "c = BS" | "c = DQ" | "c \<noteq> BS" "c \<noteq> DQ" by blast
  then show ?case
  proof cases
    case 1
    then show ?thesis using Cons.IH [of cur "n + 1"] Cons.prems by (simp add: replicate_app_Cons_same)
  next
    case 2
    show ?thesis
      using 2 Cons.IH [of "cur @ replicate n BS @ [DQ]" 0] Cons.prems scan_slashes_quote [OF assms(1)] by simp
  next
    case 3
    then show ?thesis
      using Cons.IH [of "cur @ replicate n BS @ [c]" 0] Cons.prems
        argv_rules_dest(4) [OF assms(1), of "c # escape_body 0 s @ rest" False cur n]
        argv_rules_dest(3) [OF assms(1), of c False] by simp
  qed
qed

lemma scan_escaped:
  assumes "argv_rules scan" "rest = [] \<or> hd rest = SPC"
  shows "scan False [] (escape_spec s @ rest) = scan False s rest"
proof (cases "s = [] \<or> escape_quoted s")
  case True
  have rest: "rest = [] \<or> hd rest \<noteq> DQ" using assms(2) by auto
  have opn: "scan False [] (DQ # t) = scan True [] t" for t
    using argv_rules_dest(5) [OF assms(1), of False t "[]" 0] by simp
  from True show ?thesis
    using scan_quoted [OF assms(1) rest, of "[]" 0 s] by (auto simp: escape_spec_def opn)
next
  case False
  then show ?thesis
    using scan_unquoted [OF assms, of s "[]" 0]
    by (auto simp: escape_spec_def escape_quoted_def arg_space_def)
qed

lemma escape_body_hd: "s \<noteq> [] \<Longrightarrow> escape_body 0 s \<noteq> [] \<and> (hd (escape_body 0 s) = hd s \<or> hd (escape_body 0 s) = BS)"
  by (cases s) auto

lemma escape_spec_hd: "\<exists>c t. escape_spec s = c # t \<and> \<not> arg_space c"
proof (cases "s = [] \<or> escape_quoted s")
  case True
  then show ?thesis by (auto simp: escape_spec_def arg_space_def)
next
  case False
  then have "\<not> arg_space (hd s)" "s \<noteq> []"
    by (simp_all add: escape_quoted_def arg_space_def) (metis hd_in_set)
  then show ?thesis
    using False escape_body_hd [of s]
    by (cases "escape_body 0 s") (auto simp: escape_spec_def arg_space_def)
qed

lemma cmdline_text_hd: "cmdline_text False as = [] \<or> hd (cmdline_text False as) = SPC"
  by (cases as) auto

lemma scan_cmdline_rest:
  assumes "argv_rules scan"
  shows "scan False cur (cmdline_text False as) = cur # as"
proof (induction as arbitrary: cur)
  case Nil
  show ?case using argv_rules_dest(1) [OF assms] by simp
next
  case (Cons a as)
  obtain c t where e: "escape_spec a = c # t" "\<not> arg_space c" using escape_spec_hd by blast
  have "scan False cur (SPC # c # t @ cmdline_text False as) = cur # scan False [] (escape_spec a @ cmdline_text False as)"
    using argv_rules_dest(2) [OF assms, of SPC c cur] e by (simp add: arg_space_def)
  also have "scan False [] (escape_spec a @ cmdline_text False as) = a # as"
    by (simp only: scan_escaped [OF assms cmdline_text_hd] Cons.IH)
  finally show ?case using e by simp
qed

text \<open>A scanner that follows the documented rules, for concrete command lines.\<close>

fun argv_scan :: "nat \<Rightarrow> bool \<Rightarrow> cstr \<Rightarrow> cstr \<Rightarrow> cstr list"
  and argv_skip :: "cstr \<Rightarrow> cstr list" where
  "argv_scan n q cur [] = [cur @ replicate n BS]"
| "argv_scan n q cur (c # s) =
    (if c = BS then argv_scan (n + 1) q cur s
     else if c = DQ then
       (if even n then argv_scan 0 (\<not> q) (cur @ replicate (n div 2) BS) s
        else argv_scan 0 q (cur @ replicate (n div 2) BS @ [DQ]) s)
     else if \<not> q \<and> arg_space c then (cur @ replicate n BS) # argv_skip s
     else argv_scan 0 q (cur @ replicate n BS @ [c]) s)"
| "argv_skip [] = []"
| "argv_skip (c # s) =
    (if arg_space c then argv_skip s
     else if c = BS then argv_scan 1 False [] s
     else if c = DQ then argv_scan 0 True [] s
     else argv_scan 0 False [c] s)"

lemma argv_scan_slashes: "argv_scan k q cur (replicate n BS @ s) = argv_scan (k + n) q cur s"
  by (induction n arbitrary: k) auto

lemma argv_scan_rules: "argv_rules (argv_scan 0)"
  unfolding argv_rules_def
proof (intro conjI allI impI)
  show "argv_scan 0 q cur (replicate n BS @ rest) = argv_scan 0 q (cur @ replicate n BS) rest"
    if "rest = [] \<or> hd rest \<noteq> DQ \<and> hd rest \<noteq> BS" for q cur n rest
    using that argv_scan_slashes [of 0 q cur n rest] by (cases rest) auto
qed (auto simp: argv_scan_slashes arg_space_def)

section \<open>How \<^verbatim>\<open>cmd.exe\<close> reads the batch line\<close>

text \<open>A double quote toggles quoting; \<open>cmd_outside\<close> keeps the characters that stand outside quotes.\<close>

fun cmd_outside :: "bool \<Rightarrow> cstr \<Rightarrow> cstr" where
  "cmd_outside q [] = []"
| "cmd_outside q (c # s) =
    (if c = DQ then cmd_outside (\<not> q) s else if q then cmd_outside q s else c # cmd_outside q s)"

definition cmd_quote :: "bool \<Rightarrow> cstr \<Rightarrow> bool" where
  "cmd_quote q s \<longleftrightarrow> (q \<noteq> odd (count_list s DQ))"

text \<open>The zero-length substring \<^verbatim>\<open>%cd:~,%\<close> expands to nothing.\<close>

fun cmd_expand :: "cstr \<Rightarrow> cstr" where
  "cmd_expand [] = []"
| "cmd_expand (c # s) =
    (if take 7 (c # s) = ''%cd:~,%'' then cmd_expand (drop 6 s) else c # cmd_expand s)"

definition cmd_safe :: "char \<Rightarrow> bool" where
  "cmd_safe c \<longleftrightarrow> c = SPC \<or> is_ascii_alnum c \<or> c \<in> set BATCH_UNQUOTED \<or> (128::nat) \<le> byte_of c"

lemma cmd_outside_append: "cmd_outside q (a @ b) = cmd_outside q a @ cmd_outside (cmd_quote q a) b"
  by (induction q a rule: cmd_outside.induct) (auto simp: cmd_quote_def)

lemma cmd_quote_append: "cmd_quote q (a @ b) = cmd_quote (cmd_quote q a) b"
  by (auto simp: cmd_quote_def)

lemma cmd_outside_plain: "DQ \<notin> set s \<Longrightarrow> cmd_outside q s = (if q then [] else s)"
  by (induction q s rule: cmd_outside.induct) auto

lemma cmd_quote_plain: "DQ \<notin> set s \<Longrightarrow> cmd_quote q s = q"
  by (simp add: cmd_quote_def count_list_0_iff)

lemma neutralized_no_quote: "DQ \<notin> set s \<Longrightarrow> DQ \<notin> set (neutralized s)"
  by (induction s) (auto simp: neutral_def)

definition cmd_inside :: "cstr \<Rightarrow> bool" where
  "cmd_inside s \<longleftrightarrow> cmd_outside True s = [] \<and> cmd_quote True s"

lemma cmd_inside_Cons: "c \<noteq> DQ \<Longrightarrow> cmd_inside (c # s) \<longleftrightarrow> cmd_inside s"
  by (simp add: cmd_inside_def cmd_quote_def)

lemma cmd_inside_doubled: "cmd_inside (DQ # DQ # s) \<longleftrightarrow> cmd_inside s"
  by (simp add: cmd_inside_def cmd_quote_def)

lemma cmd_inside_append: "DQ \<notin> set a \<Longrightarrow> cmd_inside (a @ s) \<longleftrightarrow> cmd_inside s"
  by (induction a) (auto simp: cmd_inside_Cons)

lemma cmd_inside_replicate: "cmd_inside (replicate n BS @ s) \<longleftrightarrow> cmd_inside s"
  by (rule cmd_inside_append) simp

lemma cmd_inside_neutral: "cmd_inside (neutral @ s) \<longleftrightarrow> cmd_inside s"
  by (rule cmd_inside_append) (simp add: neutral_def)

lemma cmd_inside_body: "cmd_inside (batch_body n s)"
proof (induction n s rule: batch_body.induct)
  case (1 n)
  show ?case by (simp add: cmd_inside_def cmd_quote_def)
next
  case (2 n c s)
  consider "c = BS" | "c = DQ" | "c = CHR ''%'' \<or> c = CR" | "c \<noteq> BS" "c \<noteq> DQ" "\<not> (c = CHR ''%'' \<or> c = CR)"
    by blast
  then show ?case
    using 2 by cases (auto simp: cmd_inside_Cons cmd_inside_replicate cmd_inside_neutral cmd_inside_doubled)
qed

lemma batch_body_inside: "cmd_outside True (batch_body n s) = [] \<and> cmd_quote True (batch_body n s)"
  using cmd_inside_body by (simp add: cmd_inside_def)

lemma batch_needs_quote_special:
  "batch_needs_quote DQ" "batch_needs_quote CHR ''%''" "batch_needs_quote CR"
  by code_simp+

lemma batch_needs_quote_safe: "\<not> batch_needs_quote c \<Longrightarrow> cmd_safe c \<and> c \<noteq> DQ \<and> c \<noteq> CHR ''%'' \<and> c \<noteq> CR"
proof (intro conjI notI)
  assume n: "\<not> batch_needs_quote c"
  then show "cmd_safe c" unfolding batch_needs_quote_def cmd_safe_def Let_def by (meson not_le)
  show False if "c = DQ" using n that batch_needs_quote_special by simp
  show False if "c = CHR ''%''" using n that batch_needs_quote_special by simp
  show False if "c = CR" using n that batch_needs_quote_special by simp
qed

lemma batch_body_safe:
  "\<forall>c\<in>set s. \<not> batch_needs_quote c \<Longrightarrow> batch_body n s = s"
  by (induction n s rule: batch_body.induct) (auto dest: batch_needs_quote_safe)

lemma batch_arg_outside:
  "(\<forall>c\<in>set (cmd_outside False (batch_arg_text s)). cmd_safe c) \<and> \<not> cmd_quote False (batch_arg_text s)"
proof (cases "batch_quoted s")
  case True
  then show ?thesis
    using batch_body_inside [of 0 s]
    by (simp add: batch_arg_text_def cmd_outside_append cmd_quote_append cmd_outside_plain cmd_quote_plain)
      (simp add: cmd_quote_def)
next
  case False
  then have safe: "\<forall>c\<in>set s. \<not> batch_needs_quote c" by (auto simp: batch_quoted_def)
  then have "DQ \<notin> set s" using batch_needs_quote_safe by blast
  then show ?thesis
    using False safe batch_needs_quote_safe
    by (auto simp: batch_arg_text_def batch_body_safe cmd_outside_plain cmd_quote_plain)
qed

lemma batch_payload_outside:
  assumes "DQ \<notin> set s"
  shows "(\<forall>c\<in>set (cmd_outside False (batch_payload s as)). cmd_safe c) \<and> \<not> cmd_quote False (batch_payload s as)"
proof -
  let ?args = "concat (map (\<lambda>a. SPC # batch_arg_text a) as)"
  have args: "(\<forall>c\<in>set (cmd_outside False ?args). cmd_safe c) \<and> \<not> cmd_quote False ?args"
  proof (induction as)
    case (Cons a as)
    then show ?case
      using batch_arg_outside [of a]
      by (simp add: cmd_outside_append cmd_quote_append cmd_safe_def [of SPC]) (auto simp: cmd_quote_def)
  qed (simp add: cmd_quote_def)
  have "cmd_outside False (batch_payload s as) = cmd_outside False ?args"
    using neutralized_no_quote [OF assms]
    by (simp add: batch_payload_def cmd_outside_append cmd_outside_plain cmd_quote_plain)
  moreover have "cmd_quote False (batch_payload s as) = cmd_quote False ?args"
    using neutralized_no_quote [OF assms]
    by (simp add: batch_payload_def cmd_quote_def count_list_0_iff)
  ultimately show ?thesis using args by simp
qed

text \<open>The text \<^verbatim>\<open>cmd.exe\<close> is left with once every zero-length substring has expanded.\<close>

fun batch_body_raw :: "nat \<Rightarrow> cstr \<Rightarrow> cstr" where
  "batch_body_raw n [] = []"
| "batch_body_raw n (c # s) =
    (if c = BS then BS # batch_body_raw (n + 1) s
     else if c = DQ then replicate n BS @ [DQ, DQ] @ batch_body_raw 0 s
     else c # batch_body_raw 0 s)"

definition batch_arg_raw :: "cstr \<Rightarrow> cstr" where
  "batch_arg_raw s =
    (if batch_quoted s then [DQ] @ batch_body_raw 0 s @ replicate (trailing_slashes 0 s) BS @ [DQ]
     else batch_body_raw 0 s)"

lemma batch_body_no_newline:
  "CR \<notin> set s \<Longrightarrow> LF \<notin> set s \<Longrightarrow> CR \<notin> set (batch_body n s) \<and> LF \<notin> set (batch_body n s)"
  by (induction n s rule: batch_body.induct) (auto simp: neutral_def)

lemma neutralized_no_newline:
  "CR \<notin> set s \<Longrightarrow> LF \<notin> set s \<Longrightarrow> CR \<notin> set (neutralized s) \<and> LF \<notin> set (neutralized s)"
  by (induction s) (auto simp: neutral_def)

lemma batch_payload_no_newline:
  assumes "batch_valid s as"
  shows "CR \<notin> set (batch_payload s as) \<and> LF \<notin> set (batch_payload s as)"
  using assms batch_body_no_newline neutralized_no_newline
  by (auto simp: batch_valid_def batch_payload_def batch_arg_text_def split: if_splits)

lemma cmd_expand_skip: "c \<noteq> CHR ''%'' \<Longrightarrow> cmd_expand (c # s) = c # cmd_expand s"
  by simp

lemma cmd_expand_neutral: "cmd_expand (neutral @ CHR ''%'' # s) = CHR ''%'' # cmd_expand s"
  by (simp add: neutral_def)

lemma cmd_expand_plain: "CHR ''%'' \<notin> set a \<Longrightarrow> cmd_expand (a @ b) = a @ cmd_expand b"
  by (induction a) (auto simp: cmd_expand_skip simp del: cmd_expand.simps)

lemma cmd_expand_neutralized: "cmd_expand (neutralized s @ b) = s @ cmd_expand b"
  by (induction s) (simp_all add: cmd_expand_skip cmd_expand_neutral del: cmd_expand.simps)

lemma cmd_expand_body:
  "CR \<notin> set s \<Longrightarrow> cmd_expand (batch_body n s @ b) = batch_body_raw n s @ cmd_expand b"
  by (induction n s rule: batch_body.induct)
    (auto simp: cmd_expand_skip cmd_expand_neutral cmd_expand_plain simp del: cmd_expand.simps)

lemma cmd_expand_arg:
  assumes "CR \<notin> set s"
  shows "cmd_expand (batch_arg_text s @ b) = batch_arg_raw s @ cmd_expand b"
  using cmd_expand_body [OF assms, of 0 b] cmd_expand_body [OF assms, of 0 "replicate (trailing_slashes 0 s) BS @ [DQ] @ b"]
    cmd_expand_plain [of "replicate (trailing_slashes 0 s) BS @ [DQ]" b]
  by (auto simp: batch_arg_text_def batch_arg_raw_def cmd_expand_skip simp del: cmd_expand.simps)

lemma cmd_expand_args:
  assumes "\<forall>a\<in>set as. CR \<notin> set a"
  shows "cmd_expand (concat (map (\<lambda>a. SPC # batch_arg_text a) as) @ b) =
    concat (map (\<lambda>a. SPC # batch_arg_raw a) as) @ cmd_expand b"
  using assms by (induction as) (simp_all add: cmd_expand_skip cmd_expand_arg del: cmd_expand.simps)

lemma cmd_expand_text:
  assumes "batch_valid s as"
  shows "cmd_expand (batch_text s as) =
    batch_prefix @ [DQ] @ s @ [DQ] @ concat (map (\<lambda>a. SPC # batch_arg_raw a) as) @ [DQ]"
proof -
  have pre: "cmd_expand (batch_prefix @ b) = batch_prefix @ cmd_expand b" for b
    by (rule cmd_expand_plain) (simp add: batch_prefix_def)
  have cr: "\<forall>a\<in>set as. CR \<notin> set a" using assms by (simp add: batch_valid_def)
  show ?thesis
    using cmd_expand_args [OF cr, of "[DQ]"]
    by (simp add: batch_text_def batch_payload_def pre cmd_expand_skip cmd_expand_neutralized del: cmd_expand.simps)
      (simp add: cmd_expand_skip)
qed

section \<open>Batch targets\<close>

definition path_sep :: "char \<Rightarrow> bool" where
  "path_sep c \<longleftrightarrow> c = CHR ''/'' \<or> c = BS"

text \<open>The extension of the last path component: what follows the last separator, from its last dot on.\<close>

definition last_component :: "cstr \<Rightarrow> cstr" where
  "last_component s = rev (takeWhile (\<lambda>c. \<not> path_sep c) (rev s))"

definition extension :: "cstr \<Rightarrow> cstr" where
  "extension s = (let c = last_component s in
     if CHR ''.'' \<in> set c then CHR ''.'' # rev (takeWhile (\<lambda>c. c \<noteq> CHR ''.'') (rev c)) else [])"

lemma ci_eq_map: "ci_eq a b \<longleftrightarrow> map ascii_lower a = map ascii_lower b"
  by (induction a b rule: ci_eq.induct) auto

lemma last_component_Cons:
  "last_component (c # s) = (if path_sep c \<or> (\<exists>x\<in>set s. path_sep x) then last_component s else c # s)"
proof (cases "\<exists>x\<in>set s. path_sep x")
  case True
  then have "takeWhile (\<lambda>c. \<not> path_sep c) (rev s @ [c]) = takeWhile (\<lambda>c. \<not> path_sep c) (rev s)"
    by (auto intro: takeWhile_append1)
  then show ?thesis using True by (simp add: last_component_def)
next
  case False
  then have s: "takeWhile (\<lambda>c. \<not> path_sep c) (rev s) = rev s"
    by (intro takeWhile_all) auto
  from False have "takeWhile (\<lambda>c. \<not> path_sep c) (rev s @ [c]) = rev s @ takeWhile (\<lambda>c. \<not> path_sep c) [c]"
    by (intro takeWhile_append2) auto
  then show ?thesis using False by (simp add: last_component_def s)
qed

lemma last_component_plain: "\<forall>x\<in>set s. \<not> path_sep x \<Longrightarrow> last_component s = s"
  by (simp add: last_component_def takeWhile_all)

lemma extension_dot:
  assumes "\<forall>x\<in>set s. \<not> path_sep x" "CHR ''.'' \<notin> set s"
  shows "extension (CHR ''.'' # s) = CHR ''.'' # s"
proof -
  have "\<not> path_sep CHR ''.''" by (simp add: path_sep_def)
  with assms(1) have c: "last_component (CHR ''.'' # s) = CHR ''.'' # s"
    by (auto simp: last_component_Cons)
  have "takeWhile (\<lambda>c. c \<noteq> CHR ''.'') (rev s) = rev s"
    using assms(2) by (intro takeWhile_all) auto
  moreover have "takeWhile (\<lambda>c. c \<noteq> CHR ''.'') (rev s @ ''.'') =
      rev s @ takeWhile (\<lambda>c. c \<noteq> CHR ''.'') ''.''"
    using assms(2) by (intro takeWhile_append2) auto
  ultimately show ?thesis by (simp add: extension_def c)
qed

lemma extension_skip:
  "path_sep c \<or> (\<exists>x\<in>set s. path_sep x) \<or> CHR ''.'' \<in> set s \<or> c \<noteq> CHR ''.'' \<Longrightarrow> extension (c # s) = extension s"
proof (cases "path_sep c \<or> (\<exists>x\<in>set s. path_sep x)")
  case False
  assume "path_sep c \<or> (\<exists>x\<in>set s. path_sep x) \<or> CHR ''.'' \<in> set s \<or> c \<noteq> CHR ''.''"
  with False have "CHR ''.'' \<in> set s \<or> c \<noteq> CHR ''.''" by blast
  moreover have "CHR ''.'' \<in> set s \<Longrightarrow> takeWhile (\<lambda>c. c \<noteq> CHR ''.'') (rev s @ [c]) = takeWhile (\<lambda>c. c \<noteq> CHR ''.'') (rev s)"
    by (auto intro: takeWhile_append1)
  ultimately show ?thesis
    using False by (auto simp: extension_def last_component_Cons last_component_plain)
qed (simp add: extension_def last_component_Cons)

lemma find_dot_general:
  "find_dot s d =
    (if (\<exists>x\<in>set s. path_sep x) \<or> CHR ''.'' \<in> set s
     then (if extension s = [] then None else Some (extension s)) else d)"
proof (induction s arbitrary: d)
  case (Cons c s)
  have none: "extension s = []" if "CHR ''.'' \<notin> set s" "\<forall>x\<in>set s. \<not> path_sep x"
    using that by (simp add: extension_def last_component_plain)
  show ?case
    using Cons.IH extension_skip [of c s] extension_dot [of s] none
    by (auto simp: path_sep_def [of c])
qed simp

lemma find_dot_extension: "find_dot s None = (if extension s = [] then None else Some (extension s))"
  by (auto simp: find_dot_general extension_def last_component_plain)

lemma make_cmdline_cases:
  assumes "\<forall>s. Some s \<in> set argv \<longrightarrow> length s < sb_max"
  shows "case fst (wj_make_cmdline alloc (int (length argv)) (Some argv) m) of
      None \<Rightarrow> None \<in> set argv \<or> \<not> alloc_ok alloc \<or> \<not> length (cmdline_text True (map the argv)) < sb_max
    | Some t \<Rightarrow> None \<notin> set argv \<and> t = cmdline_text True (map the argv)"
proof -
  obtain ok st0 where i: "sb_init alloc m = (ok, st0)" by (cases "sb_init alloc m") auto
  note init = sb_init_cases [OF i]
  obtain r st1 where l: "make_cmdline_loop alloc True argv st0 = (r, st1)"
    by (cases "make_cmdline_loop alloc True argv st0") auto
  have total: "r" if "alloc_ok alloc" "None \<notin> set argv" "length (cmdline_text True (map the argv)) < sb_max"
  proof -
    have eq: "argv = map Some (map the argv)"
      using that(2) by (induction argv) auto
    have "fst (make_cmdline_loop alloc True (map Some (map the argv)) st0)"
      by (rule make_cmdline_loop_total)
        (use that init assms in \<open>auto simp: image_iff, metis option.collapse\<close>)
    then show ?thesis using l eq by simp
  qed
  have sound: "\<exists>as. argv = map Some as \<and> sb_writes alloc st0 st1 (cmdline_text True as)" if "r"
    using make_cmdline_loop_writes [OF sb.writes_refl, of alloc True argv st0 st1] l that assms by auto
  show ?thesis
  proof (cases "ok \<and> r")
    case True
    then obtain as where as: "argv = map Some as" "sb_writes alloc st0 st1 (cmdline_text True as)"
      using sound by blast
    from i True have i: "sb_init alloc m = (True, st0)" by simp
    show ?thesis
      using True i l as sb_final_text [OF i as(2)]
      by (auto simp: wj_make_cmdline_def o_def split: prod.splits option.splits)
  next
    case False
    then show ?thesis
      using i l init total by (auto simp: wj_make_cmdline_def split: prod.splits option.splits bool.splits)
  qed
qed

section \<open>Properties\<close>

text \<open>for every behaviour of the allocator, \<^verbatim>\<open>wj_make_cmdline\<close> on \<^verbatim>\<open>argc\<close> arguments
  returns either NULL or exactly the escaped arguments joined by single spaces; NULL only
  if an argument is NULL, an allocation failed, or the text exceeds the address space, so with a
  reliable allocator the line is always produced.\<close>

theorem make_cmdline_exact:
  assumes "\<forall>s. Some s \<in> set argv \<longrightarrow> length s < sb_max"
  shows "case fst (wj_make_cmdline alloc (int (length argv)) (Some argv) m) of
      None \<Rightarrow> None \<in> set argv \<or> \<not> alloc_ok alloc \<or> \<not> length (cmdline_text True (map the argv)) < sb_max
    | Some t \<Rightarrow> None \<notin> set argv \<and> t = cmdline_text True (map the argv)"
  using assms by (rule make_cmdline_cases)

theorem make_cmdline_exact_witness:
  "fst (wj_make_cmdline (\<lambda>(m::nat) n. (True, m)) 2 (Some [Some ''prog'', Some ''a b'']) 0) =
   Some (''prog '' @ [DQ] @ ''a b'' @ [DQ])"
proof -
  have "alloc_ok (\<lambda>(m::nat) n. (True, m))" by (simp add: alloc_ok_def)
  moreover have "cmdline_text True [''prog'', ''a b''] = ''prog '' @ [DQ] @ ''a b'' @ [DQ]" by code_simp
  ultimately show ?thesis
    using make_cmdline_exact [of "[Some ''prog'', Some ''a b'']" "\<lambda>(m::nat) n. (True, m)" 0]
    by (auto simp: sb_max_def split: option.splits)
qed

text \<open>C9: the arguments after the program name come back unchanged from the documented Windows
  parsing rules: whatever \<^verbatim>\<open>wj_make_cmdline\<close> returns for \<open>prog # args\<close> starts with the escaped program
  name, and a scanner that has read that name yields exactly \<open>args\<close> from the rest; a scanner that
  reads the first word by the same rules yields \<open>prog # args\<close>.\<close>

theorem make_cmdline_roundtrip:
  assumes "argv_rules scan" "\<forall>s\<in>set (prog # args). length s < sb_max"
    and "fst (wj_make_cmdline alloc (int (length (prog # args))) (Some (map Some (prog # args))) m) = Some t"
  shows "(\<exists>tail. t = escape_spec prog @ tail \<and> (\<forall>cur. scan False cur tail = cur # args)) \<and>
    scan False [] t = prog # args"
proof -
  have "t = cmdline_text True (prog # args)"
    using make_cmdline_cases [of "map Some (prog # args)" alloc m] assms(2,3) by (auto simp: o_def)
  then show ?thesis
    using scan_cmdline_rest [OF assms(1)] scan_escaped [OF assms(1) cmdline_text_hd, of prog args]
    by simp
qed

theorem make_cmdline_roundtrip_witness:
  "argv_scan 0 False [] (''run '' @ [DQ] @ ''a b'' @ [BS, BS, DQ] @ '' c'' @ [BS, DQ]) =
   [''run'', ''a b'' @ [BS], ''c'' @ [DQ]]"
proof -
  let ?args = "[''a b'' @ [BS], ''c'' @ [DQ]]"
  have "cmdline_text True (''run'' # ?args) = ''run '' @ [DQ] @ ''a b'' @ [BS, BS, DQ] @ '' c'' @ [BS, DQ]"
    by code_simp
  then have line: "fst (wj_make_cmdline (\<lambda>(m::nat) n. (True, m)) (int (length (''run'' # ?args)))
      (Some (map Some (''run'' # ?args))) 0) = Some (''run '' @ [DQ] @ ''a b'' @ [BS, BS, DQ] @ '' c'' @ [BS, DQ])"
    using make_cmdline_cases [of "map Some (''run'' # ?args)" "\<lambda>(m::nat) n. (True, m)" 0] alloc_ok_always
    by (auto simp: sb_max_def simp del: cmdline_text.simps split: option.splits)
  have small: "\<forall>s\<in>set (''run'' # ?args). length s < sb_max" by (simp add: sb_max_def)
  show ?thesis by (rule make_cmdline_roundtrip [OF argv_scan_rules small line, THEN conjunct2])
qed

text \<open>C14: a batch command line that \<^verbatim>\<open>wj_make_batch_cmdline\<close> produces is
  \<^verbatim>\<open>cmd.exe /e:ON /v:OFF /d /c "\<close>, a payload and a closing quote, and the payload gives
  \<^verbatim>\<open>cmd.exe\<close> nothing to interpret (CVE-2024-24576): its quotes balance, every character outside them
  is a space, an ASCII letter or digit, a byte of \<^verbatim>\<open>BATCH_UNQUOTED\<close> or a byte above 127 (so no
  \<^verbatim>\<open>& | < > ^ % ! ( )\<close>), it holds no carriage return or line feed, and once the zero-length
  substrings \<^verbatim>\<open>%cd:~,%\<close> have expanded every percent sign of the script and the arguments is back as text.\<close>

theorem batch_cmdline_safe:
  assumes "fst (wj_make_batch_cmdline alloc (Some s) (int (length as)) (Some as) m) = Inr t"
  shows "\<exists>p. t = batch_prefix @ p @ [DQ] \<and> \<not> cmd_quote False p \<and>
    (\<forall>c\<in>set (cmd_outside False p). c = SPC \<or> is_ascii_alnum c \<or> c \<in> set BATCH_UNQUOTED \<or> (128::nat) \<le> byte_of c) \<and>
    CR \<notin> set p \<and> LF \<notin> set p \<and>
    cmd_expand t = batch_prefix @ [DQ] @ s @ [DQ] @ concat (map (\<lambda>a. SPC # batch_arg_raw a) as) @ [DQ]"
proof -
  have t: "batch_valid s as" "t = batch_text s as"
    using wj_make_batch_cmdline_spec [where alloc = alloc and s = s and as = as and m = m] assms by auto
  then have "DQ \<notin> set s" by (simp add: batch_valid_def)
  from batch_payload_outside [OF this, of as] batch_payload_no_newline [OF t(1)] cmd_expand_text [OF t(1)] t(2)
  show ?thesis
    by (intro exI [of _ "batch_payload s as"]) (simp add: batch_text_def cmd_safe_def)
qed

theorem batch_cmdline_safe_witness:
  "\<not> cmd_quote False ([DQ] @ ''a.bat'' @ [DQ] @ '' '' @ [DQ] @ ''&calc'' @ [DQ])"
proof -
  have "fst (wj_make_batch_cmdline (\<lambda>(m::nat) n. (True, m)) (Some ''a.bat'') (int (length [''&calc'']))
      (Some [''&calc'']) 0) =
    Inr (batch_prefix @ ([DQ] @ ''a.bat'' @ [DQ] @ '' '' @ [DQ] @ ''&calc'' @ [DQ]) @ [DQ])"
  proof -
    have "batch_valid ''a.bat'' [''&calc'']" by code_simp
    moreover have "batch_text ''a.bat'' [''&calc''] =
        batch_prefix @ ([DQ] @ ''a.bat'' @ [DQ] @ '' '' @ [DQ] @ ''&calc'' @ [DQ]) @ [DQ]"
      by code_simp
    ultimately show ?thesis
      using wj_make_batch_cmdline_spec [where alloc = "\<lambda>(m::nat) n. (True, m)" and s = "''a.bat''" and as = "[''&calc'']" and m = 0]
        alloc_ok_always
      by (auto simp: sb_max_def batch_prefix_def split: sum.splits)
  qed
  from batch_cmdline_safe [OF this] show ?thesis by simp
qed

text \<open>for every behaviour of the allocator, \<^verbatim>\<open>wj_make_batch_cmdline\<close> succeeds only on a script and
  arguments free of the rejected characters, with exactly the quoted text; with a reliable allocator and a
  text that fits the address space it fails only on rejected input.\<close>

theorem batch_cmdline_exact:
  "case fst (wj_make_batch_cmdline alloc (Some s) (int (length as)) (Some as) m) of
     Inl e \<Rightarrow> \<not> batch_valid s as \<or> \<not> (alloc_ok alloc \<and> length (batch_text s as) < sb_max)
   | Inr t \<Rightarrow> batch_valid s as \<and> t = batch_text s as"
  by (rule wj_make_batch_cmdline_spec)

theorem batch_cmdline_exact_witness:
  "fst (wj_make_batch_cmdline (\<lambda>(m::nat) n. (True, m)) (Some ''x.cmd'') (int (length [''a b''])) (Some [''a b'']) 0) =
   Inr (batch_prefix @ [DQ] @ ''x.cmd'' @ [DQ] @ '' '' @ [DQ] @ ''a b'' @ [DQ, DQ])"
proof -
  have "batch_valid ''x.cmd'' [''a b'']" by code_simp
  moreover have "batch_text ''x.cmd'' [''a b''] = batch_prefix @ [DQ] @ ''x.cmd'' @ [DQ] @ '' '' @ [DQ] @ ''a b'' @ [DQ, DQ]"
    by code_simp
  ultimately show ?thesis
    using batch_cmdline_exact [where alloc = "\<lambda>(m::nat) n. (True, m)" and s = "''x.cmd''" and as = "[''a b'']" and m = 0]
      alloc_ok_always
    by (auto simp: sb_max_def batch_prefix_def split: sum.splits)
qed

text \<open>\<^verbatim>\<open>wj_is_batch_target\<close> holds exactly when the extension of the last path component (from its
  last dot on) is \<^verbatim>\<open>.bat\<close> or \<^verbatim>\<open>.cmd\<close> in any mix of ASCII case.\<close>

theorem is_batch_target_iff:
  "wj_is_batch_target exe \<longleftrightarrow> map ascii_lower (extension exe) \<in> {''.bat'', ''.cmd''}"
proof -
  have l: "map ascii_lower ''.bat'' = ''.bat''" "map ascii_lower ''.cmd'' = ''.cmd''" by code_simp+
  show ?thesis
    by (simp add: wj_is_batch_target_def find_dot_extension ci_eq_map l del: list.map)
qed

text \<open>the capacity-doubling loop of \<^verbatim>\<open>sb_ensure\<close> ends for every positive capacity and every
  needed size, in 64-bit arithmetic, and leaves a capacity that holds the needed size.\<close>

theorem sb_grow_terminates:
  assumes "0 < cap"
  shows "\<exists>c. while_option (\<lambda>cap. cap < need) (sb_grow_step need) cap = Some c \<and>
    sb_grow need cap = c \<and> need \<le> c"
  using sb_grow_reaches [OF assms, of need] by (auto simp: sb_grow_def while_def)

theorem sb_grow_terminates_witness: "18446744073709551615 \<le> sb_grow 18446744073709551615 64"
  using sb_grow_terminates [of 64 18446744073709551615] by simp

end
