(* ===== verification/Units.thy ===== *)
theory Units
  imports Prelude
begin

text \<open>
  Human-readable quantities: \<^verbatim>\<open>parse_duration_ms\<close> and \<^verbatim>\<open>parse_bytes\<close> of
  \<^verbatim>\<open>src/proc.c\<close>, and \<^verbatim>\<open>http_u64\<close>, \<^verbatim>\<open>http_duration\<close>, \<^verbatim>\<open>http_size\<close> with the
  text checks \<^verbatim>\<open>http_text_safe\<close> and \<^verbatim>\<open>http_header_is\<close> of \<^verbatim>\<open>src/http.c\<close>. Values are
  64-bit words, so the overflow guards of the code are what keeps the result equal to the
  unbounded decimal value; the lemmas prove they do, on every string.
\<close>

section \<open>The process verbs\<close>

abbreviation LLONG_MAX_W :: "64 word" where "LLONG_MAX_W \<equiv> 9223372036854775807"

definition digit_word :: "char \<Rightarrow> 64 word" where
  "digit_word c = of_nat (digit_val c)"

text \<open>The digit loop, the same text in \<^verbatim>\<open>parse_duration_ms\<close> and \<^verbatim>\<open>parse_bytes\<close>; \<open>None\<close> is \<^verbatim>\<open>return -1\<close>.\<close>

fun parse_digits :: "cstr \<Rightarrow> 64 word \<Rightarrow> (64 word \<times> cstr) option" where
  "parse_digits [] value = Some (value, [])"
| "parse_digits (c # p) value =
    (if is_digit c then
       (let digit = digit_word c in
        if value > LLONG_MAX_W div 10 \<or> (value = LLONG_MAX_W div 10 \<and> digit > LLONG_MAX_W mod 10) then None
        else parse_digits p (value * 10 + digit))
     else Some (value, c # p))"

definition starts_digit :: "cstr \<Rightarrow> bool" where
  "starts_digit s \<longleftrightarrow> (case s of [] \<Rightarrow> False | c # _ \<Rightarrow> is_digit c)"

definition duration_unit :: "cstr \<Rightarrow> 64 word option" where
  "duration_unit p =
    (if p = ''ms'' then Some 1
     else if p = ''s'' then Some 1000
     else if p = ''m'' then Some 60000
     else if p = ''h'' then Some 3600000
     else None)"

definition parse_duration_ms :: "cstr \<Rightarrow> int" where
  "parse_duration_ms s =
    (if \<not> starts_digit s then - 1
     else case parse_digits s 0 of
       None \<Rightarrow> - 1
     | Some (value, p) \<Rightarrow>
        (case duration_unit p of
           None \<Rightarrow> - 1
         | Some mul \<Rightarrow> if value > LLONG_MAX_W div mul then - 1 else uint (value * mul)))"

text \<open>The optional multiplier and the optional \<^verbatim>\<open>B\<close>, shared with \<^verbatim>\<open>http_size\<close>.\<close>

definition size_unit :: "cstr \<Rightarrow> 64 word \<times> cstr" where
  "size_unit p =
    (case p of
       [] \<Rightarrow> (1, [])
     | c # q \<Rightarrow>
        if c = CHR ''K'' \<or> c = CHR ''k'' then (2 ^ 10, q)
        else if c = CHR ''M'' \<or> c = CHR ''m'' then (2 ^ 20, q)
        else if c = CHR ''G'' \<or> c = CHR ''g'' then (2 ^ 30, q)
        else (1, p))"

definition skip_B :: "cstr \<Rightarrow> cstr" where
  "skip_B p = (case p of [] \<Rightarrow> [] | c # q \<Rightarrow> if c = CHR ''B'' \<or> c = CHR ''b'' then q else p)"

definition parse_bytes :: "cstr \<Rightarrow> int" where
  "parse_bytes s =
    (if \<not> starts_digit s then - 1
     else case parse_digits s 0 of
       None \<Rightarrow> - 1
     | Some (value, p) \<Rightarrow>
        (let (mul, p) = size_unit p; p = skip_B p in
         if p \<noteq> [] \<or> value > LLONG_MAX_W div mul then - 1 else uint (value * mul)))"

section \<open>The HTTP verbs\<close>

abbreviation http_error :: "string \<Rightarrow> string \<Rightarrow> mt_error" where
  "http_error code msg \<equiv> MtError ''HTTP'' code msg"

definition http_text_safe :: "string \<Rightarrow> bool \<Rightarrow> bool" where
  "http_text_safe s header_name \<longleftrightarrow>
     \<not> (length s = 0 \<and> header_name) \<and>
     list_all (\<lambda>c.
       \<not> (c = NUL \<or> c = CR \<or> c = LF) \<and>
       \<not> (header_name \<and> (c = CHR '':'' \<or> byte_of c \<le> (0x20::nat) \<or> byte_of c = (0x7f::nat)))) s"

fun http_u64_loop :: "cstr \<Rightarrow> 64 word \<Rightarrow> (64 word \<times> cstr) option" where
  "http_u64_loop [] n = Some (n, [])"
| "http_u64_loop (c # s) n =
    (if is_digit c then
       (let digit = digit_word c in
        if n > (18446744073709551615 - digit) div 10 then None
        else http_u64_loop s (n * 10 + digit))
     else Some (n, c # s))"

text \<open>The \<^verbatim>\<open>do\<close> loop is entered only after the first character was seen to be a digit.\<close>

definition http_u64 :: "cstr \<Rightarrow> (64 word \<times> cstr) option" where
  "http_u64 s = (if \<not> starts_digit s then None else http_u64_loop s 0)"

definition http_duration :: "string \<Rightarrow> int res" where
  "http_duration obj =
    (if \<not> http_text_safe obj False then Inl (http_error ''badvalue'' ''-timeout contains NUL or a newline'')
     else case http_u64 obj of
       None \<Rightarrow> Inl (http_error ''badvalue'' ''-timeout takes an integer duration like 30s'')
     | Some (n, end') \<Rightarrow>
        (case duration_unit end' of
           None \<Rightarrow> Inl (http_error ''badvalue'' ''-timeout needs a unit: ms, s, m or h'')
         | Some factor \<Rightarrow>
            if n = 0 \<or> n > 2147483647 div factor then
              Inl (http_error ''badvalue'' ''-timeout is outside WinHTTP's supported range'')
            else Inr (uint (n * factor))))"

text \<open>\<^verbatim>\<open>TCL_SIZE_MAX\<close> is \<^verbatim>\<open>PTRDIFF_MAX\<close> in Tcl 9 on a 64-bit host.\<close>

abbreviation TCL_SIZE_MAX_W :: "64 word" where "TCL_SIZE_MAX_W \<equiv> 9223372036854775807"

definition http_size :: "string \<Rightarrow> int res" where
  "http_size obj =
    (if \<not> http_text_safe obj False then Inl (http_error ''badvalue'' ''-maxbody contains NUL or a newline'')
     else case http_u64 obj of
       None \<Rightarrow> Inl (http_error ''badvalue'' ''-maxbody takes a positive byte count like 8M'')
     | Some (n, end') \<Rightarrow>
        (let (factor, end') = size_unit end'; end' = skip_B end' in
         if end' \<noteq> [] \<or> n = 0 \<or> n > TCL_SIZE_MAX_W div factor then
           Inl (http_error ''badvalue'' ''-maxbody is outside the supported range'')
         else Inr (uint (n * factor))))"

definition http_header_is :: "string \<Rightarrow> cstr \<Rightarrow> bool" where
  "http_header_is s expected \<longleftrightarrow>
     length s = length expected \<and> list_all2 (\<lambda>c e. ascii_lower c = e) s expected"

section \<open>Decimal values\<close>

text \<open>The value of a digit string over the naturals, without any bound.\<close>

definition dec_from :: "nat \<Rightarrow> cstr \<Rightarrow> nat" where
  "dec_from n ds = foldl (\<lambda>n c. 10 * n + digit_val c) n ds"

abbreviation dec_value :: "cstr \<Rightarrow> nat" where "dec_value \<equiv> dec_from 0"

lemma dec_from_simps [simp]:
  "dec_from n [] = n"
  "dec_from n (c # ds) = dec_from (10 * n + digit_val c) ds"
  by (simp_all add: dec_from_def)

lemma dec_from_ge: "n \<le> dec_from n ds"
proof (induction ds arbitrary: n)
  case (Cons c ds)
  from Cons.IH [of "10 * n + digit_val c"] show ?case by simp
qed simp

lemma unat_digit_word: "is_digit c \<Longrightarrow> unat (digit_word c) = digit_val c"
  using digit_val_less [of c] by (simp add: digit_word_def unat_of_nat)

lemma unat_push_digit:
  "is_digit c \<Longrightarrow> 10 * unat v + digit_val c < 18446744073709551616 \<Longrightarrow>
   unat (v * 10 + digit_word c) = 10 * unat v + digit_val c"
  by (simp add: unat_word_ariths unat_digit_word)

lemma parse_digits_guard:
  assumes "is_digit c" "unat v \<le> LLONG_MAX"
  shows "(v > LLONG_MAX_W div 10 \<or> (v = LLONG_MAX_W div 10 \<and> digit_word c > LLONG_MAX_W mod 10)) \<longleftrightarrow>
    10 * unat v + digit_val c > LLONG_MAX"
proof -
  have d: "unat (digit_word c) = digit_val c" "digit_val c < 10"
    using assms(1) by (simp_all add: unat_digit_word digit_val_less)
  show ?thesis using d by (auto simp: word_less_nat_alt word_unat_eq_iff)
qed

lemma parse_digits_value:
  "unat v \<le> LLONG_MAX \<Longrightarrow>
   parse_digits s v =
     (if dec_from (unat v) (takeWhile is_digit s) \<le> LLONG_MAX
      then Some (of_nat (dec_from (unat v) (takeWhile is_digit s)), dropWhile is_digit s) else None)"
proof (induction s arbitrary: v)
  case (Cons c s)
  show ?case
  proof (cases "is_digit c")
    case True
    note guard = parse_digits_guard [OF True Cons.prems]
    show ?thesis
    proof (cases "10 * unat v + digit_val c > LLONG_MAX")
      case big: True
      then have "dec_from (10 * unat v + digit_val c) (takeWhile is_digit s) > LLONG_MAX"
        using dec_from_ge [of "10 * unat v + digit_val c" "takeWhile is_digit s"] by linarith
      then show ?thesis using True big guard by (simp add: Let_def)
    next
      case False
      then have u: "unat (v * 10 + digit_word c) = 10 * unat v + digit_val c"
        by (intro unat_push_digit) (use True in auto)
      have le: "unat (v * 10 + digit_word c) \<le> LLONG_MAX" using False u by simp
      have "parse_digits (c # s) v = parse_digits s (v * 10 + digit_word c)"
        by (simp only: parse_digits.simps Let_def guard True False if_True if_False)
      then show ?thesis using True Cons.IH [OF le] u by simp
    qed
  next
    case False
    then show ?thesis using Cons.prems by simp
  qed
qed simp

lemma http_u64_guard:
  assumes "is_digit c"
  shows "v > (18446744073709551615 - digit_word c) div 10 \<longleftrightarrow> 10 * unat v + digit_val c > ULLONG_MAX"
proof -
  have d: "unat (digit_word c) = digit_val c" "digit_val c < 10"
    using assms(1) by (simp_all add: unat_digit_word digit_val_less)
  have "unat ((18446744073709551615 :: 64 word) - digit_word c) = ULLONG_MAX - digit_val c"
    by (subst unat_sub_le) (use d in \<open>simp_all add: word_le_nat_alt\<close>)
  then have "unat ((18446744073709551615 - digit_word c) div 10) = (ULLONG_MAX - digit_val c) div 10"
    by (simp add: unat_div)
  then show ?thesis using d by (auto simp: word_less_nat_alt)
qed

lemma http_u64_loop_value:
  "http_u64_loop s v =
     (if dec_from (unat v) (takeWhile is_digit s) \<le> ULLONG_MAX
      then Some (of_nat (dec_from (unat v) (takeWhile is_digit s)), dropWhile is_digit s) else None)"
proof (induction s arbitrary: v)
  case Nil
  show ?case using unat_le64 [of v] by simp
next
  case (Cons c s)
  show ?case
  proof (cases "is_digit c")
    case True
    note guard = http_u64_guard [OF True, of v]
    show ?thesis
    proof (cases "10 * unat v + digit_val c > ULLONG_MAX")
      case big: True
      then have "dec_from (10 * unat v + digit_val c) (takeWhile is_digit s) > ULLONG_MAX"
        using dec_from_ge [of "10 * unat v + digit_val c" "takeWhile is_digit s"] by linarith
      then show ?thesis using True big guard by (simp add: Let_def)
    next
      case False
      then have u: "unat (v * 10 + digit_word c) = 10 * unat v + digit_val c"
        by (intro unat_push_digit) (use True in auto)
      show ?thesis using True False guard Cons.IH [of "v * 10 + digit_word c"] u by (simp add: Let_def)
    qed
  next
    case False
    then show ?thesis using unat_le64 [of v] by simp
  qed
qed

section \<open>Scaled values\<close>

lemma starts_digit_iff: "starts_digit s \<longleftrightarrow> takeWhile is_digit s \<noteq> []"
  by (cases s) (simp_all add: starts_digit_def)

lemma scaled_guard:
  fixes n :: nat and f M :: "64 word"
  assumes "n \<le> ULLONG_MAX" "f \<noteq> 0"
  shows "(of_nat n :: 64 word) > M div f \<longleftrightarrow> n * unat f > unat M"
proof -
  have u: "unat (of_nat n :: 64 word) = n" using assms(1) by (simp add: unat_of_nat)
  have "0 < unat f" using assms(2) by (simp add: unat_gt_0)
  then have "unat M div unat f < n \<longleftrightarrow> unat M < n * unat f"
    by (simp add: div_less_iff_less_mult)
  then show ?thesis by (simp add: word_less_nat_alt u unat_div)
qed

lemma scaled_value:
  assumes "n * unat f \<le> ULLONG_MAX" "f \<noteq> (0 :: 64 word)"
  shows "uint ((of_nat n :: 64 word) * f) = int (n * unat f)"
proof -
  have "0 < unat f" using assms(2) by (simp add: unat_gt_0)
  then have "n \<le> n * unat f" by simp
  then have "n \<le> ULLONG_MAX" using assms(1) by linarith
  then have "unat ((of_nat n :: 64 word) * f) = n * unat f"
    using assms(1) by (simp add: unat_word_ariths unat_of_nat)
  then show ?thesis by (metis uint_nat)
qed

text \<open>The factors over the naturals.\<close>

definition duration_factor :: "cstr \<Rightarrow> nat option" where
  "duration_factor u =
    (if u = ''ms'' then Some 1 else if u = ''s'' then Some 1000
     else if u = ''m'' then Some 60000 else if u = ''h'' then Some 3600000 else None)"

definition size_factor :: "cstr \<Rightarrow> nat option" where
  "size_factor u =
    (if map ascii_lower u \<in> {[], ''b''} then Some 1
     else if map ascii_lower u \<in> {''k'', ''kb''} then Some 1024
     else if map ascii_lower u \<in> {''m'', ''mb''} then Some 1048576
     else if map ascii_lower u \<in> {''g'', ''gb''} then Some 1073741824
     else None)"

lemma duration_unit_factor:
  "duration_factor u = map_option unat (duration_unit u)" "duration_unit u = Some f \<Longrightarrow> f \<noteq> 0"
  by (auto simp: duration_factor_def duration_unit_def split: if_splits)

lemma ascii_lower_eq:
  assumes "in_range CHR ''a'' CHR ''z'' l"
  shows "ascii_lower c = l \<longleftrightarrow> c = l \<or> byte_of c + 32 = (byte_of l :: nat)"
proof
  assume a: "ascii_lower c = l"
  show "c = l \<or> byte_of c + 32 = (byte_of l :: nat)"
  proof (cases "in_range CHR ''A'' CHR ''Z'' c")
    case True
    then have "byte_of c + 32 < (256 :: nat)" by (simp add: in_range_def)
    then show ?thesis using a True by (auto simp: ascii_lower_def)
  qed (use a in \<open>simp add: ascii_lower_def\<close>)
next
  assume r: "c = l \<or> byte_of c + 32 = (byte_of l :: nat)"
  show "ascii_lower c = l"
  proof (cases "c = l")
    case True
    then show ?thesis using assms by (simp add: ascii_lower_def in_range_def)
  next
    case False
    then have e: "byte_of c + 32 = (byte_of l :: nat)" using r by simp
    then have "in_range CHR ''A'' CHR ''Z'' c" using assms by (simp add: in_range_def)
    moreover have "char_of (byte_of c + 32 :: nat) = l" using e by simp
    ultimately show ?thesis by (simp add: ascii_lower_def)
  qed
qed

lemma upper_eq:
  "byte_of c = (66::nat) \<longleftrightarrow> c = CHR ''B''" "byte_of c = (75::nat) \<longleftrightarrow> c = CHR ''K''"
  "byte_of c = (77::nat) \<longleftrightarrow> c = CHR ''M''" "byte_of c = (71::nat) \<longleftrightarrow> c = CHR ''G''"
  using of_char_eq_iff [where ?'a = nat, of c "CHR ''B''"] of_char_eq_iff [where ?'a = nat, of c "CHR ''K''"]
    of_char_eq_iff [where ?'a = nat, of c "CHR ''M''"] of_char_eq_iff [where ?'a = nat, of c "CHR ''G''"]
  by simp_all

lemma ascii_lower_letters:
  "ascii_lower c = CHR ''b'' \<longleftrightarrow> c = CHR ''B'' \<or> c = CHR ''b''"
  "ascii_lower c = CHR ''k'' \<longleftrightarrow> c = CHR ''K'' \<or> c = CHR ''k''"
  "ascii_lower c = CHR ''m'' \<longleftrightarrow> c = CHR ''M'' \<or> c = CHR ''m''"
  "ascii_lower c = CHR ''g'' \<longleftrightarrow> c = CHR ''G'' \<or> c = CHR ''g''"
  by (auto simp: ascii_lower_eq in_range_def upper_eq)

lemma size_unit_factor:
  "size_factor u = (let (f, r) = size_unit u in if skip_B r = [] then Some (unat f) else None)"
proof -
  consider "u = []" | c where "u = [c]" | c d where "u = [c, d]" | c d e r where "u = c # d # e # r"
    by (metis list.exhaust)
  then show ?thesis
    by cases (auto simp: size_factor_def size_unit_def skip_B_def ascii_lower_letters)
qed

lemma size_unit_pos: "fst (size_unit u) \<noteq> 0"
  by (auto simp: size_unit_def split: list.splits)

lemma mult_exceeds: "\<not> n \<le> m \<Longrightarrow> 0 < f \<Longrightarrow> \<not> n * f \<le> (m :: nat)"
proof -
  assume "\<not> n \<le> m" "0 < f"
  moreover have "n \<le> n * f" using \<open>0 < f\<close> by simp
  ultimately show ?thesis by linarith
qed

lemma duration_factor_pos: "duration_factor u = Some f \<Longrightarrow> 0 < f"
  by (auto simp: duration_factor_def split: if_splits)

lemma size_factor_pos: "size_factor u = Some f \<Longrightarrow> 0 < f"
  by (auto simp: size_factor_def split: if_splits)

lemma unat_le_ULLONG: "unat (v :: 64 word) \<le> ULLONG_MAX"
  using unsigned_less [of v, where 'a = nat] by simp

lemma parse_bytes_le: "parse_bytes s \<le> int LLONG_MAX"
proof -
  have "uint (v * m) \<le> int LLONG_MAX" if "\<not> v > LLONG_MAX_W div m" "m \<noteq> 0" for v m :: "64 word"
  proof -
    have le: "unat v * unat m \<le> LLONG_MAX"
      using that scaled_guard [of "unat v" m LLONG_MAX_W] by (simp add: unat_le_ULLONG [of v])
    have "unat v * unat m \<le> ULLONG_MAX" using le by linarith
    then have "uint (v * m) = int (unat v * unat m)" using scaled_value [of "unat v" m] that(2) by simp
    then show ?thesis using le by linarith
  qed
  moreover have "m \<noteq> 0" if "size_unit p = (m, q)" for p m q using size_unit_pos [of p] that by simp
  ultimately show ?thesis by (auto simp: parse_bytes_def Let_def split: option.splits prod.splits)
qed

lemma parse_bytes_cast_le: "0 \<le> parse_bytes s \<Longrightarrow> nat (parse_bytes s mod 18446744073709551616) \<le> LLONG_MAX"
  using parse_bytes_le [of s] by simp

section \<open>Properties\<close>

text \<open>\<^verbatim>\<open>parse_duration_ms\<close> returns the exact number of milliseconds of a decimal number followed by
  \<^verbatim>\<open>ms\<close>, \<^verbatim>\<open>s\<close>, \<^verbatim>\<open>m\<close> or \<^verbatim>\<open>h\<close> whenever that number fits a signed 64-bit integer, and -1 on
  every other string: neither the digit loop nor the multiplication ever wraps.\<close>

theorem parse_duration_ms_exact:
  "parse_duration_ms s =
    (let ds = takeWhile is_digit s in
     case duration_factor (dropWhile is_digit s) of
       None \<Rightarrow> - 1
     | Some f \<Rightarrow> if ds \<noteq> [] \<and> dec_value ds * f \<le> LLONG_MAX then int (dec_value ds * f) else - 1)"
proof (cases "starts_digit s \<and> dec_value (takeWhile is_digit s) \<le> LLONG_MAX")
  case True
  let ?n = "dec_value (takeWhile is_digit s)"
  have p: "parse_digits s 0 = Some (of_nat ?n, dropWhile is_digit s)"
    using parse_digits_value [of 0 s] True by simp
  show ?thesis
  proof (cases "duration_unit (dropWhile is_digit s)")
    case None
    then show ?thesis using True p by (simp add: parse_duration_ms_def duration_unit_factor)
  next
    case (Some f)
    then have f: "f \<noteq> 0" by (rule duration_unit_factor)
    have n: "?n \<le> ULLONG_MAX" using True by linarith
    show ?thesis
      using True p Some scaled_guard [OF n f, of LLONG_MAX_W] scaled_value [of ?n f, OF _ f]
      by (auto simp: parse_duration_ms_def duration_unit_factor starts_digit_iff Let_def not_less)
  qed
next
  case False
  then show ?thesis
  proof (cases "starts_digit s")
    case True
    with False have big: "\<not> dec_value (takeWhile is_digit s) \<le> LLONG_MAX" by simp
    then have p: "parse_digits s 0 = None" using parse_digits_value [of 0 s] by simp
    have "\<not> dec_value (takeWhile is_digit s) * f \<le> LLONG_MAX"
      if "duration_factor (dropWhile is_digit s) = Some f" for f
      using mult_exceeds [OF big duration_factor_pos [OF that]] .
    then show ?thesis
      using True p by (auto simp: parse_duration_ms_def Let_def split: option.splits)
  qed (auto simp: parse_duration_ms_def starts_digit_iff Let_def split: option.splits)
qed

text \<open>\<^verbatim>\<open>parse_bytes\<close> returns the exact number of bytes of a decimal number with an optional
  \<^verbatim>\<open>K\<close>, \<^verbatim>\<open>M\<close> or \<^verbatim>\<open>G\<close> multiplier (powers of 1024) and an optional \<^verbatim>\<open>B\<close>, in either case,
  whenever that number fits a signed 64-bit integer, and -1 on every other string.\<close>

theorem parse_bytes_exact:
  "parse_bytes s =
    (let ds = takeWhile is_digit s in
     case size_factor (dropWhile is_digit s) of
       None \<Rightarrow> - 1
     | Some f \<Rightarrow> if ds \<noteq> [] \<and> dec_value ds * f \<le> LLONG_MAX then int (dec_value ds * f) else - 1)"
proof (cases "starts_digit s \<and> dec_value (takeWhile is_digit s) \<le> LLONG_MAX")
  case True
  let ?n = "dec_value (takeWhile is_digit s)"
  have p: "parse_digits s 0 = Some (of_nat ?n, dropWhile is_digit s)"
    using parse_digits_value [of 0 s] True by simp
  obtain f r where u: "size_unit (dropWhile is_digit s) = (f, r)" by (cases "size_unit (dropWhile is_digit s)")
  have f: "f \<noteq> 0" using size_unit_pos [of "dropWhile is_digit s"] u by simp
  have n: "?n \<le> ULLONG_MAX" using True by linarith
  show ?thesis
    using True p u scaled_guard [OF n f, of LLONG_MAX_W] scaled_value [of ?n f, OF _ f]
    by (auto simp: parse_bytes_def size_unit_factor starts_digit_iff Let_def not_less)
next
  case False
  then show ?thesis
  proof (cases "starts_digit s")
    case True
    with False have big: "\<not> dec_value (takeWhile is_digit s) \<le> LLONG_MAX" by simp
    then have p: "parse_digits s 0 = None" using parse_digits_value [of 0 s] by simp
    have "\<not> dec_value (takeWhile is_digit s) * f \<le> LLONG_MAX"
      if "size_factor (dropWhile is_digit s) = Some f" for f
      using mult_exceeds [OF big size_factor_pos [OF that]] .
    then show ?thesis
      using True p by (auto simp: parse_bytes_def Let_def split: option.splits)
  qed (auto simp: parse_bytes_def starts_digit_iff Let_def split: option.splits)
qed

lemma http_u64_value:
  "http_u64 s = (if takeWhile is_digit s \<noteq> [] \<and> dec_value (takeWhile is_digit s) \<le> ULLONG_MAX
    then Some (of_nat (dec_value (takeWhile is_digit s)), dropWhile is_digit s) else None)"
  using http_u64_loop_value [of s 0] by (simp add: http_u64_def starts_digit_iff)

lemma of_nat_word_zero: "n \<le> ULLONG_MAX \<Longrightarrow> (of_nat n :: 64 word) = 0 \<longleftrightarrow> n = 0"
  by (simp add: word_unat_eq_iff unat_of_nat)

lemma http_duration_iff:
  "http_duration s = Inr v \<longleftrightarrow>
    (\<exists>f. http_text_safe s False \<and> takeWhile is_digit s \<noteq> [] \<and>
      duration_factor (dropWhile is_digit s) = Some f \<and> v = int (dec_value (takeWhile is_digit s) * f) \<and>
      0 < v \<and> v \<le> int INT_MAX)" (is "_ \<longleftrightarrow> ?spec")
proof -
  let ?n = "dec_value (takeWhile is_digit s)"
  consider "\<not> http_text_safe s False \<or> takeWhile is_digit s = []" | "\<not> ?n \<le> ULLONG_MAX"
    | "http_text_safe s False" "takeWhile is_digit s \<noteq> []" "?n \<le> ULLONG_MAX" by blast
  then show ?thesis
  proof cases
    case 1
    then show ?thesis by (auto simp: http_duration_def http_u64_value)
  next
    case 2
    then have big: "\<not> ?n \<le> INT_MAX" by linarith
    have "\<not> ?spec"
    proof
      assume ?spec
      then obtain f where "duration_factor (dropWhile is_digit s) = Some f" "int (?n * f) \<le> int INT_MAX" by auto
      then show False using mult_exceeds [OF big duration_factor_pos] by (simp only: of_nat_le_iff)
    qed
    then show ?thesis using 2 by (auto simp: http_duration_def http_u64_value split: if_splits)
  next
    case 3
    show ?thesis
    proof (cases "duration_unit (dropWhile is_digit s)")
      case None
      then show ?thesis using 3 by (simp add: http_duration_def http_u64_value duration_unit_factor)
    next
      case (Some f)
      then have f: "f \<noteq> 0" by (rule duration_unit_factor)
      then have "0 < unat f" by (simp add: unat_gt_0)
      then show ?thesis
        using 3 Some scaled_guard [OF 3(3) f, of 2147483647] scaled_value [of ?n f, OF _ f] of_nat_word_zero [OF 3(3)]
        by (auto simp: http_duration_def http_u64_value duration_unit_factor not_less zero_less_mult_iff
            simp flip: of_nat_mult)
    qed
  qed
qed

lemma http_size_iff:
  "http_size s = Inr v \<longleftrightarrow>
    (\<exists>f. http_text_safe s False \<and> takeWhile is_digit s \<noteq> [] \<and>
      size_factor (dropWhile is_digit s) = Some f \<and> v = int (dec_value (takeWhile is_digit s) * f) \<and>
      0 < v \<and> v \<le> int LLONG_MAX)" (is "_ \<longleftrightarrow> ?spec")
proof -
  let ?n = "dec_value (takeWhile is_digit s)"
  consider "\<not> http_text_safe s False \<or> takeWhile is_digit s = []" | "\<not> ?n \<le> ULLONG_MAX"
    | "http_text_safe s False" "takeWhile is_digit s \<noteq> []" "?n \<le> ULLONG_MAX" by blast
  then show ?thesis
  proof cases
    case 1
    then show ?thesis by (auto simp: http_size_def http_u64_value)
  next
    case 2
    then have big: "\<not> ?n \<le> LLONG_MAX" by linarith
    have "\<not> ?spec"
    proof
      assume ?spec
      then obtain f where "size_factor (dropWhile is_digit s) = Some f" "int (?n * f) \<le> int LLONG_MAX" by auto
      then show False using mult_exceeds [OF big size_factor_pos] by (simp only: of_nat_le_iff)
    qed
    then show ?thesis using 2 by (auto simp: http_size_def http_u64_value split: if_splits)
  next
    case 3
    obtain f r where u: "size_unit (dropWhile is_digit s) = (f, r)" by (cases "size_unit (dropWhile is_digit s)")
    have f: "f \<noteq> 0" using size_unit_pos [of "dropWhile is_digit s"] u by simp
    then have "0 < unat f" by (simp add: unat_gt_0)
    then show ?thesis
      using 3 u scaled_guard [OF 3(3) f, of TCL_SIZE_MAX_W] scaled_value [of ?n f, OF _ f] of_nat_word_zero [OF 3(3)]
      by (auto simp: http_size_def http_u64_value size_unit_factor Let_def not_less zero_less_mult_iff
          simp flip: of_nat_mult)
  qed
qed

text \<open>the HTTP quantities are exact too: \<^verbatim>\<open>http_duration\<close> yields a value exactly when the text is
  free of NUL, CR and LF, is a decimal number with a duration unit, and the milliseconds lie in
  1 .. \<^verbatim>\<open>INT_MAX\<close>; \<^verbatim>\<open>http_size\<close> exactly when the byte count lies in 1 .. \<^verbatim>\<open>TCL_SIZE_MAX\<close>.\<close>

theorem http_quantities_exact:
  "(http_duration s = Inr v \<longleftrightarrow>
    (\<exists>f. http_text_safe s False \<and> takeWhile is_digit s \<noteq> [] \<and>
      duration_factor (dropWhile is_digit s) = Some f \<and> v = int (dec_value (takeWhile is_digit s) * f) \<and>
      0 < v \<and> v \<le> int INT_MAX)) \<and>
   (http_size s = Inr v \<longleftrightarrow>
    (\<exists>f. http_text_safe s False \<and> takeWhile is_digit s \<noteq> [] \<and>
      size_factor (dropWhile is_digit s) = Some f \<and> v = int (dec_value (takeWhile is_digit s) * f) \<and>
      0 < v \<and> v \<le> int LLONG_MAX))"
  using http_duration_iff http_size_iff by blast

end
