(* ===== verification/Utf8.thy ===== *)
theory Utf8
  imports Prelude
begin

text \<open>
  The UTF-8 boundary: the validator \<^verbatim>\<open>valid_utf8\<close> of \<^verbatim>\<open>src/proc.c\<close>, which guards text output
  read from a child, and the strict conversions of \<^verbatim>\<open>src/wintext.c\<close>, whose Win32 converters and
  allocator are parameters. \<^verbatim>\<open>valid_utf8\<close> works on \<^verbatim>\<open>unsigned\<close> values, here 32-bit words, with the
  bit operations of the code; the index pair \<^verbatim>\<open>i\<close>, \<^verbatim>\<open>n\<close> is the rest of the byte list.
\<close>

unbundle bit_operations_syntax

definition byte_word :: "char \<Rightarrow> 32 word" where
  "byte_word c = of_nat (byte_of c)"

text \<open>\<^verbatim>\<open>need\<close>, \<^verbatim>\<open>min\<close> and the first bits of \<^verbatim>\<open>value\<close> for a lead byte that is not ASCII.\<close>

definition utf8_lead :: "32 word \<Rightarrow> (nat \<times> 32 word \<times> 32 word) option" where
  "utf8_lead c =
    (if c \<ge> 0xC2 \<and> c \<le> 0xDF then Some (1, 0x80, c AND 0x1F)
     else if c \<ge> 0xE0 \<and> c \<le> 0xEF then Some (2, 0x800, c AND 0x0F)
     else if c \<ge> 0xF0 \<and> c \<le> 0xF4 then Some (3, 0x10000, c AND 0x07)
     else None)"

text \<open>The continuation loop; the caller has checked that \<^verbatim>\<open>need\<close> bytes are left.\<close>

fun utf8_cont :: "nat \<Rightarrow> 32 word \<Rightarrow> string \<Rightarrow> (32 word \<times> string) option" where
  "utf8_cont 0 value s = Some (value, s)"
| "utf8_cont (Suc k) value [] = None"
| "utf8_cont (Suc k) value (c # s) =
    (let d = byte_word c in
     if d AND 0xC0 \<noteq> 0x80 then None
     else utf8_cont k (push_bit 6 value OR (d AND 0x3F)) s)"

lemma utf8_cont_length: "utf8_cont k v s = Some (v', s') \<Longrightarrow> length s' \<le> length s"
  by (induction k v s rule: utf8_cont.induct) (auto simp: Let_def split: if_splits)

function valid_utf8 :: "string \<Rightarrow> bool" where
  "valid_utf8 s =
    (case s of
       [] \<Rightarrow> True
     | ch # rest \<Rightarrow>
       (let c = byte_word ch in
        if c < 0x80 then valid_utf8 rest
        else case utf8_lead c of
          None \<Rightarrow> False
        | Some (need, mn, value) \<Rightarrow>
            if length rest < need then False
            else case utf8_cont need value rest of
              None \<Rightarrow> False
            | Some (value, rest') \<Rightarrow>
                if value < mn \<or> value > 0x10FFFF \<or> (value \<ge> 0xD800 \<and> value \<le> 0xDFFF) then False
                else valid_utf8 rest'))"
  by pat_completeness auto
termination
  by (relation "measure length") (auto dest!: utf8_cont_length)

declare valid_utf8.simps [simp del]

section \<open>The strict conversions\<close>

text \<open>
  \<open>mbtowc s\<close> is what \<^verbatim>\<open>MultiByteToWideChar(CP_UTF8, MB_ERR_INVALID_CHARS, s, -1, ...)\<close> yields without
  the terminator, \<open>None\<close> for its result 0; both calls of \<^verbatim>\<open>mt_utf8_to_wide\<close> read the same string.
  \<open>wctomb w\<close> is \<^verbatim>\<open>WideCharToMultiByte\<close> likewise, on the units the count selects.
\<close>

definition mt_utf8_to_wide ::
  "(cstr \<Rightarrow> 16 word list option) \<Rightarrow> ('m \<Rightarrow> size_t \<Rightarrow> bool \<times> 'm) \<Rightarrow> cstr option \<Rightarrow> 'm \<Rightarrow> 16 word list option \<times> 'm" where
  "mt_utf8_to_wide mbtowc alloc utf8 m =
    (case utf8 of
       None \<Rightarrow> (None, m)
     | Some s \<Rightarrow>
       (case mbtowc s of
          None \<Rightarrow> (None, m)
        | Some w \<Rightarrow>
            let (ok, m') = alloc m (of_nat (length w + 1) * 2)
            in (if ok then mbtowc s else None, m')))"

definition mt_wide_to_utf8 ::
  "(16 word list \<Rightarrow> cstr option) \<Rightarrow> ('m \<Rightarrow> size_t \<Rightarrow> bool \<times> 'm) \<Rightarrow> 16 word list option \<Rightarrow> int \<Rightarrow> 'm \<Rightarrow> cstr option \<times> 'm" where
  "mt_wide_to_utf8 wctomb alloc wide count m =
    (case wide of
       None \<Rightarrow> (None, m)
     | Some w \<Rightarrow>
       (let units = (if count = - 1 then takeWhile (\<lambda>u. u \<noteq> 0) w else take (nat count) w) in
        if count = 0 then (None, m)
        else case wctomb units of
          None \<Rightarrow> (None, m)
        | Some s \<Rightarrow>
            let need = length s + (if count = - 1 then 1 else 0);
                (ok, m') = alloc m (of_nat need + 1)
            in (if ok then wctomb units else None, m')))"

section \<open>The reference encoding\<close>

definition scalar :: "nat \<Rightarrow> bool" where
  "scalar n \<longleftrightarrow> n \<le> 0x10FFFF \<and> \<not> (0xD800 \<le> n \<and> n \<le> 0xDFFF)"

definition utf8_enc :: "nat \<Rightarrow> string" where
  "utf8_enc n =
    (if n < 0x80 then [char_of n]
     else if n < 0x800 then [char_of (0xC0 + n div 64), char_of (0x80 + n mod 64)]
     else if n < 0x10000 then
       [char_of (0xE0 + n div 4096), char_of (0x80 + n div 64 mod 64), char_of (0x80 + n mod 64)]
     else
       [char_of (0xF0 + n div 262144), char_of (0x80 + n div 4096 mod 64),
        char_of (0x80 + n div 64 mod 64), char_of (0x80 + n mod 64)])"

lemma unat_byte_word [simp]: "unat (byte_word c) = byte_of c"
proof -
  have "byte_of c < (256 :: nat)" by simp
  then have "byte_of c < (2 ^ 32 :: nat)" by (rule less_le_trans) simp
  then have "take_bit 32 (byte_of c :: nat) = byte_of c" by (rule take_bit_nat_eq_self)
  then show ?thesis by (simp add: byte_word_def unsigned_of_nat)
qed

lemma byte_word_less: "byte_word c < numeral n \<longleftrightarrow> byte_of c < (unat (numeral n :: 32 word))"
  by (simp add: word_less_nat_alt)

lemma nat_and_low:
  fixes n :: nat
  shows "n AND 0x3F = n mod 64" "n AND 0x1F = n mod 32" "n AND 0x0F = n mod 16" "n AND 0x07 = n mod 8"
  using take_bit_eq_mask [of 6 n] take_bit_eq_mask [of 5 n] take_bit_eq_mask [of 4 n] take_bit_eq_mask [of 3 n]
  by (simp_all add: take_bit_eq_mod mask_eq_exp_minus_1)

lemma nat_or_disjoint: "(v * 64 OR d mod 64) = v * 64 + d mod (64 :: nat)"
proof -
  have "push_bit 6 v OR take_bit 6 d = push_bit 6 v + take_bit 6 d"
    by (rule disjunctive_add_eq_or [symmetric]) (auto simp: bit_eq_iff bit_simps)
  then show ?thesis by (simp add: push_bit_eq_mult take_bit_eq_mod)
qed

lemma nat_and_high: "n < 256 \<Longrightarrow> n AND 0xC0 = (128 :: nat) \<longleftrightarrow> 128 \<le> n \<and> n < 192"
proof -
  assume n: "n < 256"
  have m: "(0xC0 :: nat) = push_bit 6 (mask 2)" by (simp add: push_bit_eq_mult mask_eq_exp_minus_1)
  have "n AND 0xC0 = push_bit 6 (take_bit 2 (drop_bit 6 n))"
    unfolding m by (rule bit_eqI) (auto simp: bit_simps)
  also have "\<dots> = n div 64 mod 4 * 64"
    by (simp add: push_bit_eq_mult take_bit_eq_mod drop_bit_eq_div)
  also have "n div 64 mod 4 = n div 64" using n by simp
  finally have "n AND 0xC0 = n div 64 * 64" .
  moreover have "n div 64 * 64 = 128 \<longleftrightarrow> n div 64 = 2" by simp
  moreover have "n div 64 = 2 \<longleftrightarrow> 128 \<le> n \<and> n < 192"
    by (rule iffI, intro conjI; linarith)
  ultimately show ?thesis by simp
qed

definition is_cont :: "char \<Rightarrow> bool" where
  "is_cont c \<longleftrightarrow> (128::nat) \<le> byte_of c \<and> byte_of c < (192::nat)"

lemma cont_test: "byte_word c AND 0xC0 = 0x80 \<longleftrightarrow> is_cont c"
  using nat_and_high [of "byte_of c"]
  by (simp add: word_unat_eq_iff unsigned_and_eq is_cont_def)

lemma cont_push:
  assumes "unat v < 67108864"
  shows "unat (push_bit 6 v OR (byte_word c AND 0x3F)) = unat v * 64 + byte_of c mod 64"
proof -
  have "unat (push_bit 6 v) = unat v * 64"
    using assms by (simp add: push_bit_eq_mult unat_word_ariths)
  then show ?thesis
    by (simp add: unsigned_or_eq unsigned_and_eq nat_and_low nat_or_disjoint)
qed

definition cont_value :: "nat \<Rightarrow> string \<Rightarrow> nat" where
  "cont_value v ds = foldl (\<lambda>v c. v * 64 + byte_of c mod 64) v ds"

lemma utf8_cont_iff:
  "unat v < 64 ^ (5 - k) \<Longrightarrow> k \<le> 3 \<Longrightarrow>
   (\<exists>w. utf8_cont k v s = Some (w, s') \<and> unat w = n) \<longleftrightarrow>
   (\<exists>ds. length ds = k \<and> s = ds @ s' \<and> (\<forall>d\<in>set ds. is_cont d) \<and> n = cont_value (unat v) ds)"
proof (induction k v s rule: utf8_cont.induct)
  case (1 v s)
  then show ?case by (auto simp: cont_value_def)
next
  case (2 k v)
  then show ?case by auto
next
  case (3 k v c s)
  show ?case
  proof (cases "is_cont c")
    case False
    then show ?thesis by (auto simp: cont_test Let_def length_Suc_conv)
  next
    case True
    let ?w = "push_bit 6 v OR (byte_word c AND 0x3F)"
    have "(64 :: nat) ^ (5 - Suc k) \<le> 64 ^ 4" by (rule power_increasing) auto
    then have "unat v < 67108864" using 3(2) by simp
    note w = cont_push [OF this, of c]
    have e: "5 - k = Suc (5 - Suc k)" using 3(3) by simp
    have "byte_of c mod 64 < (64 :: nat)" by simp
    then have "unat ?w < 64 ^ (5 - k)" using 3(2) unfolding w e power_Suc by linarith
    from 3(1) [OF refl _ this] 3(3) True
    have "(\<exists>w. utf8_cont (Suc k) v (c # s) = Some (w, s') \<and> unat w = n) \<longleftrightarrow>
        (\<exists>ds. length ds = k \<and> s = ds @ s' \<and> (\<forall>d\<in>set ds. is_cont d) \<and> n = cont_value (unat ?w) ds)"
      by (simp add: cont_test Let_def)
    also have "\<dots> \<longleftrightarrow> (\<exists>ds. length ds = Suc k \<and> c # s = ds @ s' \<and> (\<forall>d\<in>set ds. is_cont d) \<and>
        n = cont_value (unat v) ds)"
      using True by (auto simp: length_Suc_conv cont_value_def w Cons_eq_append_conv)
    finally show ?thesis .
  qed
qed

lemma char_of_iff: "(x :: nat) < 256 \<Longrightarrow> c = char_of x \<longleftrightarrow> byte_of c = x"
  by auto

lemma utf8_lead_word:
  "utf8_lead (byte_word c) =
    (if 0xC2 \<le> (byte_of c :: nat) \<and> byte_of c \<le> (0xDF :: nat) then Some (1, 0x80, of_nat (byte_of c mod 32))
     else if 0xE0 \<le> (byte_of c :: nat) \<and> byte_of c \<le> (0xEF :: nat) then Some (2, 0x800, of_nat (byte_of c mod 16))
     else if 0xF0 \<le> (byte_of c :: nat) \<and> byte_of c \<le> (0xF4 :: nat) then Some (3, 0x10000, of_nat (byte_of c mod 8))
     else None)"
proof -
  have and_eq: "byte_word c AND m = of_nat (byte_of c AND unat m)" for m :: "32 word"
  proof -
    have "byte_word c AND m = of_nat (unat (byte_word c AND m))" by simp
    then show ?thesis by (simp only: unsigned_and_eq unat_byte_word)
  qed
  show ?thesis
    by (simp add: utf8_lead_def word_le_nat_alt and_eq nat_and_low)
qed

lemma div_mod_64: "f < (64 :: nat) \<Longrightarrow> (x * 64 + f) div 64 = x" "f < (64 :: nat) \<Longrightarrow> (x * 64 + f) mod 64 = f"
  by simp_all

lemma lead_mod:
  "a < 32 \<Longrightarrow> (0xC0 + a) mod 32 = (a::nat)" "a < 16 \<Longrightarrow> (0xE0 + a) mod 16 = (a::nat)"
  "a < 5 \<Longrightarrow> (0xF0 + a) mod 8 = (a::nat)" "a < 64 \<Longrightarrow> (0x80 + a) mod 64 = (a::nat)"
  by (subst mod_add_left_eq [symmetric], simp)+

text \<open>The encodings of two, three and four bytes, taken apart.\<close>

lemma enc2_iff:
  assumes "is_cont d" "0xC2 \<le> (byte_of c :: nat)" "byte_of c \<le> (0xDF :: nat)" "0x80 \<le> n" "n < 0x800"
  shows "utf8_enc n = [c, d] \<longleftrightarrow> n = byte_of c mod 32 * 64 + byte_of d mod 64"
proof -
  obtain a b :: nat where ab: "byte_of c = 0xC0 + a" "byte_of d = 0x80 + b" "a < 32" "b < 64" "2 \<le> a"
    using assms by (auto simp: is_cont_def nat_le_iff_add le_iff_add)
  have "n div 64 < 32" "n mod 64 < 64" using assms(5) by auto
  then have "utf8_enc n = [c, d] \<longleftrightarrow> n div 64 = a \<and> n mod 64 = b"
    using assms(4,5) ab by (auto simp: utf8_enc_def char_of_iff eq_commute)
  also have "\<dots> \<longleftrightarrow> n = a * 64 + b" using ab by auto
  finally show ?thesis by (simp only: ab lead_mod)
qed

lemma enc3_iff:
  assumes "is_cont d" "is_cont e" "0xE0 \<le> (byte_of c :: nat)" "byte_of c \<le> (0xEF :: nat)" "0x800 \<le> n" "n < 0x10000"
  shows "utf8_enc n = [c, d, e] \<longleftrightarrow> n = (byte_of c mod 16 * 64 + byte_of d mod 64) * 64 + byte_of e mod 64"
proof -
  obtain a b f :: nat where ab: "byte_of c = 0xE0 + a" "byte_of d = 0x80 + b" "byte_of e = 0x80 + f"
    "a < 16" "b < 64" "f < 64"
    using assms by (auto simp: is_cont_def nat_le_iff_add le_iff_add)
  have "n div 4096 < 16" "n div 64 mod 64 < 64" "n mod 64 < 64" using assms(6) by auto
  then have "utf8_enc n = [c, d, e] \<longleftrightarrow> n div 4096 = a \<and> n div 64 mod 64 = b \<and> n mod 64 = f"
    using assms(5,6) ab by (auto simp: utf8_enc_def char_of_iff eq_commute)
  also have "\<dots> \<longleftrightarrow> n = (a * 64 + b) * 64 + f"
  proof
    assume h: "n div 4096 = a \<and> n div 64 mod 64 = b \<and> n mod 64 = f"
    have "n div 4096 = n div 64 div 64" by (simp add: div_mult2_eq [symmetric])
    then have "n div 64 = a * 64 + b" using h div_mult_mod_eq [of "n div 64" 64] by simp
    then show "n = (a * 64 + b) * 64 + f" using h div_mult_mod_eq [of n 64] by simp
  next
    assume n: "n = (a * 64 + b) * 64 + f"
    then have "n div 64 = a * 64 + b" "n mod 64 = f" using ab(6) by (simp_all only: div_mod_64)
    moreover have "n div 4096 = n div 64 div 64" by (simp add: div_mult2_eq [symmetric])
    ultimately show "n div 4096 = a \<and> n div 64 mod 64 = b \<and> n mod 64 = f" using ab by simp
  qed
  finally show ?thesis by (simp only: ab lead_mod)
qed

lemma enc4_iff:
  assumes "is_cont d" "is_cont e" "is_cont g" "0xF0 \<le> (byte_of c :: nat)" "byte_of c \<le> (0xF4 :: nat)"
    and "0x10000 \<le> n" "n \<le> 0x10FFFF"
  shows "utf8_enc n = [c, d, e, g] \<longleftrightarrow>
    n = ((byte_of c mod 8 * 64 + byte_of d mod 64) * 64 + byte_of e mod 64) * 64 + byte_of g mod 64"
proof -
  obtain a b f h :: nat where ab: "byte_of c = 0xF0 + a" "byte_of d = 0x80 + b" "byte_of e = 0x80 + f"
    "byte_of g = 0x80 + h" "a < 5" "b < 64" "f < 64" "h < 64"
    using assms by (auto simp: is_cont_def nat_le_iff_add le_iff_add)
  have "n div 262144 \<le> 4" using assms(7) by linarith
  moreover have "n div 4096 mod 64 < 64" "n div 64 mod 64 < 64" "n mod 64 < 64" by auto
  ultimately have "utf8_enc n = [c, d, e, g] \<longleftrightarrow>
      n div 262144 = a \<and> n div 4096 mod 64 = b \<and> n div 64 mod 64 = f \<and> n mod 64 = h"
    using assms(6,7) ab by (auto simp: utf8_enc_def char_of_iff eq_commute)
  also have "\<dots> \<longleftrightarrow> n = ((a * 64 + b) * 64 + f) * 64 + h"
  proof -
    have d1: "n div 4096 = n div 64 div 64" "n div 262144 = n div 64 div 64 div 64"
      by (simp_all add: div_mult2_eq [symmetric])
    show ?thesis
    proof
      assume x: "n div 262144 = a \<and> n div 4096 mod 64 = b \<and> n div 64 mod 64 = f \<and> n mod 64 = h"
      have "n div 64 div 64 = a * 64 + b" using x d1 div_mult_mod_eq [of "n div 64 div 64" 64] by simp
      then have "n div 64 = (a * 64 + b) * 64 + f" using x div_mult_mod_eq [of "n div 64" 64] by simp
      then show "n = ((a * 64 + b) * 64 + f) * 64 + h" using x div_mult_mod_eq [of n 64] by simp
    next
      assume x: "n = ((a * 64 + b) * 64 + f) * 64 + h"
      then have n1: "n div 64 = (a * 64 + b) * 64 + f" "n mod 64 = h" using ab(8) by (simp_all only: div_mod_64)
      then have n2: "n div 64 div 64 = a * 64 + b" "n div 64 mod 64 = f" using ab(7) by (simp_all only: div_mod_64)
      then show "n div 262144 = a \<and> n div 4096 mod 64 = b \<and> n div 64 mod 64 = f \<and> n mod 64 = h"
        using n1 d1 ab by simp
    qed
  qed
  finally show ?thesis by (simp only: ab lead_mod)
qed

lemma utf8_enc_ascii: "n < 128 \<Longrightarrow> utf8_enc n = [char_of n]"
  by (simp add: utf8_enc_def)

lemma valid_utf8_ascii: "byte_of c < (128::nat) \<Longrightarrow> valid_utf8 (c # s) = valid_utf8 s"
  by (subst valid_utf8.simps) (simp add: word_less_nat_alt)

definition lead_class :: "char \<Rightarrow> (nat \<times> nat \<times> nat) option" where
  "lead_class c =
    (if 0xC2 \<le> (byte_of c :: nat) \<and> byte_of c \<le> (0xDF :: nat) then Some (1, 0x80, byte_of c mod 32)
     else if 0xE0 \<le> (byte_of c :: nat) \<and> byte_of c \<le> (0xEF :: nat) then Some (2, 0x800, byte_of c mod 16)
     else if 0xF0 \<le> (byte_of c :: nat) \<and> byte_of c \<le> (0xF4 :: nat) then Some (3, 0x10000, byte_of c mod 8)
     else None)"

lemma lead_class_none: "lead_class c = None \<Longrightarrow> utf8_lead (byte_word c) = None"
  by (auto simp: lead_class_def utf8_lead_word split: if_splits)

lemma lead_class_some:
  assumes "lead_class c = Some (k, mn, v)"
  obtains w m where "utf8_lead (byte_word c) = Some (k, m, w)" "unat w = v" "unat m = mn" "v < 64 ^ (5 - k)" "k \<le> 3"
proof -
  have "(of_nat (byte_of c mod 32) :: 32 word) = of_nat (unat (of_nat (byte_of c mod 32) :: 32 word))" by simp
  have u: "unat (of_nat x :: 32 word) = x" if "x < 256" for x :: nat
    using that by (simp add: unsigned_of_nat take_bit_nat_eq_self)
  have b: "byte_of c mod 32 < (256::nat)" "byte_of c mod 16 < (256::nat)" "byte_of c mod 8 < (256::nat)"
    by (auto intro: le_less_trans)
  show thesis
    using assms that [of "if k = 1 then 0x80 else if k = 2 then 0x800 else 0x10000" "of_nat v"] u b
    by (auto simp: lead_class_def utf8_lead_word split: if_splits)
qed

text \<open>One character: a valid string that starts above ASCII starts with a scalar value's encoding.\<close>

lemma valid_utf8_multi:
  assumes "128 \<le> (byte_of c :: nat)"
  shows "valid_utf8 (c # s) \<longleftrightarrow>
    (\<exists>k mn v ds s' n. lead_class c = Some (k, mn, v) \<and> length ds = k \<and> s = ds @ s' \<and> (\<forall>d\<in>set ds. is_cont d) \<and>
       n = cont_value v ds \<and> mn \<le> n \<and> scalar n \<and> valid_utf8 s')"
proof (cases "lead_class c")
  case None
  then show ?thesis
    using assms by (subst valid_utf8.simps) (simp add: lead_class_none Let_def word_less_nat_alt)
next
  case (Some t)
  then obtain k mn v where c: "lead_class c = Some (k, mn, v)" by (cases t) auto
  then obtain w m where w: "utf8_lead (byte_word c) = Some (k, m, w)" "unat w = v" "unat m = mn" "v < 64 ^ (5 - k)" "k \<le> 3"
    by (rule lead_class_some)
  have "valid_utf8 (c # s) \<longleftrightarrow> \<not> length s < k \<and>
      (\<exists>x s'. utf8_cont k w s = Some (x, s') \<and> mn \<le> unat x \<and> scalar (unat x) \<and> valid_utf8 s')"
    using assms w
    by (subst valid_utf8.simps)
      (auto simp: Let_def word_less_nat_alt word_le_nat_alt scalar_def not_less split: option.splits)
  also have "\<dots> \<longleftrightarrow> (\<exists>s' n. (\<exists>x. utf8_cont k w s = Some (x, s') \<and> unat x = n) \<and> \<not> length s < k \<and>
      mn \<le> n \<and> scalar n \<and> valid_utf8 s')"
    by auto
  also have "\<dots> \<longleftrightarrow> (\<exists>s' n. (\<exists>ds. length ds = k \<and> s = ds @ s' \<and> (\<forall>d\<in>set ds. is_cont d) \<and> n = cont_value v ds) \<and>
      \<not> length s < k \<and> mn \<le> n \<and> scalar n \<and> valid_utf8 s')"
    using utf8_cont_iff [of w k s] w by simp
  also have "\<dots> \<longleftrightarrow> (\<exists>ds s' n. length ds = k \<and> s = ds @ s' \<and> (\<forall>d\<in>set ds. is_cont d) \<and> n = cont_value v ds \<and>
      mn \<le> n \<and> scalar n \<and> valid_utf8 s')"
    by (rule iffI; clarsimp; blast)
  finally show ?thesis by (simp add: c)
qed

lemma lead_enc:
  assumes "lead_class c = Some (k, mn, v)" "length ds = k" "\<forall>d\<in>set ds. is_cont d" "mn \<le> n" "scalar n"
    and "n = cont_value v ds"
  shows "utf8_enc n = c # ds"
proof -
  have v: "v < 32" "k = 1 \<Longrightarrow> v < 32" "k = 2 \<Longrightarrow> v < 16" "k \<noteq> 0 \<and> k \<le> 3"
    using assms(1) by (auto simp: lead_class_def split: if_splits) 
  consider d where "ds = [d]" "k = 1" | d e where "ds = [d, e]" "k = 2" | d e g where "ds = [d, e, g]" "k = 3"
    using assms(2) v(4)
    by (auto simp: length_Suc_conv numeral_2_eq_2 numeral_3_eq_3 le_Suc_eq)
  then show ?thesis
  proof cases
    case (1 d)
    then have "n < 0x800" using assms(6) v by (simp add: cont_value_def)
    then show ?thesis
      using 1 assms enc2_iff [of d c n] by (auto simp: lead_class_def cont_value_def split: if_splits)
  next
    case (2 d e)
    have "byte_of d mod 64 < (64::nat)" "byte_of e mod 64 < (64::nat)" by simp_all
    then have "n < 0x10000" using 2 assms(6) v(3) by (simp add: cont_value_def)
    then show ?thesis
      using 2 assms enc3_iff [of d e c n] by (auto simp: lead_class_def cont_value_def split: if_splits)
  next
    case (3 d e g)
    then show ?thesis
      using assms enc4_iff [of d e g c n] by (auto simp: lead_class_def cont_value_def scalar_def split: if_splits)
  qed
qed

lemma byte_of_char_of: "x < 256 \<Longrightarrow> byte_of (char_of (x :: nat)) = x"
  by simp

lemma enc_leadI:
  "utf8_enc n = c # ds \<Longrightarrow> lead_class c = Some (length ds, mn, v) \<Longrightarrow> \<forall>d\<in>set ds. is_cont d \<Longrightarrow> mn \<le> n \<Longrightarrow>
   n = cont_value v ds \<Longrightarrow> \<exists>c ds k mn v. utf8_enc n = c # ds \<and> lead_class c = Some (k, mn, v) \<and> length ds = k \<and>
    (\<forall>d\<in>set ds. is_cont d) \<and> mn \<le> n \<and> n = cont_value v ds"
  by blast

lemma enc_lead:
  assumes "scalar n" "128 \<le> n"
  shows "\<exists>c ds k mn v. utf8_enc n = c # ds \<and> lead_class c = Some (k, mn, v) \<and> length ds = k \<and>
    (\<forall>d\<in>set ds. is_cont d) \<and> mn \<le> n \<and> n = cont_value v ds"
proof -
  have m: "n mod 64 < 64" "n div 64 mod 64 < 64" "n div 4096 mod 64 < 64" by simp_all
  consider "n < 0x800" | "0x800 \<le> n" "n < 0x10000" | "0x10000 \<le> n" by linarith
  then show ?thesis
  proof cases
    case 1
    let ?c = "char_of (0xC0 + n div 64)" and ?d = "char_of (0x80 + n mod 64)"
    have r: "2 \<le> n div 64" "n div 64 < 32" using 1 assms(2) by linarith+
    then have b: "byte_of ?c = 0xC0 + n div 64" "byte_of ?d = 0x80 + n mod 64"
      using m by (auto intro!: byte_of_char_of simp del: of_char_of)
    have e: "utf8_enc n = [?c, ?d]" using 1 assms(2) by (simp add: utf8_enc_def)
    have d: "is_cont ?d" unfolding is_cont_def b using m by simp
    have "0xC2 \<le> (byte_of ?c :: nat)" "byte_of ?c \<le> (0xDF :: nat)" unfolding b using r by simp_all
    note l = this
    have "n = byte_of ?c mod 32 * 64 + byte_of ?d mod 64"
      using enc2_iff [OF d l] 1 assms(2) e by blast
    then have cv: "n = cont_value (byte_of ?c mod 32) [?d]" by (simp only: cont_value_def foldl.simps)
    have lc: "lead_class ?c = Some (length [?d], 0x80, byte_of ?c mod 32)"
      using l by (simp add: lead_class_def del: of_char_of)
    show ?thesis by (rule enc_leadI [OF e lc _ _ cv]) (use d assms(2) in simp_all)
  next
    case 2
    let ?c = "char_of (0xE0 + n div 4096)" and ?d = "char_of (0x80 + n div 64 mod 64)" and ?e = "char_of (0x80 + n mod 64)"
    have r: "n div 4096 < 16" using 2 by linarith
    then have b: "byte_of ?c = 0xE0 + n div 4096" "byte_of ?d = 0x80 + n div 64 mod 64" "byte_of ?e = 0x80 + n mod 64"
      using m by (auto intro!: byte_of_char_of simp del: of_char_of)
    have e: "utf8_enc n = [?c, ?d, ?e]" using 2 by (simp add: utf8_enc_def)
    have d: "is_cont ?d" "is_cont ?e" unfolding is_cont_def b using m by simp_all
    have l: "0xE0 \<le> (byte_of ?c :: nat)" "byte_of ?c \<le> (0xEF :: nat)" unfolding b using r by simp_all
    have "n = (byte_of ?c mod 16 * 64 + byte_of ?d mod 64) * 64 + byte_of ?e mod 64"
      using enc3_iff [OF d l 2] e by blast
    then have cv: "n = cont_value (byte_of ?c mod 16) [?d, ?e]" by (simp only: cont_value_def foldl.simps)
    have lc: "lead_class ?c = Some (length [?d, ?e], 0x800, byte_of ?c mod 16)"
      using l by (simp add: lead_class_def del: of_char_of)
    show ?thesis by (rule enc_leadI [OF e lc _ _ cv]) (use d 2 in simp_all)
  next
    case 3
    let ?c = "char_of (0xF0 + n div 262144)" and ?d = "char_of (0x80 + n div 4096 mod 64)"
      and ?e = "char_of (0x80 + n div 64 mod 64)" and ?g = "char_of (0x80 + n mod 64)"
    have n: "n \<le> 0x10FFFF" using assms(1) by (simp add: scalar_def)
    then have r: "n div 262144 < 5" by linarith
    then have b: "byte_of ?c = 0xF0 + n div 262144" "byte_of ?d = 0x80 + n div 4096 mod 64"
        "byte_of ?e = 0x80 + n div 64 mod 64" "byte_of ?g = 0x80 + n mod 64"
      using m by (auto intro!: byte_of_char_of simp del: of_char_of)
    have e: "utf8_enc n = [?c, ?d, ?e, ?g]" using 3 by (simp add: utf8_enc_def)
    have d: "is_cont ?d" "is_cont ?e" "is_cont ?g" unfolding is_cont_def b using m by simp_all
    have l: "0xF0 \<le> (byte_of ?c :: nat)" "byte_of ?c \<le> (0xF4 :: nat)" unfolding b using r by simp_all
    have "n = ((byte_of ?c mod 8 * 64 + byte_of ?d mod 64) * 64 + byte_of ?e mod 64) * 64 + byte_of ?g mod 64"
      using enc4_iff [OF d l 3 n] e by blast
    then have cv: "n = cont_value (byte_of ?c mod 8) [?d, ?e, ?g]" by (simp only: cont_value_def foldl.simps)
    have lc: "lead_class ?c = Some (length [?d, ?e, ?g], 0x10000, byte_of ?c mod 8)"
      using l by (simp add: lead_class_def del: of_char_of)
    show ?thesis by (rule enc_leadI [OF e lc _ _ cv]) (use d 3 in simp_all)
  qed
qed

lemma valid_utf8_enc: "scalar n \<Longrightarrow> valid_utf8 (utf8_enc n @ s) = valid_utf8 s"
proof (cases "n < 128")
  case True
  then show ?thesis by (simp add: utf8_enc_ascii valid_utf8_ascii)
next
  case False
  assume n: "scalar n"
  with False obtain c ds k mn v where e: "utf8_enc n = c # ds" "lead_class c = Some (k, mn, v)" "length ds = k"
    "\<forall>d\<in>set ds. is_cont d" "mn \<le> n" "n = cont_value v ds"
    using enc_lead [of n] by auto
  have c: "128 \<le> (byte_of c :: nat)" using e(2) by (auto simp: lead_class_def split: if_splits)
  have "valid_utf8 (c # ds @ s) \<longleftrightarrow> (\<exists>ds' s' n'. length ds' = k \<and> ds @ s = ds' @ s' \<and> (\<forall>d\<in>set ds'. is_cont d) \<and>
       n' = cont_value v ds' \<and> mn \<le> n' \<and> scalar n' \<and> valid_utf8 s')"
    using valid_utf8_multi [OF c, of "ds @ s"] e(2) by simp
  also have "\<dots> \<longleftrightarrow> valid_utf8 s"
  proof
    assume "valid_utf8 s"
    then show "\<exists>ds' s' n'. length ds' = k \<and> ds @ s = ds' @ s' \<and> (\<forall>d\<in>set ds'. is_cont d) \<and>
       n' = cont_value v ds' \<and> mn \<le> n' \<and> scalar n' \<and> valid_utf8 s'"
      using e(3-6) n by blast
  next
    assume "\<exists>ds' s' n'. length ds' = k \<and> ds @ s = ds' @ s' \<and> (\<forall>d\<in>set ds'. is_cont d) \<and>
       n' = cont_value v ds' \<and> mn \<le> n' \<and> scalar n' \<and> valid_utf8 s'"
    then obtain ds' s' where "length ds' = k" "ds @ s = ds' @ s'" "valid_utf8 s'" by blast
    then show "valid_utf8 s" using e(3) append_eq_append_conv [of ds ds' s s'] by simp
  qed
  finally show ?thesis using e(1) by simp
qed

section \<open>Properties\<close>

text \<open>C35: \<^verbatim>\<open>valid_utf8\<close> accepts exactly the byte strings that are UTF-8 encodings of a sequence of
  Unicode scalar values: no overlong form, no surrogate, nothing above U+10FFFF and no truncated
  sequence passes, and no encoding is refused.\<close>

theorem valid_utf8_iff:
  "valid_utf8 s \<longleftrightarrow> (\<exists>ns. (\<forall>n\<in>set ns. scalar n) \<and> s = concat (map utf8_enc ns))"
proof
  assume "\<exists>ns. (\<forall>n\<in>set ns. scalar n) \<and> s = concat (map utf8_enc ns)"
  then obtain ns where "\<forall>n\<in>set ns. scalar n" "s = concat (map utf8_enc ns)" by blast
  then show "valid_utf8 s"
    by (induction ns arbitrary: s) (simp_all add: valid_utf8_enc valid_utf8.simps [of "[]"])
next
  show "valid_utf8 s \<Longrightarrow> \<exists>ns. (\<forall>n\<in>set ns. scalar n) \<and> s = concat (map utf8_enc ns)"
  proof (induction "length s" arbitrary: s rule: less_induct)
    case less
    show ?case
    proof (cases s)
      case (Cons c r)
      obtain n s' where n: "scalar n" "s = utf8_enc n @ s'" "valid_utf8 s'" "length s' < length s"
      proof (cases "byte_of c < (128 :: nat)")
        case True
        then show thesis
          using that [of "byte_of c" r] less.prems Cons by (auto simp: valid_utf8_ascii utf8_enc_ascii scalar_def)
      next
        case False
        then obtain k mn v ds s' n where d: "lead_class c = Some (k, mn, v)" "length ds = k" "r = ds @ s'"
          "\<forall>d\<in>set ds. is_cont d" "n = cont_value v ds" "mn \<le> n" "scalar n" "valid_utf8 s'"
          using less.prems Cons valid_utf8_multi [of c r] by auto
        from lead_enc [OF d(1,2,4,6,7,5)] show thesis
          using that [of n s'] d Cons by simp
      qed
      then obtain ns where "\<forall>n\<in>set ns. scalar n" "s' = concat (map utf8_enc ns)"
        using less.hyps by blast
      then show ?thesis using n by (intro exI [of _ "n # ns"]) simp
    qed (simp add: exI [of _ "[]"])
  qed
qed

theorem valid_utf8_iff_witness: "valid_utf8 (concat (map utf8_enc [0x41, 0xE9, 0x20AC, 0x1F600]))"
  using valid_utf8_iff [of "concat (map utf8_enc [0x41, 0xE9, 0x20AC, 0x1F600])"]
  by (auto simp: scalar_def intro!: exI [of _ "[0x41, 0xE9, 0x20AC, 0x1F600]"])

section \<open>The conversions as the callers use them\<close>

text \<open>
  The callers run the conversions with the process heap; here its answers depend on the size asked for
  alone. \<open>to_wide\<close> and \<open>to_utf8\<close> are the two functions under those answers.
\<close>


record text_env =
  tx_wide :: "cstr \<Rightarrow> wstr option"
  tx_utf8 :: "wstr \<Rightarrow> cstr option"
  tx_malloc :: "size_t \<Rightarrow> bool"

definition to_wide :: "text_env \<Rightarrow> cstr \<Rightarrow> wstr option" where
  "to_wide T s = fst (mt_utf8_to_wide (tx_wide T) (\<lambda>m n. (tx_malloc T n, m)) (Some s) ())"

definition to_utf8 :: "text_env \<Rightarrow> wstr \<Rightarrow> int \<Rightarrow> cstr option" where
  "to_utf8 T w count = fst (mt_wide_to_utf8 (tx_utf8 T) (\<lambda>m n. (tx_malloc T n, m)) (Some w) count ())"

lemma to_wide_eq:
  "to_wide T s = (case tx_wide T s of None \<Rightarrow> None
     | Some w \<Rightarrow> if tx_malloc T (of_nat (length w + 1) * 2) then Some w else None)"
  by (simp add: to_wide_def mt_utf8_to_wide_def split: option.split)

lemma to_wide_Some [result_simps]: "to_wide T s = Some w \<Longrightarrow> tx_wide T s = Some w"
  by (auto simp: to_wide_eq split: option.splits if_splits)

end
