(* ===== verification/JsonDoc.thy ===== *)
theory JsonDoc
  imports Bytes "HOL-Library.Multiset" "HOL-Library.Product_Lexorder"
begin

text \<open>
  JSON documents of \<^verbatim>\<open>src/json.c\<close>: the values yyjson's reader delivers, the Tcl values they map
  to (\<^verbatim>\<open>yy_to_tcl\<close>, \<^verbatim>\<open>yy_mut_to_tcl\<close>), duplicate detection (\<^verbatim>\<open>JsonKeyCompare\<close>,
  \<^verbatim>\<open>JsonObjHasDuplicate\<close>) and the strictness walk \<^verbatim>\<open>JsonCheckStrict\<close>. yyjson itself is a
  parameter; its values are the trees its public iterators walk. An immutable and a mutable
  document differ only in which of the two mappings reads them.
\<close>

section \<open>Values\<close>

datatype yyval =
    YNull
  | YBool bool
  | YRaw string
  | YNum string
  | YStr string
  | YArr "yyval list"
  | YObj "(string \<times> yyval) list"

datatype jkind = Immutable | Mutable

text \<open>
  A Tcl value by its current representation: a plain string (or any representation that is
  neither list nor dict), an integer object made by the decoder, a list, the unregistered
  \<^verbatim>\<open>arithseries\<close> list, a dict in insertion order, or a typed JSON value.
\<close>

datatype tobj =
    TStr string
  | TInt int
  | TList "tobj list"
  | TSeries "tobj list"
  | TDict "(string \<times> tobj) list"
  | TTyped jkind yyval

definition json_dict_typed :: "tobj \<Rightarrow> bool" where
  "json_dict_typed v = (case v of TDict _ \<Rightarrow> True | _ \<Rightarrow> False)"

definition json_list_typed :: "tobj \<Rightarrow> bool" where
  "json_list_typed v = (case v of TList _ \<Rightarrow> True | TSeries _ \<Rightarrow> True | _ \<Rightarrow> False)"

definition JsonIsTyped :: "tobj \<Rightarrow> bool" where
  "JsonIsTyped v = (case v of TTyped _ _ \<Rightarrow> True | _ \<Rightarrow> False)"

definition JSON_MAX_DEPTH :: nat where "JSON_MAX_DEPTH = 512"

text \<open>\<^verbatim>\<open>Tcl_DictObjPut\<close>: a new key goes last, a present key keeps its place.\<close>

fun dict_put :: "(string \<times> 'a) list \<Rightarrow> string \<Rightarrow> 'a \<Rightarrow> (string \<times> 'a) list" where
  "dict_put [] k v = [(k, v)]"
| "dict_put ((k', v') # d) k v = (if k' = k then (k, v) # d else (k', v') # dict_put d k v)"

section \<open>The plain mapping\<close>

text \<open>The error value is the final \<^verbatim>\<open>*depthErr\<close>: \<open>Inl True\<close> is a depth breach.\<close>

fun yy_to_tcl :: "yyval \<Rightarrow> nat \<Rightarrow> bool + tobj"
  and yy_arr_to_tcl :: "yyval list \<Rightarrow> nat \<Rightarrow> tobj list \<Rightarrow> bool + tobj"
  and yy_obj_to_tcl :: "(string \<times> yyval) list \<Rightarrow> nat \<Rightarrow> (string \<times> tobj) list \<Rightarrow> bool + tobj" where
  "yy_to_tcl v depth =
    (if depth \<ge> JSON_MAX_DEPTH then Inl True
     else case v of
       YNull \<Rightarrow> Inr (TStr [])
     | YBool b \<Rightarrow> Inr (TInt (if b then 1 else 0))
     | YRaw s \<Rightarrow> Inr (TStr s)
     | YStr s \<Rightarrow> Inr (TStr s)
     | YArr els \<Rightarrow> yy_arr_to_tcl els depth []
     | YObj mem \<Rightarrow> yy_obj_to_tcl mem depth []
     | YNum s \<Rightarrow> Inl False)"
| "yy_arr_to_tcl [] depth l = Inr (TList l)"
| "yy_arr_to_tcl (el # els) depth l =
    (case yy_to_tcl el (depth + 1) of
       Inl e \<Rightarrow> Inl e
     | Inr ob \<Rightarrow> yy_arr_to_tcl els depth (l @ [ob]))"
| "yy_obj_to_tcl [] depth d = Inr (TDict d)"
| "yy_obj_to_tcl ((k, val) # mem) depth d =
    (case yy_to_tcl val (depth + 1) of
       Inl e \<Rightarrow> Inl e
     | Inr vo \<Rightarrow> yy_obj_to_tcl mem depth (dict_put d k vo))"

fun yy_mut_to_tcl :: "yyval \<Rightarrow> nat \<Rightarrow> bool + tobj"
  and yy_mut_arr_to_tcl :: "yyval list \<Rightarrow> nat \<Rightarrow> tobj list \<Rightarrow> bool + tobj"
  and yy_mut_obj_to_tcl :: "(string \<times> yyval) list \<Rightarrow> nat \<Rightarrow> (string \<times> tobj) list \<Rightarrow> bool + tobj" where
  "yy_mut_to_tcl v depth =
    (if depth \<ge> JSON_MAX_DEPTH then Inl True
     else case v of
       YNull \<Rightarrow> Inr (TStr [])
     | YBool b \<Rightarrow> Inr (TInt (if b then 1 else 0))
     | YRaw s \<Rightarrow> Inr (TStr s)
     | YNum s \<Rightarrow> Inr (TStr [])
     | YStr s \<Rightarrow> Inr (TStr s)
     | YArr els \<Rightarrow> yy_mut_arr_to_tcl els depth []
     | YObj mem \<Rightarrow> yy_mut_obj_to_tcl mem depth [])"
| "yy_mut_arr_to_tcl [] depth l = Inr (TList l)"
| "yy_mut_arr_to_tcl (el # els) depth l =
    (case yy_mut_to_tcl el (depth + 1) of
       Inl e \<Rightarrow> Inl e
     | Inr ob \<Rightarrow> yy_mut_arr_to_tcl els depth (l @ [ob]))"
| "yy_mut_obj_to_tcl [] depth d = Inr (TDict d)"
| "yy_mut_obj_to_tcl ((k, val) # mem) depth d =
    (case yy_mut_to_tcl val (depth + 1) of
       Inl e \<Rightarrow> Inl e
     | Inr vo \<Rightarrow> yy_mut_obj_to_tcl mem depth (dict_put d k vo))"

definition JsonNodeTag :: "yyval \<Rightarrow> string" where
  "JsonNodeTag v =
    (case v of
       YNull \<Rightarrow> ''null'' | YBool _ \<Rightarrow> ''boolean'' | YNum _ \<Rightarrow> ''number'' | YRaw _ \<Rightarrow> ''number''
     | YStr _ \<Rightarrow> ''string'' | YArr _ \<Rightarrow> ''array'' | YObj _ \<Rightarrow> ''object'')"

section \<open>Duplicate members\<close>

text \<open>The struct \<^verbatim>\<open>JsonKey\<close>, pointer and length, is the byte string it denotes.\<close>

datatype JsonKey = JsonKey (key_bytes: string)

definition JsonKeyCompare :: "JsonKey \<Rightarrow> JsonKey \<Rightarrow> int" where
  "JsonKeyCompare a b =
    (let x = key_bytes a; y = key_bytes b in
     if length x \<noteq> length y then (if length x < length y then - 1 else 1) else memcmp x y)"

text \<open>The comparison is a linear order, so \<^verbatim>\<open>qsort\<close> with it is the library's \<^const>\<open>sort\<close>.\<close>

definition key_rank :: "JsonKey \<Rightarrow> nat \<times> nat list" where
  "key_rank a = (length (key_bytes a), map byte_of (key_bytes a))"

lemma JsonKeyCompare_rank: "JsonKeyCompare a b \<le> 0 \<longleftrightarrow> key_rank a \<le> key_rank b"
  by (auto simp: JsonKeyCompare_def key_rank_def Let_def memcmp_lex)

lemma map_byte_inj: "map byte_of x = (map byte_of y :: nat list) \<Longrightarrow> x = y"
  by (induction x arbitrary: y) auto

lemma key_rank_inj: "key_rank a = key_rank b \<Longrightarrow> a = b"
  by (cases a; cases b) (auto simp: key_rank_def dest: map_byte_inj)

instantiation JsonKey :: linorder
begin

definition less_eq_JsonKey :: "JsonKey \<Rightarrow> JsonKey \<Rightarrow> bool" where
  "less_eq_JsonKey a b \<longleftrightarrow> JsonKeyCompare a b \<le> 0"

definition less_JsonKey :: "JsonKey \<Rightarrow> JsonKey \<Rightarrow> bool" where
  "less_JsonKey a b \<longleftrightarrow> JsonKeyCompare a b \<le> 0 \<and> \<not> JsonKeyCompare b a \<le> 0"

instance
  by standard (auto simp: less_eq_JsonKey_def less_JsonKey_def JsonKeyCompare_rank intro: key_rank_inj)

end

definition key_qsort :: "JsonKey list \<Rightarrow> JsonKey list" where
  "key_qsort keys = sort keys"

text \<open>The pairwise scan for at most 16 members, and the adjacent scan of the sorted keys.\<close>

fun dup_pairwise :: "string list \<Rightarrow> string option" where
  "dup_pairwise [] = None"
| "dup_pairwise (k # rest) = (if list_ex (\<lambda>k2. length k2 = length k \<and> memcmp k2 k = 0) rest then Some k else dup_pairwise rest)"

fun dup_adjacent :: "JsonKey list \<Rightarrow> string option" where
  "dup_adjacent (k # k2 # rest) =
    (if length (key_bytes k2) = length (key_bytes k) \<and> memcmp (key_bytes k2) (key_bytes k) = 0
     then Some (key_bytes k2) else dup_adjacent (k2 # rest))"
| "dup_adjacent ks = None"

text \<open>The outcome \<open>None\<close> is the return value -1; \<open>Some (Some k)\<close> is 1 with \<^verbatim>\<open>*badKey\<close>.\<close>

definition JsonObjHasDuplicate :: "(size_t \<Rightarrow> bool) \<Rightarrow> (string \<times> 'a) list \<Rightarrow> string option option" where
  "JsonObjHasDuplicate malloc mem =
    (let n = length mem; ks = map fst mem in
     if n < 2 then Some None
     else if n \<le> 16 then Some (dup_pairwise ks)
     else if \<not> malloc (of_nat n * 16) then None
     else Some (dup_adjacent (key_qsort (map JsonKey ks))))"

section \<open>Strictness\<close>

datatype strict_err = DupKey string | TooDeep | OutOfMemory

fun JsonCheckStrict :: "(size_t \<Rightarrow> bool) \<Rightarrow> yyval \<Rightarrow> nat \<Rightarrow> strict_err option"
  and strict_arr :: "(size_t \<Rightarrow> bool) \<Rightarrow> yyval list \<Rightarrow> nat \<Rightarrow> strict_err option"
  and strict_obj :: "(size_t \<Rightarrow> bool) \<Rightarrow> (string \<times> yyval) list \<Rightarrow> nat \<Rightarrow> strict_err option" where
  "JsonCheckStrict malloc v depth =
    (if depth \<ge> JSON_MAX_DEPTH then Some TooDeep
     else case v of
       YArr els \<Rightarrow> strict_arr malloc els depth
     | YObj mem \<Rightarrow>
        (case JsonObjHasDuplicate malloc mem of
           None \<Rightarrow> Some OutOfMemory
         | Some (Some k) \<Rightarrow> Some (DupKey k)
         | Some None \<Rightarrow> strict_obj malloc mem depth)
     | _ \<Rightarrow> None)"
| "strict_arr malloc [] depth = None"
| "strict_arr malloc (el # els) depth =
    (case JsonCheckStrict malloc el (depth + 1) of
       Some e \<Rightarrow> Some e
     | None \<Rightarrow> strict_arr malloc els depth)"
| "strict_obj malloc [] depth = None"
| "strict_obj malloc ((k, val) # mem) depth =
    (case JsonCheckStrict malloc val (depth + 1) of
       Some e \<Rightarrow> Some e
     | None \<Rightarrow> strict_obj malloc mem depth)"

section \<open>Depth and distinctness of a document\<close>

fun ydepth :: "yyval \<Rightarrow> nat"
  and ydepth_arr :: "yyval list \<Rightarrow> nat"
  and ydepth_obj :: "(string \<times> yyval) list \<Rightarrow> nat" where
  "ydepth v = (case v of YArr els \<Rightarrow> Suc (ydepth_arr els) | YObj mem \<Rightarrow> Suc (ydepth_obj mem) | _ \<Rightarrow> 1)"
| "ydepth_arr [] = 0"
| "ydepth_arr (el # els) = max (ydepth el) (ydepth_arr els)"
| "ydepth_obj [] = 0"
| "ydepth_obj ((k, val) # mem) = max (ydepth val) (ydepth_obj mem)"

fun no_dups :: "yyval \<Rightarrow> bool"
  and no_dups_arr :: "yyval list \<Rightarrow> bool"
  and no_dups_obj :: "(string \<times> yyval) list \<Rightarrow> bool" where
  "no_dups v \<longleftrightarrow> (case v of YArr els \<Rightarrow> no_dups_arr els
     | YObj mem \<Rightarrow> distinct (map fst mem) \<and> no_dups_obj mem | _ \<Rightarrow> True)"
| "no_dups_arr [] \<longleftrightarrow> True"
| "no_dups_arr (el # els) \<longleftrightarrow> no_dups el \<and> no_dups_arr els"
| "no_dups_obj [] \<longleftrightarrow> True"
| "no_dups_obj ((k, val) # mem) \<longleftrightarrow> no_dups val \<and> no_dups_obj mem"

section \<open>Duplicate detection is exact\<close>

lemma dup_pairwise_none: "dup_pairwise ks = None \<longleftrightarrow> distinct ks"
  by (induction ks) (auto simp: list_ex_iff memcmp_eq)

lemma dup_pairwise_some: "dup_pairwise ks = Some k \<Longrightarrow> 2 \<le> count_list ks k"
proof (induction ks)
  case (Cons a ks)
  show ?case
  proof (cases "a \<in> set ks")
    case True
    then have "list_ex (\<lambda>k2. length k2 = length a \<and> memcmp k2 a = 0) ks"
      by (auto simp: list_ex_iff memcmp_eq)
    then have "k = a" using Cons.prems by simp
    moreover have "count_list ks a \<noteq> 0" using True by (simp add: count_list_0_iff)
    ultimately show ?thesis by simp
  next
    case False
    then have "\<not> list_ex (\<lambda>k2. length k2 = length a \<and> memcmp k2 a = 0) ks"
      by (auto simp: list_ex_iff memcmp_eq)
    then show ?thesis using Cons by (simp split: if_splits)
  qed
qed simp

lemma key_bytes_eq: "length (key_bytes b) = length (key_bytes a) \<and> memcmp (key_bytes b) (key_bytes a) = 0 \<longleftrightarrow> a = b"
  by (cases a; cases b) (auto simp: memcmp_eq)

lemma dup_adjacent_none: "sorted ks \<Longrightarrow> dup_adjacent ks = None \<longleftrightarrow> distinct ks"
proof (induction ks rule: dup_adjacent.induct)
  case (1 k k2 rest)
  have "k \<noteq> k2 \<Longrightarrow> k \<notin> set rest"
    using 1(2) by (auto dest!: bspec [where x = k])
  then show ?case using 1 by (auto simp: key_bytes_eq)
qed auto

lemma dup_adjacent_some: "dup_adjacent ks = Some k \<Longrightarrow> 2 \<le> count_list ks (JsonKey k)"
proof (induction ks rule: dup_adjacent.induct)
  case (1 a b rest)
  show ?case
  proof (cases "a = b")
    case True
    then have "k = key_bytes b" using 1(2) by (simp add: memcmp_eq)
    then show ?thesis using True by (cases b) simp
  next
    case False
    then show ?thesis using 1 by (auto simp: key_bytes_eq)
  qed
qed auto

lemma count_list_sort: "count_list (sort ks) (x :: JsonKey) = count_list ks x"
  by (metis count_mset mset_sort)

lemma count_list_JsonKey: "count_list (map JsonKey ks) (JsonKey k) = count_list ks k"
  by (induction ks) auto

lemma JsonObjHasDuplicate_cases:
  "case JsonObjHasDuplicate malloc mem of
     None \<Rightarrow> 16 < length mem \<and> \<not> malloc (of_nat (length mem) * 16)
   | Some None \<Rightarrow> distinct (map fst mem)
   | Some (Some k) \<Rightarrow> 2 \<le> count_list (map fst mem) k"
proof -
  have small: "distinct (map fst mem)" if "length mem < 2"
    using that by (cases mem) auto
  have large: "dup_adjacent (key_qsort (map JsonKey ks)) = None \<longleftrightarrow> distinct ks" for ks
    using dup_adjacent_none [of "sort (map JsonKey ks)"]
    by (simp add: key_qsort_def distinct_map inj_on_def)
  have "2 \<le> count_list ks k" if "dup_adjacent (key_qsort (map JsonKey ks)) = Some k" for ks k
    using dup_adjacent_some [OF that] by (simp add: key_qsort_def count_list_sort count_list_JsonKey)
  then show ?thesis
    using small large [of "map fst mem"] dup_pairwise_none [of "map fst mem"] dup_pairwise_some [of "map fst mem"]
    by (auto simp: JsonObjHasDuplicate_def Let_def split: option.splits)
qed

definition malloc_ok :: "(size_t \<Rightarrow> bool) \<Rightarrow> bool" where
  "malloc_ok malloc \<longleftrightarrow> (\<forall>n. malloc n)"

lemma count_two_not_distinct: "2 \<le> count_list ks k \<Longrightarrow> \<not> distinct ks"
  by (induction ks) (auto simp: count_list_0_iff split: if_splits)

lemma JsonObjHasDuplicate_ok:
  "malloc_ok malloc \<Longrightarrow> JsonObjHasDuplicate malloc mem = Some None \<longleftrightarrow> distinct (map fst mem)"
  using JsonObjHasDuplicate_cases [where malloc = malloc and mem = mem]
  by (auto simp: malloc_ok_def split: option.splits dest: count_two_not_distinct)

section \<open>Strictness is exact\<close>

lemma strict_sound:
  "JsonCheckStrict malloc v d = None \<Longrightarrow> d + ydepth v \<le> JSON_MAX_DEPTH \<and> no_dups v"
  "d < JSON_MAX_DEPTH \<Longrightarrow> strict_arr malloc els d = None \<Longrightarrow> d + 1 + ydepth_arr els \<le> JSON_MAX_DEPTH \<and> no_dups_arr els"
  "d < JSON_MAX_DEPTH \<Longrightarrow> strict_obj malloc mem d = None \<Longrightarrow> d + 1 + ydepth_obj mem \<le> JSON_MAX_DEPTH \<and> no_dups_obj mem"
proof (induction malloc v d and malloc els d and malloc mem d rule: JsonCheckStrict_strict_arr_strict_obj.induct)
  case (1 malloc v d)
  then have d: "d < JSON_MAX_DEPTH" by (auto split: if_splits)
  show ?case
  proof (cases v)
    case (YObj mem)
    then have "JsonObjHasDuplicate malloc mem = Some None" using 1 d by (auto split: option.splits)
    then show ?thesis
      using 1 d YObj JsonObjHasDuplicate_cases [where malloc = malloc and mem = mem] by (auto split: option.splits)
  qed (use 1 d in auto)
qed (auto split: option.splits)

lemma strict_complete:
  "malloc_ok malloc \<Longrightarrow> d + ydepth v \<le> JSON_MAX_DEPTH \<Longrightarrow> no_dups v \<Longrightarrow> JsonCheckStrict malloc v d = None"
  "malloc_ok malloc \<Longrightarrow> d + 1 + ydepth_arr els \<le> JSON_MAX_DEPTH \<Longrightarrow> no_dups_arr els \<Longrightarrow> strict_arr malloc els d = None"
  "malloc_ok malloc \<Longrightarrow> d + 1 + ydepth_obj mem \<le> JSON_MAX_DEPTH \<Longrightarrow> no_dups_obj mem \<Longrightarrow> strict_obj malloc mem d = None"
proof (induction malloc v d and malloc els d and malloc mem d rule: JsonCheckStrict_strict_arr_strict_obj.induct)
  case (1 malloc v d)
  then have d: "d < JSON_MAX_DEPTH" by (cases v) auto
  show ?case
    using 1 d by (cases v) (auto simp: JsonObjHasDuplicate_ok [THEN iffD2])
qed auto

lemma strict_error:
  "JsonCheckStrict malloc v d = Some e \<Longrightarrow>
     (e = TooDeep \<longrightarrow> d + ydepth v > JSON_MAX_DEPTH) \<and> (\<forall>k. e = DupKey k \<longrightarrow> \<not> no_dups v) \<and>
     (e = OutOfMemory \<longrightarrow> (\<exists>n. \<not> malloc n))"
  "strict_arr malloc els d = Some e \<Longrightarrow>
     (e = TooDeep \<longrightarrow> d + 1 + ydepth_arr els > JSON_MAX_DEPTH) \<and> (\<forall>k. e = DupKey k \<longrightarrow> \<not> no_dups_arr els) \<and>
     (e = OutOfMemory \<longrightarrow> (\<exists>n. \<not> malloc n))"
  "strict_obj malloc mem d = Some e \<Longrightarrow>
     (e = TooDeep \<longrightarrow> d + 1 + ydepth_obj mem > JSON_MAX_DEPTH) \<and> (\<forall>k. e = DupKey k \<longrightarrow> \<not> no_dups_obj mem) \<and>
     (e = OutOfMemory \<longrightarrow> (\<exists>n. \<not> malloc n))"
proof (induction malloc v d and malloc els d and malloc mem d rule: JsonCheckStrict_strict_arr_strict_obj.induct)
  case (1 malloc v d)
  show ?case
  proof (cases "d < JSON_MAX_DEPTH")
    case False
    then show ?thesis using 1 by (cases v) auto
  next
    case True
    show ?thesis
    proof (cases v)
      case (YObj mem)
      then show ?thesis
        using 1 True JsonObjHasDuplicate_cases [where malloc = malloc and mem = mem]
        by (auto split: option.splits dest: count_two_not_distinct)
    qed (use 1 True in auto)
  qed
qed (auto split: option.splits)

section \<open>The mapping, without the depth argument\<close>

definition put_all :: "(string \<times> 'a) list \<Rightarrow> (string \<times> 'a) list \<Rightarrow> (string \<times> 'a) list" where
  "put_all d ps = foldl (\<lambda>d (k, v). dict_put d k v) d ps"

lemma put_all_simps [simp]:
  "put_all d [] = d"
  "put_all d ((k, v) # ps) = put_all (dict_put d k v) ps"
  by (simp_all add: put_all_def)

lemma map_of_dict_put: "map_of (dict_put d k v) = (map_of d)(k \<mapsto> v)"
  by (induction d k v rule: dict_put.induct) auto

lemma dict_put_keys: "set (map fst (dict_put d k v)) = insert k (set (map fst d))"
  by (induction d k v rule: dict_put.induct) auto

lemma distinct_dict_put: "distinct (map fst d) \<Longrightarrow> distinct (map fst (dict_put d k v))"
proof (induction d k v rule: dict_put.induct)
  case (2 k' v' d k v)
  then show ?case using dict_put_keys [of d k v] by auto
qed simp

lemma dict_put_fresh: "k \<notin> set (map fst d) \<Longrightarrow> dict_put d k v = d @ [(k, v)]"
  by (induction d k v rule: dict_put.induct) auto

text \<open>The last of several equal keys wins; distinct keys keep their order.\<close>

lemma map_of_put_all: "map_of (put_all d ps) = map_of d ++ map_of (rev ps)"
  by (induction ps arbitrary: d) (auto simp: map_of_dict_put map_add_def fun_eq_iff split: option.splits)

lemma distinct_put_all: "distinct (map fst d) \<Longrightarrow> distinct (map fst (put_all d ps))"
  by (induction ps arbitrary: d) (auto simp: distinct_dict_put)

lemma put_all_distinct: "distinct (map fst (d @ ps)) \<Longrightarrow> put_all d ps = d @ ps"
proof (induction ps arbitrary: d)
  case (Cons p ps)
  then show ?case by (cases p) (simp add: dict_put_fresh)
qed simp

fun plain :: "yyval \<Rightarrow> tobj"
  and plain_arr :: "yyval list \<Rightarrow> tobj list"
  and plain_obj :: "(string \<times> yyval) list \<Rightarrow> (string \<times> tobj) list" where
  "plain v =
    (case v of
       YNull \<Rightarrow> TStr [] | YBool b \<Rightarrow> TInt (if b then 1 else 0) | YRaw s \<Rightarrow> TStr s | YNum s \<Rightarrow> TStr []
     | YStr s \<Rightarrow> TStr s | YArr els \<Rightarrow> TList (plain_arr els) | YObj mem \<Rightarrow> TDict (put_all [] (plain_obj mem)))"
| "plain_arr [] = []"
| "plain_arr (el # els) = plain el # plain_arr els"
| "plain_obj [] = []"
| "plain_obj ((k, val) # mem) = (k, plain val) # plain_obj mem"

text \<open>yyjson's reader never makes a \<^verbatim>\<open>NUM\<close> node under \<^verbatim>\<open>YYJSON_READ_NUMBER_AS_RAW\<close>.\<close>

fun raw_numbers :: "yyval \<Rightarrow> bool"
  and raw_numbers_arr :: "yyval list \<Rightarrow> bool"
  and raw_numbers_obj :: "(string \<times> yyval) list \<Rightarrow> bool" where
  "raw_numbers v \<longleftrightarrow> (case v of YNum _ \<Rightarrow> False | YArr els \<Rightarrow> raw_numbers_arr els | YObj mem \<Rightarrow> raw_numbers_obj mem | _ \<Rightarrow> True)"
| "raw_numbers_arr [] \<longleftrightarrow> True"
| "raw_numbers_arr (el # els) \<longleftrightarrow> raw_numbers el \<and> raw_numbers_arr els"
| "raw_numbers_obj [] \<longleftrightarrow> True"
| "raw_numbers_obj ((k, val) # mem) \<longleftrightarrow> raw_numbers val \<and> raw_numbers_obj mem"

lemma ydepth_pos: "0 < ydepth v"
  by (cases v) auto

lemma yy_to_tcl_exact:
  "raw_numbers v \<Longrightarrow> yy_to_tcl v d = (if d + ydepth v \<le> JSON_MAX_DEPTH then Inr (plain v) else Inl True)"
  "raw_numbers_arr els \<Longrightarrow> d < JSON_MAX_DEPTH \<Longrightarrow> yy_arr_to_tcl els d l =
     (if d + 1 + ydepth_arr els \<le> JSON_MAX_DEPTH then Inr (TList (l @ plain_arr els)) else Inl True)"
  "raw_numbers_obj mem \<Longrightarrow> d < JSON_MAX_DEPTH \<Longrightarrow> yy_obj_to_tcl mem d t =
     (if d + 1 + ydepth_obj mem \<le> JSON_MAX_DEPTH then Inr (TDict (put_all t (plain_obj mem))) else Inl True)"
proof (induction v d and els d l and mem d t rule: yy_to_tcl_yy_arr_to_tcl_yy_obj_to_tcl.induct)
  case (1 v d)
  show ?case
  proof (cases "d < JSON_MAX_DEPTH")
    case False
    then show ?thesis using ydepth_pos [of v] by (simp del: ydepth.simps)
  next
    case True
    then show ?thesis using 1 by (cases v) auto
  qed
qed auto

lemma yy_mut_to_tcl_exact:
  "yy_mut_to_tcl v d = (if d + ydepth v \<le> JSON_MAX_DEPTH then Inr (plain v) else Inl True)"
  "d < JSON_MAX_DEPTH \<Longrightarrow> yy_mut_arr_to_tcl els d l =
     (if d + 1 + ydepth_arr els \<le> JSON_MAX_DEPTH then Inr (TList (l @ plain_arr els)) else Inl True)"
  "d < JSON_MAX_DEPTH \<Longrightarrow> yy_mut_obj_to_tcl mem d t =
     (if d + 1 + ydepth_obj mem \<le> JSON_MAX_DEPTH then Inr (TDict (put_all t (plain_obj mem))) else Inl True)"
proof (induction v d and els d l and mem d t rule: yy_mut_to_tcl_yy_mut_arr_to_tcl_yy_mut_obj_to_tcl.induct)
  case (1 v d)
  show ?case
  proof (cases "d < JSON_MAX_DEPTH")
    case False
    then show ?thesis using ydepth_pos [of v] by (simp del: ydepth.simps)
  next
    case True
    then show ?thesis using 1 by (cases v) auto
  qed
qed auto

section \<open>Properties\<close>

text \<open>the duplicate check is exact whichever scan runs: for at most 16 members (pairwise) and for more
  (sorted by \<^verbatim>\<open>JsonKeyCompare\<close>, adjacent) it answers "distinct" only for distinct member names, names
  a member that really occurs twice, and reports an allocation failure only for more than 16
  members whose key table could not be allocated.\<close>

theorem duplicate_check_exact:
  "case JsonObjHasDuplicate malloc mem of
     None \<Rightarrow> 16 < length mem \<and> \<not> malloc (of_nat (length mem) * 16)
   | Some None \<Rightarrow> distinct (map fst mem)
   | Some (Some k) \<Rightarrow> 2 \<le> count_list (map fst mem) k"
  by (rule JsonObjHasDuplicate_cases)

text \<open>C23: with memory available, strict decoding accepts a document exactly when its nesting is at most
  512 and every object at every level has distinct members; when it refuses, the reason it gives
  is the true one.\<close>

theorem strict_exact:
  assumes "\<forall>n. malloc n"
  shows "(JsonCheckStrict malloc v 0 = None \<longleftrightarrow> ydepth v \<le> 512 \<and> no_dups v) \<and>
    (JsonCheckStrict malloc v 0 = Some TooDeep \<longrightarrow> ydepth v > 512) \<and>
    (\<forall>k. JsonCheckStrict malloc v 0 = Some (DupKey k) \<longrightarrow> \<not> no_dups v) \<and>
    JsonCheckStrict malloc v 0 \<noteq> Some OutOfMemory"
  using strict_sound(1) [of malloc v 0] strict_complete(1) [of malloc 0 v] strict_error(1) [of malloc v 0] assms
  by (auto simp: malloc_ok_def JSON_MAX_DEPTH_def simp del: JsonCheckStrict.simps ydepth.simps no_dups.simps)

theorem strict_exact_witness:
  "JsonCheckStrict (\<lambda>n. n = n) (YArr [YObj [(''a'', YNull), (''b'', YRaw ''1'')], YStr ''x'']) 0 = None"
  using strict_exact [of "\<lambda>n. n = n" "YArr [YObj [(''a'', YNull), (''b'', YRaw ''1'')], YStr ''x'']"]
  by simp

text \<open>the plain mapping is total and caps depth instead of overflowing: a document the reader delivers
  maps to its plain value exactly when it nests at most 512 deep and is refused as too deep otherwise,
  for immutable and mutable documents alike.\<close>

theorem plain_mapping_exact:
  assumes "raw_numbers v"
  shows "yy_to_tcl v 0 = (if ydepth v \<le> 512 then Inr (plain v) else Inl True) \<and>
    yy_mut_to_tcl v 0 = (if ydepth v \<le> 512 then Inr (plain v) else Inl True)"
  using yy_to_tcl_exact(1) [OF assms, of 0] yy_mut_to_tcl_exact(1) [of v 0]
  by (simp add: JSON_MAX_DEPTH_def del: yy_to_tcl.simps yy_mut_to_tcl.simps ydepth.simps plain.simps)

theorem plain_mapping_exact_witness:
  "yy_to_tcl (YObj [(''k'', YRaw ''1''), (''k'', YArr [YBool True])]) 0 = Inr (TDict [(''k'', TList [TInt 1])])"
  using plain_mapping_exact [of "YObj [(''k'', YRaw ''1''), (''k'', YArr [YBool True])]"]
  by simp

end
