(* ===== verification/JsonText.thy ===== *)
theory JsonText
  imports JsonDoc
begin

text \<open>
  The emitter of \<^verbatim>\<open>src/json.c\<close>: the number-literal test that decides what is written bare
  (\<^verbatim>\<open>json_is_number_literal\<close>), string quoting (\<^verbatim>\<open>json_quote\<close>) and \<^verbatim>\<open>json_emit\<close> with its list
  and dict parts. Tcl's representation conversions and yyjson's writer are parameters, bundled in
  \<open>tcl_lib\<close>. The text each routine appends to its \<^verbatim>\<open>Tcl_DString\<close> is its result.
\<close>

section \<open>Number literals\<close>

text \<open>The index \<^verbatim>\<open>i\<close> of the code is the rest of the string it points to.\<close>

definition skip_sign :: "string \<Rightarrow> string" where
  "skip_sign f = (case f of [] \<Rightarrow> f | d # f' \<Rightarrow> if d = CHR ''+'' \<or> d = CHR ''-'' then f' else f)"

definition number_exp :: "string \<Rightarrow> bool" where
  "number_exp r =
    (case r of
       [] \<Rightarrow> True
     | c # f \<Rightarrow>
        if c = CHR ''e'' \<or> c = CHR ''E'' then
          (let g = skip_sign f in
           case g of [] \<Rightarrow> False | d # _ \<Rightarrow> if is_digit d then dropWhile is_digit g = [] else False)
        else False)"

definition number_frac :: "string \<Rightarrow> bool" where
  "number_frac r =
    (case r of
       [] \<Rightarrow> number_exp r
     | c # f \<Rightarrow>
        if c = CHR ''.'' then
          (case f of [] \<Rightarrow> False | d # _ \<Rightarrow> if is_digit d then number_exp (dropWhile is_digit f) else False)
        else number_exp r)"

definition json_is_number_literal :: "string \<Rightarrow> bool" where
  "json_is_number_literal s =
    (case s of
       [] \<Rightarrow> False
     | c # s' \<Rightarrow>
        (let r = (if c = CHR ''-'' then s' else s) in
         case r of
           [] \<Rightarrow> False
         | d # r' \<Rightarrow>
            if d = CHR ''0'' then number_frac r'
            else if in_range CHR ''1'' CHR ''9'' d then number_frac (dropWhile is_digit r)
            else False))"

section \<open>Quoting\<close>

text \<open>What the \<^verbatim>\<open>switch\<close> of \<^verbatim>\<open>json_quote\<close> appends for one byte; \<open>''\u00''\<close> and two digits is \<^verbatim>\<open>%04x\<close> below 0x20.\<close>

definition json_escape :: "char \<Rightarrow> string" where
  "json_escape c =
    (if c = DQ then [BS, DQ]
     else if c = BS then [BS, BS]
     else if c = CHR 0x08 then [BS] @ ''b''
     else if c = CHR 0x0C then [BS] @ ''f''
     else if c = LF then [BS] @ ''n''
     else if c = CR then [BS] @ ''r''
     else if c = TAB then [BS] @ ''t''
     else if byte_of c < (0x20 :: nat) then
       [BS] @ ''u00'' @ [hex_digit (byte_of c div 16), hex_digit (byte_of c mod 16)]
     else [c])"

fun quote_loop :: "string \<Rightarrow> string" where
  "quote_loop [] = []"
| "quote_loop (c # s) = json_escape c @ quote_loop s"

definition json_quote :: "string \<Rightarrow> string" where
  "json_quote s = [DQ] @ quote_loop s @ [DQ]"

section \<open>The emitter\<close>

text \<open>
  \<^verbatim>\<open>Tcl_GetStringFromObj\<close>, \<^verbatim>\<open>Tcl_ListObjGetElements\<close>, \<^verbatim>\<open>Tcl_DictObjFirst/Next\<close>,
  \<^verbatim>\<open>Tcl_GetWideIntFromObj\<close> and \<^verbatim>\<open>Tcl_GetBooleanFromObj\<close> (\<open>None\<close> is \<^verbatim>\<open>TCL_ERROR\<close>), yyjson's reader
  (error text and position, or the root), its writer (\<open>None\<close> is \<^verbatim>\<open>NULL\<close>), whether a node could be
  allocated in a document and a document be made, and \<^verbatim>\<open>malloc\<close>.
\<close>

record tcl_lib =
  tcl_string :: "tobj \<Rightarrow> string"
  tcl_list :: "tobj \<Rightarrow> tobj list option"
  tcl_dict :: "tobj \<Rightarrow> (string \<times> tobj) list option"
  tcl_wide :: "tobj \<Rightarrow> int option"
  tcl_bool :: "tobj \<Rightarrow> bool option"
  yy_read :: "string \<Rightarrow> (string option \<times> nat) + yyval"
  yy_write :: "yyval \<Rightarrow> string option"
  yy_mem :: "yyval \<Rightarrow> bool"
  yy_doc :: bool
  c_malloc :: "size_t \<Rightarrow> bool"

text \<open>The string of a typed value is the writer's text, or \<^verbatim>\<open>null\<close> (\<^verbatim>\<open>JsonTypeString\<close>).\<close>

definition JsonTypeString :: "tcl_lib \<Rightarrow> yyval \<Rightarrow> string" where
  "JsonTypeString T node = (case yy_write T node of None \<Rightarrow> ''null'' | Some s \<Rightarrow> s)"

definition obj_string :: "tcl_lib \<Rightarrow> tobj \<Rightarrow> string" where
  "obj_string T v = (case v of TTyped _ node \<Rightarrow> JsonTypeString T node | _ \<Rightarrow> tcl_string T v)"

abbreviation JsonErr :: "string \<Rightarrow> string \<Rightarrow> mt_error" where
  "JsonErr code msg \<equiv> MtError ''JSON'' code msg"

function json_emit :: "tcl_lib \<Rightarrow> tobj \<Rightarrow> bool \<Rightarrow> nat \<Rightarrow> bool \<Rightarrow> string res"
  and json_emit_list :: "tcl_lib \<Rightarrow> tobj \<Rightarrow> nat \<Rightarrow> bool \<Rightarrow> string res"
  and emit_elements :: "tcl_lib \<Rightarrow> bool \<Rightarrow> tobj list \<Rightarrow> nat \<Rightarrow> bool \<Rightarrow> string res"
  and json_emit_dict :: "tcl_lib \<Rightarrow> tobj \<Rightarrow> nat \<Rightarrow> bool \<Rightarrow> string res"
  and emit_members :: "tcl_lib \<Rightarrow> bool \<Rightarrow> (string \<times> tobj) list \<Rightarrow> nat \<Rightarrow> bool \<Rightarrow> string res" where
  "json_emit T v as_dict depth plainOnly =
    (if depth \<ge> JSON_MAX_DEPTH then Inl (JsonErr ''depth'' ''value is too deeply nested'')
     else if JsonIsTyped v then
       (if plainOnly then Inl (JsonErr ''type'' ''typed json value refused on a plain-only path'')
        else case v of TTyped _ node \<Rightarrow>
              (case yy_write T node of
                 None \<Rightarrow> Inl (JsonErr ''type'' ''typed value write failed'')
               | Some s \<Rightarrow> Inr s)
            | _ \<Rightarrow> Inr [])
     else if as_dict then json_emit_dict T v depth plainOnly
     else if json_dict_typed v then json_emit_dict T v depth plainOnly
     else if json_list_typed v then json_emit_list T v depth plainOnly
     else (let s = tcl_string T v in
           if json_is_number_literal s then Inr s else Inr (json_quote s)))"
| "json_emit_list T v depth plainOnly =
    (case tcl_list T v of
       None \<Rightarrow> Inl TclError
     | Some el \<Rightarrow> bind_res (emit_elements T True el depth plainOnly) (\<lambda>t. Inr (''['' @ t @ '']'')))"
| "emit_elements T first [] depth plainOnly = Inr []"
| "emit_elements T first (e # el) depth plainOnly =
    bind_res (json_emit T e False (depth + 1) plainOnly) (\<lambda>t.
    bind_res (emit_elements T False el depth plainOnly) (\<lambda>u.
      Inr ((if first then [] else '','') @ t @ u)))"
| "json_emit_dict T v depth plainOnly =
    (case tcl_dict T v of
       None \<Rightarrow> Inl TclError
     | Some d \<Rightarrow> bind_res (emit_members T True d depth plainOnly) (\<lambda>t. Inr (''{'' @ t @ ''}'')))"
| "emit_members T first [] depth plainOnly = Inr []"
| "emit_members T first ((k, val) # d) depth plainOnly =
    bind_res (json_emit T val False (depth + 1) plainOnly) (\<lambda>t.
    bind_res (emit_members T False d depth plainOnly) (\<lambda>u.
      Inr ((if first then [] else '','') @ json_quote k @ '':'' @ t @ u)))"
  by pat_completeness auto

text \<open>Every call of \<^verbatim>\<open>json_emit\<close> from inside a container is one level deeper, and the cap is 512.\<close>

termination
  by (relation "measures [
      \<lambda>x. case x of Inl (Inl (T, v, a, d, p)) \<Rightarrow> 512 - d | Inl (Inr (T, v, d, p)) \<Rightarrow> 512 - Suc d
        | Inr (Inl (T, f, el, d, p)) \<Rightarrow> 512 - Suc d | Inr (Inr (Inl (T, v, d, p))) \<Rightarrow> 512 - Suc d
        | Inr (Inr (Inr (T, f, el, d, p))) \<Rightarrow> 512 - Suc d,
      \<lambda>x. case x of Inl (Inl _) \<Rightarrow> 0 | Inl (Inr _) \<Rightarrow> 2 | Inr (Inl _) \<Rightarrow> 1 | Inr (Inr (Inl _)) \<Rightarrow> 2
        | Inr (Inr (Inr _)) \<Rightarrow> 1,
      \<lambda>x. case x of Inr (Inl (T, f, el, d, p)) \<Rightarrow> length el | Inr (Inr (Inr (T, f, el, d, p))) \<Rightarrow> length el
        | _ \<Rightarrow> 0]") (auto simp: JSON_MAX_DEPTH_def)

declare json_emit.simps [simp del] json_emit_list.simps [simp del] json_emit_dict.simps [simp del]

section \<open>The JSON number grammar\<close>

text \<open>RFC 8259: an optional minus, an integer part without leading zero, an optional fraction, an optional exponent.\<close>

definition digits1 :: "string \<Rightarrow> bool" where
  "digits1 ds \<longleftrightarrow> ds \<noteq> [] \<and> (\<forall>d\<in>set ds. is_digit d)"

definition int_part :: "string \<Rightarrow> bool" where
  "int_part i \<longleftrightarrow> i = ''0'' \<or> (digits1 i \<and> hd i \<noteq> CHR ''0'')"

definition frac_part :: "string \<Rightarrow> bool" where
  "frac_part f \<longleftrightarrow> f = [] \<or> (\<exists>ds. f = CHR ''.'' # ds \<and> digits1 ds)"

definition exp_part :: "string \<Rightarrow> bool" where
  "exp_part e \<longleftrightarrow> e = [] \<or> (\<exists>c sg ds. e = c # sg @ ds \<and> c \<in> {CHR ''e'', CHR ''E''} \<and> sg \<in> {[], ''+'', ''-''} \<and> digits1 ds)"

definition json_number :: "string \<Rightarrow> bool" where
  "json_number s \<longleftrightarrow>
     (\<exists>m i f e. s = m @ i @ f @ e \<and> m \<in> {[], ''-''} \<and> int_part i \<and> frac_part f \<and> exp_part e)"

lemma not_digit_marks: "\<not> is_digit CHR ''+''" "\<not> is_digit CHR ''-''" "\<not> is_digit CHR ''.''" "\<not> is_digit CHR ''e''" "\<not> is_digit CHR ''E''"
  by (simp_all add: in_range_def)

lemma digit_0: "is_digit CHR ''0''" by (simp add: in_range_def)

lemma digit_range: "in_range CHR ''1'' CHR ''9'' d \<longleftrightarrow> is_digit d \<and> d \<noteq> CHR ''0''"
proof -
  have "byte_of d = (48 :: nat) \<longleftrightarrow> d = CHR ''0''"
    using of_char_eq_iff [where ?'a = nat, of d "CHR ''0''"] by simp
  then show ?thesis by (auto simp: in_range_def)
qed

lemma dropWhile_digits: "digits1 ds \<Longrightarrow> (r = [] \<or> \<not> is_digit (hd r)) \<Longrightarrow> dropWhile is_digit (ds @ r) = r"
  by (cases r) (auto simp: digits1_def dropWhile_append)

lemma digits1_takeWhile: "is_digit (hd g) \<Longrightarrow> g \<noteq> [] \<Longrightarrow> digits1 (takeWhile is_digit g)"
  by (cases g) (auto simp: digits1_def dest: set_takeWhileD)

lemma digits_to_end:
  "(case g of [] \<Rightarrow> False | d # _ \<Rightarrow> if is_digit d then dropWhile is_digit g = [] else False) \<longleftrightarrow> digits1 g"
  by (cases g) (auto simp: digits1_def)

lemma skip_sign_cases: "\<exists>sg. sg \<in> {[], ''+'', ''-''} \<and> f = sg @ skip_sign f"
  by (cases f) (auto simp: skip_sign_def)

lemma skip_sign_digits: "sg \<in> {[], ''+'', ''-''} \<Longrightarrow> digits1 ds \<Longrightarrow> skip_sign (sg @ ds) = ds"
  using not_digit_marks by (cases ds) (auto simp: skip_sign_def digits1_def)

lemma number_exp_iff: "number_exp r \<longleftrightarrow> exp_part r"
proof (cases r)
  case (Cons c f)
  have "number_exp r \<longleftrightarrow> (c = CHR ''e'' \<or> c = CHR ''E'') \<and> digits1 (skip_sign f)"
    by (simp add: Cons number_exp_def Let_def digits_to_end)
  also have "\<dots> \<longleftrightarrow> exp_part r"
  proof
    assume "(c = CHR ''e'' \<or> c = CHR ''E'') \<and> digits1 (skip_sign f)"
    then show "exp_part r" using skip_sign_cases [of f] Cons unfolding exp_part_def by blast
  next
    assume "exp_part r"
    then obtain sg ds where f: "f = sg @ ds" "c = CHR ''e'' \<or> c = CHR ''E''" "sg \<in> {[], ''+'', ''-''}" "digits1 ds"
      using Cons unfolding exp_part_def by blast
    show "(c = CHR ''e'' \<or> c = CHR ''E'') \<and> digits1 (skip_sign f)"
      using f(2,4) by (simp only: f(1) skip_sign_digits [OF f(3,4)] simp_thms)
  qed
  finally show ?thesis .
qed (simp add: number_exp_def exp_part_def)

lemma exp_part_hd: "exp_part e \<Longrightarrow> e = [] \<or> \<not> is_digit (hd e)"
  using not_digit_marks by (auto simp: exp_part_def)

lemma exp_part_dot: "exp_part (CHR ''.'' # f) = False"
  by (auto simp: exp_part_def)

lemma number_frac_iff: "number_frac r \<longleftrightarrow> (\<exists>f e. r = f @ e \<and> frac_part f \<and> exp_part e)"
proof
  assume r: "number_frac r"
  show "\<exists>f e. r = f @ e \<and> frac_part f \<and> exp_part e"
  proof (cases "r \<noteq> [] \<and> hd r = CHR ''.''")
    case True
    then obtain f where f: "r = CHR ''.'' # f" by (cases r) auto
    then have "f \<noteq> []" "is_digit (hd f)" "exp_part (dropWhile is_digit f)"
      using r by (auto simp: number_frac_def number_exp_iff split: list.splits if_splits)
    then show ?thesis
      using f digits1_takeWhile [of f]
      by (intro exI [of _ "CHR ''.'' # takeWhile is_digit f"] exI [of _ "dropWhile is_digit f"])
        (auto simp: frac_part_def)
  next
    case False
    then have "exp_part r" using r by (auto simp: number_frac_def number_exp_iff split: list.splits if_splits)
    then show ?thesis by (intro exI [of _ "[]"] exI [of _ r]) (simp add: frac_part_def)
  qed
next
  assume "\<exists>f e. r = f @ e \<and> frac_part f \<and> exp_part e"
  then obtain f e where fe: "r = f @ e" "frac_part f" "exp_part e" by blast
  from fe(2) consider "f = []" | ds where "f = CHR ''.'' # ds" "digits1 ds" by (auto simp: frac_part_def)
  then show "number_frac r"
  proof cases
    case 1
    then show ?thesis using fe by (cases e) (auto simp: number_frac_def number_exp_iff exp_part_dot)
  next
    case 2
    then obtain d ds' where d: "ds = d # ds'" "is_digit d" by (cases ds) (auto simp: digits1_def)
    have "dropWhile is_digit (ds @ e) = e" by (rule dropWhile_digits [OF 2(2) exp_part_hd [OF fe(3)]])
    then show ?thesis using 2 d fe by (simp add: number_frac_def number_exp_iff)
  qed
qed

lemma frac_exp_hd: "frac_part f \<Longrightarrow> exp_part e \<Longrightarrow> f @ e = [] \<or> \<not> is_digit (hd (f @ e))"
  using exp_part_hd [of e] not_digit_marks by (auto simp: frac_part_def)

definition unsigned_number :: "string \<Rightarrow> bool" where
  "unsigned_number r \<longleftrightarrow> (\<exists>i f e. r = i @ f @ e \<and> int_part i \<and> frac_part f \<and> exp_part e)"

lemma unsigned_number_iff:
  "unsigned_number r \<longleftrightarrow>
    (case r of [] \<Rightarrow> False | d # r' \<Rightarrow>
       if d = CHR ''0'' then number_frac r'
       else if in_range CHR ''1'' CHR ''9'' d then number_frac (dropWhile is_digit r)
       else False)" (is "_ \<longleftrightarrow> ?code")
proof
  assume "unsigned_number r"
  then obtain i f e where p: "r = i @ f @ e" "int_part i" "frac_part f" "exp_part e"
    unfolding unsigned_number_def by blast
  from p(2) consider "i = ''0''" | "digits1 i" "hd i \<noteq> CHR ''0''" by (auto simp: int_part_def)
  then show ?code
  proof cases
    case 1
    then show ?thesis using p by (auto simp: number_frac_iff)
  next
    case 2
    then obtain d i' where d: "i = d # i'" "is_digit d" "d \<noteq> CHR ''0''" by (cases i) (auto simp: digits1_def)
    have "dropWhile is_digit (i @ f @ e) = f @ e" by (rule dropWhile_digits [OF 2(1) frac_exp_hd [OF p(3,4)]])
    then show ?thesis using p d by (auto simp: digit_range number_frac_iff)
  qed
next
  assume c: ?code
  then obtain d r' where r: "r = d # r'" by (cases r) auto
  show "unsigned_number r"
  proof (cases "d = CHR ''0''")
    case True
    then have "number_frac r'" using c r by simp
    then obtain f e where "r' = f @ e" "frac_part f" "exp_part e" by (auto simp: number_frac_iff)
    then show ?thesis unfolding unsigned_number_def using r True
      by (intro exI [of _ "''0''"] exI [of _ f] exI [of _ e]) (simp add: int_part_def)
  next
    case False
    then have d: "is_digit d" and "number_frac (dropWhile is_digit r)"
      using c r by (auto simp: digit_range split: if_splits)
    then obtain f e where fe: "dropWhile is_digit r = f @ e" "frac_part f" "exp_part e" by (auto simp: number_frac_iff)
    have "int_part (takeWhile is_digit r)"
      using digits1_takeWhile [of r] d False r by (simp add: int_part_def)
    moreover have "r = takeWhile is_digit r @ f @ e" using fe(1) by (metis takeWhile_dropWhile_id)
    ultimately show ?thesis unfolding unsigned_number_def using fe by blast
  qed
qed

lemma unsigned_number_minus: "unsigned_number (CHR ''-'' # r) = False"
  using not_digit_marks by (simp add: unsigned_number_iff digit_range)

lemma json_is_number_literal_iff: "json_is_number_literal s \<longleftrightarrow> json_number s"
proof -
  have "json_is_number_literal s \<longleftrightarrow>
      (case s of [] \<Rightarrow> False | c # s' \<Rightarrow> unsigned_number (if c = CHR ''-'' then s' else s))"
    by (auto simp: json_is_number_literal_def unsigned_number_iff Let_def split: list.split)
  also have "\<dots> \<longleftrightarrow> unsigned_number s \<or> (\<exists>s'. s = CHR ''-'' # s' \<and> unsigned_number s')"
    by (cases s) (auto simp: unsigned_number_minus unsigned_number_iff [of "[]"])
  also have "\<dots> \<longleftrightarrow> json_number s"
  proof
    assume "unsigned_number s \<or> (\<exists>s'. s = CHR ''-'' # s' \<and> unsigned_number s')"
    then obtain m r where "m \<in> {[], ''-''}" "s = m @ r" "unsigned_number r"
      by (metis append.left_neutral append_Cons insertCI)
    then show "json_number s" unfolding json_number_def unsigned_number_def by blast
  next
    assume "json_number s"
    then obtain m r where m: "m \<in> {[], ''-''}" "s = m @ r" "unsigned_number r"
      unfolding json_number_def unsigned_number_def by blast
    then show "unsigned_number s \<or> (\<exists>s'. s = CHR ''-'' # s' \<and> unsigned_number s')" by auto
  qed
  finally show ?thesis .
qed

section \<open>Quoting is reversible\<close>

text \<open>
  A reference reader of a JSON string body: it stops at the closing quote, refuses raw control
  bytes, and reads the two-character escapes and \<^verbatim>\<open>\u00XX\<close> for ASCII codes.
\<close>

definition hex_value :: "char \<Rightarrow> nat option" where
  "hex_value c =
    (if is_digit c then Some (byte_of c - 48)
     else if in_range CHR ''a'' CHR ''f'' c then Some (byte_of c - 87)
     else None)"

definition read_escape :: "char \<Rightarrow> char option" where
  "read_escape c =
    (if c = DQ \<or> c = BS \<or> c = CHR ''/'' then Some c
     else if c = CHR ''b'' then Some (CHR 0x08) else if c = CHR ''f'' then Some (CHR 0x0C)
     else if c = CHR ''n'' then Some LF else if c = CHR ''r'' then Some CR
     else if c = CHR ''t'' then Some TAB else None)"

definition read_hex4 :: "string \<Rightarrow> (char \<times> string) option" where
  "read_hex4 s =
    (if length s < 4 \<or> take 2 s \<noteq> ''00'' then None
     else case (hex_value (s ! 2), hex_value (s ! 3)) of
       (Some x, Some y) \<Rightarrow> if 16 * x + y < 128 then Some (char_of (16 * x + y), drop 4 s) else None
     | _ \<Rightarrow> None)"

definition read_item :: "char \<Rightarrow> string \<Rightarrow> (char \<times> string) option" where
  "read_item c s =
    (if c = BS then
       (case s of [] \<Rightarrow> None
        | u # s' \<Rightarrow> if u = CHR ''u'' then read_hex4 s' else map_option (\<lambda>x. (x, s')) (read_escape u))
     else if byte_of c < (0x20 :: nat) then None
     else Some (c, s))"

lemma read_item_length: "read_item c s = Some (x, r) \<Longrightarrow> length r < Suc (length s)"
  by (auto simp: read_item_def read_hex4_def split: list.splits if_splits option.splits)

function read_string :: "string \<Rightarrow> (string \<times> string) option" where
  "read_string s =
    (case s of
       [] \<Rightarrow> None
     | c # s' \<Rightarrow>
        if c = DQ then Some ([], s')
        else case read_item c s' of
          None \<Rightarrow> None
        | Some (x, r) \<Rightarrow> (case read_string r of None \<Rightarrow> None | Some (t, r') \<Rightarrow> Some (x # t, r')))"
  by pat_completeness auto
termination
  by (relation "measure length") (auto dest: read_item_length)

declare read_string.simps [simp del]

lemma read_string_item:
  "c \<noteq> DQ \<Longrightarrow> read_item c s = Some (x, s') \<Longrightarrow> read_string s' = Some (t, r) \<Longrightarrow> read_string (c # s) = Some (x # t, r)"
  by (subst read_string.simps) simp

lemma read_string_end: "read_string (DQ # r) = Some ([], r)"
  by (subst read_string.simps) simp

lemma read_plain:
  "c \<noteq> DQ \<Longrightarrow> c \<noteq> BS \<Longrightarrow> \<not> byte_of c < (0x20 :: nat) \<Longrightarrow> read_string s = Some (t, r) \<Longrightarrow>
   read_string (c # s) = Some (c # t, r)"
  by (rule read_string_item) (simp_all add: read_item_def)

lemma read_short:
  assumes "read_escape u = Some x" "read_string s = Some (t, r)"
  shows "read_string (BS # u # s) = Some (x # t, r)"
proof -
  have "u \<noteq> CHR ''u''" using assms(1) by (auto simp: read_escape_def)
  then show ?thesis using assms by (intro read_string_item [of _ _ x s]) (simp_all add: read_item_def)
qed

lemma read_unicode:
  assumes "hex_value h3 = Some x" "hex_value h4 = Some y" "16 * x + y < 128" "read_string s = Some (t, r)"
  shows "read_string (BS # ''u00'' @ h3 # h4 # s) = Some (char_of (16 * x + y) # t, r)"
  using assms by (intro read_string_item [of _ _ "char_of (16 * x + y)" s])
    (simp_all add: read_item_def read_hex4_def)

lemma hex_value_digit: "n < 16 \<Longrightarrow> hex_value (hex_digit n) = Some n"
proof -
  have "\<forall>n\<in>set [0..<16]. hex_value (hex_digit n) = Some n" by code_simp
  then show "n < 16 \<Longrightarrow> hex_value (hex_digit n) = Some n" by simp
qed

lemma read_escape_simps:
  "read_escape DQ = Some DQ" "read_escape BS = Some BS" "read_escape CHR ''b'' = Some (CHR 0x08)"
  "read_escape CHR ''f'' = Some (CHR 0x0C)" "read_escape CHR ''n'' = Some LF" "read_escape CHR ''r'' = Some CR"
  "read_escape CHR ''t'' = Some TAB"
  by code_simp+

lemma read_json_escape:
  assumes "read_string s = Some (t, r)"
  shows "read_string (json_escape c @ s) = Some (c # t, r)"
proof -
  consider "c \<in> {DQ, BS, CHR 0x08, CHR 0x0C, LF, CR, TAB}"
    | "c \<notin> {DQ, BS, CHR 0x08, CHR 0x0C, LF, CR, TAB}" "byte_of c < (0x20 :: nat)"
    | "c \<notin> {DQ, BS, CHR 0x08, CHR 0x0C, LF, CR, TAB}" "\<not> byte_of c < (0x20 :: nat)"
    by blast
  then show ?thesis
  proof cases
    case 1
    have "\<exists>u. json_escape c = [BS, u] \<and> read_escape u = Some c"
      using 1 read_escape_simps by (auto simp: json_escape_def)
    then obtain u where "json_escape c = [BS, u]" "read_escape u = Some c" by blast
    then show ?thesis using read_short [OF _ assms] by (simp)
  next
    case 2
    let ?n = "byte_of c :: nat"
    have h: "hex_value (hex_digit (?n div 16)) = Some (?n div 16)" "hex_value (hex_digit (?n mod 16)) = Some (?n mod 16)"
      using 2(2) by (intro hex_value_digit; simp)+
    have "16 * (?n div 16) + ?n mod 16 = ?n" by simp
    then have "read_string (BS # ''u00'' @ hex_digit (?n div 16) # hex_digit (?n mod 16) # s) = Some (c # t, r)"
      using read_unicode [OF h _ assms] 2(2) by (simp)
    then show ?thesis using 2 by (simp add: json_escape_def)
  next
    case 3
    then have "c \<noteq> DQ" "c \<noteq> BS" "json_escape c = [c]" by (simp_all add: json_escape_def)
    then show ?thesis using read_plain [OF _ _ 3(2) assms] by simp
  qed
qed

lemma read_quote_loop: "read_string (quote_loop s @ DQ # r) = Some (s, r)"
  by (induction s) (simp_all add: read_json_escape read_string_end)

section \<open>What the emitter writes\<close>

text \<open>Documented behaviour of the Tcl library on values that already have the representation asked for.\<close>

definition tcl_ok :: "tcl_lib \<Rightarrow> bool" where
  "tcl_ok T \<longleftrightarrow>
     (\<forall>xs. tcl_list T (TList xs) = Some xs \<and> tcl_list T (TSeries xs) = Some xs) \<and>
     (\<forall>d. tcl_dict T (TDict d) = Some d) \<and> (\<forall>s. tcl_string T (TStr s) = s) \<and>
     tcl_string T (TInt 0) = ''0'' \<and> tcl_string T (TInt 1) = ''1''"

definition scalar_text :: "string \<Rightarrow> string" where
  "scalar_text s = (if json_is_number_literal s then s else json_quote s)"

text \<open>The grammar of RFC 8259 as a relation between texts and values: blanks around every element, the number grammar and
  the string reader above, and nothing of the emitter.\<close>

definition json_ws :: "string \<Rightarrow> bool" where
  "json_ws w \<longleftrightarrow> set w \<subseteq> {SPC, TAB, LF, CR}"

inductive json_elem :: "string \<Rightarrow> yyval \<Rightarrow> bool"
  and json_value :: "string \<Rightarrow> yyval \<Rightarrow> bool"
  and json_elems :: "string \<Rightarrow> yyval list \<Rightarrow> bool"
  and json_members :: "string \<Rightarrow> (string \<times> yyval) list \<Rightarrow> bool" where
  je_elem: "json_ws a \<Longrightarrow> json_value t v \<Longrightarrow> json_ws b \<Longrightarrow> json_elem (a @ t @ b) v"
| jv_null: "json_value ''null'' YNull"
| jv_true: "json_value ''true'' (YBool True)"
| jv_false: "json_value ''false'' (YBool False)"
| jv_number: "json_number s \<Longrightarrow> json_value s (YRaw s)"
| jv_string: "read_string body = Some (s, []) \<Longrightarrow> json_value (DQ # body) (YStr s)"
| jv_empty_array: "json_ws w \<Longrightarrow> json_value (''['' @ w @ '']'') (YArr [])"
| jv_array: "json_elems t vs \<Longrightarrow> json_value (''['' @ t @ '']'') (YArr vs)"
| jv_empty_object: "json_ws w \<Longrightarrow> json_value (''{'' @ w @ ''}'') (YObj [])"
| jv_object: "json_members t mem \<Longrightarrow> json_value (''{'' @ t @ ''}'') (YObj mem)"
| js_last: "json_elem t v \<Longrightarrow> json_elems t [v]"
| js_more: "json_elem t v \<Longrightarrow> json_elems u vs \<Longrightarrow> json_elems (t @ '','' @ u) (v # vs)"
| jm_last: "json_ws a \<Longrightarrow> read_string body = Some (k, []) \<Longrightarrow> json_ws b \<Longrightarrow> json_elem t v \<Longrightarrow>
    json_members (a @ DQ # body @ b @ '':'' @ t) [(k, v)]"
| jm_more: "json_ws a \<Longrightarrow> read_string body = Some (k, []) \<Longrightarrow> json_ws b \<Longrightarrow> json_elem t v \<Longrightarrow> json_members u mem \<Longrightarrow>
    json_members (a @ DQ # body @ b @ '':'' @ t @ '','' @ u) ((k, v) # mem)"

text \<open>What is left of a document on the plain path: null is the empty string, true and false are the numbers 1 and 0, a string
  that reads as a number is one, and of members with the same name the last value stands in the first place.\<close>

definition plain_scalar :: "string \<Rightarrow> yyval" where
  "plain_scalar s = (if json_number s then YRaw s else YStr s)"

fun plain_view :: "yyval \<Rightarrow> yyval"
  and plain_view_arr :: "yyval list \<Rightarrow> yyval list"
  and plain_view_obj :: "(string \<times> yyval) list \<Rightarrow> (string \<times> yyval) list" where
  "plain_view v =
    (case v of
       YNull \<Rightarrow> YStr [] | YBool b \<Rightarrow> YRaw (if b then ''1'' else ''0'') | YRaw s \<Rightarrow> plain_scalar s
     | YNum s \<Rightarrow> YStr [] | YStr s \<Rightarrow> plain_scalar s
     | YArr els \<Rightarrow> YArr (plain_view_arr els) | YObj mem \<Rightarrow> YObj (put_all [] (plain_view_obj mem)))"
| "plain_view_arr [] = []"
| "plain_view_arr (el # els) = plain_view el # plain_view_arr els"
| "plain_view_obj [] = []"
| "plain_view_obj ((k, val) # mem) = (k, plain_view val) # plain_view_obj mem"

abbreviation depth_err :: mt_error where
  "depth_err \<equiv> JsonErr ''depth'' ''value is too deeply nested''"

lemma keys_plain_obj: "map fst (plain_obj mem) = map fst mem"
  by (induction mem) auto

lemma emit_scalar:
  assumes "d < JSON_MAX_DEPTH" "\<not> JsonIsTyped v" "\<not> json_dict_typed v" "\<not> json_list_typed v"
  shows "json_emit T v False d p = Inr (scalar_text (tcl_string T v))"
  using assms by (subst json_emit.simps) (simp add: scalar_text_def Let_def)

lemma literal_bits: "json_is_number_literal ''0''" "json_is_number_literal ''1''"
  by (simp_all add: json_is_number_literal_def number_frac_def number_exp_def in_range_def)

lemma json_ws_Nil: "json_ws []"
  by (simp add: json_ws_def)

lemma json_elem_bare: "json_value t v \<Longrightarrow> json_elem t v"
  using je_elem [OF json_ws_Nil _ json_ws_Nil] by simp

lemma json_quote_value: "json_value (json_quote s) (YStr s)"
  using jv_string [of "quote_loop s @ [DQ]" s] read_quote_loop [of s "[]"] by (simp add: json_quote_def)

lemma scalar_value: "json_value (scalar_text s) (plain_scalar s)"
  using json_quote_value by (simp add: scalar_text_def plain_scalar_def json_is_number_literal_iff jv_number)

text \<open>What \<open>json_emit\<close> writes for \<open>x\<close> at depth \<open>d\<close> is a text of \<open>y\<close>.\<close>

definition emits :: "tcl_lib \<Rightarrow> nat \<Rightarrow> bool \<Rightarrow> tobj \<Rightarrow> yyval \<Rightarrow> bool" where
  "emits T d p x y \<longleftrightarrow> (\<exists>t. json_emit T x False d p = Inr t \<and> json_value t y)"

abbreviation emits_member :: "tcl_lib \<Rightarrow> nat \<Rightarrow> bool \<Rightarrow> string \<times> tobj \<Rightarrow> string \<times> yyval \<Rightarrow> bool" where
  "emits_member T d p m n \<equiv> fst m = fst n \<and> emits T d p (snd m) (snd n)"

lemma emit_elements_text:
  "list_all2 (emits T (d + 1) p) xs ys \<Longrightarrow> xs \<noteq> [] \<Longrightarrow>
     \<exists>t. emit_elements T f xs d p = Inr ((if f then [] else '','') @ t) \<and> json_elems t ys"
proof (induction xs arbitrary: f ys)
  case (Cons x xs)
  then obtain y ys' where "ys = y # ys'" "emits T (d + 1) p x y" "list_all2 (emits T (d + 1) p) xs ys'"
    by (auto simp: list_all2_Cons1)
  then obtain t where y: "ys = y # ys'" "json_emit T x False (d + 1) p = Inr t" "json_value t y" "list_all2 (emits T (d + 1) p) xs ys'"
    unfolding emits_def [of _ _ _ x] by blast
  show ?case
  proof (cases "xs = []")
    case True
    then show ?thesis using y js_last [OF json_elem_bare [OF y(3)]] by simp
  next
    case False
    then obtain u where "emit_elements T False xs d p = Inr ('','' @ u)" "json_elems u ys'"
      using Cons.IH [OF y(4), of False] by auto
    then show ?thesis using y(1,2) js_more [OF json_elem_bare [OF y(3)]] by simp
  qed
qed simp

lemma emit_members_text:
  "list_all2 (emits_member T (d + 1) p) xs ys \<Longrightarrow> xs \<noteq> [] \<Longrightarrow>
     \<exists>t. emit_members T f xs d p = Inr ((if f then [] else '','') @ t) \<and> json_members t ys"
proof (induction xs arbitrary: f ys)
  case (Cons x xs)
  then obtain k z y ys' where "x = (k, z)" "ys = (k, y) # ys'" "emits T (d + 1) p z y" "list_all2 (emits_member T (d + 1) p) xs ys'"
    by (cases x) (auto simp: list_all2_Cons1)
  then obtain t where y: "x = (k, z)" "ys = (k, y) # ys'" "json_emit T z False (d + 1) p = Inr t" "json_value t y"
    "list_all2 (emits_member T (d + 1) p) xs ys'"
    unfolding emits_def [of _ _ _ z] by blast
  have q: "json_quote k = DQ # quote_loop k @ [DQ]" "read_string (quote_loop k @ [DQ]) = Some (k, [])"
    using read_quote_loop [of k "[]"] by (simp_all add: json_quote_def)
  show ?case
  proof (cases "xs = []")
    case True
    then show ?thesis using y q(1) jm_last [OF json_ws_Nil q(2) json_ws_Nil json_elem_bare [OF y(4)]] by simp
  next
    case False
    then obtain u where "emit_members T False xs d p = Inr ('','' @ u)" "json_members u ys'"
      using Cons.IH [OF y(5), of False] by auto
    then show ?thesis using y(1-3) q(1) jm_more [OF json_ws_Nil q(2) json_ws_Nil json_elem_bare [OF y(4)]] by simp
  qed
qed simp

lemma put_all_related:
  "list_all2 (emits_member T d p) a b \<Longrightarrow> list_all2 (emits_member T d p) ps qs \<Longrightarrow>
     list_all2 (emits_member T d p) (put_all a ps) (put_all b qs)"
proof (induction ps arbitrary: a b qs)
  case (Cons x ps)
  have put: "list_all2 (emits_member T d p) a b \<Longrightarrow> emits T d p v w \<Longrightarrow>
      list_all2 (emits_member T d p) (dict_put a k v) (dict_put b k w)" for a b k v w
    by (induction a arbitrary: b) (auto simp: list_all2_Cons1)
  from Cons.prems(2) obtain k v w qs' where "x = (k, v)" "qs = (k, w) # qs'" "emits T d p v w"
    "list_all2 (emits_member T d p) ps qs'"
    by (cases x) (auto simp: list_all2_Cons1)
  then show ?case using Cons.IH [OF put [OF Cons.prems(1)]] by simp
qed simp

lemma json_emit_container:
  assumes "tcl_ok T" "d < JSON_MAX_DEPTH"
  shows "json_emit T (TList xs) False d p = bind_res (emit_elements T True xs d p) (\<lambda>t. Inr (''['' @ t @ '']''))"
    and "json_emit T (TSeries xs) False d p = bind_res (emit_elements T True xs d p) (\<lambda>t. Inr (''['' @ t @ '']''))"
    and "json_emit T (TDict m) False d p = bind_res (emit_members T True m d p) (\<lambda>t. Inr (''{'' @ t @ ''}''))"
  using assms
  by (simp_all add: json_emit.simps [of T "TList xs"] json_emit.simps [of T "TSeries xs"] json_emit.simps [of T "TDict m"]
      json_emit_list.simps json_emit_dict.simps JsonIsTyped_def json_dict_typed_def json_list_typed_def tcl_ok_def)

lemma emit_containers:
  assumes "tcl_ok T" "d < JSON_MAX_DEPTH"
  shows "list_all2 (emits T (d + 1) p) xs ys \<Longrightarrow> emits T d p (TList xs) (YArr ys)"
    and "list_all2 (emits_member T (d + 1) p) ms ns \<Longrightarrow> emits T d p (TDict ms) (YObj ns)"
proof -
  show "emits T d p (TList xs) (YArr ys)" if "list_all2 (emits T (d + 1) p) xs ys"
    using that emit_elements_text [OF that, of True] jv_array jv_empty_array [OF json_ws_Nil]
    by (cases "xs = []") (auto simp: emits_def json_emit_container [OF assms])
  show "emits T d p (TDict ms) (YObj ns)" if "list_all2 (emits_member T (d + 1) p) ms ns"
    using that emit_members_text [OF that, of True] jv_object jv_empty_object [OF json_ws_Nil]
    by (cases "ms = []") (auto simp: emits_def json_emit_container [OF assms])
qed

lemma emit_scalars:
  assumes "tcl_ok T" "d < JSON_MAX_DEPTH"
  shows "emits T d p (TStr s) (plain_scalar s)" "emits T d p (TInt (if b then 1 else 0)) (YRaw (if b then ''1'' else ''0''))"
proof -
  have "json_emit T (TStr s) False d p = Inr (scalar_text (tcl_string T (TStr s)))"
    by (rule emit_scalar [OF assms(2)]) (simp_all add: JsonIsTyped_def json_dict_typed_def json_list_typed_def)
  then show "emits T d p (TStr s) (plain_scalar s)"
    using assms(1) scalar_value [of s] by (simp add: emits_def tcl_ok_def)
  have "json_emit T (TInt i) False d p = Inr (scalar_text (tcl_string T (TInt i)))" for i
    by (rule emit_scalar [OF assms(2)]) (simp_all add: JsonIsTyped_def json_dict_typed_def json_list_typed_def)
  moreover have "tcl_string T (TInt 0) = ''0''" "tcl_string T (TInt 1) = ''1''" using assms(1) by (simp_all add: tcl_ok_def)
  moreover have "json_value (scalar_text ''0'') (YRaw ''0'')" "json_value (scalar_text ''1'') (YRaw ''1'')"
    using literal_bits by (simp_all add: scalar_text_def jv_number json_is_number_literal_iff)
  ultimately show "emits T d p (TInt (if b then 1 else 0)) (YRaw (if b then ''1'' else ''0''))"
    by (cases b) (simp_all add: emits_def)
qed

lemma no_empty_number: "\<not> json_number []"
  using json_is_number_literal_iff [of "[]"] by (simp add: json_is_number_literal_def)

lemma json_emit_plain:
  assumes T: "tcl_ok T"
  shows "d + ydepth v \<le> JSON_MAX_DEPTH \<Longrightarrow> emits T d p (plain v) (plain_view v)"
    and "d + 1 + ydepth_arr els \<le> JSON_MAX_DEPTH \<Longrightarrow> list_all2 (emits T (d + 1) p) (plain_arr els) (plain_view_arr els)"
    and "d + 1 + ydepth_obj mem \<le> JSON_MAX_DEPTH \<Longrightarrow> list_all2 (emits_member T (d + 1) p) (plain_obj mem) (plain_view_obj mem)"
proof (induction v and els and mem arbitrary: d and d and d rule: plain_plain_arr_plain_obj.induct)
  case (1 v)
  have d: "d < JSON_MAX_DEPTH" using 1(3) ydepth_pos [of v] by linarith
  have empty: "plain_scalar [] = YStr []" using no_empty_number by (simp add: plain_scalar_def)
  show ?case
  proof (cases v)
    case (YArr els)
    then show ?thesis using 1(1) [OF YArr, of d] 1(3) emit_containers(1) [OF T d] by simp
  next
    case (YObj mem)
    have "list_all2 (emits_member T (d + 1) p) (put_all [] (plain_obj mem)) (put_all [] (plain_view_obj mem))"
      using 1(2) [OF YObj, of d] 1(3) YObj by (intro put_all_related) simp_all
    then show ?thesis using emit_containers(2) [OF T d] YObj by simp
  qed (use emit_scalars [OF T d] emit_scalars(1) [OF T d, of p "[]"] empty in auto)
qed (auto simp del: plain.simps plain_view.simps ydepth.simps)

lemma json_emit_deep:
  assumes T: "tcl_ok T"
  shows "no_dups v \<Longrightarrow> d + ydepth v > JSON_MAX_DEPTH \<Longrightarrow> json_emit T (plain v) False d p = Inl depth_err"
    and "no_dups_arr els \<Longrightarrow> d < JSON_MAX_DEPTH \<Longrightarrow> d + 1 + ydepth_arr els > JSON_MAX_DEPTH \<Longrightarrow>
      emit_elements T f (plain_arr els) d p = Inl depth_err"
    and "no_dups_obj mem \<Longrightarrow> d < JSON_MAX_DEPTH \<Longrightarrow> d + 1 + ydepth_obj mem > JSON_MAX_DEPTH \<Longrightarrow>
      emit_members T f (plain_obj mem) d p = Inl depth_err"
proof (induction v and els and mem arbitrary: d and d f and d f rule: plain_plain_arr_plain_obj.induct)
  case (1 v)
  show ?case
  proof (cases "d < JSON_MAX_DEPTH")
    case False
    then show ?thesis by (subst json_emit.simps) simp
  next
    case d: True
    have obj: "put_all [] (plain_obj mem) = plain_obj mem" if "v = YObj mem" for mem
      using 1(3) that put_all_distinct [of "[]" "plain_obj mem"] by (simp add: keys_plain_obj)
    show ?thesis
      by (cases v) (use 1 d obj in \<open>auto simp: json_emit_container [OF T d]\<close>)
  qed
next
  case (3 el els)
  then show ?case
    using json_emit_plain(1) [OF T, of "d + 1" el p]
    by (cases "d + 1 + ydepth el \<le> JSON_MAX_DEPTH") (auto simp: emits_def simp del: plain.simps ydepth.simps no_dups.simps)
next
  case (5 k val mem)
  then show ?case
    using json_emit_plain(1) [OF T, of "d + 1" val p]
    by (cases "d + 1 + ydepth val \<le> JSON_MAX_DEPTH") (auto simp: emits_def simp del: plain.simps ydepth.simps no_dups.simps)
qed auto

section \<open>Typed values on the plain path\<close>

fun no_typed :: "tobj \<Rightarrow> bool"
  and no_typed_list :: "tobj list \<Rightarrow> bool"
  and no_typed_dict :: "(string \<times> tobj) list \<Rightarrow> bool" where
  "no_typed v \<longleftrightarrow> (case v of TTyped _ _ \<Rightarrow> False | TList xs \<Rightarrow> no_typed_list xs | TSeries xs \<Rightarrow> no_typed_list xs
     | TDict d \<Rightarrow> no_typed_dict d | _ \<Rightarrow> True)"
| "no_typed_list [] \<longleftrightarrow> True"
| "no_typed_list (x # xs) \<longleftrightarrow> no_typed x \<and> no_typed_list xs"
| "no_typed_dict [] \<longleftrightarrow> True"
| "no_typed_dict ((k, x) # d) \<longleftrightarrow> no_typed x \<and> no_typed_dict d"

lemma json_emit_depth: "json_emit T v a d p = Inr s \<Longrightarrow> d < JSON_MAX_DEPTH"
  by (subst (asm) json_emit.simps) (auto split: if_splits)

lemma json_emit_typed: "json_emit T (TTyped k node) a d True \<noteq> Inr s"
  by (subst json_emit.simps) (simp add: JsonIsTyped_def)

lemma plain_path_no_typed:
  assumes "tcl_ok T"
  shows "json_emit T v False d True = Inr s \<Longrightarrow> no_typed v"
    and "emit_elements T f xs d True = Inr s \<Longrightarrow> no_typed_list xs"
    and "emit_members T f m d True = Inr s \<Longrightarrow> no_typed_dict m"
proof (induction v and xs and m arbitrary: d s and f d s and f d s rule: no_typed_no_typed_list_no_typed_dict.induct)
  case (1 v)
  have d: "d < JSON_MAX_DEPTH" by (rule json_emit_depth [OF 1(4)])
  show ?case
    by (cases v) (use 1 d assms in \<open>auto simp: json_emit_container json_emit_typed result_simps\<close>)
qed (auto simp: result_simps simp del: no_typed.simps)

section \<open>Properties\<close>

text \<open>a value is written bare exactly when its text is a JSON number of RFC 8259; so \<^verbatim>\<open>01234\<close>,
  \<^verbatim>\<open>0x10\<close>, \<^verbatim>\<open>Inf\<close>, and anything with blanks stay quoted strings (the postcode rule).\<close>

theorem number_literal_exact: "json_is_number_literal s \<longleftrightarrow> json_number s"
  by (rule json_is_number_literal_iff)

text \<open>C30: quoting loses nothing and is valid JSON: a reader that refuses raw control bytes and knows the
  JSON escapes reads back exactly the quoted bytes, for every byte string, and stops at the closing quote.\<close>

theorem json_quote_roundtrip:
  "\<exists>body. json_quote s @ r = DQ # body \<and> read_string body = Some (s, r)"
  using read_quote_loop [of s r] by (simp add: json_quote_def)

text \<open>C29: what \<^verbatim>\<open>json decode\<close> produced, \<^verbatim>\<open>json encode\<close> writes as a JSON text, by the grammar, of what the
  plain path keeps of the document (numbers are read as raw literals, as the reader is asked to). Decoding fails only for nesting beyond 512, and encoding never refuses what was decoded; a
  value of a deeper document without repeated members it refuses with the \<^verbatim>\<open>depth\<close> code.\<close>

theorem encode_decoded:
  assumes "tcl_ok T" "raw_numbers v"
  shows "case yy_to_tcl v 0 of
      Inr x \<Rightarrow> ydepth v \<le> 512 \<and> (\<exists>t. json_emit T x False 0 p = Inr t \<and> json_elem t (plain_view v))
    | Inl too_deep \<Rightarrow> too_deep \<and> ydepth v > 512 \<and> (no_dups v \<longrightarrow> json_emit T (plain v) False 0 p = Inl depth_err)"
  using yy_to_tcl_exact(1) [OF assms(2), of 0] json_emit_plain(1) [OF assms(1), of 0 v p] json_emit_deep(1) [OF assms(1), of v 0 p]
  by (auto simp: JSON_MAX_DEPTH_def emits_def json_elem_bare simp del: yy_to_tcl.simps plain.simps plain_view.simps ydepth.simps)

definition demo_tcl :: tcl_lib where
  "demo_tcl =
    \<lparr>tcl_string = (\<lambda>v. case v of TStr s \<Rightarrow> s | TInt n \<Rightarrow> (if n = 0 then ''0'' else ''1'') | _ \<Rightarrow> ''?''),
     tcl_list = (\<lambda>v. case v of TList xs \<Rightarrow> Some xs | TSeries xs \<Rightarrow> Some xs | _ \<Rightarrow> None),
     tcl_dict = (\<lambda>v. case v of TDict d \<Rightarrow> Some d | _ \<Rightarrow> None),
     tcl_wide = (\<lambda>v. case v of TInt n \<Rightarrow> Some n | _ \<Rightarrow> None),
     tcl_bool = (\<lambda>v. case v of TInt n \<Rightarrow> Some (n \<noteq> 0) | _ \<Rightarrow> None),
     yy_read = (\<lambda>s. if s = ''[1]'' then Inr (YArr [YRaw ''1'']) else Inl (None, 0)),
     yy_write = (\<lambda>v. Some ''null''), yy_mem = (\<lambda>v. True), yy_doc = True, c_malloc = (\<lambda>n. True)\<rparr>"

lemma demo_tcl_ok: "tcl_ok demo_tcl"
  by (simp add: tcl_ok_def demo_tcl_def)

theorem encode_decoded_witness:
  "json_elem (''{'' @ json_quote ''k'' @ '':['' @ json_quote ''01'' @ '',7]}'') (YObj [(''k'', YArr [YStr ''01'', YRaw ''7''])])"
proof -
  have n: "\<not> json_number ''01''" "json_number ''7''"
    by (simp_all add: json_is_number_literal_iff [symmetric]) code_simp+
  have "json_emit demo_tcl (TDict [(''k'', TList [TStr ''01'', TStr ''7''])]) False 0 True =
      Inr (''{'' @ json_quote ''k'' @ '':['' @ json_quote ''01'' @ '',7]}'')"
    by code_simp
  then show ?thesis
    using encode_decoded [OF demo_tcl_ok, of "YObj [(''k'', YRaw ''1''), (''k'', YArr [YStr ''01'', YRaw ''7''])]" True] n
    by (simp add: JSON_MAX_DEPTH_def plain_scalar_def)
qed

text \<open>on the plain-only path of the worker and pool protocols no typed value is ever written, at any
  nesting level: success implies the value holds none.\<close>

theorem plain_path_refuses_typed:
  assumes "tcl_ok T" "json_emit T v False d True = Inr s"
  shows "no_typed v"
  by (rule plain_path_no_typed(1) [OF assms])

theorem plain_path_refuses_typed_witness: "no_typed (TList [TStr ''a''])"
proof (rule plain_path_refuses_typed [OF demo_tcl_ok])
  show "json_emit demo_tcl (TList [TStr ''a'']) False 0 True = Inr (''['' @ json_quote ''a'' @ '']'')"
    by code_simp
qed

end
