(* ===== verification/JsonVerb.thy ===== *)
theory JsonVerb
  imports JsonText
begin

text \<open>
  The command \<^verbatim>\<open>::machteld::json\<close> of \<^verbatim>\<open>src/json.c\<close> with all its subcommands: the typed
  constructors (\<^verbatim>\<open>JsonBuildMut\<close>), path steps (\<^verbatim>\<open>JsonStep\<close>) and \<^verbatim>\<open>JsonCmd\<close>. The argument list is
  \<^verbatim>\<open>objv[1..objc-1]\<close>. A typed value is its node; whether its document is immutable (from
  \<^verbatim>\<open>decode -typed\<close>) or mutable (from a constructor) is its \<^typ>\<open>jkind\<close>. Here nodes are values;
  \<^verbatim>\<open>JsonLife\<close> has the documents and their reference counts.
\<close>

section \<open>Constructors\<close>

definition JsonNodeToMut :: "tcl_lib \<Rightarrow> yyval \<Rightarrow> yyval option" where
  "JsonNodeToMut T node = (if yy_mem T node then Some node else None)"

definition oom :: string where "oom = ''out of memory''"

text \<open>The error is the text left in \<^verbatim>\<open>*err\<close>; every caller reads a NULL there as "out of memory".\<close>

function JsonBuildMut :: "tcl_lib \<Rightarrow> tobj \<Rightarrow> nat \<Rightarrow> string + yyval"
  and build_members :: "tcl_lib \<Rightarrow> (string \<times> tobj) list \<Rightarrow> nat \<Rightarrow> string + (string \<times> yyval) list"
  and build_elements :: "tcl_lib \<Rightarrow> tobj list \<Rightarrow> nat \<Rightarrow> string + yyval list" where
  "JsonBuildMut T v depth =
    (if depth \<ge> JSON_MAX_DEPTH then Inl ''value is too deeply nested''
     else if JsonIsTyped v then
       (case v of TTyped _ node \<Rightarrow> (case JsonNodeToMut T node of None \<Rightarrow> Inl oom | Some m \<Rightarrow> Inr m) | _ \<Rightarrow> Inl oom)
     else if json_dict_typed v then
       (case tcl_dict T v of
          None \<Rightarrow> Inl ''invalid dict''
        | Some d \<Rightarrow>
           (case build_members T d depth of
              Inl e \<Rightarrow> Inl e
            | Inr mem \<Rightarrow> if yy_mem T (YObj []) then Inr (YObj mem) else Inl oom))
     else if json_list_typed v then
       (case tcl_list T v of
          None \<Rightarrow> Inl ''invalid list''
        | Some el \<Rightarrow>
           (case build_elements T el depth of
              Inl e \<Rightarrow> Inl e
            | Inr els \<Rightarrow> if yy_mem T (YArr []) then Inr (YArr els) else Inl oom))
     else Inl ''leaf is not a typed json value (construct it with `json value`)'')"
| "build_members T [] depth = Inr []"
| "build_members T ((k, val) # d) depth =
    (case JsonBuildMut T val (depth + 1) of
       Inl e \<Rightarrow> Inl e
     | Inr mv \<Rightarrow>
        if \<not> yy_mem T (YStr k) then Inl oom
        else (case build_members T d depth of Inl e \<Rightarrow> Inl e | Inr mem \<Rightarrow> Inr ((k, mv) # mem)))"
| "build_elements T [] depth = Inr []"
| "build_elements T (e # el) depth =
    (case JsonBuildMut T e (depth + 1) of
       Inl e \<Rightarrow> Inl e
     | Inr mv \<Rightarrow> (case build_elements T el depth of Inl e \<Rightarrow> Inl e | Inr els \<Rightarrow> Inr (mv # els)))"
  by pat_completeness auto
termination
  by (relation "measures [
      \<lambda>x. case x of Inl (T, v, d) \<Rightarrow> 512 - d | Inr (Inl (T, el, d)) \<Rightarrow> 512 - Suc d | Inr (Inr (T, el, d)) \<Rightarrow> 512 - Suc d,
      \<lambda>x. case x of Inl _ \<Rightarrow> 0 | Inr _ \<Rightarrow> 1,
      \<lambda>x. case x of Inl _ \<Rightarrow> 0 | Inr (Inl (T, el, d)) \<Rightarrow> length el | Inr (Inr (T, el, d)) \<Rightarrow> length el]")
    (auto simp: JSON_MAX_DEPTH_def)

declare JsonBuildMut.simps [simp del]

section \<open>Paths\<close>

text \<open>The child node, or none with \<^verbatim>\<open>*stepErr\<close>; both document kinds are read alike.\<close>

definition JsonStep :: "tcl_lib \<Rightarrow> yyval \<Rightarrow> tobj \<Rightarrow> yyval option \<times> bool" where
  "JsonStep T node step =
    (case node of
       YObj mem \<Rightarrow> (map_of mem (obj_string T step), False)
     | YArr els \<Rightarrow>
        (case tcl_wide T step of
           None \<Rightarrow> (None, True)
         | Some i \<Rightarrow>
            if i < 0 then (None, True)
            else (if nat i < length els then Some (els ! nat i) else None, False))
     | _ \<Rightarrow> (None, True))"

text \<open>The path loop of \<^verbatim>\<open>get\<close> and \<^verbatim>\<open>exists\<close>: the node reached, or the failing step with its \<^verbatim>\<open>stepErr\<close>.\<close>

fun path_loop :: "tcl_lib \<Rightarrow> yyval \<Rightarrow> tobj list \<Rightarrow> (tobj \<times> bool) + yyval" where
  "path_loop T node [] = Inr node"
| "path_loop T node (s # ss) =
    (case JsonStep T node s of
       (None, stepErr) \<Rightarrow> Inl (s, stepErr)
     | (Some child, _) \<Rightarrow> path_loop T child ss)"

section \<open>The subcommands\<close>

definition JSON_TYPED_DEFAULT_MAXBYTES :: int where "JSON_TYPED_DEFAULT_MAXBYTES = 16 * 1024 * 1024"
definition JSON_TYPED_HARD_MAXBYTES :: int where "JSON_TYPED_HARD_MAXBYTES = 64 * 1024 * 1024"

fun decode_options ::
  "tcl_lib \<Rightarrow> tobj list \<Rightarrow> bool \<Rightarrow> bool \<Rightarrow> int \<Rightarrow> tobj option \<Rightarrow> (bool \<times> bool \<times> int \<times> tobj option) res" where
  "decode_options T [] typed maxSet maxBytes textObj = Inr (typed, maxSet, maxBytes, textObj)"
| "decode_options T (ob # args) typed maxSet maxBytes textObj =
    (let a = obj_string T ob in
     if textObj = None \<and> a = ''-typed'' then decode_options T args True maxSet maxBytes textObj
     else if textObj = None \<and> a = ''-maxbytes'' then
       (case args of
          [] \<Rightarrow> Inl (JsonErr ''usage'' ''-maxbytes needs a positive byte count'')
        | n # args' \<Rightarrow>
           (case tcl_wide T n of
              None \<Rightarrow> Inl (JsonErr ''usage'' ''-maxbytes needs a positive byte count'')
            | Some mb \<Rightarrow>
               if mb < 1 then Inl (JsonErr ''usage'' ''-maxbytes needs a positive byte count'')
               else decode_options T args' typed True mb textObj))
     else if textObj \<noteq> None then Inl (JsonErr ''usage'' ''unknown option'')
     else decode_options T args typed maxSet maxBytes (Some ob))"

definition parse_message :: "string option \<Rightarrow> nat \<Rightarrow> string" where
  "parse_message msg pos =
    take 191 ((case msg of None \<Rightarrow> ''invalid JSON'' | Some m \<Rightarrow> m) @ '' (byte '' @ dec_of_nat pos @ '')'')"

definition json_decode :: "tcl_lib \<Rightarrow> tobj list \<Rightarrow> tobj res" where
  "json_decode T args =
    bind_res (decode_options T args False False JSON_TYPED_DEFAULT_MAXBYTES None)
      (\<lambda>(typed, maxSet, maxBytes, textObj).
        case textObj of
          None \<Rightarrow> Inl WrongNumArgs
        | Some ob \<Rightarrow>
            let s = obj_string T ob; n = length s in
            if \<not> typed \<and> maxSet then Inl (JsonErr ''usage'' ''-maxbytes applies to -typed decode'')
            else if typed \<and> maxBytes > JSON_TYPED_HARD_MAXBYTES then
              Inl (JsonErr ''limit'' ''-maxbytes is above the documented hard cap (64 MiB)'')
            else if typed \<and> int n > maxBytes then Inl (JsonErr ''limit'' ''document exceeds -maxbytes'')
            else case yy_read T s of
              Inl (msg, pos) \<Rightarrow> Inl (JsonErr ''parse'' (parse_message msg pos))
            | Inr root \<Rightarrow>
                if typed then
                  (case JsonCheckStrict (c_malloc T) root 0 of
                     Some TooDeep \<Rightarrow> Inl (JsonErr ''depth'' ''too deeply nested'')
                   | Some OutOfMemory \<Rightarrow> Inl (JsonErr ''limit'' ''out of memory during strict decode'')
                   | Some (DupKey k) \<Rightarrow>
                       Inl (JsonErr ''strict'' (''duplicate object key '' @ [DQ] @ c_prefix 80 k @ [DQ]))
                   | None \<Rightarrow> Inr (TTyped Immutable root))
                else (case yy_to_tcl root 0 of
                    Inl depthErr \<Rightarrow>
                      Inl (JsonErr (if depthErr then ''depth'' else ''parse'')
                        (if depthErr then ''too deeply nested'' else ''invalid JSON''))
                  | Inr v \<Rightarrow> Inr v))"

definition type_err :: "string \<Rightarrow> tobj res" where
  "type_err e = Inl (JsonErr ''type'' e)"

definition new_node :: "tcl_lib \<Rightarrow> yyval \<Rightarrow> tobj res" where
  "new_node T node = (if yy_mem T node then Inr (TTyped Mutable node) else type_err oom)"

definition json_value :: "tcl_lib \<Rightarrow> tobj list \<Rightarrow> tobj res" where
  "json_value T args =
    (case args of
       [] \<Rightarrow> Inl WrongNumArgs
     | k # rest \<Rightarrow>
       (let kind = obj_string T k in
        if kind \<notin> {''string'', ''number'', ''boolean'', ''null'', ''array'', ''object''} then Inl TclError
        else if (kind = ''null'' \<and> rest \<noteq> []) \<or> (kind \<noteq> ''null'' \<and> length rest \<noteq> 1) then Inl WrongNumArgs
        else if \<not> yy_doc T then Inl (JsonErr ''limit'' oom)
        else if kind = ''null'' then new_node T YNull
        else let v = hd rest in
          if kind = ''string'' then new_node T (YStr (obj_string T v))
          else if kind = ''number'' then
            (let s = obj_string T v in
             if \<not> json_is_number_literal s then Inl (JsonErr ''type'' ''not a JSON number literal'')
             else new_node T (YRaw s))
          else if kind = ''boolean'' then
            (case tcl_bool T v of None \<Rightarrow> Inl TclError | Some b \<Rightarrow> new_node T (YBool b))
          else if kind = ''array'' then
            (case tcl_list T v of
               None \<Rightarrow> Inl TclError
             | Some el \<Rightarrow>
                if \<not> yy_mem T (YArr []) then type_err oom
                else (case build_elements T el 0 of
                    Inl e \<Rightarrow> type_err e
                  | Inr els \<Rightarrow> Inr (TTyped Mutable (YArr els))))
          else
            (case tcl_dict T v of
               None \<Rightarrow> Inl TclError
             | Some d \<Rightarrow>
                if \<not> yy_mem T (YObj []) then type_err oom
                else (case build_members T d 0 of
                    Inl e \<Rightarrow> type_err e
                  | Inr mem \<Rightarrow> Inr (TTyped Mutable (YObj mem))))))"

definition json_type :: "tcl_lib \<Rightarrow> tobj list \<Rightarrow> tobj res" where
  "json_type T args =
    (case args of
       [TTyped _ node] \<Rightarrow> Inr (TStr (JsonNodeTag node))
     | [v] \<Rightarrow> Inl (JsonErr ''type'' ''not a typed json value'')
     | _ \<Rightarrow> Inl WrongNumArgs)"

definition json_unwrap :: "tcl_lib \<Rightarrow> tobj list \<Rightarrow> tobj res" where
  "json_unwrap T args =
    (case args of
       [TTyped kind node] \<Rightarrow>
         (case (case kind of Immutable \<Rightarrow> yy_to_tcl node 0 | Mutable \<Rightarrow> yy_mut_to_tcl node 0) of
            Inl depthErr \<Rightarrow>
              Inl (JsonErr (if depthErr then ''depth'' else ''type'') (if depthErr then ''too deeply nested'' else ''cannot unwrap''))
          | Inr v \<Rightarrow> Inr v)
     | [v] \<Rightarrow> Inl (JsonErr ''type'' ''not a typed json value'')
     | _ \<Rightarrow> Inl WrongNumArgs)"

definition json_get :: "tcl_lib \<Rightarrow> tobj list \<Rightarrow> tobj res" where
  "json_get T args =
    (case args of
       [] \<Rightarrow> Inl WrongNumArgs
     | v # path \<Rightarrow>
       (case v of
          TTyped kind node \<Rightarrow>
            (case path_loop T node path of
               Inr node' \<Rightarrow> Inr (TTyped kind node')
             | Inl (step, stepErr) \<Rightarrow>
                 if stepErr then Inl (JsonErr ''type'' ''path steps into a non-container'')
                 else Inl (JsonErr ''absent'' (''no member '' @ [DQ] @ c_prefix 80 (obj_string T step) @ [DQ])))
        | _ \<Rightarrow> Inl (JsonErr ''type'' ''not a typed json value'')))"

definition json_exists :: "tcl_lib \<Rightarrow> tobj list \<Rightarrow> tobj res" where
  "json_exists T args =
    (case args of
       v # p # path \<Rightarrow>
       (case v of
          TTyped kind node \<Rightarrow>
            (case path_loop T node (p # path) of Inr _ \<Rightarrow> Inr (TInt 1) | Inl _ \<Rightarrow> Inr (TInt 0))
        | _ \<Rightarrow> Inl (JsonErr ''type'' ''not a typed json value''))
     | _ \<Rightarrow> Inl WrongNumArgs)"

fun encode_options ::
  "tcl_lib \<Rightarrow> tobj list \<Rightarrow> bool \<Rightarrow> bool \<Rightarrow> bool \<Rightarrow> bool \<Rightarrow> tobj option \<Rightarrow> (bool \<times> bool \<times> bool \<times> tobj option) res" where
  "encode_options T [] as_dict as_list plainOnly options val = Inr (as_dict, as_list, plainOnly, val)"
| "encode_options T (ob # args) as_dict as_list plainOnly options val =
    (let a = obj_string T ob in
     if options \<and> a = ''--'' then encode_options T args as_dict as_list plainOnly False val
     else if options \<and> a = ''-dict'' then encode_options T args True as_list plainOnly options val
     else if options \<and> a = ''-list'' then encode_options T args as_dict True plainOnly options val
     else if options \<and> a = ''-plain'' then encode_options T args as_dict as_list True options val
     else if val \<noteq> None then Inl (JsonErr ''usage'' ''unknown option'')
     else encode_options T args as_dict as_list plainOnly options (Some ob))"

definition json_encode :: "tcl_lib \<Rightarrow> tobj list \<Rightarrow> tobj res" where
  "json_encode T args =
    bind_res (encode_options T args False False False True None)
      (\<lambda>(as_dict, as_list, plainOnly, val).
        case val of
          None \<Rightarrow> Inl WrongNumArgs
        | Some v \<Rightarrow>
            if as_dict \<and> as_list then Inl (JsonErr ''usage'' ''-dict and -list are exclusive'')
            else if as_list then bind_res (json_emit_list T v 0 plainOnly) (\<lambda>t. Inr (TStr t))
            else bind_res (json_emit T v as_dict 0 plainOnly) (\<lambda>t. Inr (TStr t)))"

definition JsonCmd :: "tcl_lib \<Rightarrow> tobj list \<Rightarrow> tobj res" where
  "JsonCmd T objv =
    (case objv of
       [] \<Rightarrow> Inl WrongNumArgs
     | sub # args \<Rightarrow>
       (let s = obj_string T sub in
        if s = ''decode'' then json_decode T args
        else if s = ''encode'' then json_encode T args
        else if s = ''value'' then json_value T args
        else if s = ''type'' then json_type T args
        else if s = ''unwrap'' then json_unwrap T args
        else if s = ''get'' then json_get T args
        else if s = ''exists'' then json_exists T args
        else Inl TclError))"

section \<open>Typed values carry only JSON numbers unquoted\<close>

fun raws_ok :: "yyval \<Rightarrow> bool"
  and raws_ok_arr :: "yyval list \<Rightarrow> bool"
  and raws_ok_obj :: "(string \<times> yyval) list \<Rightarrow> bool" where
  "raws_ok v \<longleftrightarrow> (case v of YRaw s \<Rightarrow> json_number s | YNum _ \<Rightarrow> False | YArr els \<Rightarrow> raws_ok_arr els
     | YObj mem \<Rightarrow> raws_ok_obj mem | _ \<Rightarrow> True)"
| "raws_ok_arr [] \<longleftrightarrow> True"
| "raws_ok_arr (el # els) \<longleftrightarrow> raws_ok el \<and> raws_ok_arr els"
| "raws_ok_obj [] \<longleftrightarrow> True"
| "raws_ok_obj ((k, val) # mem) \<longleftrightarrow> raws_ok val \<and> raws_ok_obj mem"

fun obj_ok :: "tobj \<Rightarrow> bool"
  and obj_ok_list :: "tobj list \<Rightarrow> bool"
  and obj_ok_dict :: "(string \<times> tobj) list \<Rightarrow> bool" where
  "obj_ok v \<longleftrightarrow> (case v of TTyped _ node \<Rightarrow> raws_ok node | TList xs \<Rightarrow> obj_ok_list xs | TSeries xs \<Rightarrow> obj_ok_list xs
     | TDict d \<Rightarrow> obj_ok_dict d | _ \<Rightarrow> True)"
| "obj_ok_list [] \<longleftrightarrow> True"
| "obj_ok_list (x # xs) \<longleftrightarrow> obj_ok x \<and> obj_ok_list xs"
| "obj_ok_dict [] \<longleftrightarrow> True"
| "obj_ok_dict ((k, x) # d) \<longleftrightarrow> obj_ok x \<and> obj_ok_dict d"

declare raws_ok.simps [simp del] obj_ok.simps [simp del]

lemma raws_ok_cases [simp]:
  "raws_ok YNull" "raws_ok (YBool b)" "raws_ok (YStr s)" "raws_ok (YRaw s) = json_number s" "\<not> raws_ok (YNum s)"
  "raws_ok (YArr els) = raws_ok_arr els" "raws_ok (YObj mem) = raws_ok_obj mem"
  by (simp_all add: raws_ok.simps)

lemma obj_ok_cases [simp]:
  "obj_ok (TStr s)" "obj_ok (TInt i)" "obj_ok (TList xs) = obj_ok_list xs" "obj_ok (TSeries xs) = obj_ok_list xs"
  "obj_ok (TDict d) = obj_ok_dict d" "obj_ok (TTyped k node) = raws_ok node"
  by (simp_all add: obj_ok.simps)

text \<open>The library adds no typed value when it converts one, and the reader keeps numbers as their literals.\<close>

definition lib_ok :: "tcl_lib \<Rightarrow> bool" where
  "lib_ok T \<longleftrightarrow>
     (\<forall>v xs. obj_ok v \<longrightarrow> tcl_list T v = Some xs \<longrightarrow> obj_ok_list xs) \<and>
     (\<forall>v d. obj_ok v \<longrightarrow> tcl_dict T v = Some d \<longrightarrow> obj_ok_dict d) \<and>
     (\<forall>s v. yy_read T s = Inr v \<longrightarrow> raws_ok v)"

lemma lib_ok_dest:
  "lib_ok T \<Longrightarrow> obj_ok v \<Longrightarrow> tcl_list T v = Some xs \<Longrightarrow> obj_ok_list xs"
  "lib_ok T \<Longrightarrow> obj_ok v \<Longrightarrow> tcl_dict T v = Some d \<Longrightarrow> obj_ok_dict d"
  "lib_ok T \<Longrightarrow> yy_read T s = Inr n \<Longrightarrow> raws_ok n"
  unfolding lib_ok_def by blast+

lemma build_raws_ok:
  assumes "lib_ok T"
  shows "JsonBuildMut T v d = Inr n \<Longrightarrow> obj_ok v \<Longrightarrow> raws_ok n"
    and "build_members T m d = Inr mem \<Longrightarrow> obj_ok_dict m \<Longrightarrow> raws_ok_obj mem"
    and "build_elements T xs d = Inr els \<Longrightarrow> obj_ok_list xs \<Longrightarrow> raws_ok_arr els"
  using assms
proof (induction T v d and T m d and T xs d arbitrary: n and mem and els rule: JsonBuildMut_build_members_build_elements.induct)
  case (1 T v d)
  note prems = 1(3-5)
  show ?case
  proof (cases "d \<ge> JSON_MAX_DEPTH \<or> JsonIsTyped v")
    case True
    then show ?thesis
      using prems by (subst (asm) JsonBuildMut.simps)
        (auto simp: JsonIsTyped_def JsonNodeToMut_def split: if_splits tobj.splits option.splits)
  next
    case False
    then have nt: "\<not> d \<ge> JSON_MAX_DEPTH" "\<not> JsonIsTyped v" by simp_all
    show ?thesis
    proof (cases "json_dict_typed v")
      case dt: True
      obtain m mem where m: "tcl_dict T v = Some m" "build_members T m d = Inr mem" "n = YObj mem"
        using prems(1) nt dt by (subst (asm) JsonBuildMut.simps) (auto split: option.splits sum.splits if_splits)
      show ?thesis
        using 1(1) [OF nt dt m(1,2) lib_ok_dest(2) [OF prems(3,2) m(1)] prems(3)] m(3) by simp
    next
      case dt: False
      obtain xs els where m: "json_list_typed v" "tcl_list T v = Some xs" "build_elements T xs d = Inr els" "n = YArr els"
        using prems(1) nt dt by (subst (asm) JsonBuildMut.simps) (auto split: option.splits sum.splits if_splits)
      show ?thesis
        using 1(2) [OF nt dt m(1,2,3) lib_ok_dest(1) [OF prems(3,2) m(2)] prems(3)] m(4) by simp
    qed
  qed
qed (auto split: sum.splits if_splits)

lemma raws_ok_member: "map_of mem k = Some v \<Longrightarrow> raws_ok_obj mem \<Longrightarrow> raws_ok v"
  by (induction mem) (auto split: if_splits)

lemma raws_ok_nth: "i < length els \<Longrightarrow> raws_ok_arr els \<Longrightarrow> raws_ok (els ! i)"
  by (induction els arbitrary: i) (auto simp: nth_Cons split: nat.splits)

lemma JsonStep_raws_ok: "JsonStep T node s = (Some child, e) \<Longrightarrow> raws_ok node \<Longrightarrow> raws_ok child"
  by (cases node) (auto simp: JsonStep_def raws_ok_member raws_ok_nth split: option.splits if_splits)

lemma path_loop_raws_ok: "path_loop T node path = Inr n \<Longrightarrow> raws_ok node \<Longrightarrow> raws_ok n"
proof (induction path arbitrary: node)
  case (Cons s ss)
  then show ?case
    by (auto split: prod.splits option.splits dest: JsonStep_raws_ok)
qed simp

lemma obj_ok_dict_put: "obj_ok_dict d \<Longrightarrow> obj_ok v \<Longrightarrow> obj_ok_dict (dict_put d k v)"
  by (induction d k v rule: dict_put.induct) auto

lemma obj_ok_put_all: "obj_ok_dict d \<Longrightarrow> obj_ok_dict ps \<Longrightarrow> obj_ok_dict (put_all d ps)"
proof (induction ps arbitrary: d)
  case (Cons p ps)
  then show ?case by (cases p) (auto simp: obj_ok_dict_put)
qed simp

lemma plain_obj_ok: "obj_ok (plain v)" "obj_ok_list (plain_arr els)" "obj_ok_dict (plain_obj mem)"
proof (induction v and els and mem rule: plain_plain_arr_plain_obj.induct)
  case (1 v)
  then show ?case by (cases v) (auto simp: obj_ok_put_all)
qed (auto simp del: plain.simps)

lemma raws_ok_numbers: "raws_ok v \<Longrightarrow> raw_numbers v" "raws_ok_arr els \<Longrightarrow> raw_numbers_arr els"
  "raws_ok_obj mem \<Longrightarrow> raw_numbers_obj mem"
proof (induction v and els and mem rule: raw_numbers_raw_numbers_arr_raw_numbers_obj.induct)
  case (1 v)
  then show ?case by (cases v) auto
qed (auto simp del: raw_numbers.simps)

lemma unwrap_obj_ok:
  "raws_ok node \<Longrightarrow> yy_to_tcl node d = Inr v \<Longrightarrow> obj_ok v"
  "yy_mut_to_tcl node d = Inr v \<Longrightarrow> obj_ok v"
  using yy_to_tcl_exact(1) [OF raws_ok_numbers(1), of node d] yy_mut_to_tcl_exact(1) [of node d] plain_obj_ok(1) [of node]
  by (auto simp del: yy_to_tcl.simps yy_mut_to_tcl.simps plain.simps split: if_splits)

lemma new_node_ok: "new_node T node = Inr r \<Longrightarrow> r = TTyped Mutable node"
  by (auto simp: new_node_def type_err_def split: if_splits)

lemma json_value_ok:
  assumes "lib_ok T" "\<forall>v\<in>set args. obj_ok v" "json_value T args = Inr r"
  shows "obj_ok r"
proof -
  obtain k rest where args: "args = k # rest" using assms(3) by (cases args) (auto simp: json_value_def)
  show ?thesis
  proof (cases "obj_string T k = ''null''")
    case True
    then show ?thesis using assms(3) args by (auto simp: json_value_def type_err_def Let_def dest: new_node_ok split: if_splits)
  next
    case False
    then obtain v where v: "rest = [v]" "obj_ok v"
      using assms(2,3) args by (auto simp: json_value_def Let_def length_Suc_conv split: if_splits)
    have "raws_ok_arr els" if "tcl_list T v = Some el" "build_elements T el 0 = Inr els" for el els
      using build_raws_ok(3) [OF assms(1) that(2)] lib_ok_dest(1) [OF assms(1) v(2) that(1)] by simp
    moreover have "raws_ok_obj mem" if "tcl_dict T v = Some d" "build_members T d 0 = Inr mem" for d mem
      using build_raws_ok(2) [OF assms(1) that(2)] lib_ok_dest(2) [OF assms(1) v(2) that(1)] by simp
    ultimately show ?thesis
      using assms(3) args v False
      by (auto simp: json_value_def Let_def type_err_def json_is_number_literal_iff dest!: new_node_ok
          split: if_splits option.splits sum.splits)
  qed
qed

lemma json_decode_typed:
  assumes "json_decode T args = Inr r"
  shows "(\<exists>node s. r = TTyped Immutable node \<and> yy_read T s = Inr node \<and> int (length s) \<le> JSON_TYPED_HARD_MAXBYTES \<and>
      JsonCheckStrict (c_malloc T) node 0 = None) \<or>
    (\<exists>node s. yy_read T s = Inr node \<and> yy_to_tcl node 0 = Inr r)"
proof -
  obtain typed maxSet mb ob where
    opt: "decode_options T args False False JSON_TYPED_DEFAULT_MAXBYTES None = Inr (typed, maxSet, mb, Some ob)"
    using assms by (auto simp: json_decode_def result_simps split: option.splits)
  let ?s = "obj_string T ob"
  obtain root where root: "yy_read T ?s = Inr root"
    using assms opt by (auto simp: json_decode_def Let_def split: if_splits sum.splits)
  show ?thesis
  proof (cases typed)
    case True
    then have "int (length ?s) \<le> JSON_TYPED_HARD_MAXBYTES" "JsonCheckStrict (c_malloc T) root 0 = None"
      "r = TTyped Immutable root"
      using assms opt root
      by (auto simp: json_decode_def Let_def simp del: JsonCheckStrict.simps split: if_splits option.splits strict_err.splits)
    then show ?thesis using root by blast
  next
    case False
    then have "yy_to_tcl root 0 = Inr r"
      using assms opt root
      by (auto simp: json_decode_def Let_def simp del: yy_to_tcl.simps split: if_splits sum.splits)
    then show ?thesis using root by blast
  qed
qed

lemma plain_not_typed: "plain v \<noteq> TTyped k n"
  by (cases v) auto

section \<open>Properties\<close>

text \<open>\<^verbatim>\<open>json decode\<close> hands out a typed value only for a document of at most 64 MiB that the reader
  accepted, that nests at most 512 deep and has no duplicate member at any level.\<close>

theorem typed_decode_guarantee:
  assumes "tcl_ok T" "lib_ok T" "JsonCmd T (TStr ''decode'' # args) = Inr (TTyped k node)"
  shows "k = Immutable \<and> ydepth node \<le> 512 \<and> no_dups node \<and>
    (\<exists>s. yy_read T s = Inr node \<and> length s \<le> 67108864)"
proof -
  have "json_decode T args = Inr (TTyped k node)"
    using assms(1,3) by (simp add: JsonCmd_def obj_string_def tcl_ok_def)
  from json_decode_typed [OF this] show ?thesis
  proof
    assume "\<exists>node' s. TTyped k node = TTyped Immutable node' \<and> yy_read T s = Inr node' \<and>
        int (length s) \<le> JSON_TYPED_HARD_MAXBYTES \<and> JsonCheckStrict (c_malloc T) node' 0 = None"
    then obtain s where "k = Immutable" "yy_read T s = Inr node" "int (length s) \<le> JSON_TYPED_HARD_MAXBYTES"
      "JsonCheckStrict (c_malloc T) node 0 = None" by auto
    then show ?thesis
      using strict_sound(1) [of "c_malloc T" node 0]
      by (auto simp: JSON_TYPED_HARD_MAXBYTES_def JSON_MAX_DEPTH_def simp del: JsonCheckStrict.simps ydepth.simps no_dups.simps)
  next
    assume "\<exists>node' s. yy_read T s = Inr node' \<and> yy_to_tcl node' 0 = Inr (TTyped k node)"
    then obtain node' s where n: "yy_read T s = Inr node'" "yy_to_tcl node' 0 = Inr (TTyped k node)" by blast
    have "raw_numbers node'" using lib_ok_dest(3) [OF assms(2) n(1)] by (rule raws_ok_numbers)
    then have "plain node' = TTyped k node"
      using yy_to_tcl_exact(1) [of node' 0] n(2) by (auto simp del: yy_to_tcl.simps plain.simps split: if_splits)
    then show ?thesis using plain_not_typed by blast
  qed
qed

lemma demo_lib_ok: "lib_ok demo_tcl"
  by (auto simp: lib_ok_def demo_tcl_def json_is_number_literal_iff [symmetric] literal_bits
      split: tobj.splits if_splits)

theorem typed_decode_guarantee_witness: "ydepth (YArr [YRaw ''1'']) \<le> 512"
proof -
  have "JsonCmd demo_tcl [TStr ''decode'', TStr ''-typed'', TStr ''[1]''] = Inr (TTyped Immutable (YArr [YRaw ''1'']))"
    by code_simp
  from typed_decode_guarantee [OF demo_tcl_ok demo_lib_ok this] show ?thesis by blast
qed

text \<open>no command lets caller text reach a typed document unquoted unless it is a JSON number: if the
  reader keeps numbers as literals and conversions invent no typed values, every typed value that any
  \<^verbatim>\<open>json\<close> command returns for well-formed arguments holds only JSON numbers in its raw nodes.\<close>

theorem typed_values_wellformed:
  assumes "lib_ok T" "\<forall>v\<in>set objv. obj_ok v" "JsonCmd T objv = Inr r"
  shows "obj_ok r"
proof -
  obtain sub args where objv: "objv = sub # args" using assms(3) by (cases objv) (auto simp: JsonCmd_def)
  have args: "\<forall>v\<in>set args. obj_ok v" using assms(2) objv by simp
  have dec: "obj_ok r" if "json_decode T args = Inr r"
    using json_decode_typed [OF that] lib_ok_dest(3) [OF assms(1)]
    by (auto simp del: yy_to_tcl.simps intro: unwrap_obj_ok(1))
  have unw: "obj_ok r" if "json_unwrap T args = Inr r"
    using that args unwrap_obj_ok
    by (auto simp: json_unwrap_def simp del: yy_to_tcl.simps yy_mut_to_tcl.simps
        split: list.splits tobj.splits sum.splits jkind.splits)
  have get: "obj_ok r" if "json_get T args = Inr r"
    using that args path_loop_raws_ok
    by (auto simp: json_get_def split: list.splits tobj.splits sum.splits if_splits)
  have other: "obj_ok r" if "json_type T args = Inr r \<or> json_exists T args = Inr r \<or> json_encode T args = Inr r"
    using that
    by (auto simp: json_type_def json_exists_def json_encode_def result_simps
        split: list.splits tobj.splits sum.splits if_splits option.splits prod.splits)
  have "json_decode T args = Inr r \<or> json_encode T args = Inr r \<or> json_value T args = Inr r \<or> json_type T args = Inr r \<or>
      json_unwrap T args = Inr r \<or> json_get T args = Inr r \<or> json_exists T args = Inr r"
    using assms(3) by (simp add: JsonCmd_def objv Let_def split: if_splits)
  then show ?thesis using dec unw get other json_value_ok [OF assms(1) args] by blast
qed

theorem typed_values_wellformed_witness: "obj_ok (TTyped Mutable (YArr [YRaw ''1'', YNull]))"
proof (rule typed_values_wellformed [OF demo_lib_ok])
  show "JsonCmd demo_tcl [TStr ''value'', TStr ''array'', TList [TTyped Immutable (YRaw ''1''), TTyped Mutable YNull]] =
      Inr (TTyped Mutable (YArr [YRaw ''1'', YNull]))" by code_simp
  show "\<forall>v\<in>set [TStr ''value'', TStr ''array'', TList [TTyped Immutable (YRaw ''1''), TTyped Mutable YNull]]. obj_ok v"
    by (simp add: json_is_number_literal_iff [symmetric] literal_bits)
qed

text \<open>\<^verbatim>\<open>exists\<close> and \<^verbatim>\<open>get\<close> agree on every typed value and non-empty path: \<^verbatim>\<open>exists\<close> never fails, it
  answers 1 exactly when \<^verbatim>\<open>get\<close> succeeds, and getting a path in two stages is getting it at once.\<close>

theorem exists_get_agree:
  assumes "tcl_ok T" "path \<noteq> []"
  shows "JsonCmd T (TStr ''exists'' # TTyped k node # path) =
      Inr (TInt (if \<exists>r. JsonCmd T (TStr ''get'' # TTyped k node # path) = Inr r then 1 else 0)) \<and>
    (JsonCmd T (TStr ''get'' # TTyped k node # path) = Inr r \<longrightarrow>
      JsonCmd T (TStr ''get'' # TTyped k node # path @ rest) = JsonCmd T (TStr ''get'' # r # rest))"
proof -
  have app: "path_loop T n (p @ q) = (case path_loop T n p of Inl e \<Rightarrow> Inl e | Inr n' \<Rightarrow> path_loop T n' q)" for n p q
    by (induction p arbitrary: n) (auto split: prod.splits option.splits)
  obtain p ps where p: "path = p # ps" using assms(2) by (cases path) auto
  have s: "JsonCmd T (TStr ''exists'' # args) = json_exists T args" "JsonCmd T (TStr ''get'' # args) = json_get T args" for args
    using assms(1) by (simp_all add: JsonCmd_def obj_string_def tcl_ok_def)
  have ex: "json_exists T (TTyped k node # path) = Inr (TInt (if \<exists>n. path_loop T node path = Inr n then 1 else 0))"
    by (simp add: json_exists_def p del: path_loop.simps split: sum.split)
  have get: "(json_get T (TTyped k n # q) = Inr r) \<longleftrightarrow> (\<exists>n'. path_loop T n q = Inr n' \<and> r = TTyped k n')" for n q r
    by (auto simp: json_get_def split: sum.splits if_splits)
  have app_get: "json_get T (TTyped k node # path @ rest) = json_get T (TTyped k n # rest)" if "path_loop T node path = Inr n" for n
    using that by (simp add: json_get_def app)
  show ?thesis unfolding s ex using get [of node path] app_get by auto
qed

theorem exists_get_agree_witness:
  "JsonCmd demo_tcl [TStr ''exists'', TTyped Mutable (YObj [(''a'', YNull)]), TStr ''a''] = Inr (TInt 1)"
proof -
  have "JsonCmd demo_tcl [TStr ''get'', TTyped Mutable (YObj [(''a'', YNull)]), TStr ''a''] = Inr (TTyped Mutable YNull)"
    by code_simp
  then show ?thesis
    using exists_get_agree [OF demo_tcl_ok, of "[TStr ''a'']" Mutable "YObj [(''a'', YNull)]"] by simp
qed

end
