(* ===== verification/JsonLife.thy ===== *)
theory JsonLife
  imports JsonVerb
begin

text \<open>
  The life of the documents behind typed values (\<^verbatim>\<open>JsonDocWrap\<close> of \<^verbatim>\<open>src/json.c\<close>): a typed \<^verbatim>\<open>Tcl_Obj\<close> points to a wrapper
  that counts its references and owns one yyjson document, immutable or mutable. Here objects, wrappers and documents
  have addresses; touching or freeing what is not there is a fault. \<^verbatim>\<open>JsonVerb\<close> says what the commands answer on values.
\<close>

section \<open>The heap\<close>

record JsonDocWrap =
  refCount :: int
  idoc :: "nat option"
  mdoc :: "nat option"

text \<open>A live object has a typed representation (\<^verbatim>\<open>ptr1\<close>, \<^verbatim>\<open>ptr2\<close>) or another one.\<close>

record json_heap =
  jh_wraps :: "nat \<rightharpoonup> JsonDocWrap"
  jh_docs :: "nat \<rightharpoonup> yyval"
  jh_objs :: "nat \<rightharpoonup> (nat \<times> yyval) option"
  jh_next :: nat
  jh_ok :: bool

definition jh_empty :: json_heap where
  "jh_empty = \<lparr>jh_wraps = Map.empty, jh_docs = Map.empty, jh_objs = Map.empty, jh_next = 0, jh_ok = True\<rparr>"

definition jh_fault :: "json_heap \<Rightarrow> json_heap" where "jh_fault h = h\<lparr>jh_ok := False\<rparr>"

definition doc_new :: "yyval \<Rightarrow> json_heap \<Rightarrow> nat \<times> json_heap" where
  "doc_new root h = (jh_next h, h\<lparr>jh_docs := (jh_docs h)(jh_next h \<mapsto> root), jh_next := jh_next h + 1\<rparr>)"

definition doc_free :: "nat \<Rightarrow> json_heap \<Rightarrow> json_heap" where
  "doc_free d h = (if jh_docs h d = None then jh_fault h else h\<lparr>jh_docs := (jh_docs h)(d := None)\<rparr>)"

definition doc_touch :: "nat \<Rightarrow> json_heap \<Rightarrow> json_heap" where
  "doc_touch d h = (if jh_docs h d = None then jh_fault h else h)"

definition wrap_new :: "nat option \<Rightarrow> nat option \<Rightarrow> json_heap \<Rightarrow> nat \<times> json_heap" where
  "wrap_new i m h = (jh_next h, h\<lparr>jh_wraps := (jh_wraps h)(jh_next h \<mapsto> \<lparr>refCount = 0, idoc = i, mdoc = m\<rparr>), jh_next := jh_next h + 1\<rparr>)"

abbreviation free_opt :: "nat option \<Rightarrow> json_heap \<Rightarrow> json_heap" where
  "free_opt p h \<equiv> (case p of None \<Rightarrow> h | Some d \<Rightarrow> doc_free d h)"

definition JsonWrapRelease :: "nat option \<Rightarrow> json_heap \<Rightarrow> json_heap" where
  "JsonWrapRelease p h = (case p of None \<Rightarrow> h | Some w \<Rightarrow> (case jh_wraps h w of
     None \<Rightarrow> jh_fault h
   | Some r \<Rightarrow>
       if refCount r - 1 = 0 then (free_opt (mdoc r) (free_opt (idoc r) h))\<lparr>jh_wraps := (jh_wraps h)(w := None)\<rparr>
       else h\<lparr>jh_wraps := (jh_wraps h)(w \<mapsto> r\<lparr>refCount := refCount r - 1\<rparr>)\<rparr>))"

text \<open>What Tcl calls on a typed object: to drop its representation, and to copy it to an object without one.\<close>

definition JsonTypeFree :: "nat \<Rightarrow> json_heap \<Rightarrow> json_heap" where
  "JsonTypeFree ob h = (case jh_objs h ob of
     Some (Some (w, _)) \<Rightarrow> (JsonWrapRelease (Some w) h)\<lparr>jh_objs := (jh_objs h)(ob \<mapsto> None)\<rparr>
   | _ \<Rightarrow> jh_fault h)"

definition add_ref :: "nat \<Rightarrow> json_heap \<Rightarrow> json_heap" where
  "add_ref w h = (case jh_wraps h w of None \<Rightarrow> jh_fault h | Some r \<Rightarrow> h\<lparr>jh_wraps := (jh_wraps h)(w \<mapsto> r\<lparr>refCount := refCount r + 1\<rparr>)\<rparr>)"

definition JsonTypeDup :: "nat \<Rightarrow> nat \<Rightarrow> json_heap \<Rightarrow> json_heap" where
  "JsonTypeDup src dst h = (case jh_objs h src of
     Some (Some (w, node)) \<Rightarrow> (add_ref w h)\<lparr>jh_objs := (jh_objs h)(dst \<mapsto> Some (w, node))\<rparr>
   | _ \<Rightarrow> jh_fault h)"

definition JsonNewTyped :: "nat \<Rightarrow> yyval \<Rightarrow> json_heap \<Rightarrow> nat \<times> json_heap" where
  "JsonNewTyped w node h = (let ob = jh_next h in
     (ob, (add_ref w h)\<lparr>jh_objs := (jh_objs h)(ob \<mapsto> Some (w, node)), jh_next := ob + 1\<rparr>))"

text \<open>Reading the node of a typed object: through its wrapper, in its document; \<open>None\<close> if either is gone.\<close>

definition node_at :: "json_heap \<Rightarrow> nat \<Rightarrow> (jkind \<times> yyval) option" where
  "node_at h ob = (case jh_objs h ob of
     Some (Some (w, node)) \<Rightarrow> (case jh_wraps h w of
       None \<Rightarrow> None
     | Some r \<Rightarrow> (case (idoc r, mdoc r) of
         (Some d, _) \<Rightarrow> if jh_docs h d = None then None else Some (Immutable, node)
       | (None, Some d) \<Rightarrow> if jh_docs h d = None then None else Some (Mutable, node)
       | (None, None) \<Rightarrow> None))
   | _ \<Rightarrow> None)"

definition json_val :: "json_heap \<Rightarrow> nat \<Rightarrow> tobj" where
  "json_val h ob = (case node_at h ob of Some (kind, node) \<Rightarrow> TTyped kind node | None \<Rightarrow> TStr [])"

section \<open>The commands\<close>

text \<open>An answer is an error, a value of its own or a typed object.\<close>

type_synonym json_out = "(tobj + nat) res"

text \<open>
  The part of \<open>decode\<close> after the parse. The offending key points into the document, so it is read before the
  document is freed.
\<close>

definition decode_parsed :: "tcl_lib \<Rightarrow> bool \<Rightarrow> yyval \<Rightarrow> json_heap \<Rightarrow> json_out \<times> json_heap" where
  "decode_parsed T typed root h0 =
    (let (doc, h) = doc_new root h0 in
     if typed then
       (case JsonCheckStrict (c_malloc T) root 0 of
          Some e \<Rightarrow>
            let h = doc_free doc (doc_touch doc h) in
            (Inl (case e of
               TooDeep \<Rightarrow> JsonErr ''depth'' ''too deeply nested''
             | OutOfMemory \<Rightarrow> JsonErr ''limit'' ''out of memory during strict decode''
             | DupKey k \<Rightarrow> JsonErr ''strict'' (''duplicate object key '' @ [DQ] @ c_prefix 80 k @ [DQ])), h)
        | None \<Rightarrow>
            let (w, h) = wrap_new (Some doc) None h; (ob, h) = JsonNewTyped w root h in
            (Inr (Inr ob), h))
     else
       let h = doc_free doc (doc_touch doc h) in
       (case yy_to_tcl root 0 of
          Inl depthErr \<Rightarrow> (Inl (JsonErr (if depthErr then ''depth'' else ''parse'') (if depthErr then ''too deeply nested'' else ''invalid JSON'')), h)
        | Inr v \<Rightarrow> (Inr (Inl v), h)))"

definition decode_cmd :: "tcl_lib \<Rightarrow> tobj list \<Rightarrow> json_heap \<Rightarrow> json_out \<times> json_heap" where
  "decode_cmd T args h =
    (case decode_options T args False False JSON_TYPED_DEFAULT_MAXBYTES None of
       Inl e \<Rightarrow> (Inl e, h)
     | Inr (typed, maxSet, maxBytes, textObj) \<Rightarrow> (case textObj of
         None \<Rightarrow> (Inl WrongNumArgs, h)
       | Some ob \<Rightarrow>
           let s = obj_string T ob; n = length s in
           if \<not> typed \<and> maxSet then (Inl (JsonErr ''usage'' ''-maxbytes applies to -typed decode''), h)
           else if typed \<and> maxBytes > JSON_TYPED_HARD_MAXBYTES then
             (Inl (JsonErr ''limit'' ''-maxbytes is above the documented hard cap (64 MiB)''), h)
           else if typed \<and> int n > maxBytes then (Inl (JsonErr ''limit'' ''document exceeds -maxbytes''), h)
           else case yy_read T s of
             Inl (msg, pos) \<Rightarrow> (Inl (JsonErr ''parse'' (parse_message msg pos)), h)
           | Inr root \<Rightarrow> decode_parsed T typed root h))"

text \<open>Whether \<open>value\<close> makes a document; every error after that frees it. The document holds what is then built in it.\<close>

definition value_starts :: "tcl_lib \<Rightarrow> tobj list \<Rightarrow> bool" where
  "value_starts T args = (case args of
     [] \<Rightarrow> False
   | k # rest \<Rightarrow>
       obj_string T k \<in> {''string'', ''number'', ''boolean'', ''null'', ''array'', ''object''} \<and>
       length rest = (if obj_string T k = ''null'' then 0 else 1) \<and> yy_doc T)"

definition value_cmd :: "tcl_lib \<Rightarrow> tobj list \<Rightarrow> json_heap \<Rightarrow> json_out \<times> json_heap" where
  "value_cmd T args h0 =
    (if \<not> value_starts T args then (case json_value T args of Inl e \<Rightarrow> (Inl e, h0) | Inr v \<Rightarrow> (Inr (Inl v), h0))
     else case json_value T args of
       Inl e \<Rightarrow> (let (doc, h) = doc_new YNull h0 in (Inl e, doc_free doc h))
     | Inr (TTyped _ node) \<Rightarrow>
         (let (doc, h) = doc_new node h0; (w, h) = wrap_new None (Some doc) h; (ob, h) = JsonNewTyped w node h in (Inr (Inr ob), h))
     | Inr v \<Rightarrow> (Inr (Inl v), h0))"

definition get_cmd :: "tcl_lib \<Rightarrow> nat \<Rightarrow> tobj list \<Rightarrow> json_heap \<Rightarrow> json_out \<times> json_heap" where
  "get_cmd T ob path h = (case (jh_objs h ob, node_at h ob) of
     (Some (Some (w, _)), Some (_, node)) \<Rightarrow> (case path_loop T node path of
         Inr node' \<Rightarrow> (let (res, h) = JsonNewTyped w node' h in (Inr (Inr res), h))
       | Inl (step, stepErr) \<Rightarrow>
           (Inl (if stepErr then JsonErr ''type'' ''path steps into a non-container''
                 else JsonErr ''absent'' (''no member '' @ [DQ] @ c_prefix 80 (obj_string T step) @ [DQ])), h))
   | (Some None, _) \<Rightarrow> (Inl (JsonErr ''type'' ''not a typed json value''), h)
   | _ \<Rightarrow> (Inl (JsonErr ''type'' ''not a typed json value''), jh_fault h))"

text \<open>
  What can happen. The words of a command are made of typed objects (\<open>held\<close>) and anything else; while it runs Tcl may
  convert some of them to other representations (\<open>drops\<close>), but not the container a path starts at, whose text is no
  integer. A value is also duplicated, converted and released by Tcl at any time.
\<close>

datatype json_event =
    Decode "nat list" "tobj list \<Rightarrow> tobj list" "nat list"
  | Construct "nat list" "tobj list \<Rightarrow> tobj list" "nat list"
  | Get nat "nat list" "tobj list \<Rightarrow> tobj list" "nat list"
  | Query "nat list" "tobj list \<Rightarrow> tobj list" "nat list"
  | Duplicate nat
  | Shimmer nat
  | Release nat

definition jh_typed :: "json_heap \<Rightarrow> nat \<Rightarrow> bool" where
  "jh_typed h ob = (case jh_objs h ob of Some (Some _) \<Rightarrow> True | _ \<Rightarrow> False)"

definition with_words :: "nat list \<Rightarrow> (tobj list \<Rightarrow> tobj list) \<Rightarrow> nat list \<Rightarrow> (tobj list \<Rightarrow> json_heap \<Rightarrow> json_out \<times> json_heap) \<Rightarrow>
    json_heap \<Rightarrow> (json_out \<times> json_heap) option" where
  "with_words held f drops run h =
    (if \<not> (list_all (jh_typed h) held \<and> distinct drops \<and> set drops \<subseteq> set held) then None
     else if list_ex (\<lambda>ob. node_at h ob = None) held then Some (Inl TclError, jh_fault h)
     else Some (run (f (map (json_val h) held)) (fold JsonTypeFree drops h)))"

definition is_query :: "tcl_lib \<Rightarrow> tobj list \<Rightarrow> bool" where
  "is_query T objv = (objv = [] \<or> obj_string T (hd objv) \<notin> {''decode'', ''value'', ''get''})"

fun json_do :: "tcl_lib \<Rightarrow> json_event \<Rightarrow> json_heap \<Rightarrow> (json_out \<times> json_heap) option" where
  "json_do T (Decode held f drops) h = with_words held f drops (decode_cmd T) h"
| "json_do T (Construct held f drops) h = with_words held f drops (value_cmd T) h"
| "json_do T (Get ob held f drops) h =
    (if \<not> jh_typed h ob \<or> ob \<in> set drops then None else with_words held f drops (get_cmd T ob) h)"
| "json_do T (Query held f drops) h =
    (if \<not> is_query T (f (map (json_val h) held)) then None
     else with_words held f drops (\<lambda>objv h. (case JsonCmd T objv of Inl e \<Rightarrow> Inl e | Inr v \<Rightarrow> Inr (Inl v), h)) h)"
| "json_do T (Duplicate ob) h =
    (if \<not> jh_typed h ob then None
     else (let dst = jh_next h in Some (Inr (Inr dst), JsonTypeDup ob dst (h\<lparr>jh_objs := (jh_objs h)(dst \<mapsto> None), jh_next := dst + 1\<rparr>))))"
| "json_do T (Shimmer ob) h =
    (if \<not> jh_typed h ob then None
     else case node_at h ob of
       None \<Rightarrow> Some (Inl TclError, jh_fault h)
     | Some (_, node) \<Rightarrow> Some (Inr (Inl (TStr (JsonTypeString T node))), JsonTypeFree ob h))"
| "json_do T (Release ob) h =
    (if \<not> jh_typed h ob then None
     else (let h = JsonTypeFree ob h in Some (Inr (Inl (TStr [])), h\<lparr>jh_objs := (jh_objs h)(ob := None)\<rparr>)))"

fun json_run :: "tcl_lib \<Rightarrow> json_event list \<Rightarrow> json_heap \<Rightarrow> json_heap" where
  "json_run T [] h = h"
| "json_run T (ev # evs) h = json_run T evs (case json_do T ev h of None \<Rightarrow> h | Some (_, h') \<Rightarrow> h')"

section \<open>The invariant\<close>

inductive below :: "yyval \<Rightarrow> yyval \<Rightarrow> bool" for root where
  below_refl: "below root root"
| below_arr: "below root (YArr els) \<Longrightarrow> v \<in> set els \<Longrightarrow> below root v"
| below_obj: "below root (YObj mem) \<Longrightarrow> (k, v) \<in> set mem \<Longrightarrow> below root v"

lemma JsonStep_below: "JsonStep T node s = (Some child, e) \<Longrightarrow> below root node \<Longrightarrow> below root child"
  by (cases node) (auto simp: JsonStep_def split: option.splits if_splits intro: below_arr below_obj dest: map_of_SomeD)

lemma path_loop_below: "path_loop T node path = Inr n \<Longrightarrow> below root node \<Longrightarrow> below root n"
  by (induction T node path rule: path_loop.induct) (auto split: prod.splits option.splits dest: JsonStep_below)

definition refs :: "json_heap \<Rightarrow> nat \<Rightarrow> nat set" where
  "refs h w = {ob. \<exists>n. jh_objs h ob = Some (Some (w, n))}"

definition owned :: "JsonDocWrap \<Rightarrow> nat list" where
  "owned r = (case idoc r of None \<Rightarrow> [] | Some d \<Rightarrow> [d]) @ (case mdoc r of None \<Rightarrow> [] | Some d \<Rightarrow> [d])"

lemma owned_refCount [simp]: "owned (r\<lparr>refCount := x\<rparr>) = owned r" by (simp add: owned_def)

text \<open>
  Each wrapper owns one live document of its own, counts exactly its typed objects and has one; each typed object has a
  node of the document of its wrapper; there are no other documents.
\<close>

definition jh_inv :: "json_heap \<Rightarrow> bool" where
  "jh_inv h \<longleftrightarrow> jh_ok h \<and> finite (dom (jh_objs h)) \<and>
    (\<forall>a \<in> dom (jh_wraps h) \<union> dom (jh_docs h) \<union> dom (jh_objs h). a < jh_next h) \<and>
    (\<forall>w r. jh_wraps h w = Some r \<longrightarrow> refCount r = int (card (refs h w)) \<and> refs h w \<noteq> {} \<and> (\<exists>d. owned r = [d] \<and> jh_docs h d \<noteq> None)) \<and>
    (\<forall>ob w n. jh_objs h ob = Some (Some (w, n)) \<longrightarrow> (\<exists>r d root. jh_wraps h w = Some r \<and> owned r = [d] \<and> jh_docs h d = Some root \<and> below root n)) \<and>
    (\<forall>d \<in> dom (jh_docs h). \<exists>!w. \<exists>r. jh_wraps h w = Some r \<and> owned r = [d])"

lemma jh_inv_empty: "jh_inv jh_empty"
  by (simp add: jh_inv_def jh_empty_def)

lemma jh_invD:
  assumes "jh_inv h"
  shows "jh_ok h" "finite (dom (jh_objs h))"
    and "jh_wraps h w = Some r \<Longrightarrow> w < jh_next h" "jh_docs h d = Some root \<Longrightarrow> d < jh_next h" "jh_objs h ob = Some x \<Longrightarrow> ob < jh_next h"
    and "jh_wraps h w = Some r \<Longrightarrow> refCount r = int (card (refs h w))" "jh_wraps h w = Some r \<Longrightarrow> refs h w \<noteq> {}"
    and "jh_wraps h w = Some r \<Longrightarrow> \<exists>d. owned r = [d] \<and> jh_docs h d \<noteq> None"
    and "jh_objs h ob = Some (Some (w, n)) \<Longrightarrow> \<exists>r d root. jh_wraps h w = Some r \<and> owned r = [d] \<and> jh_docs h d = Some root \<and> below root n"
    and "jh_docs h d = Some root \<Longrightarrow> \<exists>!w. \<exists>r. jh_wraps h w = Some r \<and> owned r = [d]"
  using assms unfolding jh_inv_def by blast+

lemma owned_cases:
  assumes "owned r = [d]"
  obtains "idoc r = Some d" "mdoc r = None" | "idoc r = None" "mdoc r = Some d"
  using assms by (auto simp: owned_def split: option.splits)

lemma node_at_iff:
  assumes "jh_inv h" "jh_objs h ob = Some (Some (w, n))" "jh_wraps h w = Some r"
  shows "node_at h ob = Some (if idoc r = None then Mutable else Immutable, n)"
proof -
  obtain d root where d: "owned r = [d]" "jh_docs h d = Some root" using jh_invD(9) [OF assms(1,2)] assms(3) by auto
  show ?thesis using owned_cases [OF d(1)] by cases (use assms d(2) in \<open>auto simp: node_at_def\<close>)
qed

lemma jh_invI:
  assumes "jh_ok h" "finite (dom (jh_objs h))"
    and "\<And>w r. jh_wraps h w = Some r \<Longrightarrow> w < jh_next h" "\<And>d root. jh_docs h d = Some root \<Longrightarrow> d < jh_next h"
    and "\<And>ob x. jh_objs h ob = Some x \<Longrightarrow> ob < jh_next h"
    and "\<And>w r. jh_wraps h w = Some r \<Longrightarrow>
      refCount r = int (card (refs h w)) \<and> refs h w \<noteq> {} \<and> (\<exists>d. owned r = [d] \<and> jh_docs h d \<noteq> None)"
    and "\<And>ob w n. jh_objs h ob = Some (Some (w, n)) \<Longrightarrow> \<exists>r d root. jh_wraps h w = Some r \<and> owned r = [d] \<and> jh_docs h d = Some root \<and> below root n"
    and "\<And>d root. jh_docs h d = Some root \<Longrightarrow> \<exists>!w. \<exists>r. jh_wraps h w = Some r \<and> owned r = [d]"
  shows "jh_inv h"
  unfolding jh_inv_def
proof (intro conjI ballI allI impI)
  fix a assume "a \<in> dom (jh_wraps h) \<union> dom (jh_docs h) \<union> dom (jh_objs h)"
  then show "a < jh_next h" using assms(3-5) by blast
qed (use assms in blast)+

lemma finite_refs: "jh_inv h \<Longrightarrow> finite (refs h w)"
  by (rule finite_subset [of _ "dom (jh_objs h)"]) (auto simp: refs_def dest: jh_invD(2))

lemma ref_in: "jh_objs h ob = Some (Some (w, n)) \<Longrightarrow> ob \<in> refs h w" by (auto simp: refs_def)

lemma owned_unique:
  "jh_inv h \<Longrightarrow> jh_wraps h w = Some r \<Longrightarrow> jh_wraps h w' = Some r' \<Longrightarrow> owned r = [d] \<Longrightarrow> owned r' = [d] \<Longrightarrow> w = w'"
  using jh_invD(8) [of h w r] jh_invD(10) [of h d] by (metis list.inject option.exhaust)

lemma doc_owner: "jh_inv h \<Longrightarrow> jh_docs h d = Some root \<Longrightarrow> \<exists>w r. jh_wraps h w = Some r \<and> owned r = [d]"
  using jh_invD(10) [of h d] by blast

lemma free_owned:
  assumes "owned r = [d]" "jh_docs h d = Some root"
  shows "free_opt (mdoc r) (free_opt (idoc r) h) = h\<lparr>jh_docs := (jh_docs h)(d := None)\<rparr>"
  using assms(1) by (rule owned_cases) (simp_all add: doc_free_def assms(2))

text \<open>Dropping the last reference frees the wrapper and its document; dropping another one only counts.\<close>

lemma JsonTypeFree_last:
  assumes h: "jh_inv h" "jh_objs h ob = Some (Some (w, n))" "jh_wraps h w = Some r" "owned r = [d]" "refs h w = {ob}"
  shows "JsonTypeFree ob h = h\<lparr>jh_wraps := (jh_wraps h)(w := None), jh_docs := (jh_docs h)(d := None), jh_objs := (jh_objs h)(ob \<mapsto> None)\<rparr>"
    "jh_inv (JsonTypeFree ob h)"
proof -
  let ?h = "h\<lparr>jh_wraps := (jh_wraps h)(w := None), jh_docs := (jh_docs h)(d := None), jh_objs := (jh_objs h)(ob \<mapsto> None)\<rparr>"
  obtain root where d: "jh_docs h d = Some root" using jh_invD(8) [OF h(1,3)] h(4) by auto
  have c: "refCount r = 1" using jh_invD(6) [OF h(1,3)] h(5) by simp
  show eq: "JsonTypeFree ob h = ?h"
    using free_owned [OF h(4) d] by (simp add: JsonTypeFree_def JsonWrapRelease_def h c)
  have other: "w' \<noteq> w" if "jh_objs h ob' = Some (Some (w', m))" "ob' \<noteq> ob" for ob' w' m
    using ref_in [OF that(1)] h(5) that(2) by auto
  have nd: "d' \<noteq> d" if "jh_wraps h w' = Some r'" "owned r' = [d']" "w' \<noteq> w" for w' r' d'
    using owned_unique [OF h(1) that(1) h(3) that(2)] h(4) that(3) by auto
  have rf: "refs (h\<lparr>jh_wraps := W, jh_docs := D, jh_objs := (jh_objs h)(ob \<mapsto> None)\<rparr>) w' = refs h w' - {ob}" for W D w'
    by (auto simp: refs_def)
  have ob: "ob \<notin> refs h w'" if "w' \<noteq> w" for w' using h(2) that by (auto simp: refs_def)
  show "jh_inv (JsonTypeFree ob h)" unfolding eq
  proof (rule jh_invI)
    fix w' r' assume "jh_wraps ?h w' = Some r'"
    then have w': "w' \<noteq> w" "jh_wraps h w' = Some r'" by (auto split: if_splits)
    then show "refCount r' = int (card (refs ?h w')) \<and>
      refs ?h w' \<noteq> {} \<and>
      (\<exists>d'. owned r' = [d'] \<and> jh_docs ?h d' \<noteq> None)"
      using jh_invD(6-8) [OF h(1) w'(2)] ob [OF w'(1)] nd [OF w'(2) _ w'(1)] by (auto simp: rf)
  next
    fix ob' w' m assume "jh_objs ?h ob' = Some (Some (w', m))"
    then have o': "jh_objs h ob' = Some (Some (w', m))" "ob' \<noteq> ob" by (auto split: if_splits)
    obtain r' d' root' where "jh_wraps h w' = Some r'" "owned r' = [d']" "jh_docs h d' = Some root'" "below root' m" using jh_invD(9) [OF h(1) o'(1)] by blast
    moreover have "w' \<noteq> w" by (rule other [OF o'])
    ultimately show "\<exists>r d' root. jh_wraps ?h w' = Some r \<and>
        owned r = [d'] \<and> jh_docs ?h d' = Some root \<and> below root m"
      using nd by (intro exI [of _ r'] exI [of _ d'] exI [of _ root']) auto
  next
    fix d' root' assume "jh_docs ?h d' = Some root'"
    then have d': "d' \<noteq> d" "jh_docs h d' = Some root'" by (auto split: if_splits)
    then obtain v rv where v: "jh_wraps h v = Some rv" "owned rv = [d']" using jh_invD(10) [OF h(1) d'(2)] by blast
    have "v \<noteq> w" using v h(3,4) d'(1) by auto
    then show "\<exists>!w'. \<exists>r. jh_wraps ?h w' = Some r \<and> owned r = [d']"
      using v owned_unique [OF h(1)] by (intro ex1I [of _ v]) (auto split: if_splits)
  qed (use jh_invD [OF h(1)] h(2) in \<open>auto split: if_splits\<close>)
qed

lemma JsonTypeFree_more:
  assumes h: "jh_inv h" "jh_objs h ob = Some (Some (w, n))" "jh_wraps h w = Some r" "refs h w \<noteq> {ob}"
  shows "JsonTypeFree ob h = h\<lparr>jh_wraps := (jh_wraps h)(w \<mapsto> r\<lparr>refCount := refCount r - 1\<rparr>), jh_objs := (jh_objs h)(ob \<mapsto> None)\<rparr>"
    "jh_inv (JsonTypeFree ob h)"
proof -
  let ?h = "h\<lparr>jh_wraps := (jh_wraps h)(w \<mapsto> r\<lparr>refCount := refCount r - 1\<rparr>), jh_objs := (jh_objs h)(ob \<mapsto> None)\<rparr>"
  have in_w: "ob \<in> refs h w" by (rule ref_in [OF h(2)])
  have card: "card (refs h w - {ob}) = card (refs h w) - 1" "card (refs h w) > 1" "refs h w - {ob} \<noteq> {}"
  proof -
    show "card (refs h w - {ob}) = card (refs h w) - 1" using in_w finite_refs [OF h(1)] by simp
    show ne: "refs h w - {ob} \<noteq> {}" using in_w h(4) by auto
    then have "card (refs h w - {ob}) \<noteq> 0" using finite_refs [OF h(1)] by auto
    then show "card (refs h w) > 1" using in_w finite_refs [OF h(1)] by simp
  qed
  have c: "refCount r - 1 \<noteq> 0" "refCount r = int (card (refs h w))" using jh_invD(6) [OF h(1,3)] card(2) by simp_all
  show eq: "JsonTypeFree ob h = ?h" using c(1) by (simp add: JsonTypeFree_def JsonWrapRelease_def h)
  have rf: "refs (h\<lparr>jh_wraps := W, jh_objs := (jh_objs h)(ob \<mapsto> None)\<rparr>) w' = refs h w' - {ob}" for W w' by (auto simp: refs_def)
  have ob: "ob \<notin> refs h w'" if "w' \<noteq> w" for w' using h(2) that by (auto simp: refs_def)
  show "jh_inv (JsonTypeFree ob h)" unfolding eq
  proof (rule jh_invI)
    fix w' r' assume w': "jh_wraps ?h w' = Some r'"
    show "refCount r' = int (card (refs ?h w')) \<and> refs ?h w' \<noteq> {} \<and> (\<exists>d'. owned r' = [d'] \<and> jh_docs ?h d' \<noteq> None)"
    proof (cases "w' = w")
      case True
      then show ?thesis using w' card c jh_invD(8) [OF h(1,3)] by (auto simp: rf)
    next
      case False
      then show ?thesis using w' ob [OF False] jh_invD(6-8) [OF h(1), of w' r'] by (simp add: rf)
    qed
  next
    fix ob' w' m assume "jh_objs ?h ob' = Some (Some (w', m))"
    then have "jh_objs h ob' = Some (Some (w', m))" by (auto split: if_splits)
    then obtain r' d' root' where "jh_wraps h w' = Some r'" "owned r' = [d']" "jh_docs h d' = Some root'" "below root' m"
      using jh_invD(9) [OF h(1)] by blast
    then show "\<exists>r d' root. jh_wraps ?h w' = Some r \<and> owned r = [d'] \<and> jh_docs ?h d' = Some root \<and> below root m"
      using h(3) by (cases "w' = w") auto
  next
    fix d' root' assume "jh_docs ?h d' = Some root'"
    then have "jh_docs h d' = Some root'" by simp
    then obtain v rv where v: "jh_wraps h v = Some rv" "owned rv = [d']" using doc_owner [OF h(1)] by blast
    then show "\<exists>!w'. \<exists>r. jh_wraps ?h w' = Some r \<and> owned r = [d']"
      using owned_unique [OF h(1)] h(3) by (intro ex1I [of _ v]) (auto split: if_splits)
  qed (use jh_invD [OF h(1)] h(2,3) in \<open>auto split: if_splits\<close>)
qed

lemma JsonTypeFree_node_at:
  assumes h: "jh_inv h" "jh_objs h ob = Some (Some (w, n))" and o': "ob' \<noteq> ob"
  shows "jh_inv (JsonTypeFree ob h)" "jh_objs (JsonTypeFree ob h) = (jh_objs h)(ob \<mapsto> None)" "node_at (JsonTypeFree ob h) ob' = node_at h ob'"
proof -
  obtain r d root where r: "jh_wraps h w = Some r" "owned r = [d]" "jh_docs h d = Some root" using jh_invD(9) [OF h] by blast
  show inv: "jh_inv (JsonTypeFree ob h)"
    using JsonTypeFree_last(2) [OF h r(1,2)] JsonTypeFree_more(2) [OF h r(1)] by blast
  show objs: "jh_objs (JsonTypeFree ob h) = (jh_objs h)(ob \<mapsto> None)"
    using JsonTypeFree_last(1) [OF h r(1,2)] JsonTypeFree_more(1) [OF h r(1)] by (cases "refs h w = {ob}") simp_all
  show "node_at (JsonTypeFree ob h) ob' = node_at h ob'"
  proof (cases "\<exists>w' m. jh_objs h ob' = Some (Some (w', m))")
    case False
    then show ?thesis using o' by (auto simp: node_at_def objs split: option.splits)
  next
    case True
    then obtain w' m where ob': "jh_objs h ob' = Some (Some (w', m))" by blast
    then obtain r' where r': "jh_wraps h w' = Some r'" using jh_invD(9) [OF h(1)] by blast
    have ob'': "jh_objs (JsonTypeFree ob h) ob' = Some (Some (w', m))" using ob' o' objs by simp
    then obtain r'' where r'': "jh_wraps (JsonTypeFree ob h) w' = Some r''" using jh_invD(9) [OF inv] by blast
    have "idoc r'' = idoc r'"
      using r' r'' r(1) JsonTypeFree_last(1) [OF h r(1,2)] JsonTypeFree_more(1) [OF h r(1)]
      by (cases "refs h w = {ob}") (auto split: if_splits)
    then show ?thesis using node_at_iff [OF h(1) ob' r'] node_at_iff [OF inv ob'' r''] by simp
  qed
qed

text \<open>One more object for a wrapper: a path step or a copy.\<close>

lemma JsonNewTyped_inv:
  assumes h: "jh_inv h" "jh_wraps h w = Some r" "owned r = [d]" "jh_docs h d = Some root" "below root n"
  defines "h' \<equiv> h\<lparr>jh_wraps := (jh_wraps h)(w \<mapsto> r\<lparr>refCount := refCount r + 1\<rparr>), jh_objs := (jh_objs h)(jh_next h \<mapsto> Some (w, n)), jh_next := jh_next h + 1\<rparr>"
  shows "JsonNewTyped w n h = (jh_next h, h')" "jh_inv h'" "node_at h' (jh_next h) = Some (if idoc r = None then Mutable else Immutable, n)"
proof -
  show "JsonNewTyped w n h = (jh_next h, h')" by (simp add: JsonNewTyped_def add_ref_def h(2) h'_def Let_def)
  have fresh: "jh_objs h (jh_next h) = None" using jh_invD(5) [OF h(1)] by (cases "jh_objs h (jh_next h)") auto
  then have new: "jh_next h \<notin> refs h w" for w by (auto simp: refs_def)
  have rf: "refs h' w' = (if w' = w then insert (jh_next h) (refs h w) else refs h w')" for w'
    using fresh by (auto simp: refs_def h'_def split: if_splits)
  show inv: "jh_inv h'"
  proof (rule jh_invI)
    fix w' r' assume w': "jh_wraps h' w' = Some r'"
    show "refCount r' = int (card (refs h' w')) \<and> refs h' w' \<noteq> {} \<and> (\<exists>d'. owned r' = [d'] \<and> jh_docs h' d' \<noteq> None)"
    proof (cases "w' = w")
      case True
      then have "r' = r\<lparr>refCount := refCount r + 1\<rparr>" using w' by (simp add: h'_def)
      then show ?thesis using True jh_invD(6) [OF h(1,2)] new [of w] finite_refs [OF h(1)] h(3,4) by (simp add: rf) (simp add: h'_def)
    next
      case False
      then show ?thesis using w' jh_invD(6-8) [OF h(1), of w' r'] by (simp add: rf) (simp add: h'_def)
    qed
  next
    fix ob' w' m assume o': "jh_objs h' ob' = Some (Some (w', m))"
    show "\<exists>r d' root. jh_wraps h' w' = Some r \<and> owned r = [d'] \<and> jh_docs h' d' = Some root \<and> below root m"
    proof (cases "ob' = jh_next h")
      case True
      then show ?thesis using o' h(3-5) by (auto simp: h'_def)
    next
      case False
      then have "jh_objs h ob' = Some (Some (w', m))" using o' by (simp add: h'_def)
      then obtain r' d' root' where "jh_wraps h w' = Some r'" "owned r' = [d']" "jh_docs h d' = Some root'" "below root' m"
        using jh_invD(9) [OF h(1)] by blast
      then show ?thesis using h(2) by (cases "w' = w") (auto simp: h'_def)
    qed
  next
    fix d' root' assume "jh_docs h' d' = Some root'"
    then have "jh_docs h d' = Some root'" by (simp add: h'_def)
    then obtain v rv where v: "jh_wraps h v = Some rv" "owned rv = [d']" using doc_owner [OF h(1)] by blast
    then show "\<exists>!w'. \<exists>r. jh_wraps h' w' = Some r \<and> owned r = [d']"
      using owned_unique [OF h(1)] h(2) by (intro ex1I [of _ v]) (auto simp: h'_def split: if_splits)
  qed (use jh_invD [OF h(1)] h(2) in \<open>auto simp: h'_def less_Suc_eq split: if_splits\<close>)
  have "jh_objs h' (jh_next h) = Some (Some (w, n))" "jh_wraps h' w = Some (r\<lparr>refCount := refCount r + 1\<rparr>)" by (simp_all add: h'_def)
  from node_at_iff [OF inv this] show "node_at h' (jh_next h) = Some (if idoc r = None then Mutable else Immutable, n)" by simp
qed

text \<open>A new document: no heap changes if it is freed at once, and one wrapper with one object if it is kept.\<close>

lemma doc_new_free:
  assumes "jh_inv h" "doc_new root h = (d, h1)"
  shows "jh_inv (doc_free d h1)" "doc_touch d h1 = h1"
proof -
  have fresh: "jh_docs h (jh_next h) = None" using jh_invD(4) [OF assms(1)] by (cases "jh_docs h (jh_next h)") auto
  have eq: "doc_free d h1 = h\<lparr>jh_next := jh_next h + 1\<rparr>" "doc_touch d h1 = h1"
    using assms(2) fun_upd_idem [of "jh_docs h" "jh_next h" None, OF fresh] by (auto simp: doc_new_def doc_free_def doc_touch_def)
  then show "doc_touch d h1 = h1" by simp
  have "refs (h\<lparr>jh_next := jh_next h + 1\<rparr>) = refs h" by (simp add: refs_def fun_eq_iff)
  then show "jh_inv (doc_free d h1)" unfolding eq
    by (intro jh_invI) (use jh_invD [OF assms(1)] in \<open>simp_all add: less_SucI\<close>)
qed

lemma new_typed_doc:
  assumes h: "jh_inv h" and run: "doc_new root h = (d, h1)" "wrap_new i m h1 = (w, h2)" "JsonNewTyped w root h2 = (ob, h3)"
    and im: "i = Some d \<and> m = None \<or> i = None \<and> m = Some d"
  shows "jh_inv h3" "node_at h3 ob = Some (if i = None then Mutable else Immutable, root)"
proof -
  let ?N = "jh_next h" and ?r = "\<lparr>refCount = 1, idoc = i, mdoc = m\<rparr>"
  have eq: "d = ?N" "w = ?N + 1" "ob = ?N + 2"
    "h3 = h\<lparr>jh_wraps := (jh_wraps h)(?N + 1 \<mapsto> ?r), jh_docs := (jh_docs h)(?N \<mapsto> root), jh_objs := (jh_objs h)(?N + 2 \<mapsto> Some (?N + 1, root)), jh_next := ?N + 3\<rparr>"
    using run by (auto simp: doc_new_def wrap_new_def JsonNewTyped_def add_ref_def Let_def numeral_eq_Suc)
  have ow: "owned ?r = [?N]" using im eq(1) by (auto simp: owned_def)
  have rf: "refs h3 w' = (if w' = ?N + 1 then {?N + 2} else refs h w')" for w'
  proof -
    have "jh_objs h (?N + 2) = None" using jh_invD(5) [OF h, of "?N + 2"] by (cases "jh_objs h (?N + 2)") auto
    moreover have "jh_objs h x \<noteq> Some (Some (?N + 1, n))" for x n using jh_invD(9) [OF h, of x "?N + 1" n] jh_invD(3) [OF h, of "?N + 1"] by auto
    ultimately show ?thesis by (auto simp: refs_def eq)
  qed
  have old: "jh_wraps h3 = (jh_wraps h)(?N + 1 \<mapsto> ?r)" "jh_docs h3 = (jh_docs h)(?N \<mapsto> root)" "jh_objs h3 = (jh_objs h)(?N + 2 \<mapsto> Some (?N + 1, root))"
    using eq by simp_all
  show inv: "jh_inv h3"
  proof (rule jh_invI)
    fix w' r' assume w': "jh_wraps h3 w' = Some r'"
    show "refCount r' = int (card (refs h3 w')) \<and> refs h3 w' \<noteq> {} \<and> (\<exists>d'. owned r' = [d'] \<and> jh_docs h3 d' \<noteq> None)"
    proof (cases "w' = ?N + 1")
      case True
      then have "r' = ?r" using w' old by simp
      then show ?thesis using True ow old by (simp add: rf)
    next
      case False
      then have "jh_wraps h w' = Some r'" using w' old by simp
      from jh_invD(6-8) [OF h this] False show ?thesis using old by (auto simp: rf)
    qed
  next
    fix ob' w' n assume o': "jh_objs h3 ob' = Some (Some (w', n))"
    show "\<exists>r d' root. jh_wraps h3 w' = Some r \<and> owned r = [d'] \<and> jh_docs h3 d' = Some root \<and> below root n"
    proof (cases "ob' = ?N + 2")
      case True
      then show ?thesis using o' ow old below_refl by auto
    next
      case False
      then have "jh_objs h ob' = Some (Some (w', n))" using o' old by simp
      then obtain r' d' root' where r': "jh_wraps h w' = Some r'" "owned r' = [d']" "jh_docs h d' = Some root'" "below root' n"
        using jh_invD(9) [OF h] by blast
      have "w' \<noteq> ?N + 1" "d' \<noteq> ?N" using jh_invD(3) [OF h r'(1)] jh_invD(4) [OF h r'(3)] by auto
      then show ?thesis using r' old by simp
    qed
  next
    fix d' root' assume d': "jh_docs h3 d' = Some root'"
    have lt: "x \<noteq> ?N" if "jh_wraps h v = Some rv" "owned rv = [x]" for v rv x
      using jh_invD(8) [OF h that(1)] that(2) jh_invD(4) [OF h] by fastforce
    have lw: "jh_wraps h (?N + 1) = None" using jh_invD(3) [OF h, of "?N + 1"] by (cases "jh_wraps h (?N + 1)") auto
    show "\<exists>!w'. \<exists>r. jh_wraps h3 w' = Some r \<and> owned r = [d']"
    proof (cases "d' = ?N")
      case True
      then show ?thesis using ow old lt by (intro ex1I [of _ "?N + 1"]) (auto split: if_splits)
    next
      case False
      then have "jh_docs h d' = Some root'" using d' old by simp
      then obtain v rv where v: "jh_wraps h v = Some rv" "owned rv = [d']" using doc_owner [OF h] by blast
      then show ?thesis using owned_unique [OF h] old ow False lw by (intro ex1I [of _ v]) (auto split: if_splits)
    qed
  qed (use jh_invD(1-5) [OF h] in \<open>auto simp: eq split: if_splits intro: trans_less_add1\<close>)
  have "jh_objs h3 ob = Some (Some (?N + 1, root))" "jh_wraps h3 (?N + 1) = Some ?r" using old eq by simp_all
  from node_at_iff [OF inv this] show "node_at h3 ob = Some (if i = None then Mutable else Immutable, root)" by simp
qed

section \<open>What the commands answer\<close>

declare JsonCheckStrict.simps [simp del] yy_to_tcl.simps [simp del] path_loop.simps [simp del] decode_options.simps [simp del]

text \<open>The answer on values: a typed object stands for its value.\<close>

definition answer_value :: "json_heap \<Rightarrow> json_out \<Rightarrow> tobj res" where
  "answer_value h out = (case out of Inl e \<Rightarrow> Inl e | Inr (Inl v) \<Rightarrow> Inr v | Inr (Inr ob) \<Rightarrow> Inr (json_val h ob))"

lemma json_val_node: "node_at h ob = Some (kind, n) \<Longrightarrow> json_val h ob = TTyped kind n"
  by (simp add: json_val_def)

lemma decode_parsed_spec:
  assumes "jh_inv h" "decode_parsed T typed root h = (out, h')"
  shows "jh_inv h' \<and> answer_value h' out =
    (if typed then (case JsonCheckStrict (c_malloc T) root 0 of
         Some TooDeep \<Rightarrow> Inl (JsonErr ''depth'' ''too deeply nested'')
       | Some OutOfMemory \<Rightarrow> Inl (JsonErr ''limit'' ''out of memory during strict decode'')
       | Some (DupKey k) \<Rightarrow> Inl (JsonErr ''strict'' (''duplicate object key '' @ [DQ] @ c_prefix 80 k @ [DQ]))
       | None \<Rightarrow> Inr (TTyped Immutable root))
     else (case yy_to_tcl root 0 of
         Inl depthErr \<Rightarrow> Inl (JsonErr (if depthErr then ''depth'' else ''parse'') (if depthErr then ''too deeply nested'' else ''invalid JSON''))
       | Inr v \<Rightarrow> Inr v))"
proof -
  obtain d h1 where n: "doc_new root h = (d, h1)" by (rule prod.exhaust)
  note f = doc_new_free [OF assms(1) n]
  show ?thesis
  proof (cases "typed \<and> JsonCheckStrict (c_malloc T) root 0 = None")
    case True
    obtain w h2 where w: "wrap_new (Some d) None h1 = (w, h2)" by (rule prod.exhaust)
    obtain ob h3 where ob: "JsonNewTyped w root h2 = (ob, h3)" by (rule prod.exhaust)
    have "out = Inr (Inr ob)" "h' = h3" using assms(2) True by (simp_all add: decode_parsed_def n w ob)
    then show ?thesis using new_typed_doc [OF assms(1) n w ob] True by (simp add: answer_value_def json_val_node)
  next
    case False
    then consider e where "typed" "JsonCheckStrict (c_malloc T) root 0 = Some e" | "\<not> typed" by auto
    then show ?thesis
    proof cases
      case 1
      then have "h' = doc_free d h1" using assms(2) by (simp add: decode_parsed_def n f(2))
      then show ?thesis using 1 assms(2) f(1) by (cases e) (auto simp: decode_parsed_def n f(2) answer_value_def Let_def)
    next
      case 2
      then have "h' = doc_free d h1" using assms(2) by (auto simp: decode_parsed_def n f(2) Let_def split: sum.splits)
      then show ?thesis using 2 assms(2) f(1) by (cases "yy_to_tcl root 0") (auto simp: decode_parsed_def n f(2) answer_value_def Let_def)
    qed
  qed
qed

lemma decode_cmd_spec:
  assumes "jh_inv h" "decode_cmd T args h = (out, h')"
  shows "jh_inv h' \<and> answer_value h' out = json_decode T args"
proof (cases "decode_options T args False False JSON_TYPED_DEFAULT_MAXBYTES None")
  case (Inl e)
  then show ?thesis using assms by (auto simp: decode_cmd_def json_decode_def bind_res_def answer_value_def)
next
  case (Inr o4)
  obtain typed maxSet maxBytes textObj where o4: "o4 = (typed, maxSet, maxBytes, textObj)" by (cases o4)
  show ?thesis
  proof (cases textObj)
    case None
    then show ?thesis using assms Inr o4 by (auto simp: decode_cmd_def json_decode_def bind_res_def answer_value_def)
  next
    case (Some ob)
    let ?s = "obj_string T ob"
    consider "\<not> typed \<and> maxSet \<or> typed \<and> (maxBytes > JSON_TYPED_HARD_MAXBYTES \<or> int (length ?s) > maxBytes)"
      | msg pos where "\<not> (\<not> typed \<and> maxSet \<or> typed \<and> (maxBytes > JSON_TYPED_HARD_MAXBYTES \<or> int (length ?s) > maxBytes))" "yy_read T ?s = Inl (msg, pos)"
      | root where "\<not> (\<not> typed \<and> maxSet \<or> typed \<and> (maxBytes > JSON_TYPED_HARD_MAXBYTES \<or> int (length ?s) > maxBytes))" "yy_read T ?s = Inr root"
      by (cases "yy_read T ?s") auto
    then show ?thesis
    proof cases
      case 1
      then show ?thesis using assms Inr o4 Some by (auto simp: decode_cmd_def json_decode_def bind_res_def answer_value_def Let_def)
    next
      case 2
      then show ?thesis using assms Inr o4 Some by (auto simp: decode_cmd_def json_decode_def bind_res_def answer_value_def Let_def)
    next
      case 3
      then have "decode_parsed T typed root h = (out, h')" using assms(2) Inr o4 Some by (auto simp: decode_cmd_def Let_def)
      from decode_parsed_spec [OF assms(1) this] 3 show ?thesis
        using Inr o4 Some by (auto simp: json_decode_def bind_res_def Let_def)
    qed
  qed
qed

text \<open>\<open>value\<close> answers a typed value exactly when it succeeds, and only after a document is made.\<close>

lemma json_value_cases:
  assumes "json_value T args = Inr v"
  shows "value_starts T args \<and> (\<exists>node. v = TTyped Mutable node)"
proof -
  obtain k rest where a: "args = k # rest" using assms by (cases args) (simp_all add: json_value_def)
  have "value_starts T args"
    using assms a by (auto simp: json_value_def value_starts_def Let_def split: if_splits)
  moreover have "\<exists>node. v = TTyped Mutable node"
    using assms a by (auto simp: json_value_def new_node_def type_err_def Let_def split: if_splits option.splits sum.splits)
  ultimately show ?thesis by blast
qed

lemma value_cmd_spec:
  assumes "jh_inv h" "value_cmd T args h = (out, h')"
  shows "jh_inv h' \<and> answer_value h' out = json_value T args"
proof (cases "json_value T args")
  case (Inl e)
  show ?thesis
  proof (cases "value_starts T args")
    case True
    obtain d h1 where n: "doc_new YNull h = (d, h1)" by (rule prod.exhaust)
    then show ?thesis using assms(2) True Inl doc_new_free(1) [OF assms(1) n] by (auto simp: value_cmd_def answer_value_def)
  next
    case False
    then show ?thesis using assms Inl by (auto simp: value_cmd_def answer_value_def)
  qed
next
  case (Inr v)
  then obtain node where v: "value_starts T args" "v = TTyped Mutable node" using json_value_cases by blast
  obtain d h1 where n: "doc_new node h = (d, h1)" by (rule prod.exhaust)
  obtain w h2 where w: "wrap_new None (Some d) h1 = (w, h2)" by (rule prod.exhaust)
  obtain ob h3 where ob: "JsonNewTyped w node h2 = (ob, h3)" by (rule prod.exhaust)
  have "out = Inr (Inr ob)" "h' = h3" using assms(2) Inr v by (simp_all add: value_cmd_def n w ob)
  then show ?thesis using new_typed_doc [OF assms(1) n w ob] Inr v by (simp add: answer_value_def json_val_node)
qed

lemma typed_node:
  assumes "jh_inv h" "jh_typed h ob"
  obtains w n r d root where "jh_objs h ob = Some (Some (w, n))" "jh_wraps h w = Some r" "owned r = [d]" "jh_docs h d = Some root" "below root n"
    "node_at h ob = Some (if idoc r = None then Mutable else Immutable, n)"
proof -
  obtain w n where o': "jh_objs h ob = Some (Some (w, n))" using assms(2) by (auto simp: jh_typed_def split: option.splits)
  then obtain r d root where "jh_wraps h w = Some r" "owned r = [d]" "jh_docs h d = Some root" "below root n" using jh_invD(9) [OF assms(1)] by blast
  then show thesis using that o' node_at_iff [OF assms(1) o'] by blast
qed

lemma get_cmd_spec:
  assumes "jh_inv h" "jh_typed h ob" "get_cmd T ob path h = (out, h')"
  shows "jh_inv h' \<and> answer_value h' out = json_get T (json_val h ob # path)"
proof -
  obtain w n r d root where o': "jh_objs h ob = Some (Some (w, n))" "jh_wraps h w = Some r" "owned r = [d]" "jh_docs h d = Some root" "below root n"
    and n: "node_at h ob = Some (if idoc r = None then Mutable else Immutable, n)" by (rule typed_node [OF assms(1,2)])
  show ?thesis
  proof (cases "path_loop T n path")
    case (Inl e)
    then show ?thesis using assms o' n by (cases e) (auto simp: get_cmd_def answer_value_def json_get_def json_val_node)
  next
    case (Inr n')
    have b: "below root n'" by (rule path_loop_below [OF Inr o'(5)])
    note new = JsonNewTyped_inv [OF assms(1) o'(2-4) b]
    have "out = Inr (Inr (jh_next h))" "h' = snd (JsonNewTyped w n' h)"
      using assms(3) o' n Inr new(1) by (simp_all add: get_cmd_def)
    then show ?thesis using new o' n Inr by (simp add: answer_value_def json_get_def json_val_node)
  qed
qed

lemma drops_spec:
  assumes "jh_inv h" "list_all (jh_typed h) drops" "distinct drops"
  shows "jh_inv (fold JsonTypeFree drops h) \<and>
    (\<forall>ob. ob \<notin> set drops \<longrightarrow> jh_typed (fold JsonTypeFree drops h) ob = jh_typed h ob \<and> node_at (fold JsonTypeFree drops h) ob = node_at h ob)"
  using assms
proof (induction drops arbitrary: h)
  case (Cons o1 os)
  obtain w n where o1: "jh_objs h o1 = Some (Some (w, n))" using Cons.prems(2) by (auto simp: jh_typed_def split: option.splits)
  note fr = JsonTypeFree_node_at [OF Cons.prems(1) o1]
  have inv: "jh_inv (JsonTypeFree o1 h)" using fr(1) [of "Suc o1"] by simp
  have t: "jh_typed (JsonTypeFree o1 h) ob = jh_typed h ob" if "ob \<noteq> o1" for ob using fr(2) [OF that] that by (simp add: jh_typed_def)
  have "list_all (jh_typed (JsonTypeFree o1 h)) os" using Cons.prems(2,3) t by (simp add: list_all_iff) metis
  from Cons.IH [OF inv this] Cons.prems(3) show ?case using t fr(3) by simp
qed simp

fun json_answer :: "tcl_lib \<Rightarrow> (nat \<Rightarrow> tobj) \<Rightarrow> json_event \<Rightarrow> tobj res" where
  "json_answer T val (Decode held f _) = json_decode T (f (map val held))"
| "json_answer T val (Construct held f _) = json_value T (f (map val held))"
| "json_answer T val (Get ob held f _) = json_get T (val ob # f (map val held))"
| "json_answer T val (Query held f _) = JsonCmd T (f (map val held))"
| "json_answer T val (Duplicate ob) = Inr (val ob)"
| "json_answer T val (Shimmer ob) = Inr (TStr (obj_string T (val ob)))"
| "json_answer T val (Release ob) = Inr (TStr [])"

lemma with_words_some:
  assumes "jh_inv h" "with_words held f drops run h = Some (out, h')"
  shows "list_all (jh_typed h) held \<and> run (f (map (json_val h) held)) (fold JsonTypeFree drops h) = (out, h') \<and>
    jh_inv (fold JsonTypeFree drops h) \<and> (\<forall>ob. ob \<notin> set drops \<longrightarrow> jh_typed (fold JsonTypeFree drops h) ob = jh_typed h ob \<and>
      json_val (fold JsonTypeFree drops h) ob = json_val h ob)"
proof -
  have g: "list_all (jh_typed h) held" "distinct drops" "set drops \<subseteq> set held"
    using assms(2) by (auto simp: with_words_def split: if_splits)
  have "node_at h ob \<noteq> None" if "ob \<in> set held" for ob
  proof -
    have t: "jh_typed h ob" using g(1) that by (simp add: list_all_iff)
    show ?thesis by (rule typed_node [OF assms(1) t]) simp
  qed
  then have "\<not> list_ex (\<lambda>ob. node_at h ob = None) held" by (auto simp: list_ex_iff)
  then have r: "run (f (map (json_val h) held)) (fold JsonTypeFree drops h) = (out, h')"
    using assms(2) g by (simp add: with_words_def)
  have "list_all (jh_typed h) drops" using g by (auto simp: list_all_iff)
  from drops_spec [OF assms(1) this g(2)] show ?thesis using g(1) r by (simp add: json_val_def)
qed

lemma JsonTypeDup_new:
  assumes "jh_inv h" "jh_objs h ob = Some (Some (w, n))"
  shows "JsonTypeDup ob (jh_next h) (h\<lparr>jh_objs := (jh_objs h)(jh_next h \<mapsto> None), jh_next := jh_next h + 1\<rparr>) = snd (JsonNewTyped w n h)"
proof -
  have "ob \<noteq> jh_next h" using jh_invD(5) [OF assms(1) assms(2)] by simp
  moreover obtain r where "jh_wraps h w = Some r" using jh_invD(9) [OF assms] by blast
  ultimately show ?thesis using assms(2) by (simp add: JsonTypeDup_def JsonNewTyped_def add_ref_def Let_def)
qed

lemma jh_inv_remove:
  assumes "jh_inv h" "jh_objs h ob = Some None"
  shows "jh_inv (h\<lparr>jh_objs := (jh_objs h)(ob := None)\<rparr>)"
proof -
  have "refs (h\<lparr>jh_objs := (jh_objs h)(ob := None)\<rparr>) = refs h" using assms(2) by (auto simp: refs_def fun_eq_iff)
  then show ?thesis
    by (intro jh_invI) (use jh_invD [OF assms(1)] in \<open>auto split: if_splits\<close>)
qed

lemma json_do_spec:
  assumes "jh_inv h" "json_do T ev h = Some (out, h')"
  shows "jh_inv h' \<and> answer_value h' out = json_answer T (json_val h) ev"
proof (cases ev)
  case (Decode held f drops)
  then have "with_words held f drops (decode_cmd T) h = Some (out, h')" using assms(2) by simp
  from with_words_some [OF assms(1) this] show ?thesis using decode_cmd_spec [of "fold JsonTypeFree drops h"] Decode by auto
next
  case (Construct held f drops)
  then have "with_words held f drops (value_cmd T) h = Some (out, h')" using assms(2) by simp
  from with_words_some [OF assms(1) this] show ?thesis using value_cmd_spec [of "fold JsonTypeFree drops h"] Construct by auto
next
  case (Get ob held f drops)
  then have w: "with_words held f drops (get_cmd T ob) h = Some (out, h')" and g: "jh_typed h ob" "ob \<notin> set drops"
    using assms(2) by (auto split: if_splits)
  from with_words_some [OF assms(1) w] g have
    "jh_inv (fold JsonTypeFree drops h)" "jh_typed (fold JsonTypeFree drops h) ob" "json_val (fold JsonTypeFree drops h) ob = json_val h ob"
    "get_cmd T ob (f (map (json_val h) held)) (fold JsonTypeFree drops h) = (out, h')" by simp_all
  then show ?thesis using get_cmd_spec [of "fold JsonTypeFree drops h"] Get by fastforce
next
  case (Query held f drops)
  then have "with_words held f drops (\<lambda>objv h. (case JsonCmd T objv of Inl e \<Rightarrow> Inl e | Inr v \<Rightarrow> Inr (Inl v), h)) h = Some (out, h')"
    using assms(2) by (simp split: if_splits)
  from with_words_some [OF assms(1) this] show ?thesis using Query by (cases "JsonCmd T (f (map (json_val h) held))") (auto simp: answer_value_def)
next
  case (Duplicate ob)
  then have g: "jh_typed h ob" using assms(2) by (simp split: if_splits)
  obtain w n r d root where o': "jh_objs h ob = Some (Some (w, n))" "jh_wraps h w = Some r" "owned r = [d]" "jh_docs h d = Some root" "below root n"
    and n: "node_at h ob = Some (if idoc r = None then Mutable else Immutable, n)" by (rule typed_node [OF assms(1) g])
  note new = JsonNewTyped_inv [OF assms(1) o'(2-5)]
  have "out = Inr (Inr (jh_next h))" "h' = snd (JsonNewTyped w n h)"
    using assms(2) Duplicate g JsonTypeDup_new [OF assms(1) o'(1)] by (simp_all add: Let_def)
  then show ?thesis using new n Duplicate by (simp add: answer_value_def json_val_node)
next
  case (Shimmer ob)
  then have g: "jh_typed h ob" using assms(2) by (simp split: if_splits)
  obtain w n r d root where o': "jh_objs h ob = Some (Some (w, n))" "jh_wraps h w = Some r" "owned r = [d]" "jh_docs h d = Some root" "below root n"
    and n: "node_at h ob = Some (if idoc r = None then Mutable else Immutable, n)" by (rule typed_node [OF assms(1) g])
  have "out = Inr (Inl (TStr (JsonTypeString T n)))" "h' = JsonTypeFree ob h" using assms(2) Shimmer g n by simp_all
  then show ?thesis using JsonTypeFree_node_at(1) [OF assms(1) o'(1), of "Suc ob"] n Shimmer
    by (simp add: answer_value_def json_val_node obj_string_def)
next
  case (Release ob)
  then have g: "jh_typed h ob" using assms(2) by (simp split: if_splits)
  obtain w n where o': "jh_objs h ob = Some (Some (w, n))" by (rule typed_node [OF assms(1) g])
  have "jh_inv (JsonTypeFree ob h)" "jh_objs (JsonTypeFree ob h) ob = Some None"
    using JsonTypeFree_node_at(1,2) [OF assms(1) o', of "Suc ob"] by simp_all
  from jh_inv_remove [OF this] show ?thesis using assms(2) Release g by (auto simp: Let_def answer_value_def)
qed

lemma json_run_inv: "jh_inv h \<Longrightarrow> jh_inv (json_run T evs h)"
proof (induction evs arbitrary: h)
  case (Cons ev evs)
  then show ?case by (cases "json_do T ev h") (auto dest: json_do_spec)
qed simp

text \<open>C17: Whatever is decoded, constructed, stepped into, duplicated, converted and released, in any order: no document or
  wrapper is used after it was freed or freed twice; every typed value has a node of a document that is there; a wrapper counts
  exactly its typed values, and a document lives just as long as one of them. And every command answers what it answers on
  values.\<close>

theorem json_documents_live:
  assumes "h = json_run T evs jh_empty"
  shows "jh_ok h \<and>
    (\<forall>ob w n. jh_objs h ob = Some (Some (w, n)) \<longrightarrow> (\<exists>r d root. jh_wraps h w = Some r \<and> owned r = [d] \<and> jh_docs h d = Some root \<and> below root n)) \<and>
    (\<forall>w r. jh_wraps h w = Some r \<longrightarrow> refCount r = int (card (refs h w)) \<and> refs h w \<noteq> {}) \<and>
    (\<forall>d root. jh_docs h d = Some root \<longrightarrow> (\<exists>!w. \<exists>r. jh_wraps h w = Some r \<and> owned r = [d])) \<and>
    (\<forall>ev out h'. json_do T ev h = Some (out, h') \<longrightarrow> answer_value h' out = json_answer T (json_val h) ev)"
proof -
  have inv: "jh_inv h" unfolding assms by (rule json_run_inv [OF jh_inv_empty])
  show ?thesis using jh_invD(1,6,7,9,10) [OF inv] json_do_spec [OF inv] by blast
qed

text \<open>A document of one array is decoded, its element taken, and both are let go: nothing is left.\<close>

definition demo_events :: "json_event list" where
  "demo_events = [Decode [] (\<lambda>_. [TStr ''-typed'', TStr ''[1]'']) [], Get 2 [] (\<lambda>_. [TInt 0]) [], Release 2, Shimmer 3, Release 3]"

lemma json_documents_live_witness:
  "jh_ok (json_run demo_tcl demo_events jh_empty) \<and> jh_docs (json_run demo_tcl (take 3 demo_events) jh_empty) 0 \<noteq> None \<and>
    jh_docs (json_run demo_tcl demo_events jh_empty) 0 = None"
proof -
  have "jh_docs (json_run demo_tcl (take 3 demo_events) jh_empty) 0 \<noteq> None" by code_simp
  moreover have "jh_docs (json_run demo_tcl demo_events jh_empty) 0 = None" by code_simp
  ultimately show ?thesis using json_documents_live [of "json_run demo_tcl demo_events jh_empty" demo_tcl demo_events] by simp
qed

end
