(* ===== verification/Registry.thy ===== *)
theory Registry
  imports Prelude
begin

text \<open>
  The token registries of the palette. Every verb with live handles (\<^verbatim>\<open>hash\<close>, \<^verbatim>\<open>child\<close>,
  \<^verbatim>\<open>pty\<close>, \<^verbatim>\<open>watch\<close>) keeps a singly linked list, new entries first, and a counter that makes the
  next token; lookup compares token text and release unlinks the entry. The locale states what
  the verbs rely on; the theories of the verbs interpret it on their own state.
\<close>

section \<open>Decimal tokens\<close>

lemma dec_of_nat_not_Nil: "dec_of_nat n \<noteq> []"
  by (subst dec_of_nat.simps) simp

lemma digit_char_inj: "a < 10 \<Longrightarrow> b < 10 \<Longrightarrow> char_of (48 + a :: nat) = char_of (48 + b :: nat) \<longleftrightarrow> a = b"
proof -
  assume "a < 10" "b < 10"
  then have "byte_of (char_of (48 + a :: nat)) = (48 + a :: nat)" "byte_of (char_of (48 + b :: nat)) = (48 + b :: nat)"
    by simp_all
  then show ?thesis by (metis add_left_cancel)
qed

lemma dec_of_nat_inj: "dec_of_nat m = dec_of_nat n \<Longrightarrow> m = n"
proof (induction m arbitrary: n rule: dec_of_nat.induct)
  case (1 m)
  show ?case
  proof (cases "m < 10 \<or> n < 10")
    case True
    then show ?thesis
      using 1(2) digit_char_inj [of m n]
      by (subst (asm) (1 2) dec_of_nat.simps) (auto simp: dec_of_nat_not_Nil append_eq_Cons_conv Cons_eq_append_conv split: if_splits)
  next
    case False
    then have "dec_of_nat (m div 10) @ [char_of (48 + m mod 10)] = dec_of_nat (n div 10) @ [char_of (48 + n mod 10)]"
      using 1(2) dec_of_nat.simps [of m] dec_of_nat.simps [of n] by simp
    then have "dec_of_nat (m div 10) = dec_of_nat (n div 10)" "m mod 10 = n mod 10"
      using digit_char_inj [of "m mod 10" "n mod 10"] by auto
    then have "m div 10 = n div 10" "m mod 10 = n mod 10" using 1(1) False by simp_all
    then show ?thesis by (metis div_mult_mod_eq)
  qed
qed

text \<open>Unlinking the entry a pointer designates: the first entry equal to it.\<close>

lemma remove1_by_token:
  assumes "distinct (map token xs)" "c \<in> set xs"
  shows "remove1 c xs = List.filter (\<lambda>d. token d \<noteq> token c) xs"
proof -
  have dist: "distinct xs" and inj: "inj_on token (set xs)" using assms(1) by (auto simp: distinct_map)
  have "remove1 c xs = List.filter (\<lambda>d. d \<noteq> c) xs"
    using dist
    by (auto simp: distinct_remove1_removeAll removeAll_filter_not_eq intro: filter_cong)
  also have "\<dots> = List.filter (\<lambda>d. token d \<noteq> token c) xs"
    using inj assms(2) by (auto intro!: filter_cong dest: inj_onD)
  finally show ?thesis .
qed

section \<open>The registry contract\<close>

locale token_registry =
  fixes prefix :: string
    and token :: "'c \<Rightarrow> string"
    and entries :: "'s \<Rightarrow> 'c list"
    and seq :: "'s \<Rightarrow> nat"
    and add :: "'c \<Rightarrow> 's \<Rightarrow> 's"
    and find :: "'s \<Rightarrow> string \<Rightarrow> 'c option"
    and drop :: "'c \<Rightarrow> 's \<Rightarrow> 's"
  assumes add_entries: "token c = prefix @ dec_of_nat (Suc (seq s)) \<Longrightarrow> entries (add c s) = c # entries s"
    and add_seq: "token c = prefix @ dec_of_nat (Suc (seq s)) \<Longrightarrow> seq (add c s) = Suc (seq s)"
    and find_first: "find s t = List.find (\<lambda>c. token c = t) (entries s)"
    and drop_entries: "distinct (map token (entries s)) \<Longrightarrow> c \<in> set (entries s) \<Longrightarrow>
      entries (drop c s) = List.filter (\<lambda>d. token d \<noteq> token c) (entries s)"
    and drop_seq: "seq (drop c s) = seq s"
begin

text \<open>Tokens are distinct and come from counter values already used.\<close>

definition wf :: "'s \<Rightarrow> bool" where
  "wf s \<longleftrightarrow> distinct (map token (entries s)) \<and>
     (\<forall>c\<in>set (entries s). \<exists>k. 1 \<le> k \<and> k \<le> seq s \<and> token c = prefix @ dec_of_nat k)"

lemma fresh: "wf s \<Longrightarrow> c \<in> set (entries s) \<Longrightarrow> token c \<noteq> prefix @ dec_of_nat (Suc (seq s))"
proof
  assume "wf s" "c \<in> set (entries s)" "token c = prefix @ dec_of_nat (Suc (seq s))"
  then obtain k where "k \<le> seq s" "dec_of_nat k = dec_of_nat (Suc (seq s))" by (auto simp: wf_def)
  then show False using dec_of_nat_inj by fastforce
qed

lemma wf_add:
  assumes "wf s" "token c = prefix @ dec_of_nat (Suc (seq s))"
  shows "wf (add c s)"
proof -
  have "token c \<notin> token ` set (entries s)"
  proof
    assume "token c \<in> token ` set (entries s)"
    then obtain d where "d \<in> set (entries s)" "token d = token c" by auto
    then show False using fresh [OF assms(1)] assms(2) by simp
  qed
  then show ?thesis
    using assms by (fastforce simp: wf_def add_entries add_seq)
qed

lemma wf_drop: "wf s \<Longrightarrow> c \<in> set (entries s) \<Longrightarrow> wf (drop c s)"
  by (auto simp: wf_def drop_entries drop_seq distinct_map intro: inj_on_subset)

lemma find_some: "find s t = Some c \<Longrightarrow> c \<in> set (entries s) \<and> token c = t"
  by (auto simp: find_first find_Some_iff)

lemma find_none: "find s t = None \<longleftrightarrow> (\<forall>c\<in>set (entries s). token c \<noteq> t)"
  by (auto simp: find_first find_None_iff)

lemma find_add:
  "token c = prefix @ dec_of_nat (Suc (seq s)) \<Longrightarrow> find (add c s) t = (if t = token c then Some c else find s t)"
  by (auto simp: find_first add_entries)

lemma find_filter: "List.find P (List.filter Q xs) = List.find (\<lambda>x. P x \<and> Q x) xs"
  by (induction xs) auto

lemma find_drop:
  assumes "wf s" "c \<in> set (entries s)"
  shows "find (drop c s) t = (if t = token c then None else find s t)"
proof -
  have d: "entries (drop c s) = List.filter (\<lambda>d. token d \<noteq> token c) (entries s)"
    using assms by (simp add: wf_def drop_entries)
  show ?thesis
    by (cases "t = token c") (auto simp: find_first d find_filter find_None_iff intro!: arg_cong2 [where f = List.find])
qed

lemma drop_length:
  assumes "wf s" "c \<in> set (entries s)"
  shows "length (entries (drop c s)) + 1 = length (entries s)"
proof -
  have "List.filter (\<lambda>d. token d \<noteq> token c) (entries s) = remove1 c (entries s)"
    using assms by (intro remove1_by_token [symmetric]) (simp_all add: wf_def)
  moreover have "0 < length (entries s)" using assms(2) by (auto simp: length_pos_if_in_set)
  ultimately show ?thesis
    using assms by (simp add: wf_def drop_entries length_remove1)
qed

end

end
