(* ===== verification/TclValue.thy ===== *)
theory TclValue
  imports Prelude
begin

text \<open>
  Tcl values as the verbs see them: a text, and the bytes where the value is a byte array. The byte
  rule of \<^verbatim>\<open>machteld.h\<close> decides which bytes \<^verbatim>\<open>hash\<close>, \<^verbatim>\<open>store\<close>, \<^verbatim>\<open>http post\<close> and \<^verbatim>\<open>-stdin\<close> use.
\<close>

section \<open>The byte rule\<close>

text \<open>
  A Tcl value with its text; a byte array carries its bytes too, \<open>None\<close> where
  \<^verbatim>\<open>Tcl_GetBytesFromObj\<close> yields NULL. \<open>utf8\<close> is Tcl's external UTF-8 encoder (tcl8 profile).
\<close>

datatype tvalue = VBytes "string option" (vtext: string) | VText (vtext: string)

definition Machteld_ValueBytes :: "(string \<Rightarrow> string) \<Rightarrow> tvalue \<Rightarrow> string" where
  "Machteld_ValueBytes utf8 v =
    (case v of VBytes (Some b) _ \<Rightarrow> b | VBytes None t \<Rightarrow> utf8 t | VText t \<Rightarrow> utf8 t)"

text \<open>The text of a value where NUL would be unsafe: \<open>None\<close> is the C result NULL.\<close>

definition obj_no_nul :: "tvalue \<Rightarrow> string option" where
  "obj_no_nul v = (if NUL \<in> set (vtext v) then None else Some (vtext v))"

lemma obj_no_nul_Some [result_simps]: "obj_no_nul v = Some s \<longleftrightarrow> s = vtext v \<and> NUL \<notin> set s"
  by (auto simp: obj_no_nul_def)

end
