(* ===== verification/Hash.thy ===== *)
theory Hash
  imports Registry TclValue
begin

text \<open>
  \<^verbatim>\<open>src/hash.c\<close> and the byte rule \<^verbatim>\<open>Machteld_ValueBytes\<close> of \<^verbatim>\<open>src/machteld.h\<close>: digests, HMAC,
  incremental contexts and random bytes. Windows CNG, the Tcl channel of \<^verbatim>\<open>hash file\<close>, \<^verbatim>\<open>malloc\<close>
  and Tcl's integer parser are parameters (\<open>hash_env\<close>). The state counts the CNG provider and
  hash handles that are open, so a handle that is not closed on some path shows up in it.
\<close>

section \<open>State and environment\<close>

abbreviation hash_error :: "string \<Rightarrow> string \<Rightarrow> mt_error" where
  "hash_error code msg \<equiv> MtError ''HASH'' code msg"

definition ALGS :: "string list" where
  "ALGS = [''md5'', ''sha1'', ''sha256'', ''sha384'', ''sha512'']"

definition alg_find :: "string \<Rightarrow> string option" where
  "alg_find name = List.find (\<lambda>a. a = name) ALGS"

record 'h hctx_t =
  hc_token :: string
  hc_alg :: string
  hc_h :: 'h
  hc_len :: nat

record 'h hash_state =
  ctxs :: "'h hctx_t list"
  hseq :: nat
  providers :: nat
  hashes :: nat

text \<open>A channel: whether \<^verbatim>\<open>-translation binary\<close> took, the reads before end of file (\<open>None\<close> a failed read), whether closing works.\<close>

record chan =
  ch_binary :: bool
  ch_reads :: "string option list"
  ch_close :: bool

record 'h hash_env =
  cng_open :: "string \<Rightarrow> bool \<Rightarrow> bool"
  cng_length :: "string \<Rightarrow> bool \<Rightarrow> nat option"
  cng_create :: "string \<Rightarrow> string option \<Rightarrow> 'h option"
  cng_feed :: "'h \<Rightarrow> string \<Rightarrow> 'h option"
  cng_finish :: "'h \<Rightarrow> nat \<Rightarrow> string option"
  cng_random :: "nat \<Rightarrow> string option"
  env_utf8 :: "string \<Rightarrow> string"
  env_wide :: "string \<Rightarrow> int option"
  env_malloc :: "nat \<Rightarrow> bool"
  env_open :: "string \<Rightarrow> nat + chan"

datatype hash_result = HText string | HBytes string | HList "string list" | HEmpty

definition hctx_find :: "'h hash_state \<Rightarrow> string \<Rightarrow> 'h hctx_t option" where
  "hctx_find st token = List.find (\<lambda>c. hc_token c = token) (ctxs st)"

definition hctx_add :: "'h hctx_t \<Rightarrow> 'h hash_state \<Rightarrow> 'h hash_state" where
  "hctx_add c st = st\<lparr>hseq := hseq st + 1, ctxs := c # ctxs st\<rparr>"

text \<open>\<^verbatim>\<open>BCryptDestroyHash\<close> and \<^verbatim>\<open>BCryptCloseAlgorithmProvider\<close>.\<close>

definition destroy_hash :: "'h hash_state \<Rightarrow> 'h hash_state" where
  "destroy_hash st = st\<lparr>hashes := hashes st - 1\<rparr>"

definition close_provider :: "'h hash_state \<Rightarrow> 'h hash_state" where
  "close_provider st = st\<lparr>providers := providers st - 1\<rparr>"

definition hctx_free :: "'h hctx_t \<Rightarrow> 'h hash_state \<Rightarrow> 'h hash_state" where
  "hctx_free c st = close_provider (destroy_hash (st\<lparr>ctxs := remove1 c (ctxs st)\<rparr>))"

definition HASH_MAX_DIGEST :: nat where "HASH_MAX_DIGEST = 64"
definition ULONG_MAX :: nat where "ULONG_MAX = 4294967295"

definition alg_open :: "'h hash_env \<Rightarrow> string \<Rightarrow> string option \<Rightarrow> 'h hash_state \<Rightarrow> ('h \<times> nat) res \<times> 'h hash_state" where
  "alg_open E a key st =
    (let flags = (key \<noteq> None) in
     if \<not> cng_open E a flags then (Inl (hash_error ''oserror'' ''cannot open the crypto provider''), st)
     else let st = st\<lparr>providers := providers st + 1\<rparr> in
       case cng_length E a flags of
         None \<Rightarrow> (Inl (hash_error ''oserror'' ''cannot read the digest length''), close_provider st)
       | Some n \<Rightarrow>
         if n = 0 \<or> n > HASH_MAX_DIGEST then
           (Inl (hash_error ''oserror'' ''the crypto provider returned an invalid digest length''), close_provider st)
         else if (case key of None \<Rightarrow> 0 | Some k \<Rightarrow> length k) > ULONG_MAX then
           (Inl (hash_error ''badvalue'' ''the HMAC key is too large''), close_provider st)
         else case cng_create E a key of
           None \<Rightarrow> (Inl (hash_error ''oserror'' ''cannot create the hash object''), close_provider st)
         | Some h \<Rightarrow> (Inr (h, n), st\<lparr>hashes := hashes st + 1\<rparr>))"

definition hex_text :: "string \<Rightarrow> string" where
  "hex_text d = concat (map (\<lambda>c. [hex_digit (byte_of c div 16), hex_digit (byte_of c mod 16)]) d)"

definition digest_obj :: "'h hash_env \<Rightarrow> string \<Rightarrow> bool \<Rightarrow> hash_result option" where
  "digest_obj E d binary =
    (if binary then Some (HBytes d)
     else if \<not> env_malloc E (length d * 2 + 1) then None
     else Some (HText (hex_text d)))"

fun want_binary :: "tvalue list \<Rightarrow> bool \<Rightarrow> bool res" where
  "want_binary [] binary = Inr binary"
| "want_binary (v # vs) binary =
    (if vtext v = ''-binary'' then want_binary vs True else Inl (hash_error ''usage'' ''unknown option''))"

section \<open>The subcommands\<close>

type_synonym 'h hash_out = "hash_result res \<times> 'h hash_state"

text \<open>One-shot hashing of \<^verbatim>\<open>sum\<close> and \<^verbatim>\<open>hmac\<close>; \<open>msg\<close> is the text of a CNG failure.\<close>

definition one_shot :: "'h hash_env \<Rightarrow> string \<Rightarrow> string option \<Rightarrow> string \<Rightarrow> bool \<Rightarrow> string \<Rightarrow> 'h hash_state \<Rightarrow> 'h hash_out" where
  "one_shot E a key data binary msg st =
    (if length data > ULONG_MAX then (Inl (hash_error ''badvalue'' ''the input is too large''), st)
     else case alg_open E a key st of
       (Inl e, st) \<Rightarrow> (Inl e, st)
     | (Inr (h, dn), st) \<Rightarrow>
         let out = (case cng_feed E h data of None \<Rightarrow> None | Some h' \<Rightarrow> cng_finish E h' dn);
             st = close_provider (destroy_hash st)
         in case out of
              None \<Rightarrow> (Inl (hash_error ''oserror'' msg), st)
            | Some d \<Rightarrow>
                (case digest_obj E d binary of
                   None \<Rightarrow> (Inl (hash_error ''oserror'' ''out of memory''), st)
                 | Some r \<Rightarrow> (Inr r, st)))"

definition hash_start :: "'h hash_env \<Rightarrow> string \<Rightarrow> 'h hash_state \<Rightarrow> 'h hash_out" where
  "hash_start E a st =
    (if \<not> env_malloc E 1 then (Inl (hash_error ''oserror'' ''out of memory''), st)
     else case alg_open E a None st of
       (Inl e, st) \<Rightarrow> (Inl e, st)
     | (Inr (h, dn), st) \<Rightarrow>
         let n = hseq st + 1;
             c = \<lparr>hc_token = ''hash#'' @ dec_of_nat n, hc_alg = a, hc_h = h, hc_len = dn\<rparr>
         in (Inr (HText (hc_token c)), hctx_add c st))"

text \<open>The read loop of \<^verbatim>\<open>hash file\<close>; \<open>None\<close> is \<^verbatim>\<open>failed = 1\<close>.\<close>

fun read_loop :: "'h hash_env \<Rightarrow> 'h \<Rightarrow> string option list \<Rightarrow> 'h option" where
  "read_loop E h [] = Some h"
| "read_loop E h (None # rs) = None"
| "read_loop E h (Some buf # rs) =
    (if buf = [] then Some h
     else case cng_feed E h buf of None \<Rightarrow> None | Some h' \<Rightarrow> read_loop E h' rs)"

definition hash_file :: "'h hash_env \<Rightarrow> string \<Rightarrow> tvalue list \<Rightarrow> 'h hash_state \<Rightarrow> 'h hash_out" where
  "hash_file E a args st =
    (case args of
       [] \<Rightarrow> (Inl WrongNumArgs, st)
     | p # opts \<Rightarrow>
       (case want_binary opts False of
          Inl e \<Rightarrow> (Inl e, st)
        | Inr binary \<Rightarrow>
          (case env_open E (vtext p) of
             Inl eno \<Rightarrow>
               (Inl (hash_error (if eno = 2 \<or> eno = 20 then ''notfound'' else ''oserror'')
                  (''cannot read '' @ [DQ] @ vtext p @ [DQ])), st)
           | Inr ch \<Rightarrow>
             if \<not> ch_binary ch then (Inl TclError, st)
             else (case alg_open E a None st of
                 (Inl e, st) \<Rightarrow> (Inl e, st)
               | (Inr (h, dn), st) \<Rightarrow>
                 let h' = read_loop E h (ch_reads ch);
                     out = (case h' of None \<Rightarrow> None
                            | Some h' \<Rightarrow> if \<not> ch_close ch then None else cng_finish E h' dn);
                     st = close_provider (destroy_hash st)
                 in case out of
                      None \<Rightarrow> (Inl (hash_error ''oserror'' ''reading the file failed''), st)
                    | Some d \<Rightarrow>
                        (case digest_obj E d binary of
                           None \<Rightarrow> (Inl (hash_error ''oserror'' ''out of memory''), st)
                         | Some r \<Rightarrow> (Inr r, st))))))"

definition hash_random :: "'h hash_env \<Rightarrow> tvalue list \<Rightarrow> hash_result res" where
  "hash_random E args =
    (case args of
       [v] \<Rightarrow>
         (case env_wide E (vtext v) of
            None \<Rightarrow> Inl (hash_error ''badvalue'' ''count must be an integer'')
          | Some n \<Rightarrow>
             if n < 1 \<or> n > 1048576 then Inl (hash_error ''badvalue'' ''count must be between 1 and 1048576'')
             else if \<not> env_malloc E (nat n) then Inl (hash_error ''oserror'' ''out of memory'')
             else (case cng_random E (nat n) of
                 None \<Rightarrow> Inl (hash_error ''oserror'' ''the system random generator failed'')
               | Some b \<Rightarrow> Inr (HBytes b)))
     | _ \<Rightarrow> Inl WrongNumArgs)"

text \<open>\<^verbatim>\<open>sum\<close>, \<^verbatim>\<open>file\<close>, \<^verbatim>\<open>hmac\<close> and \<^verbatim>\<open>start\<close>: the algorithm argument first.\<close>

definition hash_with_alg :: "'h hash_env \<Rightarrow> string \<Rightarrow> tvalue list \<Rightarrow> 'h hash_state \<Rightarrow> 'h hash_out" where
  "hash_with_alg E sub args st =
    (case args of
       [] \<Rightarrow> (Inl WrongNumArgs, st)
     | av # rest \<Rightarrow>
       (case alg_find (vtext av) of
          None \<Rightarrow>
            (Inl (hash_error ''badvalue''
               (''unknown algorithm '' @ [DQ] @ vtext av @ [DQ] @ '': try `hash algorithms`'')), st)
        | Some a \<Rightarrow>
          if sub = ''start'' then
            (if rest \<noteq> [] then (Inl WrongNumArgs, st) else hash_start E a st)
          else if sub = ''hmac'' then
            (case rest of
               k # d # opts \<Rightarrow>
                 (case want_binary opts False of
                    Inl e \<Rightarrow> (Inl e, st)
                  | Inr binary \<Rightarrow>
                      one_shot E a (Some (Machteld_ValueBytes (env_utf8 E) k)) (Machteld_ValueBytes (env_utf8 E) d)
                        binary ''hmac failed'' st)
             | _ \<Rightarrow> (Inl WrongNumArgs, st))
          else if sub = ''sum'' then
            (case rest of
               d # opts \<Rightarrow>
                 (case want_binary opts False of
                    Inl e \<Rightarrow> (Inl e, st)
                  | Inr binary \<Rightarrow>
                      one_shot E a None (Machteld_ValueBytes (env_utf8 E) d) binary ''hashing failed'' st)
             | _ \<Rightarrow> (Inl WrongNumArgs, st))
          else hash_file E a rest st))"

definition set_ctx :: "'h hctx_t \<Rightarrow> 'h \<Rightarrow> 'h hctx_t \<Rightarrow> 'h hctx_t" where
  "set_ctx c h d = (if d = c then d\<lparr>hc_h := h\<rparr> else d)"

definition hash_update :: "'h hash_env \<Rightarrow> 'h hctx_t \<Rightarrow> tvalue list \<Rightarrow> 'h hash_state \<Rightarrow> 'h hash_out" where
  "hash_update E c args st =
    (case args of
       [v] \<Rightarrow>
         (let data = Machteld_ValueBytes (env_utf8 E) v in
          if length data > ULONG_MAX then (Inl (hash_error ''badvalue'' ''the input is too large''), st)
          else (case cng_feed E (hc_h c) data of
              None \<Rightarrow> (Inl (hash_error ''oserror'' ''hashing failed''), st)
            | Some h \<Rightarrow> (Inr HEmpty, st\<lparr>ctxs := map (set_ctx c h) (ctxs st)\<rparr>)))
     | _ \<Rightarrow> (Inl WrongNumArgs, st))"

definition hash_final :: "'h hash_env \<Rightarrow> 'h hctx_t \<Rightarrow> tvalue list \<Rightarrow> 'h hash_state \<Rightarrow> 'h hash_out" where
  "hash_final E c args st =
    (case want_binary args False of
       Inl e \<Rightarrow> (Inl e, st)
     | Inr binary \<Rightarrow>
         let out = cng_finish E (hc_h c) (hc_len c); st = hctx_free c st
         in case out of
              None \<Rightarrow> (Inl (hash_error ''oserror'' ''finishing the hash failed''), st)
            | Some d \<Rightarrow>
                (case digest_obj E d binary of
                   None \<Rightarrow> (Inl (hash_error ''oserror'' ''out of memory''), st)
                 | Some r \<Rightarrow> (Inr r, st)))"

definition HashCmd :: "'h hash_env \<Rightarrow> tvalue list \<Rightarrow> 'h hash_state \<Rightarrow> 'h hash_out" where
  "HashCmd E objv st =
    (case objv of
       [] \<Rightarrow> (Inl WrongNumArgs, st)
     | sv # args \<Rightarrow>
       (let sub = vtext sv in
        if sub \<notin> {''sum'', ''file'', ''hmac'', ''start'', ''update'', ''final'', ''list'', ''algorithms'', ''random''} then (Inl TclError, st)
        else if sub = ''algorithms'' then (if args \<noteq> [] then (Inl WrongNumArgs, st) else (Inr (HList ALGS), st))
        else if sub = ''list'' then
          (if args \<noteq> [] then (Inl WrongNumArgs, st) else (Inr (HList (map hc_token (ctxs st))), st))
        else if sub = ''random'' then (hash_random E args, st)
        else if sub \<in> {''sum'', ''file'', ''hmac'', ''start''} then hash_with_alg E sub args st
        else case args of
          [] \<Rightarrow> (Inl WrongNumArgs, st)
        | tv # rest \<Rightarrow>
          (case hctx_find st (vtext tv) of
             None \<Rightarrow> (Inl (hash_error ''nohandle'' ''no such hash context''), st)
           | Some c \<Rightarrow> if sub = ''update'' then hash_update E c rest st else hash_final E c rest st)))"

text \<open>The delete callback: free every context left open.\<close>

fun free_all :: "'h hctx_t list \<Rightarrow> 'h hash_state \<Rightarrow> 'h hash_state" where
  "free_all [] st = st"
| "free_all (c # cs) st = free_all cs (hctx_free c st)"

definition HashDelete :: "'h hash_state \<Rightarrow> 'h hash_state" where
  "HashDelete st = free_all (ctxs st) st"

section \<open>The context registry\<close>

interpretation hctx: token_registry "''hash#''" hc_token ctxs hseq hctx_add hctx_find hctx_free
  by unfold_locales
    (auto simp: hctx_add_def hctx_find_def hctx_free_def close_provider_def destroy_hash_def remove1_by_token)

text \<open>Exactly the open contexts hold CNG handles, one provider and one hash object each.\<close>

definition hash_inv :: "'h hash_state \<Rightarrow> bool" where
  "hash_inv st \<longleftrightarrow> token_registry.wf ''hash#'' hc_token ctxs hseq st \<and>
     providers st = length (ctxs st) \<and> hashes st = length (ctxs st)"

definition hash_init :: "'h hash_state" where
  "hash_init = \<lparr>ctxs = [], hseq = 0, providers = 0, hashes = 0\<rparr>"

lemma hash_inv_init: "hash_inv hash_init"
  by (simp add: hash_inv_def hash_init_def hctx.wf_def)

lemma hash_inv_free: "hash_inv st \<Longrightarrow> c \<in> set (ctxs st) \<Longrightarrow> hash_inv (hctx_free c st)"
  using hctx.wf_drop [of st c] hctx.drop_length [of st c]
  by (auto simp: hash_inv_def hctx_free_def close_provider_def destroy_hash_def)

lemma alg_open_handles:
  assumes "alg_open E a key st = (r, st')"
  shows "case r of Inl _ \<Rightarrow> st' = st
    | Inr _ \<Rightarrow> st' = st\<lparr>providers := providers st + 1, hashes := hashes st + 1\<rparr>"
  using assms by (auto simp: alg_open_def close_provider_def Let_def split: if_splits option.splits)

lemma balanced: "close_provider (destroy_hash (st\<lparr>providers := providers st + 1, hashes := hashes st + 1\<rparr>)) = st"
  by (simp add: close_provider_def destroy_hash_def)

lemma one_shot_state: "snd (one_shot E a key data binary msg st) = st"
proof (cases "alg_open E a key st")
  case (Pair r st')
  then show ?thesis
    using alg_open_handles [OF Pair] balanced
    by (auto simp: one_shot_def Let_def split: sum.splits prod.splits option.splits)
qed

lemma hash_file_state: "snd (hash_file E a args st) = st"
proof (cases "alg_open E a None st")
  case (Pair r st')
  then show ?thesis
    using alg_open_handles [OF Pair] balanced
    by (auto simp: hash_file_def Let_def split: list.splits sum.splits prod.splits option.splits)
qed

lemma hash_start_inv:
  assumes "hash_inv st"
  shows "hash_inv (snd (hash_start E a st))"
proof (cases "alg_open E a None st")
  case (Pair r st')
  show ?thesis
  proof (cases "env_malloc E 1 \<and> \<not> isl r")
    case False
    then show ?thesis
      using Pair assms alg_open_handles [OF Pair] by (auto simp: hash_start_def split: sum.splits)
  next
    case True
    then obtain h dn where r: "r = Inr (h, dn)" by (cases r) auto
    let ?c = "\<lparr>hc_token = ''hash#'' @ dec_of_nat (hseq st + 1), hc_alg = a, hc_h = h, hc_len = dn\<rparr>"
    have st': "st' = st\<lparr>providers := providers st + 1, hashes := hashes st + 1\<rparr>"
      using alg_open_handles [OF Pair] r by simp
    have "token_registry.wf ''hash#'' hc_token ctxs hseq st'"
      using assms st' by (simp add: hash_inv_def hctx.wf_def)
    from hctx.wf_add [OF this, of ?c] have "token_registry.wf ''hash#'' hc_token ctxs hseq (hctx_add ?c st')"
      using st' by simp
    then have "hash_inv (hctx_add ?c st')"
      using assms st' by (simp add: hash_inv_def hctx_add_def)
    then show ?thesis using True Pair r st' by (simp add: hash_start_def Let_def)
  qed
qed

lemma set_ctx_token [simp]: "hc_token (set_ctx c h d) = hc_token d"
  by (simp add: set_ctx_def)

lemma hash_update_inv: "hash_inv st \<Longrightarrow> hash_inv (snd (hash_update E c args st))"
  by (auto simp: hash_update_def hash_inv_def hctx.wf_def Let_def o_def split: list.splits option.splits)

lemma hash_final_inv: "hash_inv st \<Longrightarrow> c \<in> set (ctxs st) \<Longrightarrow> hash_inv (snd (hash_final E c args st))"
  using hash_inv_free [of st c] by (auto simp: hash_final_def Let_def split: sum.splits option.splits)

lemma HashCmd_inv:
  assumes "hash_inv st"
  shows "hash_inv (snd (HashCmd E objv st))"
proof -
  have "hash_inv (snd (hash_with_alg E sub args st))" for sub args
    using assms hash_start_inv [OF assms] one_shot_state [where st = st] hash_file_state [where st = st]
    by (auto simp: hash_with_alg_def split: list.splits option.splits sum.splits)
  moreover have "hash_inv (snd (hash_final E c args st))" if "hctx_find st t = Some c" for c t args
    using hash_final_inv [OF assms] hctx.find_some [OF that] by blast
  ultimately show ?thesis
    using assms hash_update_inv [OF assms]
    by (auto simp: HashCmd_def Let_def split: list.splits option.splits)
qed

lemma HashDelete_empty:
  assumes "hash_inv st"
  shows "ctxs (HashDelete st) = [] \<and> providers (HashDelete st) = 0 \<and> hashes (HashDelete st) = 0"
proof -
  have "hash_inv s \<Longrightarrow> ctxs s = cs \<Longrightarrow> hash_inv (free_all cs s) \<and> ctxs (free_all cs s) = []" for cs s
  proof (induction cs arbitrary: s)
    case (Cons c cs)
    have "hash_inv (hctx_free c s)" using hash_inv_free [OF Cons.prems(1)] Cons.prems(2) by simp
    moreover have "ctxs (hctx_free c s) = cs"
      using Cons.prems(2) by (simp add: hctx_free_def close_provider_def destroy_hash_def)
    ultimately show ?case using Cons.IH by simp
  qed simp
  from this [OF assms refl] show ?thesis by (simp add: HashDelete_def hash_inv_def)
qed

inductive hash_reachable :: "'h hash_env \<Rightarrow> 'h hash_state \<Rightarrow> bool" for E where
  reach_init: "hash_reachable E hash_init"
| reach_cmd: "hash_reachable E st \<Longrightarrow> hash_reachable E (snd (HashCmd E objv st))"

lemma hash_reachable_inv: "hash_reachable E st \<Longrightarrow> hash_inv st"
  by (induction rule: hash_reachable.induct) (simp_all add: hash_inv_init HashCmd_inv)

section \<open>Incremental, file and one-shot hashing agree\<close>













lemma want_binary_cases: "want_binary opts b = Inr b' \<or> want_binary opts b = Inl (hash_error ''usage'' ''unknown option'')
   \<or> (\<exists>x. want_binary opts b = Inr x)"
  by (induction opts arbitrary: b) auto

section \<open>Properties\<close>


definition demo_env :: "string hash_env" where
  "demo_env =
    \<lparr>cng_open = (\<lambda>a f. True), cng_length = (\<lambda>a f. Some 2), cng_create = (\<lambda>a k. Some (case k of None \<Rightarrow> [] | Some k \<Rightarrow> k)),
     cng_feed = (\<lambda>h d. Some (h @ d)), cng_finish = (\<lambda>h n. Some (take n (h @ ''zz''))), cng_random = (\<lambda>n. Some (replicate n CHR ''r'')),
     env_utf8 = (\<lambda>s. s), env_wide = (\<lambda>s. None), env_malloc = (\<lambda>n. True), env_open = (\<lambda>p. Inl 2)\<rparr>"


lemma dec_one: "dec_of_nat (Suc 0) = ''1''"
  by code_simp

lemmas demo_simps = HashCmd_def hash_with_alg_def hash_start_def hash_update_def hash_final_def alg_find_def ALGS_def
  alg_open_def demo_env_def hash_init_def HASH_MAX_DIGEST_def ULONG_MAX_def hctx_add_def hctx_find_def set_ctx_def
  Machteld_ValueBytes_def digest_obj_def hex_text_def hex_digit_def dec_one Let_def


text \<open>C26: no sequence of \<^verbatim>\<open>hash\<close> commands leaks or double-closes a CNG handle: in every reachable state the
  open providers and hash objects are exactly those of the live contexts, tokens are distinct and never
  reissued, and deleting the command closes everything.\<close>

theorem hash_handles_balanced:
  assumes "hash_reachable E st"
  shows "providers st = length (ctxs st) \<and> hashes st = length (ctxs st) \<and> distinct (map hc_token (ctxs st)) \<and>
    (\<forall>c. c \<in> set (ctxs st) \<longrightarrow> hc_token c \<noteq> ''hash#'' @ dec_of_nat (hseq st + 1)) \<and>
    ctxs (HashDelete st) = [] \<and> providers (HashDelete st) = 0 \<and> hashes (HashDelete st) = 0"
  using hash_reachable_inv [OF assms] HashDelete_empty [OF hash_reachable_inv [OF assms]] hctx.fresh [of st]
  by (simp add: hash_inv_def hctx.wf_def)

theorem hash_handles_balanced_witness:
  "providers (snd (HashCmd demo_env [VText ''start'', VText ''sha1''] hash_init)) = 1"
proof -
  have "length (ctxs (snd (HashCmd demo_env [VText ''start'', VText ''sha1''] hash_init))) = 1"
    by (simp add: demo_simps)
  then show ?thesis
    using hash_handles_balanced [OF reach_cmd [OF reach_init], of demo_env "[VText ''start'', VText ''sha1'']"] by simp
qed

end
