(* ===== verification/Job.thy ===== *)
theory Job
  imports Prelude
begin

text \<open>
  The Job Object wrapper of \<^verbatim>\<open>winjob_job.c\<close>. A job is the C struct (handle, closed flag,
  kill-on-close flag); every Win32 call and every critical-section entry and exit an operation makes is
  appended to a trace, and the answer of each Win32 call is a parameter. The properties are about the
  traces: which limits are in force, and that no call uses the handle outside the lock or after it
  was closed.
\<close>

section \<open>State, kernel calls and limits\<close>

unbundle bit_operations_syntax

definition JOB_OBJECT_LIMIT_PROCESS_TIME :: dword where "JOB_OBJECT_LIMIT_PROCESS_TIME = 0x2"
definition JOB_OBJECT_LIMIT_JOB_TIME :: dword where "JOB_OBJECT_LIMIT_JOB_TIME = 0x4"
definition JOB_OBJECT_LIMIT_ACTIVE_PROCESS :: dword where "JOB_OBJECT_LIMIT_ACTIVE_PROCESS = 0x8"
definition JOB_OBJECT_LIMIT_PROCESS_MEMORY :: dword where "JOB_OBJECT_LIMIT_PROCESS_MEMORY = 0x100"
definition JOB_OBJECT_LIMIT_JOB_MEMORY :: dword where "JOB_OBJECT_LIMIT_JOB_MEMORY = 0x200"
definition JOB_OBJECT_LIMIT_BREAKAWAY_OK :: dword where "JOB_OBJECT_LIMIT_BREAKAWAY_OK = 0x800"
definition JOB_OBJECT_LIMIT_KILL_ON_JOB_CLOSE :: dword where "JOB_OBJECT_LIMIT_KILL_ON_JOB_CLOSE = 0x2000"

lemmas limit_flags = JOB_OBJECT_LIMIT_PROCESS_TIME_def JOB_OBJECT_LIMIT_JOB_TIME_def
  JOB_OBJECT_LIMIT_ACTIVE_PROCESS_def JOB_OBJECT_LIMIT_PROCESS_MEMORY_def JOB_OBJECT_LIMIT_JOB_MEMORY_def
  JOB_OBJECT_LIMIT_BREAKAWAY_OK_def JOB_OBJECT_LIMIT_KILL_ON_JOB_CLOSE_def

type_synonym handle = nat

record wj_job =
  jb_handle :: handle
  jb_closed :: bool
  jb_kill_on_close :: bool

record wj_limits =
  process_memory_bytes :: "64 word"
  job_memory_bytes :: "64 word"
  process_cpu_100ns :: "64 word"
  job_cpu_100ns :: "64 word"
  active_process_cap :: dword

text \<open>The fields of \<^verbatim>\<open>JOBOBJECT_EXTENDED_LIMIT_INFORMATION\<close> the code sets, all zero at first.\<close>

record job_info =
  LimitFlags :: dword
  ProcessMemoryLimit :: "64 word"
  JobMemoryLimit :: "64 word"
  PerProcessUserTimeLimit :: "64 word"
  PerJobUserTimeLimit :: "64 word"
  ActiveProcessLimit :: dword

definition ZeroInfo :: job_info where
  "ZeroInfo = \<lparr>LimitFlags = 0, ProcessMemoryLimit = 0, JobMemoryLimit = 0, PerProcessUserTimeLimit = 0,
     PerJobUserTimeLimit = 0, ActiveProcessLimit = 0\<rparr>"

datatype jcall =
    EnterLock | LeaveLock | DeleteLock
  | CreateJob handle
  | SetInfo handle job_info bool
  | Assign handle handle bool
  | Terminate handle dword bool
  | Query handle bool
  | CloseH handle

text \<open>What Windows answers.\<close>

record job_os =
  os_create :: "handle option"
  os_set_info :: "handle \<Rightarrow> job_info \<Rightarrow> bool"
  os_assign :: "handle \<Rightarrow> handle \<Rightarrow> bool"
  os_terminate :: "handle \<Rightarrow> dword \<Rightarrow> bool"
  os_query :: "handle \<Rightarrow> dword option"
  os_in_job :: "handle \<Rightarrow> handle option \<Rightarrow> bool option"
  os_calloc :: bool

text \<open>An operation answers a C result, the job after it and the calls it made.\<close>

type_synonym 'a job_out = "(string + 'a) \<times> wj_job \<times> jcall list"

section \<open>Operations\<close>

definition wj_job_new :: "job_os \<Rightarrow> bool \<Rightarrow> (string + wj_job) \<times> jcall list" where
  "wj_job_new os kill =
    (case os_create os of
       None \<Rightarrow> (Inl ''CreateJobObject failed'', [])
     | Some h \<Rightarrow>
        let info = ZeroInfo\<lparr>LimitFlags := JOB_OBJECT_LIMIT_KILL_ON_JOB_CLOSE\<rparr>;
            calls = CreateJob h # (if kill then [SetInfo h info (os_set_info os h info)] else [])
        in if kill \<and> \<not> os_set_info os h info then
             (Inl ''SetInformationJobObject(KILL_ON_JOB_CLOSE) failed'', calls @ [CloseH h])
           else if \<not> os_calloc os then (Inl ''out of memory'', calls @ [CloseH h])
           else (Inr \<lparr>jb_handle = h, jb_closed = False, jb_kill_on_close = kill\<rparr>, calls))"

text \<open>The information \<^verbatim>\<open>wj_job_set_limits\<close> writes: a flag and a value for every limit that is not zero.\<close>

definition limits_info :: "bool \<Rightarrow> wj_limits \<Rightarrow> job_info" where
  "limits_info kill l =
    (let flags = 0; info = ZeroInfo;
         flags = (if kill then flags OR JOB_OBJECT_LIMIT_KILL_ON_JOB_CLOSE else flags);
         (flags, info) = (if process_memory_bytes l \<noteq> 0
            then (flags OR JOB_OBJECT_LIMIT_PROCESS_MEMORY, info\<lparr>ProcessMemoryLimit := process_memory_bytes l\<rparr>) else (flags, info));
         (flags, info) = (if job_memory_bytes l \<noteq> 0
            then (flags OR JOB_OBJECT_LIMIT_JOB_MEMORY, info\<lparr>JobMemoryLimit := job_memory_bytes l\<rparr>) else (flags, info));
         (flags, info) = (if process_cpu_100ns l \<noteq> 0
            then (flags OR JOB_OBJECT_LIMIT_PROCESS_TIME, info\<lparr>PerProcessUserTimeLimit := process_cpu_100ns l\<rparr>) else (flags, info));
         (flags, info) = (if job_cpu_100ns l \<noteq> 0
            then (flags OR JOB_OBJECT_LIMIT_JOB_TIME, info\<lparr>PerJobUserTimeLimit := job_cpu_100ns l\<rparr>) else (flags, info));
         (flags, info) = (if active_process_cap l \<noteq> 0
            then (flags OR JOB_OBJECT_LIMIT_ACTIVE_PROCESS, info\<lparr>ActiveProcessLimit := active_process_cap l\<rparr>) else (flags, info))
     in info\<lparr>LimitFlags := flags\<rparr>)"

definition wj_job_set_limits :: "job_os \<Rightarrow> wj_job \<Rightarrow> wj_limits option \<Rightarrow> unit job_out" where
  "wj_job_set_limits os j lp =
    (case lp of
       None \<Rightarrow> (Inl ''job is closed or limits are NULL'', j, [])
     | Some l \<Rightarrow>
        if jb_closed j then (Inl ''job is closed'', j, [EnterLock, LeaveLock])
        else let info = limits_info (jb_kill_on_close j) l;
                 ok = os_set_info os (jb_handle j) info
             in (if ok then Inr () else Inl ''SetInformationJobObject(limits) failed'', j,
                 [EnterLock, SetInfo (jb_handle j) info ok, LeaveLock]))"

definition wj_job_allow_breakaway :: "job_os \<Rightarrow> wj_job \<Rightarrow> unit job_out" where
  "wj_job_allow_breakaway os j =
    (if jb_closed j then (Inl ''job is closed'', j, [EnterLock, LeaveLock])
     else let flags = JOB_OBJECT_LIMIT_BREAKAWAY_OK;
              flags = (if jb_kill_on_close j then flags OR JOB_OBJECT_LIMIT_KILL_ON_JOB_CLOSE else flags);
              info = ZeroInfo\<lparr>LimitFlags := flags\<rparr>;
              ok = os_set_info os (jb_handle j) info
          in (if ok then Inr () else Inl ''SetInformationJobObject(BREAKAWAY_OK) failed'', j,
              [EnterLock, SetInfo (jb_handle j) info ok, LeaveLock]))"

definition wj_job_assign :: "job_os \<Rightarrow> wj_job \<Rightarrow> handle option \<Rightarrow> unit job_out" where
  "wj_job_assign os j pp =
    (case pp of
       None \<Rightarrow> (Inl ''job is closed'', j, [])
     | Some p \<Rightarrow>
        if jb_closed j then (Inl ''job is closed'', j, [EnterLock, LeaveLock])
        else let ok = os_assign os (jb_handle j) p
             in (if ok then Inr () else Inl ''AssignProcessToJobObject failed'', j,
                 [EnterLock, Assign (jb_handle j) p ok, LeaveLock]))"

text \<open>The short-circuit of \<^verbatim>\<open>j->closed || !TerminateJobObject(...)\<close> is kept; the result is whether it returned 0.\<close>

definition wj_job_terminate :: "job_os \<Rightarrow> wj_job \<Rightarrow> dword \<Rightarrow> bool \<times> wj_job \<times> jcall list" where
  "wj_job_terminate os j code =
    (if jb_closed j then (False, j, [EnterLock, LeaveLock])
     else let ok = os_terminate os (jb_handle j) code
          in (ok, j, [EnterLock, Terminate (jb_handle j) code ok, LeaveLock]))"

definition wj_job_active :: "job_os \<Rightarrow> wj_job \<Rightarrow> dword job_out" where
  "wj_job_active os j =
    (if jb_closed j then (Inl ''job is closed'', j, [EnterLock, LeaveLock])
     else case os_query os (jb_handle j) of
       None \<Rightarrow> (Inl ''QueryInformationJobObject(accounting) failed'', j, [EnterLock, Query (jb_handle j) False, LeaveLock])
     | Some n \<Rightarrow> (Inr n, j, [EnterLock, Query (jb_handle j) True, LeaveLock]))"

definition wj_job_close :: "wj_job \<Rightarrow> wj_job \<times> jcall list" where
  "wj_job_close j =
    (if \<not> jb_closed j then (j\<lparr>jb_closed := True\<rparr>, [EnterLock, CloseH (jb_handle j), LeaveLock])
     else (j, [EnterLock, LeaveLock]))"

definition wj_job_free :: "wj_job \<Rightarrow> jcall list" where
  "wj_job_free j = snd (wj_job_close j) @ [DeleteLock]"

definition wj_job_handle :: "wj_job \<Rightarrow> handle option \<times> jcall list" where
  "wj_job_handle j = (if jb_closed j then None else Some (jb_handle j), [EnterLock, LeaveLock])"

text \<open>1, 0 or -1.\<close>

definition wj_in_job :: "job_os \<Rightarrow> handle \<Rightarrow> handle option \<Rightarrow> int" where
  "wj_in_job os p job = (case os_in_job os p job of None \<Rightarrow> -1 | Some True \<Rightarrow> 1 | Some False \<Rightarrow> 0)"

text \<open>
  Every operation takes a pointer and answers a NULL one before it touches the lock: -1, NULL or nothing,
  with the message \<^verbatim>\<open>job is closed\<close> where it sets one.
\<close>

definition on_job :: "'a \<Rightarrow> (wj_job \<Rightarrow> 'a \<times> wj_job \<times> jcall list) \<Rightarrow> wj_job option \<Rightarrow> 'a \<times> wj_job option \<times> jcall list" where
  "on_job null f jp =
    (case jp of None \<Rightarrow> (null, None, []) | Some j \<Rightarrow> (case f j of (r, j', cs) \<Rightarrow> (r, Some j', cs)))"

section \<open>Runs\<close>

text \<open>The operations on one job; threads take turns because each operation holds the lock.\<close>

datatype job_op =
    SetLimits "wj_limits option" | AllowBreakaway | AssignProc "handle option" | Kill dword | Active | Close | Handle

fun job_do :: "job_os \<Rightarrow> job_op \<Rightarrow> wj_job \<Rightarrow> wj_job \<times> jcall list" where
  "job_do os (SetLimits l) j = snd (wj_job_set_limits os j l)"
| "job_do os AllowBreakaway j = snd (wj_job_allow_breakaway os j)"
| "job_do os (AssignProc p) j = snd (wj_job_assign os j p)"
| "job_do os (Kill c) j = snd (wj_job_terminate os j c)"
| "job_do os Active j = snd (wj_job_active os j)"
| "job_do os Close j = wj_job_close j"
| "job_do os Handle j = (j, snd (wj_job_handle j))"

text \<open>The states of a job created with the flag \<open>kill\<close>, with all the calls made so far; Windows answers as it likes.\<close>

inductive job_reach :: "bool \<Rightarrow> wj_job \<Rightarrow> jcall list \<Rightarrow> bool" for kill where
  job_new: "wj_job_new os kill = (Inr j, tr) \<Longrightarrow> job_reach kill j tr"
| job_step: "job_reach kill j tr \<Longrightarrow> job_do os op j = (j', cs) \<Longrightarrow> job_reach kill j' (tr @ cs)"

inductive_cases job_reachE: "job_reach kill j tr"

text \<open>
  A monitor of the call trace. Its state says whether the lock is held and whether the handle is
  open; \<open>None\<close> is a violation: a call outside the lock (creation aside), on a closed handle, a second close, a lock
  taken twice or released unheld.
\<close>

fun monitor :: "handle \<Rightarrow> bool \<times> bool \<Rightarrow> jcall \<Rightarrow> (bool \<times> bool) option" where
  "monitor h (held, open) EnterLock = (if held then None else Some (True, open))"
| "monitor h (held, open) LeaveLock = (if held then Some (False, open) else None)"
| "monitor h (held, open) DeleteLock = (if held then None else Some (held, open))"
| "monitor h (held, open) (CreateJob g) = None"
| "monitor h (held, open) (SetInfo g i ok) = (if held \<and> open \<and> g = h then Some (held, open) else None)"
| "monitor h (held, open) (Assign g p ok) = (if held \<and> open \<and> g = h then Some (held, open) else None)"
| "monitor h (held, open) (Terminate g c ok) = (if held \<and> open \<and> g = h then Some (held, open) else None)"
| "monitor h (held, open) (Query g ok) = (if held \<and> open \<and> g = h then Some (held, open) else None)"
| "monitor h (held, open) (CloseH g) = (if held \<and> open \<and> g = h then Some (held, False) else None)"

fun monitors :: "handle \<Rightarrow> bool \<times> bool \<Rightarrow> jcall list \<Rightarrow> (bool \<times> bool) option" where
  "monitors h s [] = Some s"
| "monitors h s (c # cs) = (case monitor h s c of None \<Rightarrow> None | Some s' \<Rightarrow> monitors h s' cs)"

lemma monitors_append:
  "monitors h s (xs @ ys) = (case monitors h s xs of None \<Rightarrow> None | Some s' \<Rightarrow> monitors h s' ys)"
  by (induction xs arbitrary: s) (auto split: option.split)

text \<open>The limits in force: the last write Windows accepted.\<close>

fun in_force :: "jcall list \<Rightarrow> job_info option" where
  "in_force [] = None"
| "in_force (c # cs) =
    (case in_force cs of
       Some i \<Rightarrow> Some i
     | None \<Rightarrow> (case c of SetInfo h i True \<Rightarrow> Some i | _ \<Rightarrow> None))"

lemma in_force_append: "in_force (xs @ ys) = (case in_force ys of Some i \<Rightarrow> Some i | None \<Rightarrow> in_force xs)"
  by (induction xs) (auto split: option.split)

definition kills_on_close :: "job_info \<Rightarrow> bool" where
  "kills_on_close i \<longleftrightarrow> LimitFlags i AND JOB_OBJECT_LIMIT_KILL_ON_JOB_CLOSE \<noteq> 0"

section \<open>Lemmas\<close>

lemmas job_ops = wj_job_set_limits_def wj_job_allow_breakaway_def wj_job_assign_def wj_job_terminate_def
  wj_job_active_def wj_job_close_def wj_job_handle_def

lemma job_do_struct: "job_do os op j = (j', cs) \<Longrightarrow> jb_handle j' = jb_handle j \<and> jb_kill_on_close j' = jb_kill_on_close j"
  by (cases op) (auto simp: job_ops Let_def split: option.splits if_splits)

lemma job_do_monitor:
  "job_do os op j = (j', cs) \<Longrightarrow> monitors (jb_handle j) (False, \<not> jb_closed j) cs = Some (False, \<not> jb_closed j')"
  by (cases op) (auto simp: job_ops Let_def split: option.splits if_splits)

lemma job_reach_struct: "job_reach kill j tr \<Longrightarrow> jb_kill_on_close j = kill"
  by (induction rule: job_reach.induct)
    (auto simp: wj_job_new_def Let_def split: option.splits if_splits dest: job_do_struct)

text \<open>Testing one flag of a limit word.\<close>

lemma limits_flags:
  "LimitFlags (limits_info kill l) =
    (if kill then JOB_OBJECT_LIMIT_KILL_ON_JOB_CLOSE else 0) OR
    (if process_memory_bytes l \<noteq> 0 then JOB_OBJECT_LIMIT_PROCESS_MEMORY else 0) OR
    (if job_memory_bytes l \<noteq> 0 then JOB_OBJECT_LIMIT_JOB_MEMORY else 0) OR
    (if process_cpu_100ns l \<noteq> 0 then JOB_OBJECT_LIMIT_PROCESS_TIME else 0) OR
    (if job_cpu_100ns l \<noteq> 0 then JOB_OBJECT_LIMIT_JOB_TIME else 0) OR
    (if active_process_cap l \<noteq> 0 then JOB_OBJECT_LIMIT_ACTIVE_PROCESS else 0)"
  by (simp add: limits_info_def Let_def or.assoc)

lemma and_or_flag: "(a OR b) AND (m :: dword) = (a AND m) OR (b AND m)"
  by (simp add: bit.conj_disj_distrib2)

lemma if_and_flag: "(if c then a else 0) AND (m :: dword) = (if c then a AND m else 0)"
  by simp

lemma kills_limits: "kills_on_close (limits_info kill l) \<longleftrightarrow> kill"
  unfolding kills_on_close_def limits_flags and_or_flag if_and_flag by (simp add: limit_flags)

lemma limits_bits:
  "(LimitFlags (limits_info kill l) AND JOB_OBJECT_LIMIT_PROCESS_MEMORY \<noteq> 0) = (process_memory_bytes l \<noteq> 0)"
  "(LimitFlags (limits_info kill l) AND JOB_OBJECT_LIMIT_JOB_MEMORY \<noteq> 0) = (job_memory_bytes l \<noteq> 0)"
  "(LimitFlags (limits_info kill l) AND JOB_OBJECT_LIMIT_PROCESS_TIME \<noteq> 0) = (process_cpu_100ns l \<noteq> 0)"
  "(LimitFlags (limits_info kill l) AND JOB_OBJECT_LIMIT_JOB_TIME \<noteq> 0) = (job_cpu_100ns l \<noteq> 0)"
  "(LimitFlags (limits_info kill l) AND JOB_OBJECT_LIMIT_ACTIVE_PROCESS \<noteq> 0) = (active_process_cap l \<noteq> 0)"
  "LimitFlags (limits_info kill l) AND JOB_OBJECT_LIMIT_BREAKAWAY_OK = 0"
  unfolding limits_flags and_or_flag if_and_flag by (simp_all add: limit_flags)

lemma limits_values:
  "ProcessMemoryLimit (limits_info kill l) = process_memory_bytes l"
  "JobMemoryLimit (limits_info kill l) = job_memory_bytes l"
  "PerProcessUserTimeLimit (limits_info kill l) = process_cpu_100ns l"
  "PerJobUserTimeLimit (limits_info kill l) = job_cpu_100ns l"
  "ActiveProcessLimit (limits_info kill l) = active_process_cap l"
  by (simp_all add: limits_info_def ZeroInfo_def Let_def)

lemma kills_single: "kills_on_close (i\<lparr>LimitFlags := JOB_OBJECT_LIMIT_KILL_ON_JOB_CLOSE\<rparr>)"
  by (simp add: kills_on_close_def limit_flags)

lemma kills_breakaway: "kills_on_close (i\<lparr>LimitFlags := JOB_OBJECT_LIMIT_BREAKAWAY_OK OR JOB_OBJECT_LIMIT_KILL_ON_JOB_CLOSE\<rparr>)"
  by (simp add: kills_on_close_def limit_flags)

lemma kills_breakaway_not: "\<not> kills_on_close (i\<lparr>LimitFlags := JOB_OBJECT_LIMIT_BREAKAWAY_OK\<rparr>)"
  by (simp add: kills_on_close_def limit_flags)

lemma job_do_kills:
  "job_do os op j = (j', cs) \<Longrightarrow> in_force cs = Some i \<Longrightarrow> kills_on_close i \<longleftrightarrow> jb_kill_on_close j"
  by (cases op)
    (auto simp: job_ops Let_def kills_limits kills_breakaway kills_breakaway_not split: option.splits if_splits bool.splits)

lemma job_reach_force:
  "job_reach kill j tr \<Longrightarrow> (case in_force tr of None \<Rightarrow> \<not> kill | Some i \<Rightarrow> kills_on_close i = kill)"
proof (induction rule: job_reach.induct)
  case (job_new os j tr)
  then show ?case
    by (auto simp: wj_job_new_def Let_def kills_single split: option.splits if_splits)
next
  case (job_step j tr os op j' cs)
  show ?case
    using job_do_kills [OF job_step(2)] job_step(3) job_reach_struct [OF job_step(1)]
    by (auto simp: in_force_append split: option.splits)
qed

text \<open>The calls a successful creation makes.\<close>

definition creation :: "handle \<Rightarrow> bool \<Rightarrow> jcall list" where
  "creation h kill = CreateJob h # (if kill then [SetInfo h (ZeroInfo\<lparr>LimitFlags := JOB_OBJECT_LIMIT_KILL_ON_JOB_CLOSE\<rparr>) True] else [])"

lemma job_reach_trace:
  "job_reach kill j tr \<Longrightarrow> \<exists>rest. tr = creation (jb_handle j) kill @ rest \<and>
     monitors (jb_handle j) (False, True) rest = Some (False, \<not> jb_closed j)"
proof (induction rule: job_reach.induct)
  case (job_new os j tr)
  then have "tr = creation (jb_handle j) kill @ []" "monitors (jb_handle j) (False, True) [] = Some (False, \<not> jb_closed j)"
    by (auto simp: wj_job_new_def Let_def creation_def split: option.splits if_splits)
  then show ?case by blast
next
  case (job_step j tr os op j' cs)
  have h: "jb_handle j' = jb_handle j" using job_do_struct [OF job_step(2)] by simp
  obtain rest where *: "tr = creation (jb_handle j) kill @ rest"
    "monitors (jb_handle j) (False, True) rest = Some (False, \<not> jb_closed j)"
    using job_step(3) by blast
  have "monitors (jb_handle j) (False, True) (rest @ cs) = Some (False, \<not> jb_closed j')"
    using *(2) job_do_monitor [OF job_step(2)] by (simp add: monitors_append)
  then show ?case using *(1) h by (metis append.assoc)
qed

lemma free_monitor: "monitors (jb_handle j) (False, \<not> jb_closed j) (wj_job_free j) = Some (False, False)"
  by (simp add: wj_job_free_def wj_job_close_def)

section \<open>Properties\<close>

text \<open>The operating system that grants everything.\<close>

definition kind_os :: job_os where
  "kind_os = \<lparr>os_create = Some 7, os_set_info = (\<lambda>h i. True), os_assign = (\<lambda>h p. True), os_terminate = (\<lambda>h c. True),
     os_query = (\<lambda>h. Some 1), os_in_job = (\<lambda>p j. Some True), os_calloc = True\<rparr>"

lemma kind_new:
  "wj_job_new kind_os True = (Inr \<lparr>jb_handle = 7, jb_closed = False, jb_kill_on_close = True\<rparr>,
     [CreateJob 7, SetInfo 7 (ZeroInfo\<lparr>LimitFlags := JOB_OBJECT_LIMIT_KILL_ON_JOB_CLOSE\<rparr>) True])"
  by (simp add: wj_job_new_def kind_os_def Let_def)

text \<open>C11: die-with-parent survives every limit write: whatever operations ran on a job, in any order and with
  any answers of Windows, the limits in force have the kill-on-close flag exactly when the job was created with it.
  A job created with it has it in force from the start.\<close>

theorem job_kill_on_close_kept:
  assumes "job_reach kill j tr"
  shows "case in_force tr of None \<Rightarrow> \<not> kill | Some i \<Rightarrow> kills_on_close i = kill"
  by (rule job_reach_force [OF assms])

theorem job_kill_on_close_kept_witness:
  "kills_on_close (ZeroInfo\<lparr>LimitFlags := JOB_OBJECT_LIMIT_BREAKAWAY_OK OR JOB_OBJECT_LIMIT_KILL_ON_JOB_CLOSE\<rparr>)"
proof -
  have r: "job_reach True \<lparr>jb_handle = 7, jb_closed = False, jb_kill_on_close = True\<rparr>
      ([CreateJob 7, SetInfo 7 (ZeroInfo\<lparr>LimitFlags := JOB_OBJECT_LIMIT_KILL_ON_JOB_CLOSE\<rparr>) True] @
       [EnterLock, SetInfo 7 (ZeroInfo\<lparr>LimitFlags := JOB_OBJECT_LIMIT_BREAKAWAY_OK OR JOB_OBJECT_LIMIT_KILL_ON_JOB_CLOSE\<rparr>) True, LeaveLock])"
    by (rule job_step [OF job_new [OF kind_new], of kind_os AllowBreakaway])
      (simp add: wj_job_allow_breakaway_def kind_os_def Let_def)
  show ?thesis using job_kill_on_close_kept [OF r] by simp
qed

lemma job_run_safe: "job_reach kill j tr \<Longrightarrow> \<exists>rest. tr = creation (jb_handle j) kill @ rest \<and>
      monitors (jb_handle j) (False, True) rest = Some (False, \<not> jb_closed j) \<and>
      monitors (jb_handle j) (False, True) (rest @ wj_job_free j) = Some (False, False)"
proof -
  assume "job_reach kill j tr"
  from job_reach_trace [OF this] obtain rest where "tr = creation (jb_handle j) kill @ rest"
    "monitors (jb_handle j) (False, True) rest = Some (False, \<not> jb_closed j)" by blast
  then show "\<exists>rest. tr = creation (jb_handle j) kill @ rest \<and>
      monitors (jb_handle j) (False, True) rest = Some (False, \<not> jb_closed j) \<and>
      monitors (jb_handle j) (False, True) (rest @ wj_job_free j) = Some (False, False)"
    using free_monitor [of j] by (intro exI [of _ rest]) (simp add: monitors_append)
qed

lemma job_new_failed:
  "wj_job_new os kill = (Inl e, cs) \<Longrightarrow> cs = [] \<or> (\<exists>h. hd cs = CreateJob h \<and> last cs = CloseH h \<and> length (List.filter (\<lambda>c. c = CloseH h) cs) = 1)"
  by (auto simp: wj_job_new_def Let_def split: option.splits if_splits)

text \<open>no use after close: in every run, and in the run followed by \<^verbatim>\<open>wj_job_free\<close>, each call on the handle is made under
  the lock on the open handle, the lock is released on every path, and the handle is closed exactly once, no later than the
  free; a creation that fails closes the handle it made.\<close>

theorem job_calls_safe:
  "(job_reach kill j tr \<longrightarrow> (\<exists>rest. tr = creation (jb_handle j) kill @ rest \<and>
      monitors (jb_handle j) (False, True) rest = Some (False, \<not> jb_closed j) \<and>
      monitors (jb_handle j) (False, True) (rest @ wj_job_free j) = Some (False, False))) \<and>
   (wj_job_new os kill = (Inl e, cs) \<longrightarrow> cs = [] \<or>
      (\<exists>h. hd cs = CreateJob h \<and> last cs = CloseH h \<and> length (List.filter (\<lambda>c. c = CloseH h) cs) = 1))"
  using job_run_safe [of kill j tr] job_new_failed [of os kill e cs] by blast

theorem job_calls_safe_witness:
  "monitors 7 (False, True) (wj_job_free \<lparr>jb_handle = 7, jb_closed = False, jb_kill_on_close = True\<rparr>) = Some (False, False) \<and>
   (\<exists>cs. wj_job_new (kind_os\<lparr>os_calloc := False\<rparr>) True = (Inl ''out of memory'', cs) \<and> last cs = CloseH 7)"
proof -
  let ?cs = "[CreateJob 7, SetInfo 7 (ZeroInfo\<lparr>LimitFlags := JOB_OBJECT_LIMIT_KILL_ON_JOB_CLOSE\<rparr>) True, CloseH 7]"
  have e: "wj_job_new (kind_os\<lparr>os_calloc := False\<rparr>) True = (Inl ''out of memory'', ?cs)"
    by (simp add: wj_job_new_def kind_os_def Let_def)
  have "last ?cs = CloseH 7" using job_calls_safe [THEN conjunct2, rule_format, OF e] by simp
  then show ?thesis
    using job_calls_safe [THEN conjunct1, rule_format, OF job_new [OF kind_new]] e by (auto simp: creation_def)
qed

text \<open>What \<^verbatim>\<open>wj_job_set_limits\<close> puts in force when it succeeds is exactly the requested limits, each with its flag and its
  value, and none for a limit of zero.\<close>

theorem set_limits_exact:
  assumes "wj_job_set_limits os j (Some l) = (Inr (), j', cs)"
  shows "\<exists>i. in_force cs = Some i \<and> \<not> jb_closed j \<and>
    (LimitFlags i AND JOB_OBJECT_LIMIT_PROCESS_MEMORY \<noteq> 0) = (process_memory_bytes l \<noteq> 0) \<and> ProcessMemoryLimit i = process_memory_bytes l \<and>
    (LimitFlags i AND JOB_OBJECT_LIMIT_JOB_MEMORY \<noteq> 0) = (job_memory_bytes l \<noteq> 0) \<and> JobMemoryLimit i = job_memory_bytes l \<and>
    (LimitFlags i AND JOB_OBJECT_LIMIT_PROCESS_TIME \<noteq> 0) = (process_cpu_100ns l \<noteq> 0) \<and> PerProcessUserTimeLimit i = process_cpu_100ns l \<and>
    (LimitFlags i AND JOB_OBJECT_LIMIT_JOB_TIME \<noteq> 0) = (job_cpu_100ns l \<noteq> 0) \<and> PerJobUserTimeLimit i = job_cpu_100ns l \<and>
    (LimitFlags i AND JOB_OBJECT_LIMIT_ACTIVE_PROCESS \<noteq> 0) = (active_process_cap l \<noteq> 0) \<and> ActiveProcessLimit i = active_process_cap l \<and>
    LimitFlags i AND JOB_OBJECT_LIMIT_BREAKAWAY_OK = 0 \<and> kills_on_close i = jb_kill_on_close j"
proof -
  have f: "in_force cs = Some (limits_info (jb_kill_on_close j) l)" "\<not> jb_closed j"
    using assms by (auto simp: wj_job_set_limits_def Let_def split: if_splits)
  show ?thesis
    unfolding f(1)
    by (rule exI [of _ "limits_info (jb_kill_on_close j) l"])
      (simp add: f(2) limits_bits limits_values kills_limits)
qed

theorem set_limits_exact_witness:
  "ActiveProcessLimit (limits_info True \<lparr>process_memory_bytes = 0, job_memory_bytes = 4096, process_cpu_100ns = 0, job_cpu_100ns = 0, active_process_cap = 3\<rparr>) = 3"
proof -
  let ?l = "\<lparr>process_memory_bytes = 0, job_memory_bytes = 4096, process_cpu_100ns = 0, job_cpu_100ns = 0, active_process_cap = 3\<rparr>"
  let ?j = "\<lparr>jb_handle = 7, jb_closed = False, jb_kill_on_close = True\<rparr>"
  have s: "wj_job_set_limits kind_os ?j (Some ?l) = (Inr (), ?j, [EnterLock, SetInfo 7 (limits_info True ?l) True, LeaveLock])"
    by (simp add: wj_job_set_limits_def kind_os_def Let_def)
  show ?thesis using set_limits_exact [OF s] by simp
qed

end
