(* ===== verification/Opts.thy ===== *)
theory Opts
  imports TclValue Utf8 Units
begin

text \<open>
  The options and the program of a launch (\<^verbatim>\<open>src/proc.c\<close>): \<^verbatim>\<open>parse_opts\<close> with the permission mask
  each command passes it, \<^verbatim>\<open>build_argv\<close>, \<^verbatim>\<open>argv_with_arg0\<close>, and the search for the executable,
  \<^verbatim>\<open>has_extension\<close> and \<^verbatim>\<open>resolve_exe\<close>. The environment lookup, \<^verbatim>\<open>SearchPathW\<close> and
  \<^verbatim>\<open>GetFileAttributesW\<close> are parameters.
\<close>

unbundle bit_operations_syntax

section \<open>Options\<close>

definition OPT_TIMEOUT :: dword where "OPT_TIMEOUT = 1"
definition OPT_MEM :: dword where "OPT_MEM = 2"
definition OPT_CPU :: dword where "OPT_CPU = 4"
definition OPT_DIR :: dword where "OPT_DIR = 8"
definition OPT_ARG0 :: dword where "OPT_ARG0 = 16"
definition OPT_STDIN :: dword where "OPT_STDIN = 32"
definition OPT_ENV :: dword where "OPT_ENV = 64"
definition OPT_ONOUT :: dword where "OPT_ONOUT = 128"
definition OPT_ONERR :: dword where "OPT_ONERR = 256"
definition OPT_CHANNELS :: dword where "OPT_CHANNELS = 512"
definition OPT_INHERIT :: dword where "OPT_INHERIT = 1024"

lemmas opt_flags = OPT_TIMEOUT_def OPT_MEM_def OPT_CPU_def OPT_DIR_def OPT_ARG0_def OPT_STDIN_def OPT_ENV_def
  OPT_ONOUT_def OPT_ONERR_def OPT_CHANNELS_def OPT_INHERIT_def

text \<open>The parsed options; \<open>o_timeout_ms = -1\<close> is none. \<open>o_cmd\<close> holds the words from \<^verbatim>\<open>cmd_index\<close> on.\<close>

record run_opts =
  o_timeout_ms :: int
  o_mem :: nat
  o_cpu_100ns :: nat
  o_dir :: "cstr option"
  o_stdin_obj :: "tvalue option"
  o_env_obj :: "tvalue option"
  o_env_block :: "wstr option"
  o_onout :: "tvalue option"
  o_onerr :: "tvalue option"
  o_channels :: bool
  o_inherit :: bool
  o_arg0 :: "cstr option"
  o_cmd :: "tvalue list"

definition opts_init :: run_opts where
  "opts_init = \<lparr>o_timeout_ms = -1, o_mem = 0, o_cpu_100ns = 0, o_dir = None, o_stdin_obj = None, o_env_obj = None,
     o_env_block = None, o_onout = None, o_onerr = None, o_channels = False, o_inherit = False, o_arg0 = None, o_cmd = []\<rparr>"

definition WJ_INFINITE :: nat where "WJ_INFINITE = 4294967295"

abbreviation allows :: "dword \<Rightarrow> dword \<Rightarrow> bool" where "allows allowed f \<equiv> allowed AND f \<noteq> 0"

abbreviation unsupported :: "string \<Rightarrow> 'a res" where
  "unsupported dm \<equiv> Inl (MtError dm ''usage'' ''option is not supported by this command'')"

text \<open>The options that take a value; \<open>a\<close> is the option word. The cast of a byte size to \<^verbatim>\<open>unsigned long long\<close> is
  written out; the ones of the durations stand behind the sign test.\<close>

definition value_option :: "string \<Rightarrow> dword \<Rightarrow> cstr \<Rightarrow> tvalue \<Rightarrow> run_opts \<Rightarrow> run_opts res" where
  "value_option dm allowed a v opts =
    (let s = vtext v; has_nul = NUL \<in> set s in
     if a = ''-stdin'' then
       (if \<not> allows allowed OPT_STDIN then unsupported dm else Inr (opts\<lparr>o_stdin_obj := Some v\<rparr>))
     else if a = ''-env'' then
       (if \<not> allows allowed OPT_ENV then unsupported dm else Inr (opts\<lparr>o_env_obj := Some v\<rparr>))
     else if a = ''-onout'' then
       (if \<not> allows allowed OPT_ONOUT then unsupported dm else Inr (opts\<lparr>o_onout := Some v\<rparr>))
     else if a = ''-onerr'' then
       (if \<not> allows allowed OPT_ONERR then unsupported dm else Inr (opts\<lparr>o_onerr := Some v\<rparr>))
     else if a = ''-timeout'' then
       (if \<not> allows allowed OPT_TIMEOUT then unsupported dm
        else if has_nul then Inl (MtError dm ''badvalue'' ''duration may not contain NUL'')
        else let t = parse_duration_ms s in
          if t < 0 \<or> nat t \<ge> WJ_INFINITE then Inl (MtError dm ''badvalue'' ''bad -timeout value'')
          else Inr (opts\<lparr>o_timeout_ms := t\<rparr>))
     else if a = ''-mem'' then
       (if \<not> allows allowed OPT_MEM then unsupported dm
        else if has_nul then Inl (MtError dm ''badvalue'' ''byte size may not contain NUL'')
        else let b = parse_bytes s in
          if b < 0 then Inl (MtError dm ''badvalue'' ''bad -mem value'')
          else Inr (opts\<lparr>o_mem := nat (b mod 2 ^ 64)\<rparr>))
     else if a = ''-cpu'' then
       (if \<not> allows allowed OPT_CPU then unsupported dm
        else if has_nul then Inl (MtError dm ''badvalue'' ''duration may not contain NUL'')
        else let d = parse_duration_ms s in
          if d < 0 \<or> nat d > LLONG_MAX div 10000 then Inl (MtError dm ''badvalue'' ''bad -cpu value'')
          else Inr (opts\<lparr>o_cpu_100ns := nat d * 10000\<rparr>))
     else if a = ''-dir'' then
       (if \<not> allows allowed OPT_DIR then unsupported dm
        else if has_nul then Inl (MtError dm ''badvalue'' ''working directory may not contain NUL'')
        else Inr (opts\<lparr>o_dir := Some s\<rparr>))
     else if a = ''-arg0'' then
       (if \<not> allows allowed OPT_ARG0 then unsupported dm
        else if has_nul then Inl (MtError dm ''badvalue'' ''-arg0 may not contain NUL'')
        else Inr (opts\<lparr>o_arg0 := Some s\<rparr>))
     else Inl (MtError dm ''usage'' ''unknown option''))"

text \<open>The loop over the words; it stops at \<^verbatim>\<open>--\<close>, at a word that is not an option, or at the end.\<close>

fun opts_loop :: "string \<Rightarrow> dword \<Rightarrow> tvalue list \<Rightarrow> run_opts \<Rightarrow> run_opts res" where
  "opts_loop dm allowed [] opts = Inr (opts\<lparr>o_cmd := []\<rparr>)"
| "opts_loop dm allowed (w # ws) opts =
    (case obj_no_nul w of
       None \<Rightarrow> Inl (MtError dm ''badvalue'' ''option name may not contain NUL'')
     | Some a \<Rightarrow>
       if a = ''--'' then Inr (opts\<lparr>o_cmd := ws\<rparr>)
       else if a = [] \<or> hd a \<noteq> CHR ''-'' \<or> length a = 1 then Inr (opts\<lparr>o_cmd := w # ws\<rparr>)
       else if a = ''-channels'' then
         (if \<not> allows allowed OPT_CHANNELS then unsupported dm
          else opts_loop dm allowed ws (opts\<lparr>o_channels := True\<rparr>))
       else if a = ''-inherit'' then
         (if \<not> allows allowed OPT_INHERIT then unsupported dm
          else opts_loop dm allowed ws (opts\<lparr>o_inherit := True\<rparr>))
       else (case ws of
           [] \<Rightarrow> Inl (MtError dm ''usage'' ''option needs a value'')
         | v # ws' \<Rightarrow> (case value_option dm allowed a v opts of
             Inl e \<Rightarrow> Inl e
           | Inr opts' \<Rightarrow> opts_loop dm allowed ws' opts')))"

definition parse_opts :: "string \<Rightarrow> dword \<Rightarrow> tvalue list \<Rightarrow> run_opts res" where
  "parse_opts dm allowed words = opts_loop dm allowed words opts_init"

text \<open>The command words as C strings; \<open>mok\<close> is the answer of \<^verbatim>\<open>malloc\<close>. No words is the NULL without an error.\<close>

fun no_nul_words :: "tvalue list \<Rightarrow> cstr list option" where
  "no_nul_words [] = Some []"
| "no_nul_words (w # ws) =
    (case obj_no_nul w of
       None \<Rightarrow> None
     | Some s \<Rightarrow> (case no_nul_words ws of None \<Rightarrow> None | Some ss \<Rightarrow> Some (s # ss)))"

definition build_argv :: "string \<Rightarrow> bool \<Rightarrow> tvalue list \<Rightarrow> cstr list option res" where
  "build_argv dm mok words =
    (if words = [] then Inr None
     else if \<not> mok then Inl (MtError dm ''oserror'' ''out of memory'')
     else case no_nul_words words of
       None \<Rightarrow> Inl (MtError dm ''badvalue'' ''command arguments may not contain NUL'')
     | Some ss \<Rightarrow> Inr (Some ss))"

definition argv_with_arg0 :: "bool \<Rightarrow> run_opts \<Rightarrow> cstr list \<Rightarrow> cstr list option" where
  "argv_with_arg0 mok opts cargv =
    (case o_arg0 opts of
       None \<Rightarrow> Some cargv
     | Some a \<Rightarrow> if \<not> mok then None else Some (a # tl cargv))"

section \<open>Program resolution\<close>

text \<open>The loop keeps the rest after the last separator.\<close>

fun base_name :: "cstr \<Rightarrow> cstr \<Rightarrow> cstr" where
  "base_name [] base = base"
| "base_name (c # cs) base = base_name cs (if c = CHR ''/'' \<or> c = BS then cs else base)"

definition has_extension :: "cstr \<Rightarrow> bool" where
  "has_extension prog \<longleftrightarrow> strchr (base_name prog prog) CHR ''.''"

definition wide_ascii :: "string \<Rightarrow> wstr" where
  "wide_ascii s = map (\<lambda>c. word_of_nat (byte_of c)) s"

text \<open>
  \<open>search_path path file ext\<close> is \<^verbatim>\<open>SearchPathW\<close>: the name found; one that does not fit the buffer
  of 520 units is not used. \<open>file_attr\<close> is whether the name has attributes, and the directory bit.
\<close>

record path_env =
  env_PATH :: "wstr option"
  search_path :: "wstr option \<Rightarrow> wstr \<Rightarrow> wstr option \<Rightarrow> wstr option"
  file_attr :: "wstr \<Rightarrow> bool option"

definition is_file :: "path_env \<Rightarrow> wstr \<Rightarrow> bool" where
  "is_file P w \<longleftrightarrow> file_attr P w = Some False"

fun search_exts :: "text_env \<Rightarrow> path_env \<Rightarrow> wstr option \<Rightarrow> wstr \<Rightarrow> wstr option list \<Rightarrow> cstr option" where
  "search_exts T P path wp [] = None"
| "search_exts T P path wp (e # es) =
    (case search_path P path wp e of
       Some buf \<Rightarrow>
         if 0 < length buf \<and> length buf < 520 \<and> is_file P buf then to_utf8 T buf (-1)
         else search_exts T P path wp es
     | None \<Rightarrow> search_exts T P path wp es)"

definition exe_exts :: "cstr \<Rightarrow> wstr option list" where
  "exe_exts prog =
    (if has_extension prog then [None]
     else map (Some \<circ> wide_ascii) [''.exe'', ''.com'', ''.bat'', ''.cmd''])"

definition bare_name :: "wstr \<Rightarrow> bool" where
  "bare_name wp \<longleftrightarrow> 0x5C \<notin> set wp \<and> 0x2F \<notin> set wp"

definition resolve_exe :: "text_env \<Rightarrow> path_env \<Rightarrow> cstr \<Rightarrow> cstr option" where
  "resolve_exe T P prog =
    (case to_wide T prog of
       None \<Rightarrow> None
     | Some wp \<Rightarrow>
       if bare_name wp then
         (case env_PATH P of
            None \<Rightarrow> None
          | Some path \<Rightarrow>
            if \<not> tx_malloc T (of_nat (length path + 1) * 2) \<or> path = [] then None
            else search_exts T P (Some path) wp (exe_exts prog))
       else search_exts T P None wp (exe_exts prog))"

section \<open>What the option loop guarantees\<close>

text \<open>The bounds every option record of the loop keeps.\<close>

definition opts_bounded :: "run_opts \<Rightarrow> bool" where
  "opts_bounded opts \<longleftrightarrow>
     (o_timeout_ms opts = -1 \<or> 0 \<le> o_timeout_ms opts \<and> nat (o_timeout_ms opts) < WJ_INFINITE) \<and>
     o_mem opts \<le> LLONG_MAX \<and> o_cpu_100ns opts \<le> LLONG_MAX \<and> o_env_block opts = None \<and>
     (case o_dir opts of None \<Rightarrow> True | Some d \<Rightarrow> NUL \<notin> set d) \<and>
     (case o_arg0 opts of None \<Rightarrow> True | Some a \<Rightarrow> NUL \<notin> set a)"

text \<open>Options whose permission bit is missing stay as they were.\<close>

definition opts_permitted :: "dword \<Rightarrow> run_opts \<Rightarrow> run_opts \<Rightarrow> bool" where
  "opts_permitted allowed o0 o1 \<longleftrightarrow>
     (\<not> allows allowed OPT_TIMEOUT \<longrightarrow> o_timeout_ms o1 = o_timeout_ms o0) \<and>
     (\<not> allows allowed OPT_MEM \<longrightarrow> o_mem o1 = o_mem o0) \<and>
     (\<not> allows allowed OPT_CPU \<longrightarrow> o_cpu_100ns o1 = o_cpu_100ns o0) \<and>
     (\<not> allows allowed OPT_DIR \<longrightarrow> o_dir o1 = o_dir o0) \<and>
     (\<not> allows allowed OPT_ARG0 \<longrightarrow> o_arg0 o1 = o_arg0 o0) \<and>
     (\<not> allows allowed OPT_STDIN \<longrightarrow> o_stdin_obj o1 = o_stdin_obj o0) \<and>
     (\<not> allows allowed OPT_ENV \<longrightarrow> o_env_obj o1 = o_env_obj o0) \<and>
     (\<not> allows allowed OPT_ONOUT \<longrightarrow> o_onout o1 = o_onout o0) \<and>
     (\<not> allows allowed OPT_ONERR \<longrightarrow> o_onerr o1 = o_onerr o0) \<and>
     (\<not> allows allowed OPT_CHANNELS \<longrightarrow> o_channels o1 = o_channels o0) \<and>
     (\<not> allows allowed OPT_INHERIT \<longrightarrow> o_inherit o1 = o_inherit o0)"

lemma permitted_refl: "opts_permitted allowed opts opts"
  by (simp add: opts_permitted_def)

lemma permitted_trans: "opts_permitted allowed a b \<Longrightarrow> opts_permitted allowed b c \<Longrightarrow> opts_permitted allowed a c"
  unfolding opts_permitted_def by presburger

lemma permitted_flags:
  "allows allowed OPT_CHANNELS \<Longrightarrow> opts_permitted allowed opts (opts\<lparr>o_channels := True\<rparr>)"
  "allows allowed OPT_INHERIT \<Longrightarrow> opts_permitted allowed opts (opts\<lparr>o_inherit := True\<rparr>)"
  "opts_permitted allowed opts (opts\<lparr>o_cmd := c\<rparr>)"
  by (simp_all add: opts_permitted_def)

lemma bounded_flags:
  "opts_bounded opts \<Longrightarrow> opts_bounded (opts\<lparr>o_channels := True\<rparr>)"
  "opts_bounded opts \<Longrightarrow> opts_bounded (opts\<lparr>o_inherit := True\<rparr>)"
  "opts_bounded opts \<Longrightarrow> opts_bounded (opts\<lparr>o_cmd := c\<rparr>)"
  by (simp_all add: opts_bounded_def)

lemma value_option_sound:
  assumes "value_option dm allowed a v opts = Inr opts'"
  shows "(opts_bounded opts \<longrightarrow> opts_bounded opts') \<and> opts_permitted allowed opts opts' \<and> o_cmd opts' = o_cmd opts"
  using assms
  by (auto simp: value_option_def opts_bounded_def opts_permitted_def Let_def parse_bytes_cast_le split: if_splits)

lemma opts_loop_sound:
  "opts_loop dm allowed ws opts = Inr opts' \<Longrightarrow> opts_bounded opts \<Longrightarrow>
     opts_bounded opts' \<and> opts_permitted allowed opts opts' \<and> (\<exists>pre. ws = pre @ o_cmd opts')"
proof (induction dm allowed ws opts arbitrary: opts' rule: opts_loop.induct)
  case (1 dm allowed opts)
  then show ?case by (auto simp: bounded_flags permitted_flags)
next
  case (2 dm allowed w ws opts)
  have nn: "NUL \<notin> set (vtext w)" using 2(4) by (auto simp: obj_no_nul_def split: if_splits)
  have a: "obj_no_nul w = Some (vtext w)" using nn by (simp add: obj_no_nul_def)
  consider (stop) "vtext w = ''--''" | (word) "vtext w \<noteq> ''--''" "vtext w = [] \<or> hd (vtext w) \<noteq> CHR ''-'' \<or> length (vtext w) = 1"
    | (channels) "vtext w = ''-channels''" | (inherit) "vtext w = ''-inherit''"
    | (val) "\<not> (vtext w = [] \<or> hd (vtext w) \<noteq> CHR ''-'' \<or> length (vtext w) = 1)" "vtext w \<notin> {''--'', ''-channels'', ''-inherit''}"
    by blast
  then show ?case
  proof cases
    case stop
    then have "opts' = opts\<lparr>o_cmd := ws\<rparr>" using 2(4) a by simp
    then show ?thesis using 2(5) by (auto simp: bounded_flags permitted_flags)
  next
    case word
    then have "opts' = opts\<lparr>o_cmd := w # ws\<rparr>" using 2(4) a by simp
    then show ?thesis using 2(5) by (auto simp: bounded_flags permitted_flags)
  next
    case channels
    then have k: "allows allowed OPT_CHANNELS" "opts_loop dm allowed ws (opts\<lparr>o_channels := True\<rparr>) = Inr opts'"
      using 2(4) a by (auto split: if_splits)
    show ?thesis
      using 2(1) [OF a] channels k 2(5) permitted_trans [OF permitted_flags(1) [OF k(1), of opts], of opts']
      by (auto simp: bounded_flags)
  next
    case inherit
    then have k: "allows allowed OPT_INHERIT" "opts_loop dm allowed ws (opts\<lparr>o_inherit := True\<rparr>) = Inr opts'"
      using 2(4) a by (auto split: if_splits)
    show ?thesis
      using 2(2) [OF a] inherit k 2(5) permitted_trans [OF permitted_flags(2) [OF k(1), of opts], of opts']
      by (auto simp: bounded_flags)
  next
    case val
    obtain v ws' o1 where k: "ws = v # ws'" "value_option dm allowed (vtext w) v opts = Inr o1" "opts_loop dm allowed ws' o1 = Inr opts'"
      using 2(4) a val by (auto split: list.splits sum.splits)
    have s: "opts_bounded o1" "opts_permitted allowed opts o1" using value_option_sound [OF k(2)] 2(5) by auto
    have "opts_bounded opts' \<and> opts_permitted allowed o1 opts' \<and> (\<exists>pre. ws' = pre @ o_cmd opts')"
      using val by (intro 2(3) [OF a _ _ _ _ k(1) k(2) k(3) s(1)]) auto
    then show ?thesis using permitted_trans [OF s(2)] k(1) by (auto intro: exI [of _ "w # v # _"])
  qed
qed

text \<open>A terminated option list leaves every later word alone.\<close>

lemma opts_loop_terminated:
  "opts_loop dm allowed ws opts = Inr opts' \<Longrightarrow> o_cmd opts' = [] \<Longrightarrow> \<forall>w\<in>set ws. vtext w \<noteq> ''--'' \<Longrightarrow> vtext e = ''--'' \<Longrightarrow>
     opts_loop dm allowed (ws @ e # rest) opts = Inr (opts'\<lparr>o_cmd := rest\<rparr>)"
proof (induction dm allowed ws opts arbitrary: opts' rule: opts_loop.induct)
  case (1 dm allowed opts)
  then show ?case by (auto simp: obj_no_nul_def)
next
  case (2 dm allowed w ws opts)
  have nn: "NUL \<notin> set (vtext w)" using 2(4) by (auto simp: obj_no_nul_def split: if_splits)
  have a: "obj_no_nul w = Some (vtext w)" using nn by (simp add: obj_no_nul_def)
  have nw: "\<not> (vtext w = [] \<or> hd (vtext w) \<noteq> CHR ''-'' \<or> length (vtext w) = 1)" "vtext w \<noteq> ''--''"
    using 2(4,5,6) a by (auto split: if_splits)
  consider (channels) "vtext w = ''-channels''" | (inherit) "vtext w = ''-inherit''"
    | (val) "vtext w \<notin> {''--'', ''-channels'', ''-inherit''}" using nw by blast
  then show ?case
  proof cases
    case channels
    then show ?thesis using 2(1) [OF a] 2(4-7) a by (auto split: if_splits)
  next
    case inherit
    then show ?thesis using 2(2) [OF a] 2(4-7) a by (auto split: if_splits)
  next
    case val
    obtain v ws' o1 where k: "ws = v # ws'" "value_option dm allowed (vtext w) v opts = Inr o1" "opts_loop dm allowed ws' o1 = Inr opts'"
      using 2(4) a val nw by (auto split: list.splits sum.splits)
    have "opts_loop dm allowed (ws' @ e # rest) o1 = Inr (opts'\<lparr>o_cmd := rest\<rparr>)"
      using val nw 2(5-7) k(1) by (intro 2(3) [OF a _ _ _ _ k(1) k(2) k(3)]) auto
    then show ?thesis using val nw a k by auto
  qed
qed

lemma opts_init_bounded: "opts_bounded opts_init"
  by (simp add: opts_bounded_def opts_init_def)

lemma no_nul_words_iff: "no_nul_words ws = Some ss \<longleftrightarrow> ss = map vtext ws \<and> (\<forall>w\<in>set ws. NUL \<notin> set (vtext w))"
  by (induction ws arbitrary: ss) (auto simp: obj_no_nul_def split: option.splits)

lemma search_exts_Some:
  "search_exts T P path wp es = Some r \<Longrightarrow>
     \<exists>e w. e \<in> set es \<and> search_path P path wp e = Some w \<and> is_file P w \<and> to_utf8 T w (-1) = Some r"
  by (induction es) (auto split: option.splits if_splits)

lemma search_exts_cong:
  "(\<And>e. search_path P path wp e = search_path Q path wp e) \<Longrightarrow> file_attr P = file_attr Q \<Longrightarrow>
     search_exts T P path wp es = search_exts T Q path wp es"
  by (induction es) (auto simp: is_file_def split: option.split)

section \<open>Properties\<close>

text \<open>C33: whatever option words a command is given, a successful parse sets no option its permission mask leaves
  out, keeps timeouts below \<^verbatim>\<open>WJ_INFINITE\<close>, memory caps and CPU caps (in 100 ns) within a signed 64-bit integer and NUL out of \<^verbatim>\<open>-dir\<close> and \<^verbatim>\<open>-arg0\<close>, and hands on as
  the command exactly a suffix of the words; and after a \<^verbatim>\<open>--\<close> no word is read as an option.\<close>

theorem parse_opts_sound:
  assumes "parse_opts dm allowed ws = Inr opts"
  shows "opts_bounded opts \<and> opts_permitted allowed opts_init opts \<and> (\<exists>pre. ws = pre @ o_cmd opts) \<and>
    (o_cmd opts = [] \<and> ''--'' \<notin> vtext ` set ws \<and> vtext e = ''--'' \<longrightarrow>
       parse_opts dm allowed (ws @ e # rest) = Inr (opts\<lparr>o_cmd := rest\<rparr>))"
proof -
  have l: "opts_loop dm allowed ws opts_init = Inr opts" using assms by (simp add: parse_opts_def)
  have "opts_loop dm allowed (ws @ e # rest) opts_init = Inr (opts\<lparr>o_cmd := rest\<rparr>)"
    if "o_cmd opts = []" "''--'' \<notin> vtext ` set ws" "vtext e = ''--''"
    using that by (intro opts_loop_terminated [OF l]) (auto simp: image_iff)
  then show ?thesis using opts_loop_sound [OF l opts_init_bounded] by (auto simp: parse_opts_def)
qed

theorem parse_opts_sound_witness:
  "parse_opts ''RUN'' OPT_DIR [VText ''-dir'', VText ''C:/x'', VText ''--'', VText ''-dir''] =
     Inr (opts_init\<lparr>o_dir := Some ''C:/x'', o_cmd := [VText ''-dir'']\<rparr>)"
proof -
  have "parse_opts ''RUN'' OPT_DIR [VText ''-dir'', VText ''C:/x''] = Inr (opts_init\<lparr>o_dir := Some ''C:/x''\<rparr>)"
    by (simp add: parse_opts_def obj_no_nul_def value_option_def opt_flags opts_init_def)
  from parse_opts_sound [OF this, of "VText ''--''" "[VText ''-dir'']"]
  show ?thesis by (simp add: opts_init_def)
qed

text \<open>C34: a program name resolves only to an existing file that the search yields for one of its permitted extensions, a name
  without extension never to itself; and a bare name is looked up in \<^verbatim>\<open>PATH\<close> alone, so nothing the search would find elsewhere
  (the current directory) has any influence on it.\<close>

theorem resolve_exe_sound:
  "(resolve_exe T P prog = Some r \<longrightarrow>
      (\<exists>wp e w. to_wide T prog = Some wp \<and> e \<in> set (exe_exts prog) \<and>
         search_path P (if bare_name wp then env_PATH P else None) wp e = Some w \<and>
         (bare_name wp \<longrightarrow> env_PATH P \<noteq> None) \<and> (\<not> has_extension prog \<longrightarrow> e \<noteq> None) \<and>
         is_file P w \<and> to_utf8 T w (-1) = Some r)) \<and>
   ((\<forall>wp. to_wide T prog = Some wp \<longrightarrow> bare_name wp) \<and> (\<forall>path. f (Some path) = search_path P (Some path)) \<longrightarrow>
      resolve_exe T (P\<lparr>search_path := f\<rparr>) prog = resolve_exe T P prog)"
proof (rule conjI; rule impI)
  assume r: "resolve_exe T P prog = Some r"
  then obtain wp where wp: "to_wide T prog = Some wp" by (auto simp: resolve_exe_def split: option.splits)
  then have s: "search_exts T P (if bare_name wp then env_PATH P else None) wp (exe_exts prog) = Some r"
    "bare_name wp \<longrightarrow> env_PATH P \<noteq> None"
    using r by (auto simp: resolve_exe_def split: option.splits if_splits)
  have "e \<in> set (exe_exts prog) \<Longrightarrow> \<not> has_extension prog \<Longrightarrow> e \<noteq> None" for e by (auto simp: exe_exts_def)
  then show "\<exists>wp e w. to_wide T prog = Some wp \<and> e \<in> set (exe_exts prog) \<and>
         search_path P (if bare_name wp then env_PATH P else None) wp e = Some w \<and>
         (bare_name wp \<longrightarrow> env_PATH P \<noteq> None) \<and> (\<not> has_extension prog \<longrightarrow> e \<noteq> None) \<and>
         is_file P w \<and> to_utf8 T w (-1) = Some r"
    using search_exts_Some [OF s(1)] s(2) wp by blast
next
  assume a: "(\<forall>wp. to_wide T prog = Some wp \<longrightarrow> bare_name wp) \<and> (\<forall>path. f (Some path) = search_path P (Some path))"
  have "search_exts T (P\<lparr>search_path := f\<rparr>) (Some path) wp es = search_exts T P (Some path) wp es" for path wp es
    using a by (intro search_exts_cong) simp_all
  then show "resolve_exe T (P\<lparr>search_path := f\<rparr>) prog = resolve_exe T P prog"
    using a by (auto simp: resolve_exe_def split: option.split)
qed

definition demo_text :: text_env where
  "demo_text = \<lparr>tx_wide = Some \<circ> wide_ascii, tx_utf8 = (\<lambda>w. Some (map (\<lambda>u. char_of (unat u)) w)), tx_malloc = (\<lambda>n. True)\<rparr>"

definition demo_path :: path_env where
  "demo_path = \<lparr>env_PATH = Some (wide_ascii ''C:''),
     search_path = (\<lambda>path f e. case path of Some d \<Rightarrow> Some (d @ f) | None \<Rightarrow> Some f), file_attr = (\<lambda>w. Some False)\<rparr>"

lemma demo_chars: "(char_of :: nat \<Rightarrow> char) 67 = CHR ''C''" "(char_of :: nat \<Rightarrow> char) 58 = CHR '':''" "(char_of :: nat \<Rightarrow> char) 97 = CHR ''a''"
  "(char_of :: nat \<Rightarrow> char) 46 = CHR ''.''" "(char_of :: nat \<Rightarrow> char) 98 = CHR ''b''"
  by code_simp+

theorem resolve_exe_sound_witness:
  "resolve_exe demo_text demo_path ''a.b'' = Some ''C:a.b'' \<and>
   resolve_exe demo_text (demo_path\<lparr>search_path := \<lambda>path f e. case path of Some d \<Rightarrow> Some (d @ f) | None \<Rightarrow> None\<rparr>) ''a.b'' = Some ''C:a.b''"
proof -
  let ?f = "\<lambda>path f e. case path of Some d \<Rightarrow> Some (d @ f) | None \<Rightarrow> None"
  have r: "resolve_exe demo_text demo_path ''a.b'' = Some ''C:a.b''"
    by (simp add: resolve_exe_def to_wide_eq to_utf8_def mt_wide_to_utf8_def demo_text_def demo_path_def bare_name_def
      wide_ascii_def exe_exts_def has_extension_def is_file_def demo_chars)
  have "\<forall>wp. to_wide demo_text ''a.b'' = Some wp \<longrightarrow> bare_name wp"
    by (simp add: to_wide_eq demo_text_def bare_name_def wide_ascii_def)
  moreover have "\<forall>path. ?f (Some path) = search_path demo_path (Some path)" by (simp add: demo_path_def fun_eq_iff)
  ultimately show ?thesis
    using r resolve_exe_sound [of demo_text demo_path "''a.b''" "''C:a.b''" ?f] by simp
qed

end
