(* ===== verification/EnvBlock.thy ===== *)
theory EnvBlock
  imports Opts Bytes
begin

text \<open>
  The environment block of a launch: \<^verbatim>\<open>env_name_len\<close>, \<^verbatim>\<open>env_name_compare\<close>, \<^verbatim>\<open>build_env_block\<close> and
  \<^verbatim>\<open>launch_env\<close> of \<^verbatim>\<open>src/proc.c\<close>. The Tcl list accessor, the inherited block, \<^verbatim>\<open>CompareStringOrdinal\<close>,
  the heap and the text conversion are parameters.
\<close>

section \<open>Model\<close>

text \<open>\<open>ordinal\<close> is \<^verbatim>\<open>CompareStringOrdinal(..., TRUE)\<close>: 0 a failure, 1, 2, 3 less, equal, greater.\<close>

record env_env =
  list_elements :: "tvalue \<Rightarrow> tvalue list option"
  env_strings :: "wstr list option"
  ordinal :: "wstr \<Rightarrow> wstr \<Rightarrow> nat"
  heap_ok :: "nat \<Rightarrow> bool"
  text_of :: text_env

abbreviation CSTR_EQUAL :: nat where "CSTR_EQUAL \<equiv> 2"
abbreviation CSTR_GREATER_THAN :: nat where "CSTR_GREATER_THAN \<equiv> 3"

record env_item =
  it_text :: wstr
  it_name_len :: nat

definition it_name :: "env_item \<Rightarrow> wstr" where
  "it_name i = take (it_name_len i) (it_text i)"

definition env_name_len :: "wstr \<Rightarrow> nat" where
  "env_name_len entry =
    (let n = (if entry \<noteq> [] \<and> hd entry = 0x3D then 1 else 0)
     in n + length (takeWhile (\<lambda>u. u \<noteq> 0 \<and> u \<noteq> 0x3D) (drop n entry)))"

definition env_name_compare :: "env_env \<Rightarrow> wstr \<Rightarrow> wstr \<Rightarrow> nat" where
  "env_name_compare E a b = (if length a > INT_MAX \<or> length b > INT_MAX then 0 else ordinal E a b)"

text \<open>The comparison of a new key with the keys before it: the error, if any.\<close>

fun key_clash :: "env_env \<Rightarrow> wstr list \<Rightarrow> wstr \<Rightarrow> string option" where
  "key_clash E [] key = None"
| "key_clash E (k # ks) key =
    (let c = env_name_compare E k key in
     if c = 0 then Some ''cannot compare environment keys''
     else if c = CSTR_EQUAL then Some ''duplicate environment key''
     else key_clash E ks key)"

fun env_keys :: "env_env \<Rightarrow> tvalue list \<Rightarrow> wstr list \<Rightarrow> string + wstr list" where
  "env_keys E (kv # vv # rest) ks =
    (let key = vtext kv in
     if NUL \<in> set key \<or> key = [] \<or> CHR ''='' \<in> set key then
       Inl (''environment keys must be nonempty and contain neither NUL nor '' @ [CHR 0x27] @ ''='' @ [CHR 0x27])
     else case to_wide (text_of E) key of
       None \<Rightarrow> Inl ''bad -env entry''
     | Some w \<Rightarrow>
        (case key_clash E ks (wcs w) of
           Some e \<Rightarrow> Inl e
         | None \<Rightarrow> env_keys E rest (ks @ [wcs w])))"
| "env_keys E _ ks = Inr ks"

text \<open>Whether an inherited entry is overridden; \<open>None\<close> is a comparison failure.\<close>

fun overridden :: "env_env \<Rightarrow> wstr \<Rightarrow> wstr list \<Rightarrow> bool option" where
  "overridden E name [] = Some False"
| "overridden E name (k # ks) =
    (let c = env_name_compare E name k in
     if c = 0 then None else if c = CSTR_EQUAL then Some True else overridden E name ks)"

fun inherited_items :: "env_env \<Rightarrow> wstr list \<Rightarrow> wstr list \<Rightarrow> string + env_item list" where
  "inherited_items E ks [] = Inr []"
| "inherited_items E ks (e # es) =
    (case overridden E (take (env_name_len e) e) ks of
       None \<Rightarrow> Inl ''cannot compare environment keys''
     | Some ov \<Rightarrow>
       (case inherited_items E ks es of
          Inl m \<Rightarrow> Inl m
        | Inr is \<Rightarrow> Inr (if ov then is else \<lparr>it_text = e, it_name_len = env_name_len e\<rparr> # is)))"

fun override_items :: "env_env \<Rightarrow> nat \<Rightarrow> wstr list \<Rightarrow> tvalue list \<Rightarrow> string + env_item list" where
  "override_items E cap (k # ks) (kv # vv # rest) =
    (case obj_no_nul vv of
       None \<Rightarrow> Inl ''environment values may not contain NUL''
     | Some value \<Rightarrow>
       (case to_wide (text_of E) value of
          None \<Rightarrow> Inl ''bad -env entry''
        | Some w \<Rightarrow>
          let wv = wcs w; lk = length k; lv = length wv in
          if lk \<ge> cap \<or> lv \<ge> cap \<or> lk + lv + 2 > cap then Inl ''environment too large''
          else if \<not> heap_ok E ((lk + 1 + lv + 1) * 2) then Inl ''out of memory''
          else (case override_items E cap ks rest of
              Inl m \<Rightarrow> Inl m
            | Inr is \<Rightarrow> Inr (\<lparr>it_text = k @ [0x3D] @ wv, it_name_len = lk\<rparr> # is))))"
| "override_items E cap _ _ = Inr []"

text \<open>One step of the insertion sort; the sorted part is kept last item first, as the code scans it.\<close>

fun insert_item :: "env_env \<Rightarrow> env_item \<Rightarrow> env_item list \<Rightarrow> env_item list option" where
  "insert_item E item [] = Some [item]"
| "insert_item E item (p # ps) =
    (let c = env_name_compare E (it_name p) (it_name item) in
     if c = 0 then None
     else if c \<noteq> CSTR_GREATER_THAN then Some (item # p # ps)
     else (case insert_item E item ps of None \<Rightarrow> None | Some qs \<Rightarrow> Some (p # qs)))"

fun sort_items :: "env_env \<Rightarrow> env_item list \<Rightarrow> env_item list \<Rightarrow> env_item list option" where
  "sort_items E [] acc = Some (rev acc)"
| "sort_items E (i # is) acc =
    (case insert_item E i acc of None \<Rightarrow> None | Some acc' \<Rightarrow> sort_items E is acc')"

fun emit_items :: "nat \<Rightarrow> env_item list \<Rightarrow> wstr \<Rightarrow> wstr option" where
  "emit_items cap [] buf = Some buf"
| "emit_items cap (i # is) buf =
    (if length buf \<ge> cap \<or> length (it_text i) > cap - length buf - 1 then None
     else emit_items cap is (buf @ it_text i @ [0]))"

definition close_block :: "nat \<Rightarrow> env_item list \<Rightarrow> wstr \<Rightarrow> wstr option" where
  "close_block cap items buf =
    (let closing_nuls = (if items = [] then 2 else 1) in
     if closing_nuls > cap - length buf then None else Some (buf @ replicate closing_nuls 0))"

definition build_env_block :: "env_env \<Rightarrow> tvalue \<Rightarrow> nat \<Rightarrow> string + wstr" where
  "build_env_block E pairs cap =
    (case list_elements E pairs of
       None \<Rightarrow> Inl ''bad -env value''
     | Some pv \<Rightarrow>
       if length pv mod 2 \<noteq> 0 then Inl ''-env needs key/value pairs''
       else if length pv div 2 > INT_MAX then Inl ''environment too large''
       else let nover = length pv div 2; slots = (if nover = 0 then 1 else nover) in
       if \<not> heap_ok E (slots * 8) then Inl ''out of memory''
       else case env_keys E pv [] of
         Inl m \<Rightarrow> Inl m
       | Inr ks \<Rightarrow>
         (case env_strings E of
            None \<Rightarrow> Inl ''cannot read inherited environment''
          | Some env \<Rightarrow>
            if length env > ULLONG_MAX - nover then Inl ''environment too large''
            else let capacity = length env + nover in
            if \<not> heap_ok E ((if capacity = 0 then 1 else capacity) * 32) then Inl ''out of memory''
            else case inherited_items E ks env of
              Inl m \<Rightarrow> Inl m
            | Inr is \<Rightarrow>
              (case override_items E cap ks pv of
                 Inl m \<Rightarrow> Inl m
               | Inr os \<Rightarrow>
                 (case sort_items E (is @ os) [] of
                    None \<Rightarrow> Inl ''cannot sort environment''
                  | Some items \<Rightarrow>
                    (case emit_items cap items [] of
                       None \<Rightarrow> Inl ''environment too large''
                     | Some buf \<Rightarrow>
                       (case close_block cap items buf of
                          None \<Rightarrow> Inl ''environment too large''
                        | Some block \<Rightarrow> Inr block))))))"

definition LAUNCH_ENV_CHARS :: nat where "LAUNCH_ENV_CHARS = 32768"

definition launch_env :: "env_env \<Rightarrow> string \<Rightarrow> run_opts \<Rightarrow> run_opts res" where
  "launch_env E dm opts =
    (case o_env_obj opts of
       None \<Rightarrow> Inr opts
     | Some pairs \<Rightarrow>
       (case build_env_block E pairs LAUNCH_ENV_CHARS of
          Inl m \<Rightarrow> Inl (MtError dm ''badvalue'' m)
        | Inr block \<Rightarrow> Inr (opts\<lparr>o_env_block := Some block\<rparr>)))"

section \<open>What the block holds\<close>

text \<open>
  \<^verbatim>\<open>CompareStringOrdinal\<close> orders names by a key: the upper-cased text in ordinal order. The
  hypothesis names such a key \<open>f\<close>; a comparison may still fail.
\<close>

definition ordinal_by :: "(wstr \<Rightarrow> 'k :: linorder) \<Rightarrow> env_env \<Rightarrow> bool" where
  "ordinal_by f E \<longleftrightarrow> (\<forall>a b. ordinal E a b \<in> {0, if f a < f b then 1 else if f a = f b then CSTR_EQUAL else CSTR_GREATER_THAN})"

lemma compare_by:
  assumes "ordinal_by f E" "env_name_compare E a b \<noteq> 0"
  shows "env_name_compare E a b = (if f a < f b then 1 else if f a = f b then CSTR_EQUAL else CSTR_GREATER_THAN)"
proof -
  have "ordinal E a b \<in> {0, if f a < f b then 1 else if f a = f b then CSTR_EQUAL else CSTR_GREATER_THAN}"
    using assms(1) unfolding ordinal_by_def by blast
  moreover have "env_name_compare E a b = ordinal E a b" "ordinal E a b \<noteq> 0"
    using assms(2) by (auto simp: env_name_compare_def split: if_splits)
  ultimately show ?thesis by simp
qed

lemma compare_equal: "ordinal_by f E \<Longrightarrow> env_name_compare E a b \<noteq> 0 \<Longrightarrow> env_name_compare E a b = CSTR_EQUAL \<longleftrightarrow> f a = f b"
  using compare_by [of f E a b] by (auto split: if_splits)

lemma compare_greater: "ordinal_by f E \<Longrightarrow> env_name_compare E a b \<noteq> 0 \<Longrightarrow> env_name_compare E a b = CSTR_GREATER_THAN \<longleftrightarrow> f b < f a"
  using compare_by [of f E a b] by (auto split: if_splits)

text \<open>The sort: ordered, and equal names keep their order.\<close>

lemma insert_item_sorted:
  "ordinal_by f E \<Longrightarrow> insert_item E item acc = Some acc' \<Longrightarrow> sorted_wrt (\<lambda>a b. f (it_name b) \<le> f (it_name a)) acc \<Longrightarrow>
     set acc' = insert item (set acc) \<and> sorted_wrt (\<lambda>a b. f (it_name b) \<le> f (it_name a)) acc' \<and>
     List.filter (\<lambda>i. f (it_name i) = n) acc' = List.filter (\<lambda>i. f (it_name i) = n) [item] @ List.filter (\<lambda>i. f (it_name i) = n) acc"
proof (induction acc arbitrary: acc')
  case (Cons p ps)
  have c: "env_name_compare E (it_name p) (it_name item) \<noteq> 0" using Cons(3) by (auto simp: Let_def split: if_splits)
  show ?case
  proof (cases "f (it_name item) < f (it_name p)")
    case True
    then obtain qs where q: "insert_item E item ps = Some qs" "acc' = p # qs"
      using Cons(3) compare_greater [OF Cons(2) c] c by (auto simp: Let_def split: option.splits)
    then show ?thesis using Cons(1) [OF Cons(2) q(1)] Cons(4) True by auto
  next
    case False
    then have "acc' = item # p # ps"
      using Cons(3) compare_greater [OF Cons(2) c] c by (auto simp: Let_def)
    then show ?thesis using Cons(4) False by fastforce
  qed
qed auto

lemma sort_items_sorted:
  "ordinal_by f E \<Longrightarrow> sort_items E is acc = Some items \<Longrightarrow> sorted_wrt (\<lambda>a b. f (it_name b) \<le> f (it_name a)) acc \<Longrightarrow>
     set items = set is \<union> set acc \<and> sorted (map (\<lambda>i. f (it_name i)) items) \<and>
     List.filter (\<lambda>i. f (it_name i) = n) items =
       List.filter (\<lambda>i. f (it_name i) = n) (rev acc) @ List.filter (\<lambda>i. f (it_name i) = n) is"
proof (induction E "is" acc rule: sort_items.induct)
  case (1 E acc)
  then show ?case by (auto simp: sorted_map sorted_wrt_rev)
next
  case (2 E i "is" acc)
  obtain acc' where a: "insert_item E i acc = Some acc'" "sort_items E is acc' = Some items"
    using 2(3) by (auto split: option.splits)
  note s = insert_item_sorted [OF 2(2) a(1) 2(4)]
  have "set items = set is \<union> set acc' \<and> sorted (map (\<lambda>i. f (it_name i)) items) \<and>
     List.filter (\<lambda>i. f (it_name i) = n) items =
       List.filter (\<lambda>i. f (it_name i) = n) (rev acc') @ List.filter (\<lambda>i. f (it_name i) = n) is"
    using 2(1) [OF a(1) 2(2) a(2)] s by blast
  then show ?case using s by (auto simp flip: rev_filter)
qed

text \<open>Inherited entries: kept unless overridden.\<close>

definition inherited_item :: "wstr \<Rightarrow> env_item" where
  "inherited_item e = \<lparr>it_text = e, it_name_len = env_name_len e\<rparr>"

lemma overridden_iff:
  "ordinal_by f E \<Longrightarrow> overridden E name ks = Some b \<Longrightarrow> b \<longleftrightarrow> f name \<in> f ` set ks"
proof (induction ks arbitrary: b)
  case (Cons k ks)
  have c: "env_name_compare E name k \<noteq> 0" using Cons(3) by (auto simp: Let_def split: if_splits)
  show ?case
  proof (cases "f name = f k")
    case True
    then show ?thesis using Cons(3) c compare_equal [OF Cons(2) c] by (auto simp: Let_def)
  next
    case False
    then have "overridden E name ks = Some b" using Cons(3) c compare_equal [OF Cons(2) c] by (auto simp: Let_def)
    then show ?thesis using Cons(1) [OF Cons(2)] False by auto
  qed
qed auto

lemma inherited_items_eq:
  "ordinal_by f E \<Longrightarrow> inherited_items E ks es = Inr is \<Longrightarrow>
     is = map inherited_item (List.filter (\<lambda>e. f (it_name (inherited_item e)) \<notin> f ` set ks) es)"
proof (induction es arbitrary: "is")
  case (Cons e es)
  then show ?case
    using overridden_iff [OF Cons(2), of "take (env_name_len e) e" ks]
    by (auto simp: inherited_item_def it_name_def split: option.splits sum.splits)
qed auto

text \<open>Overrides: one item for each pair, and no two with the same name.\<close>

fun wide_pairs :: "text_env \<Rightarrow> tvalue list \<Rightarrow> (wstr \<times> wstr) list" where
  "wide_pairs T (kv # vv # rest) =
    (wcs (the (to_wide T (vtext kv))), wcs (the (to_wide T (vtext vv)))) # wide_pairs T rest"
| "wide_pairs T _ = []"

definition override_item :: "wstr \<times> wstr \<Rightarrow> env_item" where
  "override_item kv = \<lparr>it_text = fst kv @ [0x3D] @ snd kv, it_name_len = length (fst kv)\<rparr>"

lemma override_item_name [simp]: "it_name (override_item kv) = fst kv"
  by (simp add: override_item_def it_name_def)

lemma key_clash_none:
  "ordinal_by f E \<Longrightarrow> key_clash E ks key = None \<Longrightarrow> f key \<notin> f ` set ks"
proof (induction ks)
  case (Cons k ks)
  have c: "env_name_compare E k key \<noteq> 0" using Cons(3) by (auto simp: Let_def split: if_splits)
  then show ?case using Cons compare_equal [OF Cons(2) c] by (auto simp: Let_def split: if_splits)
qed auto

lemma env_keys_distinct:
  "ordinal_by f E \<Longrightarrow> env_keys E pv ks = Inr ks' \<Longrightarrow> distinct (map f ks) \<Longrightarrow>
     distinct (map f ks') \<and> ks' = ks @ map fst (wide_pairs (text_of E) pv)"
proof (induction E pv ks rule: env_keys.induct)
  case (1 E kv vv rest ks)
  obtain w where w: "to_wide (text_of E) (vtext kv) = Some w" "key_clash E ks (wcs w) = None"
    "env_keys E rest (ks @ [wcs w]) = Inr ks'"
    "\<not> (NUL \<in> set (vtext kv) \<or> vtext kv = [] \<or> CHR ''='' \<in> set (vtext kv))"
    using 1(3) by (auto simp: Let_def split: if_splits option.splits)
  have "distinct (map f (ks @ [wcs w]))" using 1(4) key_clash_none [OF 1(2) w(2)] by auto
  from 1(1) [OF refl w(4,1,2) 1(2) w(3) this]
  have d: "distinct (map f ks')" "ks' = (ks @ [wcs w]) @ map fst (wide_pairs (text_of E) rest)" by (rule conjunct1, rule conjunct2)
  show ?case using d(1) d(2) w(1) by simp
qed auto

lemma override_items_eq:
  "override_items E cap ks pv = Inr is \<Longrightarrow> ks = map fst (wide_pairs (text_of E) pv) \<Longrightarrow>
     is = map override_item (wide_pairs (text_of E) pv)"
proof (induction "text_of E" pv arbitrary: ks "is" rule: wide_pairs.induct)
  case (1 kv vv rest)
  obtain w is' where w: "to_wide (text_of E) (vtext vv) = Some w"
    "override_items E cap (map fst (wide_pairs (text_of E) rest)) rest = Inr is'"
    "is = \<lparr>it_text = hd ks @ [0x3D] @ wcs w, it_name_len = length (hd ks)\<rparr> # is'"
    using 1(2,3) by (auto simp: Let_def obj_no_nul_def split: if_splits option.splits sum.splits)
  show ?case using 1(1) [OF w(2) refl] w 1(3) by (simp add: override_item_def)
qed auto

section \<open>Reading a block back\<close>

text \<open>How the child finds its entries: strings up to a zero unit, until an empty one.\<close>

function read_block :: "wstr \<Rightarrow> wstr list" where
  "read_block b = (if wcs b = [] then [] else wcs b # read_block (drop (length (wcs b) + 1) b))"
  by pat_completeness auto
termination
  by (relation "measure length") (auto simp: wcs_def intro!: diff_less)

declare read_block.simps [simp del]

lemma wcs_append: "0 \<notin> set t \<Longrightarrow> wcs (t @ 0 # r) = t"
  by (induction t) (auto simp: wcs_def)

lemma wcs_zero_free: "0 \<notin> set (wcs w)"
  by (auto simp: wcs_def dest: set_takeWhileD)

lemma read_block_entries:
  "\<forall>t\<in>set ts. t \<noteq> [] \<and> 0 \<notin> set t \<Longrightarrow> read_block (concat (map (\<lambda>t. t @ [0]) ts) @ 0 # r) = ts"
proof (induction ts)
  case Nil
  then show ?case by (simp add: read_block.simps wcs_def)
next
  case (Cons t ts)
  then show ?case
    by (subst read_block.simps) (simp add: wcs_append)
qed

lemma emit_items_eq:
  "emit_items cap is buf = Some b \<Longrightarrow> length buf \<le> cap \<Longrightarrow>
     b = buf @ concat (map (\<lambda>t. t @ [0]) (map it_text is)) \<and> length b \<le> cap"
proof (induction "is" arbitrary: buf)
  case (Cons i "is")
  have c: "length buf < cap" "length (it_text i) \<le> cap - length buf - 1" "emit_items cap is (buf @ it_text i @ [0]) = Some b"
    using Cons(2) by (simp_all split: if_splits)
  have "length (buf @ it_text i @ [0]) \<le> cap" using c(1,2) by simp
  from Cons(1) [OF c(3) this] show ?case by auto
qed simp

lemma block_text:
  assumes "emit_items cap items [] = Some buf" "close_block cap items buf = Some block"
    "\<forall>i\<in>set items. it_text i \<noteq> [] \<and> 0 \<notin> set (it_text i)"
  shows "read_block block = map it_text items \<and> length block \<le> cap"
proof -
  have b: "buf = concat (map (\<lambda>t. t @ [0]) (map it_text items))" "length buf \<le> cap"
    using emit_items_eq [OF assms(1)] by auto
  have c: "block = buf @ 0 # (if items = [] then [0] else [])" "length block \<le> cap"
    using assms(2) b(2) by (auto simp: close_block_def Let_def numeral_2_eq_2 split: if_splits)
  have "\<forall>t\<in>set (map it_text items). t \<noteq> [] \<and> 0 \<notin> set t" using assms(3) by simp
  from read_block_entries [OF this] show ?thesis unfolding c(1) b(1) using c b by simp
qed

text \<open>The inherited block: entries are not empty and hold no zero unit.\<close>

definition env_strings_ok :: "env_env \<Rightarrow> bool" where
  "env_strings_ok E \<longleftrightarrow> (case env_strings E of None \<Rightarrow> True | Some es \<Rightarrow> \<forall>e\<in>set es. e \<noteq> [] \<and> 0 \<notin> set e)"

lemma build_env_block_steps:
  assumes "build_env_block E pairs cap = Inr block"
  obtains pv env ks "is" os items buf where
    "list_elements E pairs = Some pv" "env_strings E = Some env" "env_keys E pv [] = Inr ks" "inherited_items E ks env = Inr is"
    "override_items E cap ks pv = Inr os" "sort_items E (is @ os) [] = Some items"
    "emit_items cap items [] = Some buf" "close_block cap items buf = Some block"
proof (cases "list_elements E pairs")
  case None
  then show ?thesis using assms by (simp add: build_env_block_def)
next
  case (Some pv)
  then show ?thesis
  proof (cases "env_keys E pv []")
    case (Inl m)
    then show ?thesis using assms Some by (simp add: build_env_block_def Let_def split: if_splits)
  next
    case (Inr ks)
    then obtain env where e: "env_strings E = Some env" using assms Some by (auto simp: build_env_block_def Let_def split: if_splits option.splits)
    then show ?thesis
      using assms Some Inr that
      by (simp add: build_env_block_def Let_def split: if_splits sum.splits option.splits)
  qed
qed

lemma filter_map_eq: "List.filter (\<lambda>i. f (it_name i) = n) (map g xs) = map g (List.filter (\<lambda>x. f (it_name (g x)) = n) xs)"
  by (simp add: filter_map comp_def)

lemma filter_distinct_find:
  "distinct (map h xs) \<Longrightarrow> List.filter (\<lambda>x. h x = n) xs = (case List.find (\<lambda>x. h x = n) xs of None \<Rightarrow> [] | Some x \<Rightarrow> [x])"
proof (induction xs)
  case (Cons x xs)
  show ?case
  proof (cases "h x = n")
    case True
    then have "List.filter (\<lambda>x. h x = n) xs = []" using Cons(2) by (auto simp: filter_empty_conv image_iff)
    then show ?thesis using True by simp
  qed (use Cons in auto)
qed simp

lemma build_env_block_exact:
  assumes "build_env_block E pairs cap = Inr block" "ordinal_by f E" "env_strings_ok E"
  shows "\<exists>pv env items. list_elements E pairs = Some pv \<and> env_strings E = Some env \<and>
    read_block block = map it_text items \<and> length block \<le> cap \<and> sorted (map (\<lambda>i. f (it_name i)) items) \<and>
    (\<forall>n. List.filter (\<lambda>i. f (it_name i) = n) items =
       (case List.find (\<lambda>kv. f (fst kv) = n) (wide_pairs (text_of E) pv) of
          Some kv \<Rightarrow> [override_item kv]
        | None \<Rightarrow> map inherited_item (List.filter (\<lambda>e. f (it_name (inherited_item e)) = n) env)))"
proof -
  obtain pv env ks "is" os items buf where s:
    "list_elements E pairs = Some pv" "env_strings E = Some env" "env_keys E pv [] = Inr ks" "inherited_items E ks env = Inr is"
    "override_items E cap ks pv = Inr os" "sort_items E (is @ os) [] = Some items"
    "emit_items cap items [] = Some buf" "close_block cap items buf = Some block"
    using build_env_block_steps [OF assms(1)] .
  let ?ps = "wide_pairs (text_of E) pv"
  have k: "distinct (map f ks)" "ks = map fst ?ps" using env_keys_distinct [OF assms(2) s(3)] by auto
  have i: "is = map inherited_item (List.filter (\<lambda>e. f (it_name (inherited_item e)) \<notin> f ` set ks) env)"
    by (rule inherited_items_eq [OF assms(2) s(4)])
  have o: "os = map override_item ?ps" by (rule override_items_eq [OF s(5) k(2)])
  note sorted = sort_items_sorted [OF assms(2) s(6)]
  have "\<forall>x\<in>set items. it_text x \<noteq> [] \<and> 0 \<notin> set (it_text x)"
  proof -
    have "\<forall>kv\<in>set ?ps. 0 \<notin> set (fst kv) \<and> 0 \<notin> set (snd kv)"
      by (induction "text_of E" pv rule: wide_pairs.induct) (auto simp: wcs_zero_free)
    then show ?thesis
      using sorted assms(3) s(2) unfolding i o
      by (auto simp: inherited_item_def override_item_def env_strings_ok_def)
  qed
  from block_text [OF s(7,8) this] have b: "read_block block = map it_text items" "length block \<le> cap" by simp_all
  have d: "distinct (map (\<lambda>kv. f (fst kv)) ?ps)" using k by (simp add: comp_def)
  have "List.filter (\<lambda>i. f (it_name i) = n) items =
       (case List.find (\<lambda>kv. f (fst kv) = n) ?ps of
          Some kv \<Rightarrow> [override_item kv]
        | None \<Rightarrow> map inherited_item (List.filter (\<lambda>e. f (it_name (inherited_item e)) = n) env))" for n
  proof -
    have "List.filter (\<lambda>i. f (it_name i) = n) items = List.filter (\<lambda>i. f (it_name i) = n) is @ List.filter (\<lambda>i. f (it_name i) = n) os"
      using sorted [of n] by simp
    moreover have "List.filter (\<lambda>i. f (it_name i) = n) os = map override_item (List.filter (\<lambda>kv. f (fst kv) = n) ?ps)"
      unfolding o filter_map_eq by simp
    moreover have "List.filter (\<lambda>i. f (it_name i) = n) is =
        (if n \<in> f ` set ks then [] else map inherited_item (List.filter (\<lambda>e. f (it_name (inherited_item e)) = n) env))"
      unfolding i filter_map_eq by (auto simp: filter_empty_conv intro!: arg_cong [where f = "map inherited_item"] filter_cong)
    moreover have "n \<in> f ` set ks \<longleftrightarrow> List.find (\<lambda>kv. f (fst kv) = n) ?ps \<noteq> None"
      unfolding k(2) by (force simp: find_None_iff image_iff)
    ultimately show ?thesis by (auto simp: filter_distinct_find [OF d] split: option.split)
  qed
  moreover have "sorted (map (\<lambda>i. f (it_name i)) items)" using sorted by simp
  ultimately show ?thesis using s(1,2) b by blast
qed

section \<open>Property\<close>

text \<open>C22: the block a launch passes to the child reads back as a list of entries sorted by name as Windows requires, within
  the buffer; for every name it holds exactly the caller's override if there is one and otherwise exactly the
  inherited entries of this name, in their order.\<close>

theorem env_block_exact:
  assumes "build_env_block E pairs cap = Inr block" "ordinal_by f E" "env_strings_ok E"
  shows "\<exists>pv env items. list_elements E pairs = Some pv \<and> env_strings E = Some env \<and>
    read_block block = map it_text items \<and> length block \<le> cap \<and> sorted (map (\<lambda>i. f (it_name i)) items) \<and>
    (\<forall>n. List.filter (\<lambda>i. f (it_name i) = n) items =
       (case List.find (\<lambda>kv. f (fst kv) = n) (wide_pairs (text_of E) pv) of
          Some kv \<Rightarrow> [override_item kv]
        | None \<Rightarrow> map inherited_item (List.filter (\<lambda>e. f (it_name (inherited_item e)) = n) env)))"
  by (rule build_env_block_exact [OF assms])

text \<open>A host with two variables, \<^verbatim>\<open>B=1\<close> and \<^verbatim>\<open>a=2\<close>; names of one letter compare without case.\<close>

definition letter_key :: "wstr \<Rightarrow> nat" where
  "letter_key w = (case w of [] \<Rightarrow> 0 | u # _ \<Rightarrow> if 97 \<le> unat u then unat u - 32 else unat u)"

definition demo_host :: env_env where
  "demo_host = \<lparr>list_elements = (\<lambda>v. Some [VText ''b'', VText ''9'']),
     env_strings = Some [[66, 0x3D, 49], [97, 0x3D, 50]],
     ordinal = (\<lambda>a b. if letter_key a < letter_key b then 1 else if letter_key a = letter_key b then 2 else 3),
     heap_ok = (\<lambda>n. True), text_of = demo_text\<rparr>"

lemma demo_host_block:
  "build_env_block demo_host (VText []) 100 = Inr [97, 0x3D, 50, 0, 98, 0x3D, 57, 0, 0]"
  by (simp add: build_env_block_def demo_host_def demo_text_def to_wide_eq wide_ascii_def wcs_def env_name_compare_def
    letter_key_def env_name_len_def it_name_def close_block_def obj_no_nul_def)

lemma demo_host_ordinal: "ordinal_by letter_key demo_host"
  by (simp add: ordinal_by_def demo_host_def)

lemma demo_host_strings: "env_strings_ok demo_host"
  by (simp add: env_strings_ok_def demo_host_def)

theorem env_block_exact_witness:
  "read_block [97, 0x3D, 50, 0, 98, 0x3D, 57, 0, 0] = [[97, 0x3D, 50], [98, 0x3D, 57]] \<and>
   (\<exists>items. map it_text items = [[97, 0x3D, 50], [98, 0x3D, 57]] \<and> sorted (map (\<lambda>i. letter_key (it_name i)) items))"
proof -
  have "read_block [97, 0x3D, 50, 0, 98, 0x3D, 57, 0, 0] = [[97, 0x3D, 50], [98, 0x3D, 57]]"
    by (simp add: read_block.simps wcs_def)
  then show ?thesis
    using env_block_exact [OF demo_host_block demo_host_ordinal demo_host_strings] by metis
qed

end
