(* ===== verification/Streams.thy ===== *)
theory Streams
  imports Utf8
begin

text \<open>
  Pipes between the host and a child (\<^verbatim>\<open>src/proc.c\<close>): the capturing reader thread, the feeding
  writer thread, and the line pump of \<^verbatim>\<open>run -onout/-onerr\<close>. The answers of the pipe calls are lists
  given in advance; a list that ends while the code still loops is a thread still blocked in the call.
\<close>

section \<open>Reader thread\<close>

record reader_t =
  rd_buf :: string
  rd_cap :: nat
  rd_truncated :: bool
  rd_error :: nat

definition ERROR_BROKEN_PIPE :: nat where "ERROR_BROKEN_PIPE = 109"
definition ERROR_PIPE_NOT_CONNECTED :: nat where "ERROR_PIPE_NOT_CONNECTED = 233"
definition ERROR_NO_DATA :: nat where "ERROR_NO_DATA = 232"
definition ERROR_OPERATION_ABORTED :: nat where "ERROR_OPERATION_ABORTED = 995"
definition ERROR_WRITE_FAULT :: nat where "ERROR_WRITE_FAULT = 29"

datatype read_res = ReadFail nat | ReadGot string

text \<open>The buffering step, shared by the thread and by a pump without callback.\<close>

definition reader_store :: "string \<Rightarrow> reader_t \<Rightarrow> reader_t" where
  "reader_store tmp r =
    (if length (rd_buf r) < rd_cap r then
       let space = rd_cap r - length (rd_buf r);
           n = (if length tmp < space then length tmp else space);
           r = r\<lparr>rd_buf := rd_buf r @ take n tmp\<rparr>
       in (if n < length tmp then r\<lparr>rd_truncated := True\<rparr> else r)
     else r\<lparr>rd_truncated := True\<rparr>)"

text \<open>The reader and whether the thread has ended.\<close>

fun reader_thread :: "read_res list \<Rightarrow> reader_t \<Rightarrow> reader_t \<times> bool" where
  "reader_thread [] r = (r, False)"
| "reader_thread (ReadFail e # es) r =
    (if e \<noteq> ERROR_BROKEN_PIPE \<and> e \<noteq> ERROR_PIPE_NOT_CONNECTED then r\<lparr>rd_error := e\<rparr> else r, True)"
| "reader_thread (ReadGot tmp # es) r =
    (if tmp = [] then (r, True) else reader_thread es (reader_store tmp r))"

section \<open>Writer thread\<close>

record writer_t =
  wi_buf :: string
  wi_error :: nat
  wi_open :: bool

text \<open>
  Each turn of the loop reads the stop flag and, unless it is set, makes one write, which takes at
  most the bytes offered. The result is the writer, the bytes the pipe took, and whether the thread has ended (closing the handle).
\<close>

datatype write_res = WriteFail nat | Wrote nat

fun writer_loop :: "(bool \<times> write_res) list \<Rightarrow> nat \<Rightarrow> string \<Rightarrow> writer_t \<Rightarrow> writer_t \<times> string \<times> bool" where
  "writer_loop [] off out w = (if off < length (wi_buf w) then (w, out, False) else (w, out, True))"
| "writer_loop ((stop, r) # es) off out w =
    (if off < length (wi_buf w) then
       (if stop then (w\<lparr>wi_error := ERROR_OPERATION_ABORTED\<rparr>, out, True)
        else let left = length (wi_buf w) - off; want = (if left > 65536 then 65536 else left) in
          case r of
            WriteFail e \<Rightarrow> (w\<lparr>wi_error := e\<rparr>, out, True)
          | Wrote m \<Rightarrow>
              let n = min m want in
              if n = 0 then (w\<lparr>wi_error := ERROR_WRITE_FAULT\<rparr>, out, True)
              else writer_loop es (off + n) (out @ take n (drop off (wi_buf w))) w)
     else (w, out, True))"

definition writer_thread :: "(bool \<times> write_res) list \<Rightarrow> writer_t \<Rightarrow> writer_t \<times> string \<times> bool" where
  "writer_thread es w =
    (case writer_loop es 0 [] w of (w, out, ended) \<Rightarrow> (if ended then w\<lparr>wi_open := False\<rparr> else w, out, ended))"

section \<open>Line pump\<close>

text \<open>
  A pump with a callback splits its bytes into lines; \<open>cb lines\<close> is the outcome of evaluating the
  callback on the last of \<open>lines\<close> after the earlier ones. \<open>mok\<close> answers \<^verbatim>\<open>realloc\<close>.
\<close>

record pump_t =
  pu_cb :: bool
  pu_rd :: reader_t
  pu_line :: string
  pu_cap :: nat
  pu_eof :: bool
  pu_emitted :: "string list"

abbreviation run_error :: "string \<Rightarrow> string \<Rightarrow> mt_error" where
  "run_error code msg \<equiv> MtError ''RUN'' code msg"

definition pump_emit :: "(string list \<Rightarrow> bool) \<Rightarrow> string \<Rightarrow> pump_t \<Rightarrow> unit res \<times> pump_t" where
  "pump_emit cb line p =
    (if \<not> valid_utf8 line then
       (Inl (run_error ''badvalue'' ''callback output is not valid UTF-8; use captured bytearrays or child -channels for bytes''), p)
     else let p = p\<lparr>pu_emitted := pu_emitted p @ [line]\<rparr> in
       if cb (pu_emitted p) then (Inr (), p) else (Inl TclError, p))"

text \<open>Dropping one trailing carriage return.\<close>

definition chop_cr :: "string \<Rightarrow> string" where
  "chop_cr l = (if l \<noteq> [] \<and> last l = CR then butlast l else l)"

fun pump_feed :: "(nat \<Rightarrow> bool) \<Rightarrow> (string list \<Rightarrow> bool) \<Rightarrow> string \<Rightarrow> pump_t \<Rightarrow> unit res \<times> pump_t" where
  "pump_feed mok cb [] p = (Inr (), p)"
| "pump_feed mok cb (ch # data) p =
    (if ch = LF then
       (case pump_emit cb (chop_cr (pu_line p)) p of
          (rc, p) \<Rightarrow> let p = p\<lparr>pu_line := []\<rparr> in
            (case rc of Inl e \<Rightarrow> (Inl e, p) | Inr _ \<Rightarrow> pump_feed mok cb data p))
     else if length (pu_line p) + 1 > pu_cap p then
       (let cap = (if pu_cap p \<noteq> 0 then pu_cap p * 2 else 256) in
        if \<not> mok cap then (Inl (run_error ''oserror'' ''out of memory while buffering callback line''), p)
        else pump_feed mok cb data (p\<lparr>pu_cap := cap, pu_line := pu_line p @ [ch]\<rparr>))
     else pump_feed mok cb data (p\<lparr>pu_line := pu_line p @ [ch]\<rparr>))"

text \<open>One look at the pipe: the peek fails, nothing is there, the read fails, or bytes come (at most 8192).\<close>

datatype pipe_look = PeekFails | NothingThere | ReadFails | Bytes string

definition pump_once :: "(nat \<Rightarrow> bool) \<Rightarrow> (string list \<Rightarrow> bool) \<Rightarrow> pipe_look \<Rightarrow> pump_t \<Rightarrow> unit res \<times> bool \<times> pump_t" where
  "pump_once mok cb look p =
    (if pu_eof p then (Inr (), False, p)
     else case look of
       PeekFails \<Rightarrow> (Inr (), False, p\<lparr>pu_eof := True\<rparr>)
     | NothingThere \<Rightarrow> (Inr (), False, p)
     | ReadFails \<Rightarrow> (Inr (), False, p\<lparr>pu_eof := True\<rparr>)
     | Bytes tmp \<Rightarrow>
         if tmp = [] then (Inr (), False, p\<lparr>pu_eof := True\<rparr>)
         else if pu_cb p then (case pump_feed mok cb tmp p of (rc, p) \<Rightarrow> (rc, True, p))
         else (Inr (), True, p\<lparr>pu_rd := reader_store tmp (pu_rd p)\<rparr>))"

definition pump_flush :: "(string list \<Rightarrow> bool) \<Rightarrow> pump_t \<Rightarrow> unit res \<times> pump_t" where
  "pump_flush cb p =
    (if pu_cb p \<and> pu_line p \<noteq> [] then
       (case pump_emit cb (chop_cr (pu_line p)) p of (rc, p) \<Rightarrow> (rc, p\<lparr>pu_line := []\<rparr>))
     else (Inr (), p))"

text \<open>
  The loop of \<^verbatim>\<open>child_pump\<close>: in each turn both pumps look at their pipe, then the completion event
  is polled (\<open>Some True\<close> signalled, \<open>Some False\<close> not yet, \<open>None\<close> a failure). Running out of turns is
  \<open>None\<close>, the loop still going.
\<close>

type_synonym pump_turn = "pipe_look \<times> pipe_look \<times> bool option"

fun pump_loop :: "(nat \<Rightarrow> bool) \<Rightarrow> (string list \<Rightarrow> bool) \<Rightarrow> (string list \<Rightarrow> bool) \<Rightarrow> pump_turn list \<Rightarrow> pump_t \<Rightarrow> pump_t
    \<Rightarrow> (unit res \<times> pump_t \<times> pump_t) option" where
  "pump_loop mok co ce [] po pe = None"
| "pump_loop mok co ce ((lo, le, done) # ts) po pe =
    (case pump_once mok co lo po of
       (Inl e, _, po) \<Rightarrow> Some (Inl e, po, pe)
     | (Inr _, _, po) \<Rightarrow>
       (case pump_once mok ce le pe of
          (Inl e, _, pe) \<Rightarrow> Some (Inl e, po, pe)
        | (Inr _, _, pe) \<Rightarrow>
          (case done of
             None \<Rightarrow> Some (Inl (run_error ''oserror'' ''waiting for child completion failed''), po, pe)
           | Some d \<Rightarrow>
              if d \<and> pu_eof po \<and> pu_eof pe then Some (Inr (), po, pe)
              else pump_loop mok co ce ts po pe)))"

text \<open>After the loop: the trailing partial lines, out before err.\<close>

definition pump_finish :: "(string list \<Rightarrow> bool) \<Rightarrow> (string list \<Rightarrow> bool) \<Rightarrow> unit res \<times> pump_t \<times> pump_t \<Rightarrow> unit res \<times> pump_t \<times> pump_t" where
  "pump_finish co ce = (\<lambda>(rc, po, pe).
     case rc of
       Inl e \<Rightarrow> (Inl e, po, pe)
     | Inr _ \<Rightarrow>
       (case pump_flush co po of
          (Inl e, po) \<Rightarrow> (Inl e, po, pe)
        | (Inr _, po) \<Rightarrow> (case pump_flush ce pe of (rc, pe) \<Rightarrow> (rc, po, pe))))"

section \<open>What the reader captures\<close>

text \<open>A reader that saw the bytes \<open>d\<close>.\<close>

definition captured :: "reader_t \<Rightarrow> string \<Rightarrow> bool" where
  "captured r d \<longleftrightarrow> rd_buf r = take (rd_cap r) d \<and> (rd_truncated r \<longleftrightarrow> rd_cap r < length d)"

lemma reader_store_cap [simp]: "rd_cap (reader_store tmp r) = rd_cap r"
  by (simp add: reader_store_def Let_def)

lemma reader_store_error [simp]: "rd_error (reader_store tmp r) = rd_error r"
  by (simp add: reader_store_def Let_def)

lemma captured_store: "captured r d \<Longrightarrow> tmp \<noteq> [] \<Longrightarrow> captured (reader_store tmp r) (d @ tmp)"
proof -
  assume a: "captured r d" "tmp \<noteq> []"
  have l: "length (rd_buf r) < rd_cap r \<longleftrightarrow> length d < rd_cap r"
    using a(1) by (auto simp: captured_def)
  show ?thesis
  proof (cases "length d < rd_cap r")
    case True
    then have "rd_buf r = d" "\<not> rd_truncated r" using a(1) by (auto simp: captured_def)
    then show ?thesis using True by (auto simp: captured_def reader_store_def Let_def)
  next
    case False
    then have "\<not> length (rd_buf r) < rd_cap r" using l by simp
    then show ?thesis using False a by (cases tmp) (auto simp: captured_def reader_store_def)
  qed
qed

text \<open>The bytes a list of reads delivers before the pipe ends or fails.\<close>

fun reads_data :: "read_res list \<Rightarrow> string" where
  "reads_data [] = []"
| "reads_data (ReadFail e # es) = []"
| "reads_data (ReadGot tmp # es) = (if tmp = [] then [] else tmp @ reads_data es)"

lemma reader_thread_captured:
  "reader_thread es r = (r', ended) \<Longrightarrow> captured r d \<Longrightarrow> captured r' (d @ reads_data es) \<and> rd_cap r' = rd_cap r"
proof (induction es arbitrary: r d)
  case (Cons e es)
  show ?case
  proof (cases e)
    case (ReadFail n)
    then show ?thesis using Cons(2,3) by (auto simp: captured_def split: if_splits)
  next
    case (ReadGot tmp)
    show ?thesis
    proof (cases "tmp = []")
      case False
      then have "reader_thread es (reader_store tmp r) = (r', ended)" using Cons(2) ReadGot by simp
      from Cons(1) [OF this captured_store [OF Cons(3) False]] show ?thesis using ReadGot False by simp
    qed (use Cons ReadGot in simp)
  qed
qed auto

section \<open>What the writer delivers\<close>

lemma writer_loop_prefix:
  "writer_loop es off out w = (w', out', ended) \<Longrightarrow> out = take off (wi_buf w) \<Longrightarrow> off \<le> length (wi_buf w) \<Longrightarrow> wi_error w = 0 \<Longrightarrow>
   WriteFail 0 \<notin> snd ` set es \<Longrightarrow>
     out' = take (length out') (wi_buf w) \<and> wi_buf w' = wi_buf w \<and> wi_open w' = wi_open w \<and>
     (ended \<longrightarrow> (wi_error w' = 0 \<longleftrightarrow> out' = wi_buf w))"
proof (induction es off out w rule: writer_loop.induct)
  case (1 off out w)
  then show ?case by (auto split: if_splits)
next
  case (2 stop r es off out w)
  let ?left = "length (wi_buf w) - off"
  let ?want = "if ?left > 65536 then 65536 else ?left"
  show ?case
  proof (cases "off < length (wi_buf w)")
    case False
    then show ?thesis using 2(2-5) by auto
  next
    case lt: True
    then have "length (take off (wi_buf w)) \<noteq> length (wi_buf w)" by simp
    then have ne: "take off (wi_buf w) \<noteq> wi_buf w" by metis
    show ?thesis
    proof (cases "stop \<or> (case r of WriteFail e \<Rightarrow> True | Wrote m \<Rightarrow> min m ?want = 0)")
      case True
      then have "wi_buf w' = wi_buf w" "wi_open w' = wi_open w" "out' = out" "ended" "wi_error w' \<noteq> 0"
        using 2(2,6) lt by (auto simp: Let_def ERROR_OPERATION_ABORTED_def ERROR_WRITE_FAULT_def split: if_splits write_res.splits)
      then show ?thesis using 2(3,4) ne by auto
    next
      case False
      then obtain m where m: "r = Wrote m" "min m ?want \<noteq> 0" "\<not> stop" by (cases r) auto
      let ?n = "min m ?want"
      have rec: "writer_loop es (off + ?n) (out @ take ?n (drop off (wi_buf w))) w = (w', out', ended)"
        using 2(2) lt m by (simp add: Let_def)
      have step: "out @ take ?n (drop off (wi_buf w)) = take (off + ?n) (wi_buf w)" using 2(3) by (simp add: take_add)
      have bound: "off + ?n \<le> length (wi_buf w)" using lt by auto
      show ?thesis
        using 2(1) [OF lt m(3) refl refl m(1) refl m(2) rec step bound 2(5)] 2(6) by simp
    qed
  qed
qed

text \<open>A writer that is neither stopped nor refused ends: each write moves at least a byte.\<close>

lemma writer_loop_ends:
  "length (wi_buf w) - off \<le> length es \<Longrightarrow> \<forall>(stop, r)\<in>set es. \<not> stop \<and> (\<exists>m. r = Wrote m \<and> m \<noteq> 0) \<Longrightarrow>
     snd (snd (writer_loop es off out w)) \<and> wi_error (fst (writer_loop es off out w)) = wi_error w"
proof (induction es off out w rule: writer_loop.induct)
  case (1 off out w)
  then show ?case by auto
next
  case (2 stop r es off out w)
  obtain m where m: "r = Wrote m" "m \<noteq> 0" "\<not> stop" using 2(3) by auto
  show ?case
  proof (cases "off < length (wi_buf w)")
    case True
    let ?left = "length (wi_buf w) - off"
    let ?want = "if ?left > 65536 then 65536 else ?left"
    have n: "min m ?want \<noteq> 0" using True m(2) by auto
    have "length (wi_buf w) - (off + min m ?want) \<le> length es" using 2(2) n by auto
    from 2(1) [OF True m(3) refl refl m(1) refl n this]
    have rec: "snd (snd (writer_loop es (off + min m ?want) (out @ take (min m ?want) (drop off (wi_buf w))) w)) \<and>
        wi_error (fst (writer_loop es (off + min m ?want) (out @ take (min m ?want) (drop off (wi_buf w))) w)) = wi_error w"
      using 2(3) by simp
    have "writer_loop ((stop, r) # es) off out w =
        writer_loop es (off + min m ?want) (out @ take (min m ?want) (drop off (wi_buf w))) w"
      unfolding writer_loop.simps m(1) Let_def write_res.case using True m(3) n by (simp only: if_True if_False)
    then show ?thesis using rec by simp
  qed simp
qed

section \<open>What the pump emits\<close>

text \<open>Splitting at line feeds, one trailing carriage return of each line dropped; \<open>cur\<close> is the line under way.\<close>

fun split_lines :: "string \<Rightarrow> string \<Rightarrow> string list \<times> string" where
  "split_lines cur [] = ([], cur)"
| "split_lines cur (c # cs) =
    (if c = LF then (case split_lines [] cs of (ls, r) \<Rightarrow> (chop_cr cur # ls, r))
     else split_lines (cur @ [c]) cs)"

definition all_lines :: "string \<Rightarrow> string list" where
  "all_lines d = (case split_lines [] d of (ls, r) \<Rightarrow> ls @ (if r = [] then [] else [chop_cr r]))"

lemma split_lines_append:
  "split_lines cur (a @ b) =
    (case split_lines cur a of (ls, r) \<Rightarrow> case split_lines r b of (ls', r') \<Rightarrow> (ls @ ls', r'))"
  by (induction cur a rule: split_lines.induct) (auto split: prod.split)

lemma pump_emit_fields:
  "pump_emit cb l p = (rc, p') \<Longrightarrow> pu_cb p' = pu_cb p \<and> pu_rd p' = pu_rd p \<and> pu_eof p' = pu_eof p \<and> pu_line p' = pu_line p \<and>
     (rc = Inr () \<longrightarrow> pu_emitted p' = pu_emitted p @ [l] \<and> valid_utf8 l)"
  by (auto simp: pump_emit_def Let_def split: if_splits)

lemma pump_feed_fields: "pump_feed mok cb d p = (rc, p') \<Longrightarrow> pu_cb p' = pu_cb p \<and> pu_rd p' = pu_rd p \<and> pu_eof p' = pu_eof p"
proof (induction d arbitrary: p)
  case (Cons ch d)
  show ?case
  proof (cases "ch = LF")
    case True
    obtain rc1 p1 where e: "pump_emit cb (chop_cr (pu_line p)) p = (rc1, p1)" by fastforce
    then show ?thesis
      using Cons(2) True pump_emit_fields [OF e] Cons(1) [of "p1\<lparr>pu_line := []\<rparr>"]
      by (cases rc1) (auto simp: Let_def)
  next
    case False
    then show ?thesis
      using Cons(2) Cons(1) [of "p\<lparr>pu_cap := c, pu_line := l\<rparr>" for c l] Cons(1) [of "p\<lparr>pu_line := l\<rparr>" for l]
      by (auto simp: Let_def split: if_splits)
  qed
qed simp

text \<open>A feed that succeeds hands the callback exactly the lines completed by the bytes.\<close>

lemma pump_feed_lines:
  "pump_feed mok cb d p = (Inr (), p') \<Longrightarrow>
     (pu_emitted p', pu_line p') = (case split_lines (pu_line p) d of (ls, r) \<Rightarrow> (pu_emitted p @ ls, r))"
proof (induction d arbitrary: p)
  case (Cons ch d)
  show ?case
  proof (cases "ch = LF")
    case True
    obtain rc1 p1 where e: "pump_emit cb (chop_cr (pu_line p)) p = (rc1, p1)" by fastforce
    then have ok: "rc1 = Inr ()" "pump_feed mok cb d (p1\<lparr>pu_line := []\<rparr>) = (Inr (), p')"
      using Cons(2) True by (cases rc1; simp add: Let_def)+
    show ?thesis using Cons(1) [OF ok(2)] pump_emit_fields [OF e] ok(1) True by (auto split: prod.splits)
  next
    case False
    then have "(\<exists>c. pump_feed mok cb d (p\<lparr>pu_cap := c, pu_line := pu_line p @ [ch]\<rparr>) = (Inr (), p')) \<or>
        pump_feed mok cb d (p\<lparr>pu_line := pu_line p @ [ch]\<rparr>) = (Inr (), p')"
      using Cons(2) by (auto simp: Let_def split: if_splits)
    then show ?thesis using Cons(1) False by force
  qed
qed simp

text \<open>The bytes a sequence of looks delivers before the pipe ends.\<close>

fun piped :: "pipe_look list \<Rightarrow> string" where
  "piped [] = []"
| "piped (NothingThere # ls) = piped ls"
| "piped (Bytes tmp # ls) = (if tmp = [] then [] else tmp @ piped ls)"
| "piped (_ # ls) = []"

text \<open>A pump that saw the bytes \<open>d\<close>.\<close>

definition pumped :: "pump_t \<Rightarrow> string \<Rightarrow> bool" where
  "pumped p d \<longleftrightarrow> (if pu_cb p then (pu_emitted p, pu_line p) = split_lines [] d else captured (pu_rd p) d)"

lemma pumped_once:
  assumes "pump_once mok cb look p = (Inr (), pr, p')" "pumped p d"
  shows "\<exists>d'. pumped p' d' \<and> d' @ (if pu_eof p' then [] else piped ls) = d @ (if pu_eof p then [] else piped (look # ls)) \<and> pu_cb p' = pu_cb p"
proof (cases "pu_eof p \<or> look \<in> {PeekFails, ReadFails, Bytes []}")
  case True
  then have "p' = (if pu_eof p then p else p\<lparr>pu_eof := True\<rparr>)" using assms(1) by (auto simp: pump_once_def)
  then show ?thesis using True assms(2) by (intro exI [of _ d]) (auto simp: pumped_def)
next
  case False
  show ?thesis
  proof (cases look)
    case NothingThere
    then show ?thesis using False assms by (intro exI [of _ d]) (simp add: pump_once_def)
  next
    case (Bytes tmp)
    show ?thesis
    proof (cases "pu_cb p")
      case True
      then have f: "pump_feed mok cb tmp p = (Inr (), p')"
        using assms(1) False Bytes by (auto simp: pump_once_def split: prod.splits)
      show ?thesis
        using pump_feed_fields [OF f] pump_feed_lines [OF f] True assms(2) False Bytes
        by (intro exI [of _ "d @ tmp"]) (auto simp: pumped_def split_lines_append split: prod.splits)
    next
      case no: False
      then have "p' = p\<lparr>pu_rd := reader_store tmp (pu_rd p)\<rparr>" using assms(1) False Bytes by (auto simp: pump_once_def)
      then show ?thesis
        using no assms(2) False Bytes captured_store [of "pu_rd p" d tmp]
        by (intro exI [of _ "d @ tmp"]) (auto simp: pumped_def)
    qed
  qed (use False in auto)
qed

lemma pump_loop_pumped:
  "pump_loop mok co ce ts po pe = Some (Inr (), po', pe') \<Longrightarrow> pumped po d \<Longrightarrow> pumped pe e \<Longrightarrow>
     pumped po' (d @ (if pu_eof po then [] else piped (map fst ts))) \<and>
     pumped pe' (e @ (if pu_eof pe then [] else piped (map (fst \<circ> snd) ts))) \<and> pu_cb po' = pu_cb po \<and> pu_cb pe' = pu_cb pe"
proof (induction ts arbitrary: po pe d e)
  case (Cons t ts)
  obtain lo le dn where t: "t = (lo, le, dn)" by (cases t) auto
  obtain r1 x1 po1 where o: "pump_once mok co lo po = (r1, x1, po1)" using prod_cases3 by blast
  obtain r2 x2 pe1 where e2: "pump_once mok ce le pe = (r2, x2, pe1)" using prod_cases3 by blast
  have ok: "r1 = Inr ()" "r2 = Inr ()" using Cons(2) t o e2 by (cases r1; cases r2; auto)+
  obtain b where b: "dn = Some b" using Cons(2) t o e2 ok by (cases dn) auto
  obtain d' where d': "pumped po1 d'" "d' @ (if pu_eof po1 then [] else piped (map fst ts)) = d @ (if pu_eof po then [] else piped (lo # map fst ts))" "pu_cb po1 = pu_cb po"
    using pumped_once [OF o [unfolded ok(1)] Cons(3)] by blast
  obtain e' where e': "pumped pe1 e'" "e' @ (if pu_eof pe1 then [] else piped (map (fst \<circ> snd) ts)) = e @ (if pu_eof pe then [] else piped (le # map (fst \<circ> snd) ts))" "pu_cb pe1 = pu_cb pe"
    using pumped_once [OF e2 [unfolded ok(2)] Cons(4)] by blast
  show ?case
  proof (cases "b \<and> pu_eof po1 \<and> pu_eof pe1")
    case True
    then have "po' = po1" "pe' = pe1" using Cons(2) t o e2 ok b by auto
    then show ?thesis using True d' e' t by (cases "pu_eof po"; cases "pu_eof pe"; simp del: piped.simps)
  next
    case False
    then have "pump_loop mok co ce ts po1 pe1 = Some (Inr (), po', pe')" using Cons(2) t o e2 ok b by auto
    from Cons(1) [OF this d'(1) e'(1)] show ?thesis
      using d'(2,3) e'(2,3) t by (cases "pu_eof po"; cases "pu_eof pe"; simp del: piped.simps)
  qed
qed simp

text \<open>After the final flush a callback has been given all the lines.\<close>

lemma pump_flush_lines:
  assumes "pump_flush cb p = (Inr (), p')" "pumped p d"
  shows "if pu_cb p then pu_emitted p' = all_lines d else captured (pu_rd p') d"
proof (cases "pu_cb p \<and> pu_line p \<noteq> []")
  case True
  obtain rc p1 where e: "pump_emit cb (chop_cr (pu_line p)) p = (rc, p1)" by fastforce
  then show ?thesis
    using assms True pump_emit_fields [OF e] by (auto simp: pump_flush_def pumped_def all_lines_def split: prod.splits)
next
  case False
  then have "p' = p" using assms(1) by (auto simp: pump_flush_def)
  then show ?thesis using False assms(2) by (auto simp: pumped_def all_lines_def split: prod.splits)
qed

section \<open>Properties\<close>

definition fresh_reader :: "nat \<Rightarrow> reader_t" where
  "fresh_reader cap = \<lparr>rd_buf = [], rd_cap = cap, rd_truncated = False, rd_error = 0\<rparr>"

definition fresh_pump :: "bool \<Rightarrow> nat \<Rightarrow> pump_t" where
  "fresh_pump cb cap = \<lparr>pu_cb = cb, pu_rd = fresh_reader cap, pu_line = [], pu_cap = 0, pu_eof = False, pu_emitted = []\<rparr>"

lemma fresh_pumped: "pumped (fresh_pump cb cap) []"
  by (simp add: pumped_def fresh_pump_def fresh_reader_def captured_def)

text \<open>C25: whatever sizes the reads have, the reader thread keeps exactly the first \<^verbatim>\<open>cap\<close> bytes the pipe delivered and reports
  truncation exactly when there were more. The writer thread delivers a prefix of its bytes, ends without an error only when it
  delivered all of them, closes its handle exactly when it ends, and does end if it is not stopped and the
  pipe accepts at least a byte each time.\<close>

theorem stream_threads_exact:
  "(reader_thread rs (fresh_reader cap) = (r, ended) \<longrightarrow>
      rd_buf r = take cap (reads_data rs) \<and> (rd_truncated r \<longleftrightarrow> cap < length (reads_data rs))) \<and>
   (writer_thread ws \<lparr>wi_buf = b, wi_error = 0, wi_open = True\<rparr> = (w, out, wended) \<and> WriteFail 0 \<notin> snd ` set ws \<longrightarrow>
      out = take (length out) b \<and> (wended \<longrightarrow> (wi_error w = 0 \<longleftrightarrow> out = b)) \<and> (wi_open w \<longleftrightarrow> \<not> wended) \<and>
      (length b \<le> length ws \<and> (\<forall>(stop, x)\<in>set ws. \<not> stop \<and> (\<exists>m. x = Wrote m \<and> m \<noteq> 0)) \<longrightarrow> wended \<and> out = b))"
proof (rule conjI; rule impI)
  assume "reader_thread rs (fresh_reader cap) = (r, ended)"
  then have "captured r ([] @ reads_data rs) \<and> rd_cap r = rd_cap (fresh_reader cap)"
    by (rule reader_thread_captured) (simp add: captured_def fresh_reader_def)
  then show "rd_buf r = take cap (reads_data rs) \<and> (rd_truncated r \<longleftrightarrow> cap < length (reads_data rs))"
    by (simp add: captured_def fresh_reader_def)
next
  let ?w = "\<lparr>wi_buf = b, wi_error = 0, wi_open = True\<rparr>"
  assume a: "writer_thread ws ?w = (w, out, wended) \<and> WriteFail 0 \<notin> snd ` set ws"
  obtain w1 where l: "writer_loop ws 0 [] ?w = (w1, out, wended)" "w = (if wended then w1\<lparr>wi_open := False\<rparr> else w1)"
    using a by (auto simp: writer_thread_def split: prod.splits)
  have p: "out = take (length out) b \<and> wi_open w1 \<and> (wended \<longrightarrow> (wi_error w1 = 0 \<longleftrightarrow> out = b))"
    using writer_loop_prefix [OF l(1)] a by simp
  have "wended \<and> wi_error w1 = 0" if "length b \<le> length ws" "\<forall>(stop, x)\<in>set ws. \<not> stop \<and> (\<exists>m. x = Wrote m \<and> m \<noteq> 0)"
    using writer_loop_ends [of ?w 0 ws "[]"] that l(1) by simp
  then show "out = take (length out) b \<and> (wended \<longrightarrow> (wi_error w = 0 \<longleftrightarrow> out = b)) \<and> (wi_open w \<longleftrightarrow> \<not> wended) \<and>
      (length b \<le> length ws \<and> (\<forall>(stop, x)\<in>set ws. \<not> stop \<and> (\<exists>m. x = Wrote m \<and> m \<noteq> 0)) \<longrightarrow> wended \<and> out = b)"
    using p l(2) by auto
qed

theorem stream_threads_exact_witness:
  "rd_buf (fst (reader_thread [ReadGot ''abc'', ReadGot ''de'', ReadFail 109] (fresh_reader 4))) = ''abcd'' \<and>
   fst (snd (writer_thread [(False, Wrote 2), (False, Wrote 5)] \<lparr>wi_buf = ''xy'', wi_error = 0, wi_open = True\<rparr>)) = ''xy''"
proof -
  obtain r e where r: "reader_thread [ReadGot ''abc'', ReadGot ''de'', ReadFail 109] (fresh_reader 4) = (r, e)" by fastforce
  obtain w out we where w: "writer_thread [(False, Wrote 2), (False, Wrote 5)] \<lparr>wi_buf = ''xy'', wi_error = 0, wi_open = True\<rparr> = (w, out, we)"
    using prod_cases3 by blast
  show ?thesis
    using stream_threads_exact [of "[ReadGot ''abc'', ReadGot ''de'', ReadFail 109]" 4 r e "[(False, Wrote 2), (False, Wrote 5)]" "''xy''" w out we]
    unfolding r w by simp
qed

text \<open>C28: when the pump of \<^verbatim>\<open>run -onout/-onerr\<close> finishes without an error, each callback was evaluated exactly once
  for every line of its stream, in order and without its line end, however the pipe cut the bytes into pieces and however the two
  streams interleaved; a stream without callback is captured as the reader thread would have.\<close>

theorem pump_lines_exact:
  assumes "pump_loop mok co ce ts (fresh_pump c1 n1) (fresh_pump c2 n2) = Some (Inr (), po, pe)"
    and "pump_finish co ce (Inr (), po, pe) = (Inr (), po', pe')"
  shows "(if c1 then pu_emitted po' = all_lines (piped (map fst ts)) else captured (pu_rd po') (piped (map fst ts))) \<and>
    (if c2 then pu_emitted pe' = all_lines (piped (map (fst \<circ> snd) ts)) else captured (pu_rd pe') (piped (map (fst \<circ> snd) ts)))"
proof -
  have p: "pumped po (piped (map fst ts))" "pumped pe (piped (map (fst \<circ> snd) ts))" "pu_cb po = c1" "pu_cb pe = c2"
    using pump_loop_pumped [OF assms(1) fresh_pumped fresh_pumped] by (auto simp: fresh_pump_def)
  obtain x y where f: "pump_flush co po = (x, po')" "pump_flush ce pe = (y, pe')" "x = Inr ()" "y = Inr ()"
    using assms(2) by (auto simp: pump_finish_def split: prod.splits sum.splits)
  show ?thesis
    using pump_flush_lines [OF _ p(1), of co po'] pump_flush_lines [OF _ p(2), of ce pe'] f p(3,4) by simp
qed

lemma demo_valid: "valid_utf8 ''a''" "valid_utf8 ''b''"
  by (simp_all add: valid_utf8.simps byte_word_def)

theorem pump_lines_exact_witness:
  "\<exists>po po'. pump_loop (\<lambda>n. True) (\<lambda>l. True) (\<lambda>l. True)
       [(Bytes [CHR ''a'', CR, LF, CHR ''b''], PeekFails, Some True), (PeekFails, PeekFails, Some True)] (fresh_pump True 9) (fresh_pump False 9) = Some (Inr (), po) \<and>
     pump_finish (\<lambda>l. True) (\<lambda>l. True) (Inr (), po) = (Inr (), po') \<and> pu_emitted (fst po') = [''a'', ''b'']"
proof -
  let ?ts = "[(Bytes [CHR ''a'', CR, LF, CHR ''b''], PeekFails, Some True), (PeekFails, PeekFails, Some True)]"
  obtain po pe where l: "pump_loop (\<lambda>n. True) (\<lambda>l. True) (\<lambda>l. True) ?ts (fresh_pump True 9) (fresh_pump False 9) = Some (Inr (), po, pe)"
    and e: "pump_finish (\<lambda>l. True) (\<lambda>l. True) (Inr (), po, pe) = (Inr (), snd (pump_finish (\<lambda>l. True) (\<lambda>l. True) (Inr (), po, pe)))"
    by (simp add: fresh_pump_def pump_once_def pump_emit_def chop_cr_def demo_valid pump_finish_def pump_flush_def Let_def)
  show ?thesis
    using pump_lines_exact [OF l, of "fst (snd (pump_finish (\<lambda>l. True) (\<lambda>l. True) (Inr (), po, pe)))"] l e
    by (auto simp: all_lines_def chop_cr_def prod_eq_iff)
qed

end
