(* ===== verification/Kernel.thy ===== *)
theory Kernel
  imports Prelude
begin

text \<open>
  The part of the operating system that handle discipline is about: handles are numbers given out in
  order, the open ones are listed, and closing a handle that is not open sets a fault, as Windows stops a
  process under a debugger for it. Processes are recorded as events.
\<close>

type_synonym khandle = nat

text \<open>How a process was created: application, command line, directory, jobs, inherited handles, standard handles, pseudoconsole, suspended.\<close>

record process =
  p_app :: "16 word list"
  p_cmd :: "16 word list"
  p_dir :: "16 word list option"
  p_env :: "16 word list option"
  p_jobs :: "khandle list"
  p_inherit :: "khandle list"
  p_std :: "khandle list"
  p_console :: "khandle option"
  p_breakaway :: bool

datatype pevent = Created khandle process | Resumed khandle | KilledProc khandle

record world =
  w_next :: khandle
  w_open :: "khandle list"
  w_fault :: bool
  w_events :: "pevent list"

definition open_handle :: "world \<Rightarrow> khandle \<times> world" where
  "open_handle w = (w_next w, w\<lparr>w_next := w_next w + 1, w_open := w_next w # w_open w\<rparr>)"

definition CloseHandle :: "khandle \<Rightarrow> world \<Rightarrow> world" where
  "CloseHandle h w = (if h \<in> set (w_open w) then w\<lparr>w_open := remove1 h (w_open w)\<rparr> else w\<lparr>w_fault := True\<rparr>)"

definition happen :: "pevent \<Rightarrow> world \<Rightarrow> world" where
  "happen e w = w\<lparr>w_events := w_events w @ [e]\<rparr>"

definition wf_world :: "world \<Rightarrow> bool" where
  "wf_world w \<longleftrightarrow> distinct (w_open w) \<and> (\<forall>h\<in>set (w_open w). h < w_next w) \<and> \<not> w_fault w"

text \<open>Closing a list of handles one after the other.\<close>

definition close_all :: "khandle list \<Rightarrow> world \<Rightarrow> world" where
  "close_all hs w = fold CloseHandle hs w"

section \<open>Lemmas\<close>

lemma wf_open: "wf_world w \<Longrightarrow> open_handle w = (h, w') \<Longrightarrow> wf_world w' \<and> h \<notin> set (w_open w) \<and> set (w_open w') = insert h (set (w_open w))"
  by (auto simp: open_handle_def wf_world_def less_SucI)

lemma wf_close: "wf_world w \<Longrightarrow> h \<in> set (w_open w) \<Longrightarrow> wf_world (CloseHandle h w) \<and> set (w_open (CloseHandle h w)) = set (w_open w) - {h}"
  by (auto simp: CloseHandle_def wf_world_def)

lemma wf_happen [simp]: "wf_world (happen e w) \<longleftrightarrow> wf_world w" "w_open (happen e w) = w_open w" "w_fault (happen e w) = w_fault w"
  "w_events (happen e w) = w_events w @ [e]" "w_next (happen e w) = w_next w"
  by (simp_all add: happen_def wf_world_def)

lemma close_events [simp]: "w_events (CloseHandle h w) = w_events w" "w_next (CloseHandle h w) = w_next w"
  by (simp_all add: CloseHandle_def)

lemma open_events: "open_handle w = (h, w') \<Longrightarrow> w_events w' = w_events w \<and> w_next w' = w_next w + 1 \<and> h = w_next w"
  by (auto simp: open_handle_def)

lemma close_all_simps [simp]: "close_all [] w = w" "close_all (h # hs) w = close_all hs (CloseHandle h w)"
  by (simp_all add: close_all_def)

lemma close_all_events [simp]: "w_events (close_all hs w) = w_events w" "w_next (close_all hs w) = w_next w"
  by (induction hs arbitrary: w) simp_all

lemma wf_close_all:
  "wf_world w \<Longrightarrow> distinct hs \<Longrightarrow> set hs \<subseteq> set (w_open w) \<Longrightarrow>
     wf_world (close_all hs w) \<and> set (w_open (close_all hs w)) = set (w_open w) - set hs"
proof (induction hs arbitrary: w)
  case (Cons h hs)
  have c: "wf_world (CloseHandle h w)" "set (w_open (CloseHandle h w)) = set (w_open w) - {h}"
    using wf_close [OF Cons(2)] Cons(4) by auto
  have "set hs \<subseteq> set (w_open (CloseHandle h w))" using Cons(3,4) c(2) by auto
  then show ?case using Cons(1) [OF c(1)] Cons(3) c(2) by auto
qed simp

end
