(* ===== verification/Monitor.thy ===== *)
theory Monitor
  imports Job Streams
begin

text \<open>
  The supervised child and its monitor thread (\<^verbatim>\<open>src/proc.c\<close>: \<^verbatim>\<open>child_t\<close>, \<^verbatim>\<open>handle_signaled\<close>,
  \<^verbatim>\<open>child_monitor_thread\<close>). The monitor decides when a child is complete: the direct process has
  exited, its streams are drained and no process is left in its job; it also enforces the deadline.
  What each turn of its loop observes is a parameter.
\<close>

section \<open>The child\<close>

text \<open>The variables that hold OS handles: those of the child, then the locals of \<^verbatim>\<open>child_launch\<close>.\<close>

datatype slot =
    SProc | SOutR | SErrR | STOut | STErr | STIn | SWrite | SDoneEv | SMonitor | SInW
  | LOutW | LErrW | LNul | LStdinR | LStdinW

text \<open>
  What the threads keep in their own stack frames between two looks at them: the monitor's two flags,
  the writer's offset with the bytes delivered so far, and which threads have ended.
\<close>

record thread_locals =
  t_direct :: bool
  t_failed :: bool
  t_off :: nat
  t_out :: string
  t_ended :: "slot \<Rightarrow> bool"

record child_t =
  c_token :: string
  c_job :: "wj_job option"
  c_pid :: int
  c_slots :: "slot \<Rightarrow> handle option"
  c_ro :: reader_t
  c_re :: reader_t
  c_wi :: writer_t
  c_done :: bool
  c_stream :: bool
  c_monitor_failed :: bool
  c_channels :: bool
  c_inherit :: bool
  c_chIn :: string
  c_chOut :: string
  c_chErr :: string
  c_deadline :: nat
  c_reaped :: bool
  c_killed :: bool
  c_timeout :: bool
  c_exit_code :: dword
  c_thr :: thread_locals

text \<open>\<open>c_done\<close> is the state of the completion event \<^verbatim>\<open>doneEv\<close>.\<close>

text \<open>\<^verbatim>\<open>if (wj_job_terminate(job, code) != 0) wj_job_close(job)\<close>: the tree dies either way, by kill-on-close if not at once.\<close>

definition kill_tree :: "job_os \<Rightarrow> dword \<Rightarrow> wj_job option \<Rightarrow> bool \<times> wj_job option \<times> jcall list" where
  "kill_tree os code jp =
    (case on_job False (\<lambda>j. wj_job_terminate os j code) jp of
       (ok, jp, cs) \<Rightarrow>
         if ok then (True, jp, cs)
         else (case on_job () (\<lambda>j. ((), wj_job_close j)) jp of (_, jp, cs') \<Rightarrow> (False, jp, cs @ cs')))"

section \<open>The monitor thread\<close>

datatype wait_res = WaitObject | WaitTimeout | WaitFailed

record mon_turn =
  tn_wait :: wait_res
  tn_code :: "dword option"
  tn_os :: job_os
  tn_in :: bool
  tn_out :: bool
  tn_err :: bool
  tn_now :: nat

record mon =
  m_child :: child_t
  m_direct :: bool
  m_failed :: bool
  m_calls :: "jcall list"

definition handle_signaled :: "handle option \<Rightarrow> bool \<Rightarrow> bool" where
  "handle_signaled h signaled \<longleftrightarrow> h = None \<or> signaled"

text \<open>Killing the tree from the monitor.\<close>

definition mon_kill :: "job_os \<Rightarrow> mon \<Rightarrow> bool \<times> mon" where
  "mon_kill os m =
    (case kill_tree os 1 (c_job (m_child m)) of
       (ok, jp, cs) \<Rightarrow> (ok, m\<lparr>m_child := (m_child m)\<lparr>c_job := jp\<rparr>, m_calls := m_calls m @ cs\<rparr>))"

text \<open>First part of a turn: the direct process.\<close>

definition mon_direct :: "mon_turn \<Rightarrow> mon \<Rightarrow> mon" where
  "mon_direct t m =
    (if m_direct m then m
     else case tn_wait t of
       WaitObject \<Rightarrow>
         (case tn_code t of
            Some code \<Rightarrow> m\<lparr>m_child := (m_child m)\<lparr>c_exit_code := code\<rparr>, m_direct := True\<rparr>
          | None \<Rightarrow> m\<lparr>m_child := (m_child m)\<lparr>c_monitor_failed := True\<rparr>, m_failed := True\<rparr>)
     | WaitFailed \<Rightarrow>
         snd (mon_kill (tn_os t)
           (m\<lparr>m_child := (m_child m)\<lparr>c_monitor_failed := True, c_killed := True\<rparr>, m_failed := True, m_direct := True\<rparr>))
     | WaitTimeout \<Rightarrow> m)"

text \<open>Second part: the processes left in the job; 0 where the query is not made or fails.\<close>

definition mon_active :: "mon_turn \<Rightarrow> mon \<Rightarrow> dword \<times> mon" where
  "mon_active t m =
    (if m_failed m then (0, m)
     else case on_job (Inl ''job is closed'') (wj_job_active (tn_os t)) (c_job (m_child m)) of
       (r, jp, cs) \<Rightarrow>
         let m = m\<lparr>m_calls := m_calls m @ cs\<rparr> in
         (case r of
            Inr active \<Rightarrow> (active, m)
          | Inl e \<Rightarrow>
              (0, snd (mon_kill (tn_os t)
                 (m\<lparr>m_child := (m_child m)\<lparr>c_monitor_failed := True, c_killed := True\<rparr>, m_failed := True\<rparr>)))))"

definition mon_io_done :: "mon_turn \<Rightarrow> child_t \<Rightarrow> bool" where
  "mon_io_done t c \<longleftrightarrow>
     handle_signaled (c_slots c STIn) (tn_in t) \<and>
     (\<not> c_stream c \<and> \<not> c_channels c \<and> \<not> c_inherit c \<longrightarrow>
        handle_signaled (c_slots c STOut) (tn_out t) \<and> handle_signaled (c_slots c STErr) (tn_err t))"

text \<open>Last part: the deadline.\<close>

definition mon_deadline :: "mon_turn \<Rightarrow> mon \<Rightarrow> mon" where
  "mon_deadline t m =
    (let c = m_child m in
     if c_deadline c \<noteq> 0 \<and> tn_now t \<ge> c_deadline c then
       (case mon_kill (tn_os t) (m\<lparr>m_child := c\<lparr>c_timeout := True, c_killed := True\<rparr>\<rparr>) of
          (ok, m) \<Rightarrow>
            let m = (if ok then m else m\<lparr>m_child := (m_child m)\<lparr>c_monitor_failed := True\<rparr>, m_failed := True\<rparr>)
            in m\<lparr>m_child := (m_child m)\<lparr>c_deadline := 0\<rparr>\<rparr>)
     else m)"

text \<open>A turn; the flag says that the loop ends in it.\<close>

definition monitor_turn :: "mon_turn \<Rightarrow> mon \<Rightarrow> bool \<times> mon" where
  "monitor_turn t m =
    (let m = mon_direct t m in
     case mon_active t m of
       (active, m) \<Rightarrow>
         if m_direct m \<and> mon_io_done t (m_child m) \<and> (m_failed m \<or> active = 0) then (True, m)
         else (False, mon_deadline t m))"

text \<open>The thread signals the completion event when its loop ends; without turns left it is still looping.\<close>

fun child_monitor_thread :: "mon_turn list \<Rightarrow> mon \<Rightarrow> mon" where
  "child_monitor_thread [] m = m"
| "child_monitor_thread (t # ts) m =
    (case monitor_turn t m of
       (True, m) \<Rightarrow> m\<lparr>m_child := (m_child m)\<lparr>c_done := True\<rparr>\<rparr>
     | (False, m) \<Rightarrow> child_monitor_thread ts m)"

section \<open>Lemmas\<close>

text \<open>Calls on the child's job that the job monitor accepts, from one state of the job to another.\<close>

definition job_run :: "wj_job option \<Rightarrow> jcall list \<Rightarrow> wj_job option \<Rightarrow> bool" where
  "job_run jp cs jp' \<longleftrightarrow>
     (case (jp, jp') of
        (Some j, Some j') \<Rightarrow> jb_handle j' = jb_handle j \<and> jb_kill_on_close j' = jb_kill_on_close j \<and>
          monitors (jb_handle j) (False, \<not> jb_closed j) cs = Some (False, \<not> jb_closed j')
      | (None, None) \<Rightarrow> cs = []
      | _ \<Rightarrow> False)"

lemma job_run_refl: "job_run jp [] jp"
  by (simp add: job_run_def split: option.split)

lemma job_run_trans: "job_run a cs b \<Longrightarrow> job_run b ds c \<Longrightarrow> job_run a (cs @ ds) c"
  by (auto simp: job_run_def monitors_append split: option.splits)

lemma job_run_terminate: "on_job False (\<lambda>j. wj_job_terminate os j code) jp = (ok, jp', cs) \<Longrightarrow> job_run jp cs jp'"
  by (auto simp: on_job_def wj_job_terminate_def job_run_def Let_def split: option.splits if_splits)

lemma job_run_close: "on_job () (\<lambda>j. ((), wj_job_close j)) jp = (u, jp', cs) \<Longrightarrow> job_run jp cs jp'"
  by (auto simp: on_job_def wj_job_close_def job_run_def split: option.splits if_splits)

lemma job_run_active: "on_job (Inl e) (wj_job_active os) jp = (r, jp', cs) \<Longrightarrow> job_run jp cs jp' \<and> jp' = jp"
  by (auto simp: on_job_def wj_job_active_def job_run_def split: option.splits if_splits)

text \<open>A tree is dead once its job was terminated with success or its handle, which kills on close, is closed.\<close>

definition tree_killed :: "jcall list \<Rightarrow> wj_job option \<Rightarrow> bool" where
  "tree_killed cs jp \<longleftrightarrow>
     (case jp of None \<Rightarrow> True | Some j \<Rightarrow> jb_closed j \<or> (\<exists>code. Terminate (jb_handle j) code True \<in> set cs))"

lemma kill_tree_run: "kill_tree os code jp = (ok, jp', cs) \<Longrightarrow> job_run jp cs jp' \<and> tree_killed cs jp'"
proof -
  assume k: "kill_tree os code jp = (ok, jp', cs)"
  obtain ok1 jp1 cs1 where t: "on_job False (\<lambda>j. wj_job_terminate os j code) jp = (ok1, jp1, cs1)" using prod_cases3 by blast
  obtain u jp2 cs2 where c: "on_job () (\<lambda>j. ((), wj_job_close j)) jp1 = (u, jp2, cs2)" using prod_cases3 by blast
  note r = job_run_terminate [OF t] job_run_close [OF c]
  show ?thesis
  proof (cases ok1)
    case True
    then have "jp' = jp1" "cs = cs1" using k t by (simp_all add: kill_tree_def)
    then show ?thesis
      using r(1) t True
      by (auto simp: tree_killed_def on_job_def wj_job_terminate_def Let_def split: option.splits if_splits)
  next
    case False
    then have "jp' = jp2" "cs = cs1 @ cs2" using k t c by (simp_all add: kill_tree_def)
    then show ?thesis
      using job_run_trans [OF r] c
      by (auto simp: tree_killed_def on_job_def wj_job_close_def split: option.splits if_splits)
  qed
qed

lemma monitors_closed: "monitors h (held, False) es = Some (b, x) \<Longrightarrow> \<not> x"
proof (induction es arbitrary: held)
  case (Cons e es)
  then show ?case by (cases e; cases held) (auto split: if_splits)
qed simp

lemma tree_killed_more: "tree_killed cs jp \<Longrightarrow> job_run jp ds jp' \<Longrightarrow> tree_killed (cs @ ds) jp'"
  using monitors_closed
  by (fastforce simp: tree_killed_def job_run_def split: option.splits)

lemma tree_killed_later: "tree_killed ds jp \<Longrightarrow> tree_killed (cs @ ds) jp"
  by (auto simp: tree_killed_def split: option.splits)

lemma mon_kill_eq:
  assumes "mon_kill os m = (ok, m')"
  obtains jp cs where "m' = m\<lparr>m_child := (m_child m)\<lparr>c_job := jp\<rparr>, m_calls := m_calls m @ cs\<rparr>"
    "job_run (c_job (m_child m)) cs jp" "tree_killed cs jp"
proof -
  obtain ok1 jp cs where k: "kill_tree os 1 (c_job (m_child m)) = (ok1, jp, cs)" using prod_cases3 by blast
  then have "m' = m\<lparr>m_child := (m_child m)\<lparr>c_job := jp\<rparr>, m_calls := m_calls m @ cs\<rparr>" using assms by (simp add: mon_kill_def)
  then show thesis using that kill_tree_run [OF k] by blast
qed

text \<open>
  The invariant of the loop: the calls so far are a run of the job, a killed child's tree is dead,
  and a failed query is reported. \<open>j0\<close> is the job before the calls.
\<close>

definition mon_inv :: "wj_job option \<Rightarrow> mon \<Rightarrow> bool" where
  "mon_inv j0 m \<longleftrightarrow>
     job_run j0 (m_calls m) (c_job (m_child m)) \<and>
     (c_killed (m_child m) \<longrightarrow> tree_killed (m_calls m) (c_job (m_child m))) \<and>
     (m_failed m \<longrightarrow> c_monitor_failed (m_child m)) \<and> (c_timeout (m_child m) \<longrightarrow> c_killed (m_child m))"

lemma mon_inv_kill:
  assumes "mon_kill os m1 = (ok, m')" "job_run j0 (m_calls m1) (c_job (m_child m1))"
    "m_failed m1 \<longrightarrow> c_monitor_failed (m_child m1)" "c_timeout (m_child m1) \<longrightarrow> c_killed (m_child m1)"
  shows "mon_inv j0 m'"
proof -
  obtain jp cs where m': "m' = m1\<lparr>m_child := (m_child m1)\<lparr>c_job := jp\<rparr>, m_calls := m_calls m1 @ cs\<rparr>"
    "job_run (c_job (m_child m1)) cs jp" "tree_killed cs jp" using mon_kill_eq [OF assms(1)] .
  show ?thesis
    using job_run_trans [OF assms(2) m'(2)] tree_killed_later [OF m'(3)] assms(3,4) unfolding mon_inv_def m'(1) by simp
qed

lemma mon_direct_inv: "mon_inv j0 m \<Longrightarrow> mon_inv j0 (mon_direct t m)"
proof -
  assume i: "mon_inv j0 m"
  show ?thesis
  proof (cases "m_direct m \<or> tn_wait t \<noteq> WaitFailed")
    case True
    then show ?thesis using i by (auto simp: mon_direct_def mon_inv_def split: wait_res.split option.split)
  next
    case False
    obtain ok m' where k: "mon_kill (tn_os t) (m\<lparr>m_child := (m_child m)\<lparr>c_monitor_failed := True, c_killed := True\<rparr>, m_failed := True, m_direct := True\<rparr>) = (ok, m')"
      by fastforce
    have "mon_inv j0 m'" using i by (intro mon_inv_kill [OF k]) (auto simp: mon_inv_def)
    then show ?thesis using False k by (simp add: mon_direct_def)
  qed
qed

lemma mon_active_inv: "mon_active t m = (n, m') \<Longrightarrow> mon_inv j0 m \<Longrightarrow> mon_inv j0 m'"
proof -
  assume a: "mon_active t m = (n, m')" and i: "mon_inv j0 m"
  obtain r jp cs where q: "on_job (Inl ''job is closed'') (wj_job_active (tn_os t)) (c_job (m_child m)) = (r, jp, cs)"
    using prod_cases3 by blast
  have run: "job_run (c_job (m_child m)) cs (c_job (m_child m))" using job_run_active [OF q] by auto
  have i1: "mon_inv j0 (m\<lparr>m_calls := m_calls m @ cs\<rparr>)"
    using i run by (auto simp: mon_inv_def intro: job_run_trans tree_killed_more)
  obtain ok m1 where k: "mon_kill (tn_os t) (m\<lparr>m_calls := m_calls m @ cs, m_child := (m_child m)\<lparr>c_monitor_failed := True, c_killed := True\<rparr>, m_failed := True\<rparr>) = (ok, m1)"
    by fastforce
  have "mon_inv j0 m1" using i1 by (intro mon_inv_kill [OF k]) (auto simp: mon_inv_def)
  then show ?thesis
    using a q k i i1 by (auto simp: mon_active_def Let_def split: if_splits sum.splits)
qed

lemma mon_deadline_inv: "mon_inv j0 m \<Longrightarrow> mon_inv j0 (mon_deadline t m)"
proof -
  assume i: "mon_inv j0 m"
  obtain ok m1 where k: "mon_kill (tn_os t) (m\<lparr>m_child := (m_child m)\<lparr>c_timeout := True, c_killed := True\<rparr>\<rparr>) = (ok, m1)"
    by fastforce
  have "mon_inv j0 m1" using i by (intro mon_inv_kill [OF k]) (auto simp: mon_inv_def)
  then show ?thesis using i k by (auto simp: mon_deadline_def mon_inv_def Let_def)
qed

lemma monitor_turn_inv: "monitor_turn t m = (b, m') \<Longrightarrow> mon_inv j0 m \<Longrightarrow> mon_inv j0 m'"
proof -
  assume a: "monitor_turn t m = (b, m')" and i: "mon_inv j0 m"
  obtain n m1 where m1: "mon_active t (mon_direct t m) = (n, m1)" by fastforce
  have "mon_inv j0 m1" by (rule mon_active_inv [OF m1 mon_direct_inv [OF i]])
  then show ?thesis using a m1 mon_deadline_inv [of j0 m1 t] by (auto simp: monitor_turn_def split: if_splits)
qed

lemma child_monitor_inv: "mon_inv j0 m \<Longrightarrow> mon_inv j0 (child_monitor_thread ts m)"
proof (induction ts arbitrary: m)
  case (Cons t ts)
  obtain b m1 where t: "monitor_turn t m = (b, m1)" by fastforce
  have "mon_inv j0 m1" by (rule monitor_turn_inv [OF t Cons(2)])
  then show ?case using t Cons(1) by (cases b) (auto simp: mon_inv_def)
qed simp

section \<open>Completion and deadline\<close>

lemma mon_kill_child:
  "mon_kill os m = (ok, m') \<Longrightarrow> c_monitor_failed (m_child m') = c_monitor_failed (m_child m) \<and> c_timeout (m_child m') = c_timeout (m_child m) \<and>
     c_killed (m_child m') = c_killed (m_child m) \<and> c_exit_code (m_child m') = c_exit_code (m_child m) \<and>
     c_deadline (m_child m') = c_deadline (m_child m) \<and> c_done (m_child m') = c_done (m_child m) \<and>
     c_slots (m_child m') = c_slots (m_child m) \<and> c_stream (m_child m') = c_stream (m_child m) \<and>
     c_channels (m_child m') = c_channels (m_child m) \<and> c_inherit (m_child m') = c_inherit (m_child m) \<and>
     m_direct m' = m_direct m \<and> m_failed m' = m_failed m"
  by (erule mon_kill_eq) simp

text \<open>The turn, field by field, in terms of what it observes.\<close>

lemma mon_direct_step:
  "c_timeout (m_child (mon_direct t m)) = c_timeout (m_child m) \<and> c_deadline (m_child (mon_direct t m)) = c_deadline (m_child m) \<and>
   c_done (m_child (mon_direct t m)) = c_done (m_child m) \<and>
   (c_monitor_failed (m_child m) \<longrightarrow> c_monitor_failed (m_child (mon_direct t m))) \<and>
   (\<not> c_monitor_failed (m_child (mon_direct t m)) \<longrightarrow> m_failed (mon_direct t m) = m_failed m \<and>
      (if m_direct m then m_direct (mon_direct t m) \<and> c_exit_code (m_child (mon_direct t m)) = c_exit_code (m_child m)
       else m_direct (mon_direct t m) \<longrightarrow> tn_wait t = WaitObject \<and> tn_code t = Some (c_exit_code (m_child (mon_direct t m)))))"
proof (cases "mon_kill (tn_os t) (m\<lparr>m_child := (m_child m)\<lparr>c_monitor_failed := True, c_killed := True\<rparr>, m_failed := True, m_direct := True\<rparr>)")
  case (Pair ok m1)
  then show ?thesis using mon_kill_child [OF Pair] by (auto simp: mon_direct_def split: wait_res.split option.split)
qed

lemma mon_active_step:
  assumes "mon_active t m = (n, m')"
  shows "c_timeout (m_child m') = c_timeout (m_child m) \<and> c_deadline (m_child m') = c_deadline (m_child m) \<and> c_done (m_child m') = c_done (m_child m) \<and>
    c_exit_code (m_child m') = c_exit_code (m_child m) \<and> m_direct m' = m_direct m \<and> mon_io_done t (m_child m') = mon_io_done t (m_child m) \<and>
    (c_monitor_failed (m_child m) \<longrightarrow> c_monitor_failed (m_child m')) \<and>
    (\<not> c_monitor_failed (m_child m') \<longrightarrow> m_failed m' = m_failed m \<and>
       (\<not> m_failed m \<longrightarrow> (\<exists>j. c_job (m_child m') = Some j \<and> \<not> jb_closed j \<and> os_query (tn_os t) (jb_handle j) = Some n)))"
proof -
  obtain r jp cs where q: "on_job (Inl ''job is closed'') (wj_job_active (tn_os t)) (c_job (m_child m)) = (r, jp, cs)"
    using prod_cases3 by blast
  obtain ok m1 where k: "mon_kill (tn_os t) (m\<lparr>m_calls := m_calls m @ cs, m_child := (m_child m)\<lparr>c_monitor_failed := True, c_killed := True\<rparr>, m_failed := True\<rparr>) = (ok, m1)"
    by fastforce
  show ?thesis
  proof (cases "m_failed m")
    case True
    then show ?thesis using assms by (simp add: mon_active_def)
  next
    case nf: False
    show ?thesis
    proof (cases r)
      case (Inl e)
      then have "m' = m1" using assms nf q k by (simp add: mon_active_def)
      then show ?thesis using mon_kill_child [OF k] by (simp add: mon_io_done_def)
    next
      case (Inr a)
      then have "m' = m\<lparr>m_calls := m_calls m @ cs\<rparr>" "n = a" using assms nf q by (simp_all add: mon_active_def)
      then show ?thesis
        using nf q Inr by (cases "c_job (m_child m)") (auto simp: mon_io_done_def on_job_def wj_job_active_def split: if_splits option.splits)
    qed
  qed
qed

lemma mon_deadline_step:
  "c_done (m_child (mon_deadline t m)) = c_done (m_child m) \<and> c_exit_code (m_child (mon_deadline t m)) = c_exit_code (m_child m) \<and>
   m_direct (mon_deadline t m) = m_direct m \<and>
   (c_monitor_failed (m_child m) \<longrightarrow> c_monitor_failed (m_child (mon_deadline t m))) \<and>
   (\<not> c_monitor_failed (m_child (mon_deadline t m)) \<longrightarrow> m_failed (mon_deadline t m) = m_failed m) \<and>
   (if c_deadline (m_child m) \<noteq> 0 \<and> c_deadline (m_child m) \<le> tn_now t
    then c_timeout (m_child (mon_deadline t m)) \<and> c_killed (m_child (mon_deadline t m)) \<and> c_deadline (m_child (mon_deadline t m)) = 0
    else mon_deadline t m = m)"
proof (cases "mon_kill (tn_os t) (m\<lparr>m_child := (m_child m)\<lparr>c_timeout := True, c_killed := True\<rparr>\<rparr>)")
  case (Pair ok m1)
  then show ?thesis using mon_kill_child [OF Pair] by (auto simp: mon_deadline_def Let_def)
qed

text \<open>In this turn Windows says of the child's own job that no process is left in it.\<close>

definition complete_turn :: "wj_job option \<Rightarrow> mon_turn \<Rightarrow> bool" where
  "complete_turn jp t \<longleftrightarrow> (case jp of None \<Rightarrow> False | Some j \<Rightarrow> os_query (tn_os t) (jb_handle j) = Some 0)"

lemma complete_turn_run: "job_run jp cs jp' \<Longrightarrow> complete_turn jp' t = complete_turn jp t"
  by (auto simp: job_run_def complete_turn_def split: option.splits)

lemma monitor_turn_fields:
  assumes "monitor_turn t m = (b, m')"
  shows "c_done (m_child m') = c_done (m_child m) \<and>
    (c_monitor_failed (m_child m) \<longrightarrow> c_monitor_failed (m_child m')) \<and>
    (\<not> c_monitor_failed (m_child m') \<longrightarrow> m_failed m' = m_failed m \<and>
      (if m_direct m then m_direct m' \<and> c_exit_code (m_child m') = c_exit_code (m_child m)
       else m_direct m' \<longrightarrow> tn_wait t = WaitObject \<and> tn_code t = Some (c_exit_code (m_child m'))) \<and>
      (b \<and> \<not> m_failed m \<longrightarrow> m_direct m' \<and> mon_io_done t (m_child m') \<and> complete_turn (c_job (m_child m')) t)) \<and>
    (if b then c_timeout (m_child m') = c_timeout (m_child m) \<and> c_deadline (m_child m') = c_deadline (m_child m)
     else if c_deadline (m_child m) \<noteq> 0 \<and> c_deadline (m_child m) \<le> tn_now t
     then c_timeout (m_child m') \<and> c_killed (m_child m') \<and> c_deadline (m_child m') = 0
     else c_timeout (m_child m') = c_timeout (m_child m) \<and> c_deadline (m_child m') = c_deadline (m_child m))"
proof -
  obtain n m1 where m1: "mon_active t (mon_direct t m) = (n, m1)" by fastforce
  note d = mon_direct_step [of t m] and a = mon_active_step [OF m1] and l = mon_deadline_step [of t m1]
  show ?thesis
  proof (cases "m_direct m1 \<and> mon_io_done t (m_child m1) \<and> (m_failed m1 \<or> n = 0)")
    case True
    then have b: "b" "m' = m1" using assms m1 by (simp_all add: monitor_turn_def)
    then show ?thesis using d a True by (auto simp: complete_turn_def)
  next
    case False
    then have b: "\<not> b" "m' = mon_deadline t m1" using assms m1 by (auto simp: monitor_turn_def split: if_splits)
    then show ?thesis using d a l by (auto split: if_splits)
  qed
qed

lemma monitor_done_complete:
  assumes "\<not> c_done (m_child m)" "c_done (m_child (child_monitor_thread ts m))"
    "\<not> c_monitor_failed (m_child (child_monitor_thread ts m))" "\<not> m_failed m"
  shows "(\<exists>t\<in>set ts. complete_turn (c_job (m_child (child_monitor_thread ts m))) t \<and> mon_io_done t (m_child (child_monitor_thread ts m))) \<and>
    (if m_direct m then c_exit_code (m_child (child_monitor_thread ts m)) = c_exit_code (m_child m)
     else \<exists>t\<in>set ts. tn_wait t = WaitObject \<and> tn_code t = Some (c_exit_code (m_child (child_monitor_thread ts m))))"
  using assms
proof (induction ts arbitrary: m)
  case (Cons t ts)
  obtain b m1 where t: "monitor_turn t m = (b, m1)" by fastforce
  note f = monitor_turn_fields [OF t]
  show ?case
  proof (cases b)
    case True
    then show ?thesis using t f Cons(3-5) by (auto simp: mon_io_done_def split: if_splits)
  next
    case False
    then have e: "child_monitor_thread (t # ts) m = child_monitor_thread ts m1" using t by simp
    have nf: "\<not> c_monitor_failed (m_child m1)"
    proof
      assume "c_monitor_failed (m_child m1)"
      then have "c_monitor_failed (m_child (child_monitor_thread ts m1))"
      proof (induction ts arbitrary: m1)
        case (Cons u us)
        obtain b2 m2 where u: "monitor_turn u m1 = (b2, m2)" by fastforce
        have "c_monitor_failed (m_child m2)" using monitor_turn_fields [OF u] Cons(2) by blast
        then show ?case using u Cons(1) by (cases b2) auto
      qed simp
      then show False using Cons(4) e by simp
    qed
    then have k: "\<not> m_failed m1" "\<not> c_done (m_child m1)" using f Cons(2,5) by auto
    have ih: "(\<exists>t\<in>set ts. complete_turn (c_job (m_child (child_monitor_thread ts m1))) t \<and> mon_io_done t (m_child (child_monitor_thread ts m1))) \<and>
      (if m_direct m1 then c_exit_code (m_child (child_monitor_thread ts m1)) = c_exit_code (m_child m1)
       else \<exists>t\<in>set ts. tn_wait t = WaitObject \<and> tn_code t = Some (c_exit_code (m_child (child_monitor_thread ts m1))))"
      using Cons(3,4) e by (intro Cons(1) [OF k(2) _ _ k(1)]) simp_all
    show ?thesis unfolding e using ih f nf by (auto split: if_splits)
  qed
qed simp

lemma monitor_timeout:
  "c_timeout (m_child (child_monitor_thread ts m)) \<Longrightarrow> \<not> c_timeout (m_child m) \<Longrightarrow>
     \<exists>t\<in>set ts. c_deadline (m_child m) \<noteq> 0 \<and> c_deadline (m_child m) \<le> tn_now t"
proof (induction ts arbitrary: m)
  case (Cons t ts)
  obtain b m1 where t: "monitor_turn t m = (b, m1)" by fastforce
  note f = monitor_turn_fields [OF t]
  show ?case
  proof (cases "b \<or> c_deadline (m_child m) \<noteq> 0 \<and> c_deadline (m_child m) \<le> tn_now t")
    case True
    then show ?thesis using t f Cons(2,3) by (auto split: if_splits)
  next
    case False
    then have "c_timeout (m_child (child_monitor_thread ts m1))" "\<not> c_timeout (m_child m1)" "c_deadline (m_child m1) = c_deadline (m_child m)"
      using t f Cons(2,3) by (auto split: if_splits)
    then show ?thesis using Cons(1) [of m1] by auto
  qed
qed simp

lemma monitor_deadline_enforced:
  "\<not> c_done (m_child (child_monitor_thread (ts @ [t]) m)) \<Longrightarrow> c_deadline (m_child m) \<noteq> 0 \<Longrightarrow> c_deadline (m_child m) \<le> tn_now t \<Longrightarrow>
     c_timeout (m_child (child_monitor_thread (ts @ [t]) m)) \<or> c_timeout (m_child m)"
proof (induction ts arbitrary: m)
  case Nil
  obtain b m1 where t: "monitor_turn t m = (b, m1)" by fastforce
  then show ?case using Nil monitor_turn_fields [OF t] by (cases b) (auto split: if_splits)
next
  case (Cons u us)
  obtain b m1 where u: "monitor_turn u m = (b, m1)" by fastforce
  note f = monitor_turn_fields [OF u]
  have nb: "\<not> b" using Cons(2) u by (cases b) auto
  show ?case
  proof (cases "c_deadline (m_child m) \<le> tn_now u")
    case True
    then have "c_timeout (m_child m1)" using f nb Cons(3) by (auto split: if_splits)
    moreover have "c_timeout (m_child x) \<Longrightarrow> c_timeout (m_child (child_monitor_thread vs x))" for vs x
    proof (induction vs arbitrary: x)
      case (Cons v vs)
      obtain b2 y where v: "monitor_turn v x = (b2, y)" by fastforce
      have "c_timeout (m_child y)" using monitor_turn_fields [OF v] Cons(2) by (auto split: if_splits)
      then show ?case using v Cons(1) by (cases b2) auto
    qed simp
    ultimately show ?thesis using u nb by simp
  next
    case False
    then have "c_deadline (m_child m1) = c_deadline (m_child m)" "c_timeout (m_child m1) = c_timeout (m_child m)"
      using f nb by (auto split: if_splits)
    then show ?thesis using Cons(1) [of m1] Cons(2-4) u nb by auto
  qed
qed

section \<open>Property\<close>

definition mon_start :: "child_t \<Rightarrow> mon" where
  "mon_start c = \<lparr>m_child = c, m_direct = False, m_failed = False, m_calls = []\<rparr>"

text \<open>A child as it is when its monitor starts.\<close>

definition fresh_child :: "child_t \<Rightarrow> bool" where
  "fresh_child c \<longleftrightarrow> \<not> c_done c \<and> \<not> c_killed c \<and> \<not> c_timeout c \<and> \<not> c_monitor_failed c"

lemma fresh_inv: "fresh_child c \<Longrightarrow> mon_inv (c_job c) (mon_start c)"
  by (simp add: fresh_child_def mon_inv_def mon_start_def job_run_refl)

text \<open>C13: the monitor signals completion without an error only after, in one turn, Windows said of the child's own job that it is
  empty and the streams it waits for were drained, and the exit code is the one Windows reported for the exited process; a timeout is reported only when the deadline passed, and
  once a turn sees the deadline passed the child is marked killed by timeout or was complete; whenever a child is marked
  killed its job was terminated or its kill-on-close handle closed; and no call is ever made on a closed job.\<close>

theorem monitor_correct:
  assumes "fresh_child c" "m' = child_monitor_thread ts (mon_start c)"
  shows "(c_done (m_child m') \<and> \<not> c_monitor_failed (m_child m') \<longrightarrow>
      (\<exists>t\<in>set ts. complete_turn (c_job c) t \<and> mon_io_done t (m_child m')) \<and>
      (\<exists>t\<in>set ts. tn_wait t = WaitObject \<and> tn_code t = Some (c_exit_code (m_child m')))) \<and>
    (c_timeout (m_child m') \<longrightarrow> c_deadline c \<noteq> 0 \<and> (\<exists>t\<in>set ts. c_deadline c \<le> tn_now t)) \<and>
    (ts \<noteq> [] \<and> c_deadline c \<noteq> 0 \<and> c_deadline c \<le> tn_now (last ts) \<longrightarrow> c_done (m_child m') \<or> c_timeout (m_child m') \<and> c_killed (m_child m')) \<and>
    (c_killed (m_child m') \<longrightarrow> tree_killed (m_calls m') (c_job (m_child m'))) \<and>
    job_run (c_job c) (m_calls m') (c_job (m_child m'))"
proof -
  have inv: "mon_inv (c_job c) m'" using child_monitor_inv [OF fresh_inv [OF assms(1)]] assms(2) by simp
  have f: "\<not> c_done (m_child (mon_start c))" "\<not> m_failed (mon_start c)" "\<not> m_direct (mon_start c)" "\<not> c_timeout (m_child (mon_start c))"
    "c_deadline (m_child (mon_start c)) = c_deadline c"
    using assms(1) by (simp_all add: fresh_child_def mon_start_def)
  have "c_done (m_child m') \<or> c_timeout (m_child m')" if "ts \<noteq> []" "c_deadline c \<noteq> 0" "c_deadline c \<le> tn_now (last ts)"
    using monitor_deadline_enforced [of "butlast ts" "last ts" "mon_start c"] that f assms(2) by auto
  moreover have "c_timeout (m_child m') \<longrightarrow> c_deadline c \<noteq> 0 \<and> (\<exists>t\<in>set ts. c_deadline c \<le> tn_now t)"
    using monitor_timeout [of ts "mon_start c"] f assms(2) by auto
  ultimately show ?thesis
    using monitor_done_complete [OF f(1) _ _ f(2), of ts] f(3) inv assms(2) complete_turn_run [of "c_job c" "m_calls m'" "c_job (m_child m')"]
    by (auto simp: mon_inv_def)
qed

text \<open>A child that exits with code 3 in its first turn and leaves an empty job.\<close>

definition demo_child :: child_t where
  "demo_child = \<lparr>c_token = ''child#1'', c_job = Some \<lparr>jb_handle = 7, jb_closed = False, jb_kill_on_close = True\<rparr>, c_pid = 42,
     c_slots = (\<lambda>s. None), c_ro = fresh_reader 8, c_re = fresh_reader 8, c_wi = \<lparr>wi_buf = [], wi_error = 0, wi_open = True\<rparr>,
     c_done = False, c_stream = False, c_monitor_failed = False, c_channels = False, c_inherit = False, c_chIn = [], c_chOut = [],
     c_chErr = [], c_deadline = 0, c_reaped = False, c_killed = False, c_timeout = False, c_exit_code = 0,
     c_thr = \<lparr>t_direct = False, t_failed = False, t_off = 0, t_out = [], t_ended = (\<lambda>s. False)\<rparr>\<rparr>"

definition demo_turn :: mon_turn where
  "demo_turn = \<lparr>tn_wait = WaitObject, tn_code = Some 3, tn_os = kind_os\<lparr>os_query := \<lambda>h. Some 0\<rparr>,
     tn_in = True, tn_out = True, tn_err = True, tn_now = 5\<rparr>"

lemma demo_fresh: "fresh_child demo_child"
  by (simp add: fresh_child_def demo_child_def)

lemma demo_monitor: "m_child (child_monitor_thread [demo_turn] (mon_start demo_child)) = demo_child\<lparr>c_exit_code := 3, c_done := True\<rparr>"
  by (simp add: mon_start_def demo_child_def demo_turn_def kind_os_def monitor_turn_def mon_direct_def mon_active_def on_job_def
    wj_job_active_def mon_io_done_def handle_signaled_def Let_def)

theorem monitor_correct_witness:
  "complete_turn (c_job demo_child) demo_turn \<and> tn_code demo_turn = Some (c_exit_code (demo_child\<lparr>c_exit_code := 3\<rparr>))"
  using monitor_correct [OF demo_fresh refl, of "[demo_turn]"] unfolding demo_monitor by (simp add: demo_child_def)

end
