(* ===== verification/Launch.thy ===== *)
theory Launch
  imports Kernel Cmdline Opts
begin

text \<open>
  \<^verbatim>\<open>src/winjob_launch.c\<close>: creating a process inside its jobs. The duplicated standard handles, the
  attribute list and the process with its cleanup are modelled on \<open>world\<close>; the answers of Windows
  and of the heap are parameters, and a batch target goes through the quoting of \<^verbatim>\<open>winjob_cmdline.c\<close>.
\<close>

section \<open>Environment\<close>

record launch_os =
  lx_alloc :: "size_t \<Rightarrow> bool"
  lx_text :: text_env
  lx_comspec :: "wstr option"
  lx_sysdir :: "wstr option"
  lx_dup :: "nat \<Rightarrow> bool"
  lx_jobs_malloc :: bool
  lx_al_size :: bool
  lx_al_malloc :: bool
  lx_al_init :: bool
  lx_upd_jobs :: bool
  lx_upd_extra :: bool
  lx_create :: "nat + int"
  lx_in_job :: "bool option"
  lx_resume :: bool

text \<open>\<open>lx_create\<close>: the error code of \<^verbatim>\<open>CreateProcessW\<close> or the process id; \<open>lx_upd_extra\<close>: the handle list or pseudoconsole attribute.\<close>

definition cat :: "cstr \<Rightarrow> nat \<Rightarrow> char" where
  "cat s i = (if i < length s then s ! i else NUL)"

definition path_is_absolute :: "cstr \<Rightarrow> bool" where
  "path_is_absolute p =
    (if p = [] then False
     else if (cat p 0 = BS \<or> cat p 0 = CHR ''/'') \<and> (cat p 1 = BS \<or> cat p 1 = CHR ''/'') then True
     else (in_range CHR ''A'' CHR ''Z'' (cat p 0) \<or> in_range CHR ''a'' CHR ''z'' (cat p 0)) \<and>
       cat p 1 = CHR '':'' \<and> (cat p 2 = BS \<or> cat p 2 = CHR ''/''))"

text \<open>\<open>Inr None\<close>: NULL without a message of its own (the conversion failed).\<close>

definition comspec_path :: "launch_os \<Rightarrow> string + cstr option" where
  "comspec_path os =
    (let env = (case lx_comspec os of
                  None \<Rightarrow> None
                | Some buf \<Rightarrow>
                    if 0 < length buf \<and> length buf < 1024 then
                      (case to_utf8 (lx_text os) buf (-1) of
                         None \<Rightarrow> None
                       | Some u \<Rightarrow> if path_is_absolute u then Some u else None)
                    else None)
     in case env of
          Some u \<Rightarrow> Inr (Some u)
        | None \<Rightarrow>
          (case lx_sysdir os of
             Some sys \<Rightarrow>
               if 0 < length sys \<and> length sys < 260
               then Inr (to_utf8 (lx_text os) (sys @ wide_ascii (BS # ''cmd.exe'')) (-1))
               else Inl ''cannot locate cmd.exe to run a batch file''
           | None \<Rightarrow> Inl ''cannot locate cmd.exe to run a batch file''))"

section \<open>What is run\<close>

abbreviation heap :: "launch_os \<Rightarrow> unit allocator" where
  "heap os \<equiv> \<lambda>m n. (lx_alloc os n, m)"

text \<open>Application and command line: batch scripts through \<^verbatim>\<open>cmd.exe\<close>, everything else quoted for its own parser.\<close>

definition launch_text :: "launch_os \<Rightarrow> cstr \<Rightarrow> cstr list \<Rightarrow> string + cstr \<times> cstr" where
  "launch_text os exe argv =
    (if wj_is_batch_target exe then
       (case comspec_path os of
          Inl e \<Rightarrow> Inl e
        | Inr None \<Rightarrow> Inl []
        | Inr (Some comspec) \<Rightarrow>
          (case fst (wj_make_batch_cmdline (heap os) (Some exe) (int (length (tl argv))) (Some (tl argv)) ()) of
             Inl e \<Rightarrow> Inl e
           | Inr t \<Rightarrow> Inr (comspec, t)))
     else case fst (wj_make_cmdline (heap os) (int (length argv)) (Some (map Some argv)) ()) of
       None \<Rightarrow> Inl ''out of memory''
     | Some t \<Rightarrow> Inr (exe, t))"

text \<open>Its wide form, with the directory.\<close>

definition launch_wide :: "launch_os \<Rightarrow> cstr \<Rightarrow> cstr list \<Rightarrow> cstr option \<Rightarrow> string + wstr \<times> wstr \<times> wstr option" where
  "launch_wide os exe argv wd =
    (case launch_text os exe argv of
       Inl e \<Rightarrow> Inl e
     | Inr (app, cmdText) \<Rightarrow>
       (case (to_wide (lx_text os) app, to_wide (lx_text os) cmdText) of
          (Some wApp, Some wCmd) \<Rightarrow>
            (case wd of
               None \<Rightarrow> Inr (wApp, wCmd, None)
             | Some d \<Rightarrow>
                 if d = [] then Inr (wApp, wCmd, None)
                 else (case to_wide (lx_text os) d of
                     None \<Rightarrow> Inl ''bad working directory''
                   | Some wDir \<Rightarrow> Inr (wApp, wCmd, Some wDir)))
        | _ \<Rightarrow> Inl ''bad executable path or command line''))"

section \<open>Standard handles\<close>

text \<open>
  The duplication loop. \<open>seen\<close> pairs the originals handled so far with their duplicates; a shared
  original is duplicated once. The result holds the duplicates in order and those to inherit.
\<close>

fun dup_loop :: "(nat \<Rightarrow> bool) \<Rightarrow> khandle list \<Rightarrow> (khandle \<times> khandle) list \<Rightarrow> khandle list \<Rightarrow> world
    \<Rightarrow> bool \<times> khandle list \<times> khandle list \<times> world" where
  "dup_loop ok [] seen inherit w = (True, map snd seen, inherit, w)"
| "dup_loop ok (h # hs) seen inherit w =
    (case List.find (\<lambda>p. fst p = h) seen of
       Some p \<Rightarrow> dup_loop ok hs (seen @ [(h, snd p)]) inherit w
     | None \<Rightarrow>
        if \<not> ok (length seen) then (False, map snd seen, inherit, w)
        else (case open_handle w of (d, w) \<Rightarrow> dup_loop ok hs (seen @ [(h, d)]) (inherit @ [d]) w))"

section \<open>Launching\<close>

definition create_error :: "nat \<Rightarrow> string" where
  "create_error e = ''CreateProcess failed (error '' @ dec_of_nat e @ '')''"

text \<open>The attribute list: the first error, if any. A request without jobs has one attribute.\<close>

definition attr_error :: "launch_os \<Rightarrow> nat \<Rightarrow> string \<Rightarrow> bool \<Rightarrow> string option" where
  "attr_error os njobs what split_malloc =
    (if 0 < njobs \<and> \<not> lx_jobs_malloc os then Some ''out of memory''
     else if \<not> lx_al_size os then Some ''InitializeProcThreadAttributeList failed''
     else if \<not> lx_al_malloc os then Some (if split_malloc then ''out of memory'' else ''InitializeProcThreadAttributeList failed'')
     else if \<not> lx_al_init os then Some ''InitializeProcThreadAttributeList failed''
     else if 0 < njobs \<and> \<not> lx_upd_jobs os then Some ''UpdateProcThreadAttribute(JOB_LIST) failed''
     else if \<not> lx_upd_extra os then Some (''UpdateProcThreadAttribute('' @ what @ '') failed'')
     else None)"

text \<open>The checks both launchers share; the \<open>None\<close> elements are NULL job handles.\<close>

definition dir_ok :: "cstr option \<Rightarrow> cstr \<Rightarrow> bool" where
  "dir_ok wd exe \<longleftrightarrow> (case wd of None \<Rightarrow> True | Some d \<Rightarrow> d = [] \<or> path_is_absolute exe)"

text \<open>From \<^verbatim>\<open>CreateProcessW\<close> on: the process, its thread handle, the breakaway check.\<close>

definition start_process :: "launch_os \<Rightarrow> process \<Rightarrow> world \<Rightarrow> (string + int \<times> khandle) \<times> world" where
  "start_process os p w =
    (case lx_create os of
       Inl e \<Rightarrow> (Inl (create_error e), w)
     | Inr pid \<Rightarrow>
       (case open_handle w of (hProcess, w) \<Rightarrow>
        (case open_handle w of (hThread, w) \<Rightarrow>
          let w = happen (Created hProcess p) w in
          if p_breakaway p then
            (if lx_in_job os \<noteq> Some False then
               (Inl (if lx_in_job os = Some True then ''process did not break away from every enclosing job''
                     else ''cannot verify process breakaway''),
                CloseHandle hProcess (CloseHandle hThread (happen (KilledProc hProcess) w)))
             else if \<not> lx_resume os then
               (Inl ''ResumeThread failed'',
                CloseHandle hProcess (CloseHandle hThread (happen (KilledProc hProcess) w)))
             else (Inr (pid, hProcess), CloseHandle hThread (happen (Resumed hProcess) w)))
          else (Inr (pid, hProcess), CloseHandle hThread w))))"

text \<open>
  \<^verbatim>\<open>wj_launch\<close>. \<open>exe\<close>, \<open>argv\<close>, the job handles and the three standard handles may be NULL (\<open>None\<close>).
  Whatever happens after the duplication, the duplicates are closed at the end.
\<close>

definition wj_launch :: "launch_os \<Rightarrow> cstr option \<Rightarrow> cstr list \<Rightarrow> cstr option \<Rightarrow> khandle option list \<Rightarrow> khandle option list
    \<Rightarrow> bool \<Rightarrow> wstr option \<Rightarrow> world \<Rightarrow> (string + int \<times> khandle) \<times> world" where
  "wj_launch os exep argv wd job_handles io want_breakaway env w =
    (case exep of
       None \<Rightarrow> (Inl ''empty exe'', w)
     | Some exe \<Rightarrow>
       if exe = [] then (Inl ''empty exe'', w)
       else if argv = [] then (Inl ''empty argv'', w)
       else if None \<in> set io then (Inl ''all three stdio handles must be non-NULL'', w)
       else if job_handles = [] \<and> \<not> want_breakaway \<or> want_breakaway \<and> job_handles \<noteq> [] then
         (Inl ''a supervised launch requires at least one job'', w)
       else if None \<in> set job_handles then (Inl ''job handle is NULL'', w)
       else if \<not> dir_ok wd exe then (Inl ''exe must be an absolute path when dir is set'', w)
       else case launch_wide os exe argv wd of
         Inl e \<Rightarrow> (Inl e, w)
       | Inr (wApp, wCmd, wDir) \<Rightarrow>
         (case dup_loop (lx_dup os) (map the io) [] [] w of
            (False, _, inherit, w) \<Rightarrow> (Inl ''DuplicateHandle failed'', close_all inherit w)
          | (True, dups, inherit, w) \<Rightarrow>
            (case attr_error os (length job_handles) ''HANDLE_LIST'' False of
               Some e \<Rightarrow> (Inl e, close_all inherit w)
             | None \<Rightarrow>
               (case start_process os
                   \<lparr>p_app = wApp, p_cmd = wCmd, p_dir = wDir, p_env = env, p_jobs = map the job_handles,
                    p_inherit = inherit, p_std = dups, p_console = None, p_breakaway = want_breakaway\<rparr> w of
                  (r, w) \<Rightarrow> (r, close_all inherit w)))))"

text \<open>\<^verbatim>\<open>wj_launch_pty\<close>: the pseudoconsole supplies the standard handles, nothing is inherited.\<close>

definition wj_launch_pty :: "launch_os \<Rightarrow> cstr option \<Rightarrow> cstr list \<Rightarrow> cstr option \<Rightarrow> khandle option list \<Rightarrow> khandle option
    \<Rightarrow> wstr option \<Rightarrow> world \<Rightarrow> (string + int \<times> khandle) \<times> world" where
  "wj_launch_pty os exep argv wd job_handles console env w =
    (case exep of
       None \<Rightarrow> (Inl ''empty exe'', w)
     | Some exe \<Rightarrow>
       if exe = [] then (Inl ''empty exe'', w)
       else if argv = [] then (Inl ''empty argv'', w)
       else if job_handles = [] then (Inl ''at least one job is required'', w)
       else if None \<in> set job_handles then (Inl ''job handle is NULL'', w)
       else if console = None then (Inl ''pseudoconsole is required'', w)
       else if \<not> dir_ok wd exe then (Inl ''exe must be an absolute path when dir is set'', w)
       else case launch_wide os exe argv wd of
         Inl e \<Rightarrow> (Inl e, w)
       | Inr (wApp, wCmd, wDir) \<Rightarrow>
         (case attr_error os (length job_handles) ''PSEUDOCONSOLE'' True of
            Some e \<Rightarrow> (Inl e, w)
          | None \<Rightarrow>
            start_process os
              \<lparr>p_app = wApp, p_cmd = wCmd, p_dir = wDir, p_env = env, p_jobs = map the job_handles,
               p_inherit = [], p_std = [], p_console = console, p_breakaway = False\<rparr> w))"

text \<open>Waiting: \<open>Inr None\<close> is a timeout.\<close>

datatype wait_answer = AnswerExit "dword option" | AnswerTimeout | AnswerFailed

definition wj_wait_timeout :: "wait_answer \<Rightarrow> string + dword option" where
  "wj_wait_timeout a =
    (case a of
       AnswerTimeout \<Rightarrow> Inr None
     | AnswerFailed \<Rightarrow> Inl ''WaitForSingleObject failed''
     | AnswerExit c \<Rightarrow> (case c of None \<Rightarrow> Inl ''GetExitCodeProcess failed'' | Some code \<Rightarrow> Inr (Some code)))"

definition wj_proc_close :: "khandle option \<Rightarrow> world \<Rightarrow> world" where
  "wj_proc_close p w = (case p of None \<Rightarrow> w | Some h \<Rightarrow> CloseHandle h w)"

section \<open>Lemmas\<close>

text \<open>The duplicates are new, distinct, open, and one for each distinct original.\<close>

lemma dup_loop_wf:
  "dup_loop ok hs seen inherit w = (r, dups, inherit', w') \<Longrightarrow> wf_world w \<Longrightarrow> distinct inherit \<Longrightarrow> set inherit \<subseteq> set (w_open w) \<Longrightarrow>
   snd ` set seen \<subseteq> set inherit \<Longrightarrow>
     wf_world w' \<and> distinct inherit' \<and> set inherit \<subseteq> set inherit' \<and> set (w_open w') = set (w_open w) \<union> set inherit' \<and>
     (\<forall>h\<in>set inherit'. h \<in> set inherit \<or> w_next w \<le> h) \<and>
     w_events w' = w_events w \<and> (r \<longrightarrow> set dups \<subseteq> set inherit' \<and> length dups = length seen + length hs)"
proof (induction ok hs seen inherit w rule: dup_loop.induct)
  case (1 ok seen inherit w)
  then show ?case by auto
next
  case (2 ok h hs seen inherit w)
  show ?case
  proof (cases "List.find (\<lambda>p. fst p = h) seen")
    case (Some p)
    then have "snd p \<in> set inherit" using 2(7) by (auto simp: find_Some_iff)
    then have "snd ` set (seen @ [(h, snd p)]) \<subseteq> set inherit" using 2(7) by auto
    from 2(2) [OF Some _ 2(4,5,6) this] show ?thesis using 2(3) Some by simp
  next
    case None
    show ?thesis
    proof (cases "ok (length seen)")
      case False
      then show ?thesis using 2(3-7) None by auto
    next
      case True
      obtain d w1 where d: "open_handle w = (d, w1)" by fastforce
      note o = wf_open [OF 2(4) d] open_events [OF d]
      have rec: "dup_loop ok hs (seen @ [(h, d)]) (inherit @ [d]) w1 = (r, dups, inherit', w')"
        using 2(3) None True d by simp
      have pre: "distinct (inherit @ [d])" "set (inherit @ [d]) \<subseteq> set (w_open w1)" "snd ` set (seen @ [(h, d)]) \<subseteq> set (inherit @ [d])"
        using 2(5-7) o by auto
      have "wf_world w1" using o by simp
      from 2(1) [OF None _ d [symmetric] rec this pre] True show ?thesis using o by auto
    qed
  qed
qed

lemma dup_loop_next: "dup_loop ok hs seen inherit w = (r, dups, inherit', w') \<Longrightarrow> w_next w \<le> w_next w'"
proof (induction ok hs seen inherit w rule: dup_loop.induct)
  case (2 ok h hs seen inherit w)
  then show ?case
    by (auto simp: open_handle_def split: option.splits if_splits)
qed simp

lemma start_process_wf:
  assumes "start_process os p w = (r, w')" "wf_world w"
  shows "wf_world w' \<and> set (w_open w') = set (w_open w) \<union> (case r of Inr (pid, h) \<Rightarrow> {h} | Inl e \<Rightarrow> {}) \<and>
    (case r of
       Inr (pid, h) \<Rightarrow> h = w_next w \<and>
         w_events w' = w_events w @ Created h p # (if p_breakaway p then [Resumed h] else []) \<and> lx_create os = Inr pid \<and>
         (p_breakaway p \<longrightarrow> lx_in_job os = Some False)
     | Inl e \<Rightarrow> w_events w' \<in> {w_events w, w_events w @ [Created (w_next w) p, KilledProc (w_next w)]})"
proof (cases "lx_create os")
  case (Inl e)
  then show ?thesis using assms by (auto simp: start_process_def)
next
  case (Inr pid)
  obtain h w1 where h: "open_handle w = (h, w1)" by fastforce
  obtain t w2 where t: "open_handle w1 = (t, w2)" by fastforce
  note o1 = wf_open [OF assms(2) h] open_events [OF h]
  have w1: "wf_world w1" using o1 by simp
  note o2 = wf_open [OF w1 t] open_events [OF t]
  have w2: "wf_world w2" "t \<in> set (w_open w2)" "h \<in> set (w_open w2)" "t \<noteq> h" using o1 o2 by auto
  have c1: "wf_world (CloseHandle t (happen e w))" "set (w_open (CloseHandle t (happen e w))) = set (w_open w2) - {t}"
    if "wf_world w" "w_open w = w_open w2" for e w
    using wf_close [of "happen e w" t] that w2(2) by auto
  have c2: "wf_world (CloseHandle h (CloseHandle t (happen e w)))" "set (w_open (CloseHandle h (CloseHandle t (happen e w)))) = set (w_open w2) - {t} - {h}"
    if "wf_world w" "w_open w = w_open w2" for e w
    using wf_close [of "CloseHandle t (happen e w)" h] c1 [OF that, of e] w2(3,4) by auto
  have op: "set (w_open w2) - {t} = insert h (set (w_open w))" "set (w_open w2) - {t} - {h} = set (w_open w)"
    using o1 o2 by auto
  show ?thesis
    using assms(1) Inr h t c1 c2 op w2 o1 o2 by (auto simp: start_process_def Let_def split: if_splits)
qed

text \<open>What a launch leaves behind: the process it returns, or nothing.\<close>

definition launched :: "world \<Rightarrow> (string + int \<times> khandle) \<Rightarrow> world \<Rightarrow> (process \<Rightarrow> bool) \<Rightarrow> bool" where
  "launched w r w' P \<longleftrightarrow>
     wf_world w' \<and> set (w_open w') = set (w_open w) \<union> (case r of Inr ph \<Rightarrow> {snd ph} | Inl e \<Rightarrow> {}) \<and>
     (case r of
        Inr ph \<Rightarrow> w_next w \<le> snd ph \<and>
          (\<exists>p. P p \<and> w_events w' = w_events w @ Created (snd ph) p # (if p_breakaway p then [Resumed (snd ph)] else []))
      | Inl e \<Rightarrow> w_events w' = w_events w \<or>
          (\<exists>h p. P p \<and> w_events w' = w_events w @ [Created h p, KilledProc h]))"

lemma launched_mono: "launched w r w' P \<Longrightarrow> (\<And>p. P p \<Longrightarrow> Q p) \<Longrightarrow> launched w r w' Q"
  unfolding launched_def by (cases r; simp split del: if_split; blast)

lemma launched_none: "wf_world w \<Longrightarrow> launched w (Inl e) w P"
  by (simp add: launched_def)

lemma start_process_launched:
  assumes "start_process os p w = (r, w')" "wf_world w" "P p"
  shows "launched w r w' (\<lambda>p. P p \<and> (p_breakaway p \<longrightarrow> (case r of Inl e \<Rightarrow> True | Inr ph \<Rightarrow> lx_in_job os = Some False)))"
  using start_process_wf [OF assms(1,2)] assms(3) by (auto simp: launched_def split: sum.splits)

lemma launched_close:
  assumes "launched w1 r w2 P" "wf_world w" "wf_world w1" "set (w_open w1) = set (w_open w) \<union> set hs" "distinct hs"
    "\<forall>h\<in>set hs. w_next w \<le> h" "w_events w1 = w_events w" "w_next w \<le> w_next w1"
  shows "launched w r (close_all hs w2) P"
proof -
  have fresh: "set hs \<inter> set (w_open w) = {}" using assms(2,6) by (fastforce simp: wf_world_def)
  have w2: "wf_world w2" "set hs \<subseteq> set (w_open w2)" using assms(1,4) by (auto simp: launched_def)
  note c = wf_close_all [OF w2(1) assms(5) w2(2)]
  have nf: "snd ph \<notin> set hs" if "r = Inr ph" for ph
  proof -
    have "w_next w1 \<le> snd ph" using assms(1) that by (simp add: launched_def)
    moreover have "\<forall>h\<in>set hs. h < w_next w1" using assms(3,4) by (auto simp: wf_world_def)
    ultimately show ?thesis by auto
  qed
  have s: "set (w_open (close_all hs w2)) = set (w_open w) \<union> (case r of Inr ph \<Rightarrow> {snd ph} | Inl e \<Rightarrow> {})"
    using c assms(1,4) fresh nf by (auto simp: launched_def split: sum.splits)
  show ?thesis
    using assms(1,7,8) c s by (auto simp: launched_def split: sum.splits)
qed

lemma wj_launch_launched:
  assumes "wj_launch os exep argv wd job_handles io want env w = (r, w')" "wf_world w"
  shows "launched w r w' (\<lambda>p. map Some (p_jobs p) = job_handles \<and> p_breakaway p = want \<and> (job_handles = [] \<longrightarrow> want) \<and>
      length (p_std p) = length io \<and> set (p_std p) \<subseteq> set (p_inherit p) \<and> set (p_inherit p) \<inter> set (w_open w) = {} \<and> p_env p = env \<and>
      (want \<longrightarrow> (case r of Inl e \<Rightarrow> True | Inr ph \<Rightarrow> lx_in_job os = Some False)))"
    (is "launched w r w' ?P")
proof (cases "\<exists>exe. exep = Some exe \<and> exe \<noteq> [] \<and> argv \<noteq> [] \<and> None \<notin> set io \<and> \<not> (job_handles = [] \<and> \<not> want \<or> want \<and> job_handles \<noteq> []) \<and>
    None \<notin> set job_handles \<and> dir_ok wd exe \<and> (\<exists>x. launch_wide os exe argv wd = Inr x)")
  case False
  then have "\<exists>e. r = Inl e" "w' = w"
    using assms(1) by (auto simp: wj_launch_def split: option.splits sum.splits if_splits)
  then show ?thesis using launched_none [OF assms(2)] by auto
next
  case True
  then obtain exe wApp wCmd wDir where ok: "exep = Some exe" "exe \<noteq> []" "argv \<noteq> []" "None \<notin> set io"
    "\<not> (job_handles = [] \<and> \<not> want \<or> want \<and> job_handles \<noteq> [])" "None \<notin> set job_handles" "dir_ok wd exe"
    "launch_wide os exe argv wd = Inr (wApp, wCmd, wDir)" by (metis prod_cases3)
  obtain b dups inh w1 where d: "dup_loop (lx_dup os) (map the io) [] [] w = (b, dups, inh, w1)" using prod_cases4 by blast
  have wf1: "wf_world w1" "distinct inh" "set (w_open w1) = set (w_open w) \<union> set inh" "\<forall>h\<in>set inh. w_next w \<le> h" "w_events w1 = w_events w"
    "b \<Longrightarrow> set dups \<subseteq> set inh \<and> length dups = length io"
    using dup_loop_wf [OF d assms(2)] by auto
  have nx: "w_next w \<le> w_next w1" by (rule dup_loop_next [OF d])
  have disj: "set inh \<inter> set (w_open w) = {}" using assms(2) wf1(4) by (fastforce simp: wf_world_def)
  note close = launched_close [OF _ assms(2) wf1(1,3,2,4,5) nx]
  show ?thesis
  proof (cases "b \<and> attr_error os (length job_handles) ''HANDLE_LIST'' False = None")
    case False
    then have "w' = close_all inh w1 \<and> (\<exists>e. r = Inl e)"
      using assms(1) ok d by (auto simp: wj_launch_def split: if_splits bool.splits option.splits)
    then show ?thesis using close [OF launched_none [OF wf1(1)]] by auto
  next
    case True
    let ?p = "\<lparr>p_app = wApp, p_cmd = wCmd, p_dir = wDir, p_env = env, p_jobs = map the job_handles,
                    p_inherit = inh, p_std = dups, p_console = None, p_breakaway = want\<rparr>"
    obtain r1 w2 where s: "start_process os ?p w1 = (r1, w2)" by fastforce
    have e: "r = r1" "w' = close_all inh w2" using assms(1) ok d True s by (auto simp: wj_launch_def)
    have "map Some (map the job_handles) = job_handles" using ok(6) by (simp add: list_eq_iff_nth_eq) (metis nth_mem option.collapse)
    then have "launched w1 r1 w2 (\<lambda>p. (p = ?p) \<and> (p_breakaway p \<longrightarrow> (case r1 of Inl e \<Rightarrow> True | Inr ph \<Rightarrow> lx_in_job os = Some False)))"
      using start_process_launched [OF s wf1(1), of "\<lambda>p. p = ?p"] by simp
    from close [OF this] show ?thesis
      unfolding e
      by (rule launched_mono) (use wf1(6) True disj ok \<open>map Some (map the job_handles) = job_handles\<close> in auto)
  qed
qed

lemma wj_launch_pty_launched:
  assumes "wj_launch_pty os exep argv wd job_handles console env w = (r, w')" "wf_world w"
  shows "launched w r w' (\<lambda>p. map Some (p_jobs p) = job_handles \<and> job_handles \<noteq> [] \<and> p_console p = console \<and> console \<noteq> None \<and> p_inherit p = [])"
proof (cases "\<exists>exe. exep = Some exe \<and> exe \<noteq> [] \<and> argv \<noteq> [] \<and> job_handles \<noteq> [] \<and> None \<notin> set job_handles \<and> console \<noteq> None \<and> dir_ok wd exe \<and>
    (\<exists>x. launch_wide os exe argv wd = Inr x) \<and> attr_error os (length job_handles) ''PSEUDOCONSOLE'' True = None")
  case False
  then have "\<exists>e. r = Inl e" "w' = w"
    using assms(1) by (auto simp: wj_launch_pty_def split: option.splits sum.splits if_splits)
  then show ?thesis using launched_none [OF assms(2)] by auto
next
  case True
  then obtain exe wApp wCmd wDir where ok: "exep = Some exe" "exe \<noteq> []" "argv \<noteq> []" "job_handles \<noteq> []" "None \<notin> set job_handles" "console \<noteq> None" "dir_ok wd exe"
    "launch_wide os exe argv wd = Inr (wApp, wCmd, wDir)" "attr_error os (length job_handles) ''PSEUDOCONSOLE'' True = None" by (metis prod_cases3)
  let ?p = "\<lparr>p_app = wApp, p_cmd = wCmd, p_dir = wDir, p_env = env, p_jobs = map the job_handles,
               p_inherit = [], p_std = [], p_console = console, p_breakaway = False\<rparr>"
  have s: "start_process os ?p w = (r, w')" using assms(1) ok by (auto simp: wj_launch_pty_def)
  have "map Some (map the job_handles) = job_handles" using ok(5) by (simp add: list_eq_iff_nth_eq) (metis nth_mem option.collapse)
  then show ?thesis
    by (intro launched_mono [OF start_process_launched [OF s assms(2), of "\<lambda>p. p = ?p"]]) (use ok(4,6) in auto)
qed

section \<open>Property\<close>

text \<open>C21: a launch leaves open exactly the process handle it returns and nothing else on every error path, never closes a handle
  twice, and every process it creates is born into exactly the given jobs with only private duplicates of the standard handles to
  inherit; a process without jobs exists only as a breakaway that Windows confirmed to be outside every job before it was
  resumed, and one that fails this check is killed without having run.\<close>

theorem launch_supervised:
  assumes "wj_launch os exep argv wd job_handles io want env w = (r, w')" "wf_world w"
  shows "wf_world w' \<and> set (w_open w') = set (w_open w) \<union> (case r of Inr ph \<Rightarrow> {snd ph} | Inl e \<Rightarrow> {}) \<and>
    (case r of
       Inr ph \<Rightarrow> \<exists>p. map Some (p_jobs p) = job_handles \<and> set (p_std p) \<subseteq> set (p_inherit p) \<and> set (p_inherit p) \<inter> set (w_open w) = {} \<and>
         w_events w' = w_events w @ Created (snd ph) p # (if want then [Resumed (snd ph)] else []) \<and>
         (if job_handles = [] then want \<and> lx_in_job os = Some False else \<not> p_breakaway p)
     | Inl e \<Rightarrow> \<forall>h. Resumed h \<in> set (drop (length (w_events w)) (w_events w')) \<longrightarrow> False)"
proof -
  have l: "launched w r w' (\<lambda>p. map Some (p_jobs p) = job_handles \<and> p_breakaway p = want \<and> (job_handles = [] \<longrightarrow> want) \<and>
      length (p_std p) = length io \<and> set (p_std p) \<subseteq> set (p_inherit p) \<and> set (p_inherit p) \<inter> set (w_open w) = {} \<and> p_env p = env \<and>
      (want \<longrightarrow> (case r of Inl e \<Rightarrow> True | Inr ph \<Rightarrow> lx_in_job os = Some False)))"
    by (rule wj_launch_launched [OF assms])
  have nw: "job_handles \<noteq> [] \<Longrightarrow> \<not> want" if "r = Inr ph" for ph
    using assms(1) that by (auto simp: wj_launch_def split: option.splits if_splits)
  show ?thesis
  proof (cases r)
    case (Inl e)
    then show ?thesis using l by (auto simp: launched_def)
  next
    case (Inr ph)
    obtain p where p: "map Some (p_jobs p) = job_handles" "p_breakaway p = want" "job_handles = [] \<longrightarrow> want"
      "set (p_std p) \<subseteq> set (p_inherit p)" "set (p_inherit p) \<inter> set (w_open w) = {}" "want \<longrightarrow> lx_in_job os = Some False"
      "w_events w' = w_events w @ Created (snd ph) p # (if want then [Resumed (snd ph)] else [])"
      using l Inr by (auto simp: launched_def)
    show ?thesis using l p nw [OF Inr] Inr by (auto simp: launched_def intro!: exI [of _ p])
  qed
qed

definition demo_launch :: launch_os where
  "demo_launch = \<lparr>lx_alloc = (\<lambda>n. True), lx_text = demo_text, lx_comspec = None, lx_sysdir = None, lx_dup = (\<lambda>i. True),
     lx_jobs_malloc = True, lx_al_size = True, lx_al_malloc = True, lx_al_init = True, lx_upd_jobs = True, lx_upd_extra = True,
     lx_create = Inl 5, lx_in_job = None, lx_resume = True\<rparr>"

definition demo_world :: world where
  "demo_world = \<lparr>w_next = 9, w_open = [4, 3, 2], w_fault = False, w_events = []\<rparr>"

lemma demo_wf: "wf_world demo_world"
  by (simp add: wf_world_def demo_world_def)

theorem launch_supervised_witness:
  "\<exists>e w'. wj_launch demo_launch (Some ''C:/a.exe'') [''a''] None [Some 2] [Some 3, Some 3, Some 4] False None demo_world = (Inl e, w') \<and>
     w_open demo_world = [4, 3, 2] \<and> set (w_open w') = {2, 3, 4}"
proof -
  obtain r w' where l: "wj_launch demo_launch (Some ''C:/a.exe'') [''a''] None [Some 2] [Some 3, Some 3, Some 4] False None demo_world = (r, w')"
    by fastforce
  have "\<exists>e. r = Inl e" using l
    by (auto simp: wj_launch_def start_process_def demo_launch_def split: option.splits sum.splits if_splits prod.splits bool.splits)
  then show ?thesis using launch_supervised [OF l demo_wf] l by (auto simp: demo_world_def)
qed

end
