(* ===== verification/Child.thy ===== *)
theory Child
  imports Monitor Launch EnvBlock "HOL-Library.Multiset"
begin

text \<open>
  The life of a supervised child (\<^verbatim>\<open>src/proc.c\<close>): \<^verbatim>\<open>child_launch\<close> with its cleanup,
  \<^verbatim>\<open>child_channels\<close>, \<^verbatim>\<open>child_channels_free\<close>, \<^verbatim>\<open>child_reap\<close>, \<^verbatim>\<open>child_dict_ex\<close> and \<^verbatim>\<open>child_free\<close>.
  Every OS handle the code opens lives in a variable (\<open>slot\<close>) of the child, of a local of the
  launcher, or in a Tcl channel; the properties say that none is leaked or closed twice.
\<close>

section \<open>Context\<close>

text \<open>
  The client data of the verbs, with the part of the world they act on: open handles, the calls
  made on jobs, and the channels Tcl owns, by name.
\<close>

record proc_ctx =
  x_root :: wj_job
  x_children :: "child_t list"
  x_counter :: nat
  x_world :: world
  x_jobs :: "jcall list"
  x_chans :: "(string \<times> khandle) list"

section \<open>Handles in variables\<close>

definition set_slot :: "slot \<Rightarrow> khandle option \<Rightarrow> child_t \<Rightarrow> child_t" where
  "set_slot s h c = c\<lparr>c_slots := (c_slots c)(s := h)\<rparr>"

definition alloc_slot :: "slot \<Rightarrow> child_t \<times> 'x proc_ctx_scheme \<Rightarrow> child_t \<times> 'x proc_ctx_scheme" where
  "alloc_slot s = (\<lambda>(c, x). case open_handle (x_world x) of (h, w) \<Rightarrow> (set_slot s (Some h) c, x\<lparr>x_world := w\<rparr>))"

text \<open>\<^verbatim>\<open>if (v) { CloseHandle(v); v = NULL; }\<close>\<close>

definition close_slot :: "slot \<Rightarrow> child_t \<times> 'x proc_ctx_scheme \<Rightarrow> child_t \<times> 'x proc_ctx_scheme" where
  "close_slot s = (\<lambda>(c, x). case c_slots c s of
     None \<Rightarrow> (c, x)
   | Some h \<Rightarrow> (set_slot s None c, x\<lparr>x_world := CloseHandle h (x_world x)\<rparr>))"

definition move_slot :: "slot \<Rightarrow> slot \<Rightarrow> child_t \<times> 'x proc_ctx_scheme \<Rightarrow> child_t \<times> 'x proc_ctx_scheme" where
  "move_slot a b = (\<lambda>(c, x). (set_slot a None (set_slot b (c_slots c a) c), x))"

definition close_slots :: "slot list \<Rightarrow> child_t \<times> 'x proc_ctx_scheme \<Rightarrow> child_t \<times> 'x proc_ctx_scheme" where
  "close_slots ss st = fold close_slot ss st"

definition log_jobs :: "wj_job option \<Rightarrow> jcall list \<Rightarrow> child_t \<times> 'x proc_ctx_scheme \<Rightarrow> child_t \<times> 'x proc_ctx_scheme" where
  "log_jobs jp cs = (\<lambda>(c, x). (c\<lparr>c_job := jp\<rparr>, x\<lparr>x_jobs := x_jobs x @ cs\<rparr>))"

section \<open>Launch\<close>

text \<open>What the launch asks of Windows, Tcl and the heap. \<open>co_std\<close>: the host's own standard handles, \<open>None\<close> where absent.\<close>

record child_os =
  co_text :: text_env
  co_path :: path_env
  co_calloc :: bool
  co_std :: "khandle option \<times> khandle option \<times> khandle option"
  co_nul :: bool
  co_pipe_out :: bool
  co_pipe_err :: bool
  co_pipe_in :: bool
  co_job :: job_os
  co_argv :: bool
  co_launch :: launch_os
  co_tick :: nat
  co_buffers :: bool
  co_thread_out :: bool
  co_thread_err :: bool
  co_stdin_malloc :: bool
  co_thread_in :: bool
  co_event :: bool
  co_thread_monitor :: bool
  co_utf8 :: "string \<Rightarrow> string"

definition new_child :: "child_t" where
  "new_child = \<lparr>c_token = [], c_job = None, c_pid = 0, c_slots = (\<lambda>s. None), c_ro = fresh_reader 0, c_re = fresh_reader 0,
     c_wi = \<lparr>wi_buf = [], wi_error = 0, wi_open = False\<rparr>, c_done = False, c_stream = False, c_monitor_failed = False,
     c_channels = False, c_inherit = False, c_chIn = [], c_chOut = [], c_chErr = [], c_deadline = 0, c_reaped = False,
     c_killed = False, c_timeout = False, c_exit_code = 0,
     c_thr = \<lparr>t_direct = False, t_failed = False, t_off = 0, t_out = [], t_ended = (\<lambda>s. False)\<rparr>\<rparr>"

text \<open>Standard handles: the host's own with \<^verbatim>\<open>-inherit\<close>, else pipes and the null device.\<close>

definition launch_stdio :: "child_os \<Rightarrow> run_opts \<Rightarrow> child_t \<times> 'x proc_ctx_scheme \<Rightarrow> string option \<times> child_t \<times> 'x proc_ctx_scheme" where
  "launch_stdio os opts st =
    (if o_inherit opts then
       (case co_std os of (si, so, se) \<Rightarrow>
         if si = None \<or> so = None \<or> se = None then
           (if \<not> co_nul os then (Some ''open NUL failed'', st) else (None, alloc_slot LNul st))
         else (None, st))
     else if \<not> co_pipe_out os then (Some ''CreatePipe failed'', st)
     else let st = alloc_slot LOutW (alloc_slot SOutR st) in
       if \<not> co_pipe_err os then (Some ''CreatePipe failed'', st)
       else let st = alloc_slot LErrW (alloc_slot SErrR st) in
         if o_stdin_obj opts \<noteq> None \<or> o_channels opts then
           (if \<not> co_pipe_in os then (Some ''CreatePipe(stdin) failed'', st)
            else (None, alloc_slot LStdinW (alloc_slot LStdinR st)))
         else if \<not> co_nul os then (Some ''open NUL failed'', st)
         else (None, alloc_slot LNul st))"

text \<open>The per-command job and its limits.\<close>

definition launch_job :: "child_os \<Rightarrow> run_opts \<Rightarrow> child_t \<times> 'x proc_ctx_scheme \<Rightarrow> string option \<times> child_t \<times> 'x proc_ctx_scheme" where
  "launch_job os opts st =
    (case wj_job_new (co_job os) True of
       (Inl e, cs) \<Rightarrow> (Some e, log_jobs None cs st)
     | (Inr j, cs) \<Rightarrow>
        let st = log_jobs (Some j) cs st in
        if o_mem opts \<noteq> 0 \<or> o_cpu_100ns opts \<noteq> 0 then
          (let lim = \<lparr>process_memory_bytes = word_of_nat (o_mem opts), job_memory_bytes = 0,
                      process_cpu_100ns = word_of_nat (o_cpu_100ns opts), job_cpu_100ns = 0, active_process_cap = 0\<rparr> in
           case wj_job_set_limits (co_job os) j (Some lim) of
             (Inl e, j, cs) \<Rightarrow> (Some e, log_jobs (Some j) cs st)
           | (Inr _, j, cs) \<Rightarrow> (None, log_jobs (Some j) cs st))
        else (None, st))"

text \<open>The three handles given to the launcher.\<close>

definition launch_io :: "child_os \<Rightarrow> run_opts \<Rightarrow> child_t \<Rightarrow> khandle option list" where
  "launch_io os opts c =
    (if o_inherit opts then
       (case co_std os of (si, so, se) \<Rightarrow>
         map (\<lambda>h. if h \<noteq> None then h else c_slots c LNul) [si, so, se])
     else [if o_stdin_obj opts \<noteq> None \<or> o_channels opts then c_slots c LStdinR else c_slots c LNul,
           c_slots c LOutW, c_slots c LErrW])"

text \<open>The process, born into the root job and its own.\<close>

definition launch_process :: "child_os \<Rightarrow> run_opts \<Rightarrow> cstr \<Rightarrow> cstr list \<Rightarrow> bool \<Rightarrow> child_t \<times> 'x proc_ctx_scheme
    \<Rightarrow> string option \<times> child_t \<times> 'x proc_ctx_scheme" where
  "launch_process os opts exe cargv stream st =
    (case st of (c, x) \<Rightarrow>
      let (rooth, cs1) = wj_job_handle (x_root x);
          (jobh, cs2) = (case c_job c of None \<Rightarrow> (None, []) | Some j \<Rightarrow> wj_job_handle j);
          x = x\<lparr>x_jobs := x_jobs x @ cs1 @ cs2\<rparr>;
          c = c\<lparr>c_inherit := o_inherit opts, c_channels := o_channels opts, c_stream := stream\<rparr>
      in case argv_with_arg0 (co_argv os) opts cargv of
           None \<Rightarrow> (Some ''out of memory'', c, x)
         | Some largv \<Rightarrow>
           (case wj_launch (co_launch os) (Some exe) largv (o_dir opts) [rooth, jobh] (launch_io os opts c) False (o_env_block opts) (x_world x) of
              (Inl e, w) \<Rightarrow> (Some e, c, x\<lparr>x_world := w\<rparr>)
            | (Inr (pid, h), w) \<Rightarrow>
               let c = set_slot SProc (Some h) (c\<lparr>c_pid := pid\<rparr>);
                   c = (if o_timeout_ms opts \<ge> 0 then c\<lparr>c_deadline := (co_tick os + nat (o_timeout_ms opts)) mod 2 ^ 64\<rparr> else c)
               in (None, close_slots [LOutW, LErrW, LNul, LStdinR] (c, x\<lparr>x_world := w\<rparr>))))"

definition CAPTURE_CAP :: nat where "CAPTURE_CAP = 2 ^ 20"

text \<open>Output drains, before stdin is fed.\<close>

definition launch_drains :: "child_os \<Rightarrow> run_opts \<Rightarrow> bool \<Rightarrow> child_t \<times> 'x proc_ctx_scheme \<Rightarrow> string option \<times> child_t \<times> 'x proc_ctx_scheme" where
  "launch_drains os opts stream st =
    (if \<not> o_channels opts \<and> \<not> o_inherit opts then
       (case st of (c, x) \<Rightarrow>
         let st = (c\<lparr>c_ro := fresh_reader CAPTURE_CAP, c_re := fresh_reader CAPTURE_CAP\<rparr>, x) in
         if \<not> co_buffers os then (Some ''out of memory'', st)
         else if stream then (None, st)
         else if \<not> co_thread_out os then (Some ''cannot start stdout reader thread'', st)
         else let st = alloc_slot STOut st in
           if \<not> co_thread_err os then (Some ''cannot start stderr reader thread'', st)
           else (None, alloc_slot STErr st))
     else (None, st))"

text \<open>Standard input: kept open for a channel, fed by a writer thread, or closed at once.\<close>

definition launch_stdin :: "child_os \<Rightarrow> run_opts \<Rightarrow> child_t \<times> 'x proc_ctx_scheme \<Rightarrow> string option \<times> child_t \<times> 'x proc_ctx_scheme" where
  "launch_stdin os opts st =
    (if o_channels opts then (None, move_slot LStdinW SInW st)
     else case o_stdin_obj opts of
       None \<Rightarrow> (None, st)
     | Some v \<Rightarrow>
        let bytes = Machteld_ValueBytes (co_utf8 os) v in
        if bytes \<noteq> [] then
          (if \<not> co_stdin_malloc os then (Some ''out of memory'', st)
           else case move_slot LStdinW SWrite st of (c, x) \<Rightarrow>
             let st = (c\<lparr>c_wi := \<lparr>wi_buf = bytes, wi_error = 0, wi_open = True\<rparr>\<rparr>, x) in
             if \<not> co_thread_in os then (Some ''cannot start stdin writer thread'', st)
             else (None, alloc_slot STIn st))
        else (None, close_slot LStdinW st))"

definition launch_monitor :: "child_os \<Rightarrow> child_t \<times> 'x proc_ctx_scheme \<Rightarrow> string option \<times> child_t \<times> 'x proc_ctx_scheme" where
  "launch_monitor os st =
    (if \<not> co_event os then (Some ''cannot create child completion event'', st)
     else let st = alloc_slot SDoneEv st in
       if \<not> co_thread_monitor os then (Some ''cannot start child monitor thread'', st)
       else (None, alloc_slot SMonitor st))"

text \<open>Sequencing: the first error stops.\<close>

definition and_then :: "string option \<times> 's \<Rightarrow> ('s \<Rightarrow> string option \<times> 's) \<Rightarrow> string option \<times> 's" where
  "and_then m f = (case m of (Some e, st) \<Rightarrow> (Some e, st) | (None, st) \<Rightarrow> f st)"

text \<open>
  The cleanup at label \<^verbatim>\<open>fail\<close>. Threads are joined before their handle is closed; the writer thread
  closes \<^verbatim>\<open>wi.write\<close> when it ends.
\<close>

definition launch_fail :: "job_os \<Rightarrow> child_t \<times> 'x proc_ctx_scheme \<Rightarrow> 'x proc_ctx_scheme" where
  "launch_fail os st =
    (let (c, x) = st;
         (jp, cs) = (if c_slots c SProc \<noteq> None \<and> c_job c \<noteq> None
                     then snd (on_job False (\<lambda>j. wj_job_terminate os j 1) (c_job c)) else (c_job c, []));
         st = log_jobs jp cs (c, x);
         st = close_slots [LOutW, LErrW, LNul, LStdinR, LStdinW, SInW] st;
         st = close_slot SWrite st;
         (c, x) = close_slots [STIn, STOut, STErr, SMonitor, SProc, SDoneEv, SOutR, SErrR] st
     in (case c_job c of None \<Rightarrow> x | Some j \<Rightarrow> x\<lparr>x_jobs := x_jobs x @ wj_job_free j\<rparr>))"

text \<open>The result of a launch: message and code of the failure, or the child (registered when \<open>track\<close>).\<close>

definition launch_all :: "child_os \<Rightarrow> run_opts \<Rightarrow> cstr \<Rightarrow> cstr list \<Rightarrow> bool \<Rightarrow> child_t \<times> 'x proc_ctx_scheme
    \<Rightarrow> string option \<times> child_t \<times> 'x proc_ctx_scheme" where
  "launch_all os opts exe cargv stream st =
    and_then (and_then (and_then (and_then (and_then (launch_stdio os opts st)
      (launch_job os opts)) (launch_process os opts exe cargv stream)) (launch_drains os opts stream))
      (launch_stdin os opts)) (launch_monitor os)"

definition registry_add :: "child_t \<Rightarrow> 'x proc_ctx_scheme \<Rightarrow> 'x proc_ctx_scheme" where
  "registry_add c x = x\<lparr>x_counter := x_counter x + 1, x_children := c # x_children x\<rparr>"

definition child_launch :: "child_os \<Rightarrow> run_opts \<Rightarrow> cstr list \<Rightarrow> bool \<Rightarrow> bool \<Rightarrow> 'x proc_ctx_scheme
    \<Rightarrow> (string \<times> string + child_t) \<times> 'x proc_ctx_scheme" where
  "child_launch os opts cargv track stream x =
    (case resolve_exe (co_text os) (co_path os) (hd cargv) of
       None \<Rightarrow> (Inl (''command not found on PATH'', ''notfound''), x)
     | Some exe \<Rightarrow>
       if \<not> co_calloc os then (Inl (''out of memory'', ''launch''), x)
       else (case launch_all os opts exe cargv stream (new_child, x) of
           (Some e, st) \<Rightarrow> (Inl (e, ''launch''), launch_fail (co_job os) st)
         | (None, c, x) \<Rightarrow>
             if track then
               (let c = c\<lparr>c_token := ''child#'' @ dec_of_nat (x_counter x + 1)\<rparr> in (Inr c, registry_add c x))
             else (Inr c, x)))"

section \<open>Handle ownership\<close>

definition held :: "child_t \<Rightarrow> khandle set" where
  "held c = {h. \<exists>s. c_slots c s = Some h}"

definition chan_handles :: "'x proc_ctx_scheme \<Rightarrow> khandle set" where
  "chan_handles x = snd ` set (x_chans x)"

definition slots_inj :: "child_t \<Rightarrow> bool" where
  "slots_inj c \<longleftrightarrow> (\<forall>s t h. c_slots c s = Some h \<longrightarrow> c_slots c t = Some h \<longrightarrow> s = t)"

lemma slots_set [simp]: "c_slots (set_slot s h c) t = (if t = s then h else c_slots c t)"
  by (simp add: set_slot_def)

lemma heldI: "c_slots c s = Some h \<Longrightarrow> h \<in> held c"
  by (auto simp: held_def)

lemma heldE: "h \<in> held c \<Longrightarrow> (\<And>s. c_slots c s = Some h \<Longrightarrow> P) \<Longrightarrow> P"
  by (auto simp: held_def)

lemma slots_injD: "slots_inj c \<Longrightarrow> c_slots c s = Some h \<Longrightarrow> c_slots c t = Some h \<Longrightarrow> s = t"
  by (auto simp: slots_inj_def)

lemma held_set: "c_slots c s = None \<Longrightarrow> held (set_slot s (Some h) c) = insert h (held c)"
proof
  show "held (set_slot s (Some h) c) \<subseteq> insert h (held c)" by (auto simp: held_def split: if_splits)
  assume e: "c_slots c s = None"
  show "insert h (held c) \<subseteq> held (set_slot s (Some h) c)"
  proof
    fix g assume "g \<in> insert h (held c)"
    then consider "g = h" | t where "c_slots c t = Some g" by (auto elim: heldE)
    then show "g \<in> held (set_slot s (Some h) c)"
    proof cases
      case 1
      then show ?thesis by (intro heldI [of _ s]) simp
    next
      case (2 t)
      then show ?thesis using e by (intro heldI [of _ t]) auto
    qed
  qed
qed

lemma inj_set: "slots_inj c \<Longrightarrow> h \<notin> held c \<Longrightarrow> slots_inj (set_slot s (Some h) c)"
  unfolding slots_inj_def by (auto intro: heldI split: if_splits)

lemma held_clear: "slots_inj c \<Longrightarrow> c_slots c s = Some h \<Longrightarrow> held (set_slot s None c) = held c - {h}"
proof
  assume i: "slots_inj c" and h: "c_slots c s = Some h"
  show "held (set_slot s None c) \<subseteq> held c - {h}"
  proof
    fix g assume "g \<in> held (set_slot s None c)"
    then obtain t where t: "c_slots c t = Some g" "t \<noteq> s" by (auto elim!: heldE split: if_splits)
    then show "g \<in> held c - {h}" using slots_injD [OF i h, of t] by (auto intro: heldI)
  qed
  show "held c - {h} \<subseteq> held (set_slot s None c)"
  proof
    fix g assume "g \<in> held c - {h}"
    then obtain t where t: "c_slots c t = Some g" "g \<noteq> h" by (auto elim: heldE)
    then show "g \<in> held (set_slot s None c)" using h by (intro heldI [of _ t]) auto
  qed
qed

lemma inj_clear: "slots_inj c \<Longrightarrow> slots_inj (set_slot s None c)"
  by (auto simp: slots_inj_def split: if_splits)

lemma held_not: "slots_inj c \<Longrightarrow> c_slots c s = Some h \<Longrightarrow> h \<notin> held (set_slot s None c)"
  by (simp add: held_clear)

text \<open>
  The open handles are exactly those of the child's variables, those of Tcl's channels, and the
  handles \<open>B\<close> of everything else; no two variables hold the same handle.
\<close>

definition own :: "khandle set \<Rightarrow> child_t \<times> 'x proc_ctx_scheme \<Rightarrow> bool" where
  "own B st \<longleftrightarrow> (case st of (c, x) \<Rightarrow>
     wf_world (x_world x) \<and> slots_inj c \<and>
     distinct (map snd (x_chans x)) \<and> B \<inter> chan_handles x = {} \<and> held c \<inter> (B \<union> chan_handles x) = {} \<and>
     set (w_open (x_world x)) = B \<union> chan_handles x \<union> held c)"

text \<open>A variable is empty.\<close>

definition empty :: "child_t \<times> 'x proc_ctx_scheme \<Rightarrow> slot \<Rightarrow> bool" where
  "empty st s \<longleftrightarrow> c_slots (fst st) s = None"

lemma empty_alloc [simp]: "empty (alloc_slot s st) t \<longleftrightarrow> t \<noteq> s \<and> empty st t"
  by (cases st) (auto simp: empty_def alloc_slot_def set_slot_def open_handle_def)

lemma empty_close [simp]: "empty (close_slot s st) t \<longleftrightarrow> t = s \<or> empty st t"
  by (cases st) (auto simp: empty_def close_slot_def set_slot_def split: option.splits)

lemma empty_move: "a \<noteq> b \<Longrightarrow> empty (move_slot a b st) t \<longleftrightarrow> t = a \<or> (if t = b then empty st a else empty st t)"
  by (cases st) (auto simp: empty_def move_slot_def set_slot_def)

lemma empty_closes [simp]: "empty (close_slots ss st) t \<longleftrightarrow> t \<in> set ss \<or> empty st t"
  by (induction ss arbitrary: st) (auto simp: close_slots_def)

lemma empty_log [simp]: "empty (log_jobs jp cs st) t \<longleftrightarrow> empty st t"
  by (cases st) (simp add: empty_def log_jobs_def)

lemma own_alloc:
  assumes "own B st" "empty st s"
  shows "own B (alloc_slot s st)"
proof -
  obtain c x where st: "st = (c, x)" by fastforce
  obtain h w where h: "open_handle (x_world x) = (h, w)" by fastforce
  have i: "wf_world (x_world x)" "slots_inj c" "distinct (map snd (x_chans x))" "B \<inter> chan_handles x = {}"
    "held c \<inter> (B \<union> chan_handles x) = {}" "set (w_open (x_world x)) = B \<union> chan_handles x \<union> held c"
    using assms(1) by (simp_all add: own_def st)
  note o = wf_open [OF i(1) h]
  have fresh: "h \<notin> B \<union> chan_handles x \<union> held c" using o i(6) by simp
  have e: "c_slots c s = None" using assms(2) by (simp add: empty_def st)
  have "alloc_slot s st = (set_slot s (Some h) c, x\<lparr>x_world := w\<rparr>)" by (simp add: alloc_slot_def st h)
  moreover have "chan_handles (x\<lparr>x_world := w\<rparr>) = chan_handles x" by (simp add: chan_handles_def)
  ultimately show ?thesis
    using o i fresh held_set [OF e] inj_set [OF i(2), of h s] by (auto simp: own_def)
qed

lemma own_close: "own B st \<Longrightarrow> own B (close_slot s st)"
proof -
  assume a: "own B st"
  obtain c x where st: "st = (c, x)" by fastforce
  have i: "wf_world (x_world x)" "slots_inj c" "distinct (map snd (x_chans x))" "B \<inter> chan_handles x = {}"
    "held c \<inter> (B \<union> chan_handles x) = {}" "set (w_open (x_world x)) = B \<union> chan_handles x \<union> held c"
    using a by (simp_all add: own_def st)
  show ?thesis
  proof (cases "c_slots c s")
    case None
    then show ?thesis using a by (simp add: close_slot_def st)
  next
    case (Some h)
    have h: "h \<in> held c" "h \<in> set (w_open (x_world x))" using heldI [OF Some] i(6) by auto
    have "close_slot s st = (set_slot s None c, x\<lparr>x_world := CloseHandle h (x_world x)\<rparr>)" by (simp add: close_slot_def st Some)
    moreover have "chan_handles (x\<lparr>x_world := CloseHandle h (x_world x)\<rparr>) = chan_handles x" by (simp add: chan_handles_def)
    moreover have "h \<notin> B \<union> chan_handles x" using i(5) h(1) by blast
    then have "set (w_open (x_world x)) - {h} = B \<union> chan_handles x \<union> (held c - {h})" using i(6) by blast
    moreover have "(held c - {h}) \<inter> (B \<union> chan_handles x) = {}" using i(5) by blast
    ultimately show ?thesis
      using i(3,4) wf_close [OF i(1) h(2)] held_clear [OF i(2) Some] inj_clear [OF i(2), of s] by (simp add: own_def)
  qed
qed

lemma own_closes: "own B st \<Longrightarrow> own B (close_slots ss st)"
proof (induction ss arbitrary: st)
  case (Cons s ss)
  then show ?case using own_close [OF Cons(2), of s] by (simp add: close_slots_def)
qed (simp add: close_slots_def)

text \<open>Updates of the child that leave its variables alone.\<close>

lemma own_child: "c_slots c' = c_slots c \<Longrightarrow> own B (c', x) \<longleftrightarrow> own B (c, x)"
  by (simp add: own_def held_def slots_inj_def)

lemma empty_child: "c_slots c' = c_slots c \<Longrightarrow> empty (c', x') t \<longleftrightarrow> empty (c, x) t"
  by (simp add: empty_def)

text \<open>One more handle, in a variable that was empty.\<close>

lemma own_extend:
  assumes "own B (c, x)" "wf_world (x_world x')" "x_chans x' = x_chans x" "c_slots c' = (c_slots c)(s := Some h)"
    "c_slots c s = None" "h \<notin> set (w_open (x_world x))" "set (w_open (x_world x')) = insert h (set (w_open (x_world x)))"
  shows "own B (c', x')"
proof -
  have i: "slots_inj c" "distinct (map snd (x_chans x))" "B \<inter> chan_handles x = {}"
    "held c \<inter> (B \<union> chan_handles x) = {}" "set (w_open (x_world x)) = B \<union> chan_handles x \<union> held c"
    using assms(1) by (simp_all add: own_def)
  have f: "h \<notin> B" "h \<notin> chan_handles x" "h \<notin> held c" using assms(6) i(5) by blast+
  let ?d = "set_slot s (Some h) c"
  have ch: "chan_handles x' = chan_handles x" by (simp add: chan_handles_def assms(3))
  have "held ?d = insert h (held c)" "slots_inj ?d" using held_set [OF assms(5)] inj_set [OF i(1) f(3)] by blast+
  moreover have "insert h (held c) \<inter> (B \<union> chan_handles x) = {}" using i(4) f by blast
  ultimately have "own B (?d, x')" using assms(2,3,7) i ch by (simp add: own_def)
  moreover have "c_slots c' = c_slots ?d" using assms(4) by (simp add: set_slot_def)
  ultimately show ?thesis using own_child by blast
qed

lemma own_move:
  assumes "own B st" "empty st b" "a \<noteq> b"
  shows "own B (move_slot a b st)"
proof -
  obtain c x where st: "st = (c, x)" by fastforce
  have e: "c_slots c b = None" using assms(2) by (simp add: empty_def st)
  show ?thesis
  proof (cases "c_slots c a")
    case None
    then have "c_slots (set_slot a None (set_slot b (c_slots c a) c)) = c_slots c" using e by (auto simp: fun_eq_iff)
    then show ?thesis using assms(1) by (simp add: own_def st move_slot_def held_def slots_inj_def)
  next
    case (Some h)
    have inj: "slots_inj c" using assms(1) by (simp add: own_def st)
    let ?d = "set_slot a None c"
    have eq: "c_slots (set_slot a None (set_slot b (c_slots c a) c)) = c_slots (set_slot b (Some h) ?d)"
      using assms(3) Some by (auto simp: fun_eq_iff)
    have "held (set_slot b (Some h) ?d) = held c"
      using held_set [of ?d b h] e assms(3) held_clear [OF inj Some] heldI [OF Some] by auto
    moreover have "slots_inj (set_slot b (Some h) ?d)"
      by (rule inj_set [OF inj_clear [OF inj] held_not [OF inj Some]])
    ultimately have "own B (set_slot b (Some h) ?d, x)" using assms(1) by (simp add: own_def st)
    then show ?thesis unfolding st move_slot_def prod.case using own_child [OF eq] by blast
  qed
qed

lemma own_log [simp]: "own B (log_jobs jp cs st) \<longleftrightarrow> own B st"
  by (cases st) (simp add: own_def log_jobs_def held_def chan_handles_def slots_inj_def)

lemma own_all_empty: "own B (c, x) \<Longrightarrow> (\<forall>s. empty (c, x) s) \<Longrightarrow> set (w_open (x_world x)) = B \<union> chan_handles x \<and> wf_world (x_world x)"
  by (auto simp: own_def empty_def held_def)

lemma own_new: "wf_world (x_world x) \<Longrightarrow> distinct (map snd (x_chans x)) \<Longrightarrow> B \<inter> chan_handles x = {} \<Longrightarrow>
    set (w_open (x_world x)) = B \<union> chan_handles x \<Longrightarrow> own B (new_child, x)"
  by (auto simp: own_def held_def new_child_def slots_inj_def)

section \<open>The stages of a launch keep ownership\<close>

abbreviation launch_slots :: "slot set" where
  "launch_slots \<equiv> {SOutR, LOutW, SErrR, LErrW, LStdinR, LStdinW, LNul}"

lemma launch_stdio_own:
  assumes "launch_stdio os opts st = (e, st')" "own B st" "\<forall>s. empty st s"
  shows "own B st' \<and> (\<forall>s. s \<notin> launch_slots \<longrightarrow> empty st' s) \<and>
    (o_stdin_obj opts = None \<and> \<not> o_channels opts \<or> o_inherit opts \<longrightarrow> empty st' LStdinW)"
  using assms
  by (auto simp: launch_stdio_def Let_def own_alloc split: if_splits prod.splits)

lemma launch_job_own:
  assumes "launch_job os opts st = (e, st')"
  shows "(own B st' \<longleftrightarrow> own B st) \<and> (\<forall>s. empty st' s \<longleftrightarrow> empty st s)"
  using assms
  by (auto simp: launch_job_def Let_def split: if_splits sum.splits prod.splits)

lemma launch_process_own:
  assumes "launch_process os opts exe cargv stream st = (e, st')" "own B st" "empty st SProc"
  shows "own B st' \<and> (\<forall>s. s \<noteq> SProc \<longrightarrow> empty st s \<longrightarrow> empty st' s) \<and> (e = None \<longrightarrow> (\<forall>s\<in>{LOutW, LErrW, LNul, LStdinR}. empty st' s))"
proof -
  obtain c x where st: "st = (c, x)" by fastforce
  obtain rooth cs1 where r: "wj_job_handle (x_root x) = (rooth, cs1)" by fastforce
  obtain jobh cs2 where j: "(case c_job c of None \<Rightarrow> (None, []) | Some j \<Rightarrow> wj_job_handle j) = (jobh, cs2)" by fastforce
  let ?x = "x\<lparr>x_jobs := x_jobs x @ cs1 @ cs2\<rparr>"
  let ?c = "c\<lparr>c_inherit := o_inherit opts, c_channels := o_channels opts, c_stream := stream\<rparr>"
  have base: "own B (?c, ?x)" using assms(2) by (simp add: st own_def held_def chan_handles_def slots_inj_def)
  show ?thesis
  proof (cases "argv_with_arg0 (co_argv os) opts cargv")
    case None
    then have "st' = (?c, ?x)" "e \<noteq> None" using assms(1) r j by (auto simp: launch_process_def st Let_def)
    then show ?thesis using base by (auto simp: st empty_def)
  next
    case (Some largv)
    obtain res w where l: "wj_launch (co_launch os) (Some exe) largv (o_dir opts) [rooth, jobh] (launch_io os opts ?c) False (o_env_block opts) (x_world x) = (res, w)"
      by fastforce
    have wf: "wf_world (x_world x)" using assms(2) by (simp add: own_def st)
    note la = wj_launch_launched [OF l wf]
    show ?thesis
    proof (cases res)
      case (Inl m)
      then have s: "st' = (?c, ?x\<lparr>x_world := w\<rparr>)" "e \<noteq> None" using assms(1) r j l Some by (auto simp: launch_process_def st Let_def)
      have "wf_world w" "set (w_open w) = set (w_open (x_world x))" using la Inl by (auto simp: launched_def)
      then have "own B st'" using base s(1) by (simp add: own_def held_def chan_handles_def)
      then show ?thesis using s by (auto simp: st empty_def)
    next
      case (Inr ph)
      obtain pid h where ph: "ph = (pid, h)" by fastforce
      define c1 where "c1 = (let c = set_slot SProc (Some h) (?c\<lparr>c_pid := pid\<rparr>)
        in if o_timeout_ms opts \<ge> 0 then c\<lparr>c_deadline := (co_tick os + nat (o_timeout_ms opts)) mod 2 ^ 64\<rparr> else c)"
      have s: "st' = close_slots [LOutW, LErrW, LNul, LStdinR] (c1, ?x\<lparr>x_world := w\<rparr>)" "e = None"
        using assms(1) r j l Some Inr ph by (simp_all add: launch_process_def st Let_def c1_def)
      have slots: "c_slots c1 = (c_slots c)(SProc := Some h)" by (simp add: c1_def set_slot_def Let_def)
      have w: "wf_world w" "set (w_open w) = insert h (set (w_open (x_world x)))" "w_next (x_world x) \<le> h"
        using la Inr ph by (auto simp: launched_def)
      have fresh: "h \<notin> set (w_open (x_world x))" using wf w(3) by (auto simp: wf_world_def)
      have "c_slots c SProc = None" using assms(3) by (simp add: st empty_def)
      then have "own B (c1, ?x\<lparr>x_world := w\<rparr>)"
        using own_extend [OF assms(2) [unfolded st], of "?x\<lparr>x_world := w\<rparr>" c1 SProc h] w slots fresh by simp
      then have "own B st'" unfolding s(1) by (rule own_closes)
      moreover have "\<forall>s. s \<noteq> SProc \<longrightarrow> empty st s \<longrightarrow> empty st' s" unfolding s(1) st empty_closes by (simp add: empty_def slots)
      moreover have "\<forall>s\<in>{LOutW, LErrW, LNul, LStdinR}. empty st' s" unfolding s(1) empty_closes by simp
      ultimately show ?thesis by blast
    qed
  qed
qed

lemma launch_drains_own:
  assumes "launch_drains os opts stream st = (e, st')" "own B st" "empty st STOut" "empty st STErr"
  shows "own B st' \<and> (\<forall>s. s \<notin> {STOut, STErr} \<longrightarrow> (empty st' s \<longleftrightarrow> empty st s))"
proof -
  obtain c x where st: "st = (c, x)" by fastforce
  define c1 where "c1 = c\<lparr>c_ro := fresh_reader CAPTURE_CAP, c_re := fresh_reader CAPTURE_CAP\<rparr>"
  have sl: "c_slots c1 = c_slots c" by (simp add: c1_def)
  have b: "own B (c1, x)" using own_child [OF sl] assms(2) st by blast
  have em: "empty (c1, x) s \<longleftrightarrow> empty st s" for s using empty_child [OF sl] st by blast
  have o: "own B (alloc_slot STOut (c1, x))" using own_alloc [OF b] em assms(3) by blast
  then have o2: "own B (alloc_slot STErr (alloc_slot STOut (c1, x)))" by (rule own_alloc) (simp add: em assms(4))
  have "st' \<in> {st, (c1, x), alloc_slot STOut (c1, x), alloc_slot STErr (alloc_slot STOut (c1, x))}"
    using assms(1) by (simp add: launch_drains_def st Let_def c1_def split: if_splits)
  then consider "st' = st" | "st' = (c1, x)" | "st' = alloc_slot STOut (c1, x)" | "st' = alloc_slot STErr (alloc_slot STOut (c1, x))" by blast
  then show ?thesis by cases (simp_all add: assms(2) b o o2 em)
qed

lemma launch_stdin_own:
  assumes "launch_stdin os opts st = (e, st')" "own B st" "empty st SInW" "empty st SWrite" "empty st STIn"
  shows "own B st' \<and> (\<forall>s. s \<notin> {SInW, SWrite, STIn} \<longrightarrow> empty st s \<longrightarrow> empty st' s) \<and>
    (e = None \<and> (o_stdin_obj opts = None \<and> \<not> o_channels opts \<or> o_inherit opts \<longrightarrow> empty st LStdinW) \<longrightarrow> empty st' LStdinW)"
proof -
  obtain c x where st: "st = (c, x)" by fastforce
  have m1: "own B (move_slot LStdinW SInW st)" and m2: "own B (move_slot LStdinW SWrite st)"
    using assms by (auto intro!: own_move)
  obtain c1 x1 where m: "move_slot LStdinW SWrite st = (c1, x1)" by fastforce
  have em: "empty (c1, x1) t \<longleftrightarrow> t = LStdinW \<or> (if t = SWrite then empty st LStdinW else empty st t)" for t
    using empty_move [of LStdinW SWrite st t] m by simp
  have b: "own B (c1\<lparr>c_wi := wi\<rparr>, x1)" "empty (c1\<lparr>c_wi := wi\<rparr>, x1) t \<longleftrightarrow> empty (c1, x1) t" for wi t
    using m2 m own_child [of "c1\<lparr>c_wi := wi\<rparr>" c1 B x1] by (simp_all add: empty_def)
  have o: "own B (alloc_slot STIn (c1\<lparr>c_wi := wi\<rparr>, x1))" for wi
    using assms(5) b em by (auto intro!: own_alloc)
  show ?thesis
    using assms m m1 b o em
    by (auto simp: launch_stdin_def Let_def empty_move own_close split: if_splits option.splits)
qed

lemma launch_monitor_own:
  assumes "launch_monitor os st = (e, st')" "own B st" "empty st SDoneEv" "empty st SMonitor"
  shows "own B st' \<and> (\<forall>s. s \<notin> {SDoneEv, SMonitor} \<longrightarrow> (empty st' s \<longleftrightarrow> empty st s))"
  using assms by (auto simp: launch_monitor_def Let_def own_alloc split: if_splits)

section \<open>A whole launch\<close>

abbreviation local_slots :: "slot set" where
  "local_slots \<equiv> {LOutW, LErrW, LNul, LStdinR, LStdinW}"

lemma and_then_None: "and_then m f = (None, st) \<longleftrightarrow> (\<exists>st1. m = (None, st1) \<and> f st1 = (None, st))"
  by (cases m; cases "fst m") (auto simp: and_then_def)

lemma and_then_Some: "and_then m f = (Some e, st) \<longleftrightarrow> m = (Some e, st) \<or> (\<exists>st1. m = (None, st1) \<and> f st1 = (Some e, st))"
  by (cases m; cases "fst m") (auto simp: and_then_def)

text \<open>The first part: everything up to the running process and its drains.\<close>

lemma launch_front_own:
  assumes "and_then (and_then (and_then (launch_stdio os opts st) (launch_job os opts)) (launch_process os opts exe cargv stream))
      (launch_drains os opts stream) = (e, st')" "own B st" "\<forall>s. empty st s"
  shows "own B st' \<and> (\<forall>s\<in>{STIn, SWrite, SDoneEv, SMonitor, SInW}. empty st' s) \<and>
    (e = None \<longrightarrow> (\<forall>s\<in>{LOutW, LErrW, LNul, LStdinR}. empty st' s) \<and>
      (o_stdin_obj opts = None \<and> \<not> o_channels opts \<or> o_inherit opts \<longrightarrow> empty st' LStdinW))"
proof -
  obtain e1 s1 where 1: "launch_stdio os opts st = (e1, s1)" by (rule prod.exhaust)
  note o1 = launch_stdio_own [OF 1 assms(2,3)]
  obtain e2 s2 where 2: "launch_job os opts s1 = (e2, s2)" by (rule prod.exhaust)
  note o2 = launch_job_own [OF 2, of B]
  obtain e3 s3 where 3: "launch_process os opts exe cargv stream s2 = (e3, s3)" by (rule prod.exhaust)
  have "own B s2" "empty s2 SProc" using o1 o2 by auto
  note o3 = launch_process_own [OF 3 this]
  obtain e4 s4 where 4: "launch_drains os opts stream s3 = (e4, s4)" by (rule prod.exhaust)
  have "own B s3" "empty s3 STOut" "empty s3 STErr" using o1 o2 o3 by auto
  note o4 = launch_drains_own [OF 4 this]
  have "and_then (and_then (and_then (e1, s1) (launch_job os opts)) (launch_process os opts exe cargv stream))
      (launch_drains os opts stream) = (e, st')" using assms(1) 1 by simp
  then consider "st' = s1" "e \<noteq> None" | "st' = s2" "e \<noteq> None" | "st' = s3" "e \<noteq> None" | "st' = s4" "e1 = None" "e2 = None" "e3 = None" "e = e4"
    using 2 3 4 by (cases e1; cases e2; cases e3; simp add: and_then_def) blast+
  then show ?thesis
  proof cases
    case 4
    have e: "\<forall>s\<in>{STIn, SWrite, SDoneEv, SMonitor, SInW}. empty s4 s"
      "o_stdin_obj opts = None \<and> \<not> o_channels opts \<or> o_inherit opts \<longrightarrow> empty s4 LStdinW"
      using o1 o2 o3 o4 by auto
    have "\<forall>s\<in>{LOutW, LErrW, LNul, LStdinR}. empty s4 s" using o3 4(4) o4 \<open>e3 = None\<close> by auto
    then show ?thesis using e o4 4(1) by blast
  qed (use o1 o2 o3 in auto)
qed

lemma launch_all_own:
  assumes "launch_all os opts exe cargv stream st = (e, st')" "own B st" "\<forall>s. empty st s"
  shows "own B st' \<and> (e = None \<longrightarrow> (\<forall>s\<in>local_slots. empty st' s))"
proof -
  obtain e1 s1 where 1: "and_then (and_then (and_then (launch_stdio os opts st) (launch_job os opts)) (launch_process os opts exe cargv stream))
      (launch_drains os opts stream) = (e1, s1)" by (rule prod.exhaust)
  note o1 = launch_front_own [OF 1 assms(2,3)]
  obtain e2 s2 where 2: "launch_stdin os opts s1 = (e2, s2)" by (rule prod.exhaust)
  have "own B s1" "empty s1 SInW" "empty s1 SWrite" "empty s1 STIn" using o1 by auto
  note o2 = launch_stdin_own [OF 2 this]
  obtain e3 s3 where 3: "launch_monitor os s2 = (e3, s3)" by (rule prod.exhaust)
  have "own B s2" "empty s2 SDoneEv" "empty s2 SMonitor" using o1 o2 by auto
  note o3 = launch_monitor_own [OF 3 this]
  have "and_then (and_then (e1, s1) (launch_stdin os opts)) (launch_monitor os) = (e, st')" using assms(1) 1 by (simp add: launch_all_def)
  then consider "st' = s1" "e \<noteq> None" | "st' = s2" "e \<noteq> None" | "st' = s3" "e1 = None" "e2 = None" "e = e3"
    using 2 3 by (cases e1; cases e2; simp add: and_then_def) blast+
  then show ?thesis
  proof cases
    case 3
    have "\<forall>s\<in>{LOutW, LErrW, LNul, LStdinR}. empty s3 s" using o1 o2 o3 3(2) by auto
    moreover have "empty s3 LStdinW" using o1 o2 o3 3(2,3) by auto
    ultimately show ?thesis using o3 3(1) by auto
  qed (use o1 o2 in auto)
qed

section \<open>Handles as lists\<close>

definition all_slots :: "slot list" where
  "all_slots = [SProc, SOutR, SErrR, STOut, STErr, STIn, SWrite, SDoneEv, SMonitor, SInW, LOutW, LErrW, LNul, LStdinR, LStdinW]"

lemma all_slots: "s \<in> set all_slots"
  by (cases s) (simp_all add: all_slots_def)

lemma distinct_slots: "distinct all_slots"
  by (simp add: all_slots_def)

definition slot_handles :: "child_t \<Rightarrow> khandle list" where
  "slot_handles c = List.map_filter (c_slots c) all_slots"

lemma set_filter_map: "set (List.map_filter f xs) = {y. \<exists>x\<in>set xs. f x = Some y}"
  by (induction xs) (auto simp: map_filter_simps split: option.split)

lemma set_slot_handles: "set (slot_handles c) = held c"
  using all_slots by (auto simp: slot_handles_def held_def set_filter_map)

lemma distinct_map_filter_iff:
  "distinct ss \<Longrightarrow> distinct (List.map_filter f ss) \<longleftrightarrow> (\<forall>s\<in>set ss. \<forall>t\<in>set ss. f s \<noteq> None \<longrightarrow> f s = f t \<longrightarrow> s = t)"
proof (induction ss)
  case (Cons s ss)
  show ?case
  proof (cases "f s")
    case None
    then show ?thesis using Cons by (auto simp: map_filter_simps)
  next
    case (Some h)
    have "h \<in> set (List.map_filter f ss) \<longleftrightarrow> (\<exists>t\<in>set ss. f t = Some h)" by (auto simp: set_filter_map)
    then show ?thesis using Cons Some by (auto simp: map_filter_simps)
  qed
qed (simp add: map_filter_simps)

lemma distinct_slot_handles: "distinct (slot_handles c) \<longleftrightarrow> slots_inj c"
  unfolding slot_handles_def distinct_map_filter_iff [OF distinct_slots] slots_inj_def using all_slots by (auto; metis)

text \<open>Ownership, with the handles of everything else listed.\<close>

definition owns :: "khandle list \<Rightarrow> child_t \<Rightarrow> 'x proc_ctx_scheme \<Rightarrow> bool" where
  "owns B c x \<longleftrightarrow> wf_world (x_world x) \<and> mset (w_open (x_world x)) = mset (B @ map snd (x_chans x) @ slot_handles c)"

lemma owns_own: "owns B c x \<longleftrightarrow> own (set B) (c, x) \<and> distinct B"
proof
  assume o: "owns B c x"
  then have w: "wf_world (x_world x)" and m: "mset (w_open (x_world x)) = mset (B @ map snd (x_chans x) @ slot_handles c)"
    by (simp_all add: owns_def)
  have d: "distinct (B @ map snd (x_chans x) @ slot_handles c)" using w mset_eq_imp_distinct_iff [OF m] by (simp add: wf_world_def)
  have s: "set (w_open (x_world x)) = set B \<union> chan_handles x \<union> held c"
    using mset_eq_setD [OF m] by (simp add: chan_handles_def set_slot_handles Un_assoc)
  have "held c \<inter> (set B \<union> chan_handles x) = {}" "set B \<inter> chan_handles x = {}"
    using d by (auto simp: chan_handles_def set_slot_handles)
  then show "own (set B) (c, x) \<and> distinct B" using w s d by (simp add: own_def distinct_slot_handles)
next
  assume o: "own (set B) (c, x) \<and> distinct B"
  then have i: "wf_world (x_world x)" "slots_inj c" "distinct (map snd (x_chans x))" "set B \<inter> chan_handles x = {}"
    "held c \<inter> (set B \<union> chan_handles x) = {}" "set (w_open (x_world x)) = set B \<union> chan_handles x \<union> held c" "distinct B"
    by (simp_all add: own_def)
  have d: "distinct (B @ map snd (x_chans x) @ slot_handles c)"
    using i(2,3,4,5,7) by (auto simp: distinct_slot_handles set_slot_handles chan_handles_def)
  have "set (w_open (x_world x)) = set (B @ map snd (x_chans x) @ slot_handles c)"
    using i(6) by (simp add: chan_handles_def set_slot_handles Un_assoc)
  then show "owns B c x" using set_eq_iff_mset_eq_distinct [OF _ d, of "w_open (x_world x)"] i(1) by (simp add: owns_def wf_world_def)
qed

lemma slot_handles_empty: "(\<forall>s. c_slots c s = None) \<Longrightarrow> slot_handles c = []"
  by (simp add: slot_handles_def all_slots_def map_filter_simps)

text \<open>The registry: the open handles are those of the listed children, of Tcl's channels, and of the rest \<open>B\<close>.\<close>

definition registry_owns :: "khandle list \<Rightarrow> 'x proc_ctx_scheme \<Rightarrow> bool" where
  "registry_owns B x \<longleftrightarrow> wf_world (x_world x) \<and>
     mset (w_open (x_world x)) = mset (B @ map snd (x_chans x) @ concat (map slot_handles (x_children x)))"

lemma owns_mset: "mset B = mset B' \<Longrightarrow> owns B c x \<longleftrightarrow> owns B' c x"
  by (simp add: owns_def)

lemma registry_take:
  "x_children x = as @ c # bs \<Longrightarrow> registry_owns B x \<longleftrightarrow> owns (B @ concat (map slot_handles (as @ bs))) c x"
  by (simp add: registry_owns_def owns_def ac_simps)

lemma registry_none: "registry_owns B x \<longleftrightarrow> owns (B @ concat (map slot_handles (x_children x))) new_child x"
  by (simp add: registry_owns_def owns_def ac_simps slot_handles_empty new_child_def)

section \<open>Failure closes everything\<close>

lemma launch_fail_own: "own B st \<Longrightarrow> own B (new_child, launch_fail os st)"
proof -
  assume o: "own B st"
  define st1 where "st1 = (case st of (c, x) \<Rightarrow>
    let (jp, cs) = (if c_slots c SProc \<noteq> None \<and> c_job c \<noteq> None
                    then snd (on_job False (\<lambda>j. wj_job_terminate os j 1) (c_job c)) else (c_job c, []))
    in log_jobs jp cs (c, x))"
  define st2 where "st2 = close_slots [STIn, STOut, STErr, SMonitor, SProc, SDoneEv, SOutR, SErrR]
      (close_slot SWrite (close_slots [LOutW, LErrW, LNul, LStdinR, LStdinW, SInW] st1))"
  obtain c x where s2: "st2 = (c, x)" by (rule prod.exhaust)
  have "own B st1" using o by (auto simp: st1_def split: prod.splits)
  then have o2: "own B (c, x)" unfolding s2 [symmetric] st2_def by (intro own_closes own_close)
  have "empty st2 s" for s unfolding st2_def by (cases s) simp_all
  then have e: "\<forall>s. c_slots c s = None" by (simp add: s2 empty_def)
  have f: "launch_fail os st = (case c_job c of None \<Rightarrow> x | Some j \<Rightarrow> x\<lparr>x_jobs := x_jobs x @ wj_job_free j\<rparr>)"
    using s2 by (auto simp: launch_fail_def st1_def st2_def Let_def split: prod.splits option.splits)
  have "held c = {}" "held new_child = {}" "slots_inj new_child" using e by (simp_all add: held_def new_child_def slots_inj_def)
  then show ?thesis using o2 unfolding f by (auto simp: own_def chan_handles_def split: option.split)
qed

text \<open>A launch touches neither the registry nor the channels.\<close>

definition frame :: "child_t \<times> 'x proc_ctx_scheme \<Rightarrow> child_t \<times> 'x proc_ctx_scheme \<Rightarrow> bool" where
  "frame st st' \<longleftrightarrow> x_children (snd st') = x_children (snd st) \<and> x_counter (snd st') = x_counter (snd st) \<and>
     x_root (snd st') = x_root (snd st) \<and> x_chans (snd st') = x_chans (snd st) \<and>
     c_reaped (fst st') = c_reaped (fst st) \<and> c_done (fst st') = c_done (fst st) \<and> c_thr (fst st') = c_thr (fst st)"

lemma frame_refl [simp]: "frame st st"
  by (simp add: frame_def)

lemma frame_alloc [simp]: "frame st (alloc_slot s st') \<longleftrightarrow> frame st st'"
  by (cases st') (simp add: frame_def alloc_slot_def set_slot_def split: prod.split)

lemma frame_close [simp]: "frame st (close_slot s st') \<longleftrightarrow> frame st st'"
  by (cases st') (simp add: frame_def close_slot_def set_slot_def split: option.split)

lemma frame_closes [simp]: "frame st (close_slots ss st') \<longleftrightarrow> frame st st'"
  by (induction ss arbitrary: st') (simp_all add: close_slots_def)

lemma frame_move [simp]: "frame st (move_slot a b st') \<longleftrightarrow> frame st st'"
  by (cases st') (simp add: frame_def move_slot_def set_slot_def)

lemma frame_log [simp]: "frame st (log_jobs jp cs st') \<longleftrightarrow> frame st st'"
  by (cases st') (simp add: frame_def log_jobs_def)

lemma frame_stdio: "launch_stdio os opts st = (e, st') \<Longrightarrow> frame st st'"
  by (auto simp: launch_stdio_def Let_def split: if_splits prod.splits)

lemma frame_job: "launch_job os opts st = (e, st') \<Longrightarrow> frame st st'"
  by (auto simp: launch_job_def Let_def split: if_splits prod.splits sum.splits)

lemma frame_pair: "frame (c, x) (c', x') \<longleftrightarrow> x_children x' = x_children x \<and> x_counter x' = x_counter x \<and>
    x_root x' = x_root x \<and> x_chans x' = x_chans x \<and> c_reaped c' = c_reaped c \<and> c_done c' = c_done c \<and> c_thr c' = c_thr c"
  by (simp add: frame_def)

lemma frame_process: "launch_process os opts exe cargv stream st = (e, st') \<Longrightarrow> frame st st'"
  by (cases st)
    (auto simp: launch_process_def Let_def frame_pair set_slot_def split: prod.splits option.splits sum.splits if_splits)

lemma frame_drains: "launch_drains os opts stream st = (e, st') \<Longrightarrow> frame st st'"
  by (cases st) (auto simp: launch_drains_def Let_def frame_pair split: if_splits)

lemma frame_stdin: "launch_stdin os opts st = (e, st') \<Longrightarrow> frame st st'"
proof -
  assume l: "launch_stdin os opts st = (e, st')"
  obtain c x where m: "move_slot LStdinW SWrite st = (c, x)" by (rule prod.exhaust)
  have "frame st (c, x)" unfolding m [symmetric] by simp
  then have "frame st (c\<lparr>c_wi := wi\<rparr>, x)" for wi by (simp add: frame_def)
  then show ?thesis using l by (auto simp: launch_stdin_def Let_def m split: if_splits option.splits)
qed

lemma frame_monitor: "launch_monitor os st = (e, st') \<Longrightarrow> frame st st'"
  by (auto simp: launch_monitor_def Let_def split: if_splits)

lemma frame_fail: "frame (c, x) (c, launch_fail os (c, x))"
proof -
  define st1 where "st1 = log_jobs (fst (if c_slots c SProc \<noteq> None \<and> c_job c \<noteq> None
                    then snd (on_job False (\<lambda>j. wj_job_terminate os j 1) (c_job c)) else (c_job c, [])))
     (snd (if c_slots c SProc \<noteq> None \<and> c_job c \<noteq> None
                    then snd (on_job False (\<lambda>j. wj_job_terminate os j 1) (c_job c)) else (c_job c, []))) (c, x)"
  obtain c2 x2 where s2: "close_slots [STIn, STOut, STErr, SMonitor, SProc, SDoneEv, SOutR, SErrR]
      (close_slot SWrite (close_slots [LOutW, LErrW, LNul, LStdinR, LStdinW, SInW] st1)) = (c2, x2)" by (rule prod.exhaust)
  have "frame (c, x) (c2, x2)" unfolding s2 [symmetric] by (simp add: st1_def)
  then have "x_children x2 = x_children x" "x_counter x2 = x_counter x" "x_root x2 = x_root x" "x_chans x2 = x_chans x"
    by (simp_all add: frame_pair)
  moreover have "launch_fail os (c, x) = (case c_job c2 of None \<Rightarrow> x2 | Some j \<Rightarrow> x2\<lparr>x_jobs := x_jobs x2 @ wj_job_free j\<rparr>)"
    using s2 by (auto simp: launch_fail_def st1_def Let_def split: prod.splits option.splits)
  ultimately show ?thesis by (auto simp: frame_pair split: option.split)
qed

lemma frame_then:
  assumes "\<And>e st'. m = (e, st') \<Longrightarrow> frame st st'" "\<And>s e st'. f s = (e, st') \<Longrightarrow> frame s st'" "and_then m f = (e, st')"
  shows "frame st st'"
proof (cases m rule: prod.exhaust [case_names Pair])
  case (Pair e1 s1)
  show ?thesis
  proof (cases e1)
    case None
    then have "f s1 = (e, st')" using assms(3) Pair by (simp add: and_then_def)
    then show ?thesis using assms(1,2) Pair None unfolding frame_def by (cases "f s1") metis
  next
    case (Some m)
    then show ?thesis using assms(1,3) Pair by (simp add: and_then_def)
  qed
qed

lemma frame_launch: "launch_all os opts exe cargv stream st = (e, st') \<Longrightarrow> frame st st'"
  unfolding launch_all_def
  by (erule frame_then [rotated 2]; (erule frame_monitor)?)
    (erule frame_then [rotated 2]; (erule frame_stdin)?;
      erule frame_then [rotated 2]; (erule frame_drains)?;
      erule frame_then [rotated 2]; (erule frame_process)?;
      erule frame_then [rotated 2]; (erule frame_job)?; erule frame_stdio)

text \<open>The modes of a child, and what they say about its drains.\<close>

definition modes :: "child_t \<times> 'x proc_ctx_scheme \<Rightarrow> bool \<times> bool \<times> bool" where
  "modes st = (c_stream (fst st), c_channels (fst st), c_inherit (fst st))"

lemma modes_simps [simp]:
  "modes (alloc_slot s st) = modes st" "modes (close_slot s st) = modes st" "modes (move_slot a b st) = modes st"
  by (cases st; simp add: modes_def alloc_slot_def close_slot_def move_slot_def set_slot_def split: prod.split option.split)+

lemma modes_closes [simp]: "modes (close_slots ss st) = modes st"
  by (induction ss arbitrary: st) (simp_all add: close_slots_def)

lemma modes_child: "c_stream c' = c_stream c \<Longrightarrow> c_channels c' = c_channels c \<Longrightarrow> c_inherit c' = c_inherit c \<Longrightarrow>
    modes (c', x') = modes (c, x)"
  by (simp add: modes_def)

lemma process_modes: "launch_process os opts exe cargv stream st = (None, st') \<Longrightarrow> modes st' = (stream, o_channels opts, o_inherit opts)"
  by (cases st) (auto simp: launch_process_def Let_def modes_def [of "(c, x)" for c x] set_slot_def
    split: prod.splits option.splits sum.splits if_splits)

lemma drains_modes:
  assumes "launch_drains os opts stream st = (None, st')" "modes st = (stream, o_channels opts, o_inherit opts)" "empty st STOut" "empty st STErr"
  shows "modes st' = modes st \<and> (stream \<or> o_channels opts \<or> o_inherit opts \<longrightarrow> empty st' STOut \<and> empty st' STErr)"
proof -
  obtain c x where st: "st = (c, x)" by (rule prod.exhaust)
  define c1 where "c1 = c\<lparr>c_ro := fresh_reader CAPTURE_CAP, c_re := fresh_reader CAPTURE_CAP\<rparr>"
  have m: "modes (c1, x) = modes st" unfolding st by (rule modes_child) (simp_all add: c1_def)
  have e: "empty (c1, x) s \<longleftrightarrow> empty st s" for s unfolding st by (rule empty_child) (simp add: c1_def)
  consider "st' = st" "o_channels opts \<or> o_inherit opts" | "st' = (c1, x)" "stream"
    | "st' = alloc_slot STErr (alloc_slot STOut (c1, x))" "\<not> stream" "\<not> o_channels opts" "\<not> o_inherit opts"
    using assms(1) by (auto simp: launch_drains_def st c1_def Let_def split: if_splits)
  then show ?thesis by cases (simp_all add: m e assms)
qed

lemma stdin_modes:
  assumes "launch_stdin os opts st = (None, st')" "empty st SWrite"
  shows "modes st' = modes st \<and> (\<forall>s\<in>{STOut, STErr}. empty st s \<longrightarrow> empty st' s) \<and> (empty st' SWrite \<or> \<not> empty st' STIn)"
proof -
  obtain c x where m: "move_slot LStdinW SWrite st = (c, x)" by (rule prod.exhaust)
  let ?w = "\<lambda>wi. (c\<lparr>c_wi := wi\<rparr>, x)"
  have md: "modes (?w wi) = modes st" for wi using modes_simps(3) [of LStdinW SWrite st] modes_child [of "c\<lparr>c_wi := wi\<rparr>" c x x] m by simp
  have em: "empty (?w wi) s \<longleftrightarrow> empty (move_slot LStdinW SWrite st) s" for wi s unfolding m by (rule empty_child) simp
  consider "st' = move_slot LStdinW SInW st" | "st' = st" | wi where "st' = alloc_slot STIn (?w wi)" | "st' = close_slot LStdinW st"
    using assms(1) m by (auto simp: launch_stdin_def Let_def split: if_splits option.splits)
  then show ?thesis by cases (auto simp: md em empty_move assms(2))
qed

lemma monitor_modes: "launch_monitor os st = (None, st') \<Longrightarrow> modes st' = modes st"
  by (auto simp: launch_monitor_def Let_def split: if_splits)

lemma launch_all_modes:
  assumes "launch_all os opts exe cargv stream st = (None, st')" "own B st" "\<forall>s. empty st s"
  shows "(fst (modes st') \<or> fst (snd (modes st')) \<or> snd (snd (modes st')) \<longrightarrow> empty st' STOut \<and> empty st' STErr) \<and>
    (empty st' SWrite \<or> \<not> empty st' STIn)"
proof -
  obtain s5 s4 s3 s2 s1 where l: "launch_stdio os opts st = (None, s1)" "launch_job os opts s1 = (None, s2)"
    "launch_process os opts exe cargv stream s2 = (None, s3)" "launch_drains os opts stream s3 = (None, s4)"
    "launch_stdin os opts s4 = (None, s5)" "launch_monitor os s5 = (None, st')"
    using assms(1) unfolding launch_all_def and_then_None by blast
  note o1 = launch_stdio_own [OF l(1) assms(2,3)]
  note o2 = launch_job_own [OF l(2), of B]
  have "own B s2" "empty s2 SProc" using o1 o2 by auto
  note o3 = launch_process_own [OF l(3) this]
  have e3: "own B s3" "empty s3 STOut" "empty s3 STErr" using o1 o2 o3 by auto
  note m3 = process_modes [OF l(3)]
  note m4 = drains_modes [OF l(4) m3 e3(2,3)]
  note o4 = launch_drains_own [OF l(4) e3]
  have e4: "own B s4" "empty s4 SInW" "empty s4 SWrite" "empty s4 STIn" using o1 o2 o3 o4 by auto
  note m5 = stdin_modes [OF l(5) e4(3)]
  note o5 = launch_stdin_own [OF l(5) e4]
  have "own B s5" "empty s5 SDoneEv" "empty s5 SMonitor" using o1 o2 o3 o4 o5 by auto
  note o6 = launch_monitor_own [OF l(6) this]
  show ?thesis using m3 m4 m5 o6 monitor_modes [OF l(6)] by auto
qed

text \<open>
  The ledger after a launch: nothing new is open after a failure; after a success exactly the child's
  variables are, the launcher's locals being empty, and only an own thread holds the writer's handle.
\<close>

definition ready_child :: "child_t \<Rightarrow> bool" where
  "ready_child c \<longleftrightarrow> (\<forall>s\<in>local_slots. c_slots c s = None) \<and> \<not> c_reaped c \<and> \<not> c_done c \<and> (\<forall>s. \<not> t_ended (c_thr c) s) \<and>
     (c_slots c SWrite \<noteq> None \<longrightarrow> c_slots c STIn \<noteq> None) \<and>
     (c_stream c \<or> c_channels c \<or> c_inherit c \<longrightarrow> c_slots c STOut = None \<and> c_slots c STErr = None)"

lemma owns_token [simp]: "owns B (c\<lparr>c_token := t\<rparr>) x \<longleftrightarrow> owns B c x"
  by (simp add: owns_def slot_handles_def)

lemma ready_token [simp]: "ready_child (c\<lparr>c_token := t\<rparr>) \<longleftrightarrow> ready_child c"
  by (simp add: ready_child_def)

lemma owns_add: "owns B c (registry_add d x) \<longleftrightarrow> owns B c x"
  by (simp add: owns_def registry_add_def)

lemma child_launch_own:
  assumes "child_launch os opts cargv track stream x = (r, x')" "owns B new_child x"
  shows "(case r of
      Inl e \<Rightarrow> owns B new_child x' \<and> x_children x' = x_children x \<and> x_counter x' = x_counter x
    | Inr c \<Rightarrow> owns B c x' \<and> ready_child c \<and>
        (if track then x_children x' = c # x_children x \<and> x_counter x' = x_counter x + 1 \<and> c_token c = ''child#'' @ dec_of_nat (x_counter x + 1)
         else x_children x' = x_children x \<and> x_counter x' = x_counter x)) \<and> x_root x' = x_root x \<and> x_chans x' = x_chans x"
proof (cases "resolve_exe (co_text os) (co_path os) (hd cargv) = None \<or> \<not> co_calloc os")
  case True
  then show ?thesis using assms by (auto simp: child_launch_def split: option.splits)
next
  case False
  then obtain exe where exe: "resolve_exe (co_text os) (co_path os) (hd cargv) = Some exe" "co_calloc os" by auto
  obtain e c1 x1 where l: "launch_all os opts exe cargv stream (new_child, x) = (e, c1, x1)" by (rule prod_cases3)
  have new: "\<forall>s. empty (new_child, x) s" by (simp add: empty_def new_child_def)
  have o: "own (set B) (new_child, x)" "distinct B" using assms(2) by (simp_all add: owns_own)
  note la = launch_all_own [OF l o(1) new]
  have fr: "frame (new_child, x) (c1, x1)" by (rule frame_launch [OF l])
  show ?thesis
  proof (cases e)
    case (Some m)
    then have r: "r = Inl (m, ''launch'')" "x' = launch_fail (co_job os) (c1, x1)" using assms(1) exe l by (auto simp: child_launch_def)
    have "frame (c1, x1) (c1, launch_fail (co_job os) (c1, x1))" by (simp add: frame_fail)
    then show ?thesis using r launch_fail_own [of "set B" "(c1, x1)"] la o(2) fr by (simp add: owns_own frame_pair)
  next
    case None
    have c: "owns B c1 x1" using la None o(2) by (simp add: owns_own)
    moreover have "ready_child c1"
      using la None fr launch_all_modes [OF l [unfolded None] o(1) new]
      by (auto simp: ready_child_def empty_def frame_pair new_child_def modes_def)
    note c = c this
    show ?thesis
    proof (cases track)
      case True
      then have "r = Inr (c1\<lparr>c_token := ''child#'' @ dec_of_nat (x_counter x1 + 1)\<rparr>)"
        "x' = registry_add (c1\<lparr>c_token := ''child#'' @ dec_of_nat (x_counter x1 + 1)\<rparr>) x1"
        using assms(1) exe l None by (auto simp: child_launch_def Let_def)
      then show ?thesis using True c fr by (simp add: owns_add frame_pair) (simp add: registry_add_def)
    next
      case False
      then have "r = Inr c1" "x' = x1" using assms(1) exe l None by (auto simp: child_launch_def)
      then show ?thesis using False c fr by (simp add: frame_pair)
    qed
  qed
qed

end
