(* ===== verification/Reap.thy ===== *)
theory Reap
  imports Child
begin

text \<open>
  The later life of a supervised child (\<^verbatim>\<open>src/proc.c\<close>): its threads at work between two commands,
  \<^verbatim>\<open>child_channels\<close>, \<^verbatim>\<open>child_channels_free\<close>, \<^verbatim>\<open>child_reap\<close>, \<^verbatim>\<open>child_dict_ex\<close>,
  \<^verbatim>\<open>child_dict\<close>, \<^verbatim>\<open>child_free\<close> and \<^verbatim>\<open>child_pump\<close>.
\<close>

section \<open>The threads of a child\<close>

text \<open>
  What the threads meet while the interpreter is elsewhere or waits: answers to the reads of both
  drains, to the writes of the stdin writer, and the turns of the monitor.
\<close>

record thread_obs =
  ob_out :: "read_res list"
  ob_err :: "read_res list"
  ob_in :: "(bool \<times> write_res) list"
  ob_mon :: "mon_turn list"

definition ended :: "child_t \<Rightarrow> slot \<Rightarrow> bool" where
  "ended c s \<longleftrightarrow> t_ended (c_thr c) s"

definition set_ended :: "slot \<Rightarrow> bool \<Rightarrow> child_t \<Rightarrow> child_t" where
  "set_ended s e c = c\<lparr>c_thr := (c_thr c)\<lparr>t_ended := (t_ended (c_thr c))(s := e)\<rparr>\<rparr>"

definition running :: "child_t \<Rightarrow> slot \<Rightarrow> bool" where
  "running c s \<longleftrightarrow> c_slots c s \<noteq> None \<and> \<not> ended c s"

text \<open>The drains continue where they stopped.\<close>

definition readers_run :: "thread_obs \<Rightarrow> child_t \<Rightarrow> child_t" where
  "readers_run obs c =
    (let c = (if running c STOut then (case reader_thread (ob_out obs) (c_ro c) of (r, e) \<Rightarrow> set_ended STOut e (c\<lparr>c_ro := r\<rparr>)) else c)
     in if running c STErr then (case reader_thread (ob_err obs) (c_re c) of (r, e) \<Rightarrow> set_ended STErr e (c\<lparr>c_re := r\<rparr>)) else c)"

text \<open>The writer too; it closes its handle when it ends.\<close>

definition writer_run :: "thread_obs \<Rightarrow> child_t \<times> 'x proc_ctx_scheme \<Rightarrow> child_t \<times> 'x proc_ctx_scheme" where
  "writer_run obs = (\<lambda>(c, x).
    if running c STIn then
      (case writer_loop (ob_in obs) (t_off (c_thr c)) (t_out (c_thr c)) (c_wi c) of
         (w, out, e) \<Rightarrow>
           let c = set_ended STIn e (c\<lparr>c_wi := w, c_thr := (c_thr c)\<lparr>t_off := length out, t_out := out\<rparr>\<rparr>)
           in if e then close_slot SWrite (c\<lparr>c_wi := w\<lparr>wi_open := False\<rparr>\<rparr>, x) else (c, x))
    else (c, x))"

text \<open>The monitor. It sees another thread as signalled only once that thread has ended.\<close>

definition seen_turn :: "child_t \<Rightarrow> mon_turn \<Rightarrow> mon_turn" where
  "seen_turn c t = t\<lparr>tn_in := tn_in t \<and> ended c STIn, tn_out := tn_out t \<and> ended c STOut, tn_err := tn_err t \<and> ended c STErr\<rparr>"

definition monitor_run :: "thread_obs \<Rightarrow> child_t \<times> 'x proc_ctx_scheme \<Rightarrow> child_t \<times> 'x proc_ctx_scheme" where
  "monitor_run obs = (\<lambda>(c, x).
    if running c SMonitor then
      (let m = child_monitor_thread (map (seen_turn c) (ob_mon obs))
                 \<lparr>m_child = c, m_direct = t_direct (c_thr c), m_failed = t_failed (c_thr c), m_calls = []\<rparr>;
           d = m_child m
       in (d\<lparr>c_thr := (c_thr d)\<lparr>t_direct := m_direct m, t_failed := m_failed m,
               t_ended := (t_ended (c_thr d))(SMonitor := c_done d)\<rparr>\<rparr>, x\<lparr>x_jobs := x_jobs x @ m_calls m\<rparr>))
    else (c, x))"

definition threads_run :: "thread_obs \<Rightarrow> child_t \<times> 'x proc_ctx_scheme \<Rightarrow> child_t \<times> 'x proc_ctx_scheme" where
  "threads_run obs st = (case st of (c, x) \<Rightarrow> monitor_run obs (writer_run obs (readers_run obs c, x)))"

section \<open>Channels\<close>

text \<open>
  Names \<^verbatim>\<open>Tcl_MakeFileChannel\<close> gives to the three channels (\<open>None\<close>: it fails) and the outcome of the
  four \<^verbatim>\<open>Tcl_SetChannelOption\<close> calls. Unregistering the last reference closes the channel with its handle.
\<close>

record chan_os =
  ca_in :: "string option"
  ca_out :: "string option"
  ca_err :: "string option"
  ca_options :: "bool list"

definition register_chan :: "string \<Rightarrow> slot \<Rightarrow> child_t \<times> 'x proc_ctx_scheme \<Rightarrow> child_t \<times> 'x proc_ctx_scheme" where
  "register_chan n s = (\<lambda>(c, x). case c_slots c s of
     None \<Rightarrow> (c, x)
   | Some h \<Rightarrow> (set_slot s None c, x\<lparr>x_chans := (n, h) # x_chans x\<rparr>))"

definition unregister_chan :: "string \<Rightarrow> 'x proc_ctx_scheme \<Rightarrow> 'x proc_ctx_scheme" where
  "unregister_chan n x =
    (case List.find (\<lambda>e. fst e = n) (x_chans x) of
       None \<Rightarrow> x
     | Some e \<Rightarrow> x\<lparr>x_chans := remove1 e (x_chans x), x_world := CloseHandle (snd e) (x_world x)\<rparr>)"

definition unregister_all :: "string list \<Rightarrow> child_t \<times> 'x proc_ctx_scheme \<Rightarrow> child_t \<times> 'x proc_ctx_scheme" where
  "unregister_all ns = (\<lambda>(c, x). (c\<lparr>c_chIn := [], c_chOut := [], c_chErr := []\<rparr>, fold unregister_chan ns x))"

definition CHAN_NAME :: nat where "CHAN_NAME = 23"

definition child_channels :: "chan_os \<Rightarrow> child_t \<times> 'x proc_ctx_scheme \<Rightarrow> bool \<times> child_t \<times> 'x proc_ctx_scheme" where
  "child_channels os st =
    (case ca_in os of None \<Rightarrow> (False, st)
     | Some ci \<Rightarrow> (case register_chan ci SInW st of (c, x) \<Rightarrow>
         let st = (c\<lparr>c_chIn := c_prefix CHAN_NAME ci\<rparr>, x) in
         case ca_out os of None \<Rightarrow> (False, unregister_all [ci] st)
         | Some co \<Rightarrow> (case register_chan co SOutR st of (c, x) \<Rightarrow>
             let st = (c\<lparr>c_chOut := c_prefix CHAN_NAME co\<rparr>, x) in
             case ca_err os of None \<Rightarrow> (False, unregister_all [ci, co] st)
             | Some ce \<Rightarrow> (case register_chan ce SErrR st of (c, x) \<Rightarrow>
                 let st = (c\<lparr>c_chErr := c_prefix CHAN_NAME ce\<rparr>, x) in
                 if \<not> list_all id (ca_options os) then (False, unregister_all [ci, co, ce] st)
                 else (True, st)))))"

text \<open>Closing whatever the script has not closed.\<close>

definition child_channels_free :: "child_t \<times> 'x proc_ctx_scheme \<Rightarrow> child_t \<times> 'x proc_ctx_scheme" where
  "child_channels_free st =
    (case st of (c, x) \<Rightarrow>
      if \<not> c_channels c then st
      else unregister_all (List.filter (\<lambda>n. n \<noteq> []) [c_chIn c, c_chOut c, c_chErr c]) st)"

section \<open>Reaping\<close>

text \<open>
  What a wait for a child meets: whether the wait for the completion event fails, what the threads do
  until it ends, and the threads whose join fails.
\<close>

record reap_os =
  rp_failed :: bool
  rp_obs :: thread_obs
  rp_join_failed :: "slot \<Rightarrow> bool"

text \<open>\<open>ReapBlocked\<close>: with these observations the call has not returned.\<close>

datatype reap = ReapDone | ReapRunning | ReapFailed string | ReapBlocked

definition io_error :: "bool \<Rightarrow> child_t \<Rightarrow> string option" where
  "io_error join_failed c =
    (if join_failed then Some ''joining child I/O thread failed''
     else if c_monitor_failed c then Some ''child monitor failed''
     else if rd_error (c_ro c) \<noteq> 0 \<or> rd_error (c_re c) \<noteq> 0 then Some ''reading child output failed''
     else if wi_error (c_wi c) \<noteq> 0 \<and> \<not> c_killed c then Some ''writing child input failed''
     else None)"

definition join_slots :: "slot list" where
  "join_slots = [SMonitor, STIn, STOut, STErr]"

definition child_reap :: "reap_os \<Rightarrow> nat \<Rightarrow> child_t \<times> 'x proc_ctx_scheme \<Rightarrow> reap \<times> child_t \<times> 'x proc_ctx_scheme" where
  "child_reap os wait_ms st =
    (if c_reaped (fst st) then (ReapDone, st)
     else let st = threads_run (rp_obs os) st; c = fst st in
       if rp_failed os then (ReapFailed ''waiting for child completion failed'', st)
       else if \<not> c_done c then (if wait_ms = WJ_INFINITE then ReapBlocked else ReapRunning, st)
       else if \<exists>s\<in>set join_slots. \<not> rp_join_failed os s \<and> running c s then (ReapBlocked, st)
       else
         let e = io_error (\<exists>s\<in>set join_slots. c_slots c s \<noteq> None \<and> rp_join_failed os s) c;
             (c, x) = close_slots [SProc, SOutR, SErrR, SDoneEv] (close_slots join_slots st);
             st = (c\<lparr>c_reaped := True\<rparr>, x)
         in (case e of Some m \<Rightarrow> (ReapFailed m, st) | None \<Rightarrow> (ReapDone, st)))"

section \<open>The result\<close>

record child_result =
  cr_exit :: "dword option"
  cr_status :: string
  cr_out :: string
  cr_err :: string
  cr_pid :: int
  cr_truncated :: "string list"

definition child_dict_ex :: "bool \<Rightarrow> child_t \<Rightarrow> child_result" where
  "child_dict_ex alive c = \<lparr>
     cr_exit = (if alive then None else Some (c_exit_code c)),
     cr_status = (if alive then ''running'' else if c_timeout c then ''timeout'' else if c_killed c then ''killed''
                  else if c_exit_code c = 0 then ''ok'' else ''error''),
     cr_out = rd_buf (c_ro c), cr_err = rd_buf (c_re c), cr_pid = c_pid c,
     cr_truncated = (if rd_truncated (c_ro c) then [''out''] else []) @ (if rd_truncated (c_re c) then [''err''] else [])\<rparr>"

definition child_dict :: "child_t \<Rightarrow> child_result" where
  "child_dict c = child_dict_ex False c"

section \<open>Release\<close>

text \<open>
  The flag says whether the child is gone: when its threads cannot be joined the memory is left to
  them. \<open>None\<close>: the call has not returned.
\<close>

definition child_free :: "job_os \<Rightarrow> reap_os \<Rightarrow> child_t \<times> 'x proc_ctx_scheme \<Rightarrow> (bool \<times> child_t \<times> 'x proc_ctx_scheme) option" where
  "child_free os ro st =
    (let (r, st) =
       (if c_reaped (fst st) then (ReapDone, st)
        else case st of (c, x) \<Rightarrow>
          let (_, jp, cs) = kill_tree os 1 (c_job c)
          in child_reap ro WJ_INFINITE (log_jobs jp cs st))
     in if r = ReapBlocked then None
        else if r \<noteq> ReapDone \<and> \<not> c_reaped (fst st) then Some (False, st)
        else case close_slots [SInW, SDoneEv] st of (c, x) \<Rightarrow>
          Some (True, c, (case c_job c of None \<Rightarrow> x | Some j \<Rightarrow> x\<lparr>x_jobs := x_jobs x @ wj_job_free j\<rparr>)))"

section \<open>Pumping\<close>

text \<open>
  A \<^verbatim>\<open>run\<close> with callbacks reads both pipes on the interpreter's thread. \<open>pp_turns\<close>: what each turn of
  the loop finds; \<open>pp_out\<close> and \<open>pp_err\<close>: the callbacks, which are taken not to use the process verbs themselves.
\<close>

record pump_os =
  pp_mok :: "nat \<Rightarrow> bool"
  pp_out :: "string list \<Rightarrow> bool"
  pp_err :: "string list \<Rightarrow> bool"
  pp_turns :: "pump_turn list"

definition new_pump :: "tvalue option \<Rightarrow> reader_t \<Rightarrow> pump_t" where
  "new_pump cb r = \<lparr>pu_cb = cb \<noteq> None, pu_rd = r, pu_line = [], pu_cap = 0, pu_eof = False, pu_emitted = []\<rparr>"

definition child_pump :: "pump_os \<Rightarrow> job_os \<Rightarrow> reap_os \<Rightarrow> run_opts \<Rightarrow> child_t \<times> 'x proc_ctx_scheme
    \<Rightarrow> (unit res \<times> child_t \<times> 'x proc_ctx_scheme) option" where
  "child_pump pp os ro opts st =
    (case st of (c, x) \<Rightarrow>
      case pump_loop (pp_mok pp) (pp_out pp) (pp_err pp) (pp_turns pp) (new_pump (o_onout opts) (c_ro c)) (new_pump (o_onerr opts) (c_re c)) of
        None \<Rightarrow> None
      | Some (rc, po, pe) \<Rightarrow>
          let st = (c\<lparr>c_ro := pu_rd po, c_re := pu_rd pe\<rparr>, x);
              st = (if isl rc then (case kill_tree os 1 (c_job c) of (_, jp, cs) \<Rightarrow>
                      case log_jobs jp cs st of (c, x) \<Rightarrow> (c\<lparr>c_killed := True\<rparr>, x)) else st);
              (rc, po, pe) = pump_finish (pp_out pp) (pp_err pp) (rc, po, pe)
          in (case child_reap ro WJ_INFINITE st of
                (ReapBlocked, st) \<Rightarrow> None
              | (ReapFailed e, st) \<Rightarrow> Some (if isl rc then rc else Inl (run_error ''oserror'' e), st)
              | (_, st) \<Rightarrow> Some (rc, st)))"

section \<open>Ownership\<close>

text \<open>The monitor changes only its own findings about the child.\<close>

definition same_child :: "child_t \<Rightarrow> child_t \<Rightarrow> bool" where
  "same_child c d \<longleftrightarrow> c_token d = c_token c \<and> c_pid d = c_pid c \<and> c_slots d = c_slots c \<and> c_stream d = c_stream c \<and>
     c_channels d = c_channels c \<and> c_inherit d = c_inherit c \<and> c_chIn d = c_chIn c \<and> c_chOut d = c_chOut c \<and>
     c_chErr d = c_chErr c \<and> c_reaped d = c_reaped c \<and> c_thr d = c_thr c \<and> c_ro d = c_ro c \<and> c_re d = c_re c \<and> c_wi d = c_wi c"

lemma same_refl [simp]: "same_child c c"
  by (simp add: same_child_def)

lemma same_trans: "same_child a b \<Longrightarrow> same_child b c \<Longrightarrow> same_child a c"
  by (simp add: same_child_def)

lemma same_kill: "mon_kill os m = (ok, m') \<Longrightarrow> same_child (m_child m) (m_child m') \<and> c_done (m_child m') = c_done (m_child m)"
  by (auto simp: mon_kill_def same_child_def split: prod.splits)

lemma same_direct: "same_child (m_child m) (m_child (mon_direct t m)) \<and> c_done (m_child (mon_direct t m)) = c_done (m_child m)"
proof -
  obtain ok m' where k: "mon_kill (tn_os t) (m\<lparr>m_child := (m_child m)\<lparr>c_monitor_failed := True, c_killed := True\<rparr>, m_failed := True, m_direct := True\<rparr>) = (ok, m')"
    by (rule prod.exhaust)
  show ?thesis using same_kill [OF k] by (auto simp: mon_direct_def k same_child_def split: wait_res.split option.split)
qed

lemma same_active: "mon_active t m = (n, m') \<Longrightarrow> same_child (m_child m) (m_child m') \<and> c_done (m_child m') = c_done (m_child m)"
proof -
  assume a: "mon_active t m = (n, m')"
  obtain r jp cs where q: "on_job (Inl ''job is closed'') (wj_job_active (tn_os t)) (c_job (m_child m)) = (r, jp, cs)" by (rule prod_cases3)
  obtain ok m1 where k: "mon_kill (tn_os t) (m\<lparr>m_calls := m_calls m @ cs, m_child := (m_child m)\<lparr>c_monitor_failed := True, c_killed := True\<rparr>, m_failed := True\<rparr>) = (ok, m1)"
    by (rule prod.exhaust)
  have s: "same_child (m_child m) (m_child m1) \<and> c_done (m_child m1) = c_done (m_child m)"
    using same_kill [OF k] by (simp add: same_child_def)
  consider "m' = m" | "m' = m\<lparr>m_calls := m_calls m @ cs\<rparr>" | "m' = m1"
    using a by (cases r) (auto simp: mon_active_def q k Let_def split: if_splits)
  then show ?thesis using s by cases simp_all
qed

lemma same_deadline: "same_child (m_child m) (m_child (mon_deadline t m)) \<and> c_done (m_child (mon_deadline t m)) = c_done (m_child m)"
proof -
  obtain ok m1 where k: "mon_kill (tn_os t) (m\<lparr>m_child := (m_child m)\<lparr>c_timeout := True, c_killed := True\<rparr>\<rparr>) = (ok, m1)" by (rule prod.exhaust)
  show ?thesis using same_kill [OF k] by (auto simp: mon_deadline_def k Let_def same_child_def)
qed

lemma same_turn:
  assumes "monitor_turn t m = (b, m')"
  shows "same_child (m_child m) (m_child m') \<and> c_done (m_child m') = c_done (m_child m) \<and> (b \<longrightarrow> mon_io_done t (m_child m'))"
proof -
  obtain n m1 where a: "mon_active t (mon_direct t m) = (n, m1)" by (rule prod.exhaust)
  have s: "same_child (m_child m) (m_child m1) \<and> c_done (m_child m1) = c_done (m_child m)"
    using same_trans same_direct [of m t] same_active [OF a] by auto
  show ?thesis
    using assms a s same_deadline [of m1 t] same_trans by (auto simp: monitor_turn_def split: if_splits)
qed

lemma same_monitor:
  "same_child (m_child m) (m_child (child_monitor_thread ts m)) \<and>
   (c_done (m_child (child_monitor_thread ts m)) \<longrightarrow> c_done (m_child m) \<or> (\<exists>t\<in>set ts. mon_io_done t (m_child (child_monitor_thread ts m))))"
proof (induction ts arbitrary: m)
  case (Cons t ts)
  obtain b m1 where t: "monitor_turn t m = (b, m1)" by (rule prod.exhaust)
  note s = same_turn [OF t]
  show ?case
  proof (cases b)
    case True
    then show ?thesis using s t by (auto simp: same_child_def mon_io_done_def)
  next
    case False
    then show ?thesis using s t Cons [of m1] same_trans [of "m_child m" "m_child m1"] by auto
  qed
qed simp

text \<open>Handing a handle to Tcl, and Tcl closing it.\<close>

lemma own_register: "own B st \<Longrightarrow> own B (register_chan n s st)"
proof -
  assume a: "own B st"
  obtain c x where st: "st = (c, x)" by (rule prod.exhaust)
  show ?thesis
  proof (cases "c_slots c s")
    case None
    then show ?thesis using a by (simp add: register_chan_def st)
  next
    case (Some h)
    have i: "wf_world (x_world x)" "slots_inj c" "distinct (map snd (x_chans x))" "B \<inter> chan_handles x = {}"
      "held c \<inter> (B \<union> chan_handles x) = {}" "set (w_open (x_world x)) = B \<union> chan_handles x \<union> held c"
      using a by (simp_all add: own_def st)
    have h: "h \<in> held c" by (rule heldI [OF Some])
    have n: "h \<notin> B" "h \<notin> chan_handles x" using i(5) h by blast+
    have "B \<inter> insert h (chan_handles x) = {}" "(held c - {h}) \<inter> (B \<union> insert h (chan_handles x)) = {}"
      "B \<union> chan_handles x \<union> held c = B \<union> insert h (chan_handles x) \<union> (held c - {h})" using i(4,5) n h by blast+
    then show ?thesis
      using i n held_clear [OF i(2) Some] inj_clear [OF i(2), of s]
      by (simp add: register_chan_def st Some own_def chan_handles_def)
  qed
qed

lemma unregister_frame: "x_children (unregister_chan n x) = x_children x" "x_counter (unregister_chan n x) = x_counter x"
  "x_root (unregister_chan n x) = x_root x" "x_jobs (unregister_chan n x) = x_jobs x"
  by (simp_all add: unregister_chan_def split: option.split)

lemma own_unregister: "own B (c, x) \<Longrightarrow> own B (c, unregister_chan n x)"
proof (cases "List.find (\<lambda>e. fst e = n) (x_chans x)")
  case (Some e)
  assume a: "own B (c, x)"
  have i: "wf_world (x_world x)" "slots_inj c" "distinct (map snd (x_chans x))" "B \<inter> chan_handles x = {}"
    "held c \<inter> (B \<union> chan_handles x) = {}" "set (w_open (x_world x)) = B \<union> chan_handles x \<union> held c"
    using a by (simp_all add: own_def)
  have e: "e \<in> set (x_chans x)" using Some by (auto simp: find_Some_iff)
  have h: "snd e \<in> chan_handles x" using e by (simp add: chan_handles_def)
  let ?x = "unregister_chan n x"
  have chans: "x_chans ?x = remove1 e (x_chans x)" "x_world ?x = CloseHandle (snd e) (x_world x)" by (simp_all add: unregister_chan_def Some)
  have dist: "distinct (x_chans x)" "inj_on snd (set (x_chans x))" using i(3) by (auto simp: distinct_map)
  have hs: "chan_handles ?x = chan_handles x - {snd e}"
    using dist e by (auto simp: chan_handles_def chans dest: inj_onD)
  have "distinct (map snd (x_chans ?x))" using i(3) unfolding chans by (auto simp: distinct_map intro: inj_on_subset)
  moreover have "B \<inter> (chan_handles x - {snd e}) = {}" "held c \<inter> (B \<union> (chan_handles x - {snd e})) = {}" using i(4,5) by blast+
  moreover have "set (w_open (x_world x)) - {snd e} = B \<union> (chan_handles x - {snd e}) \<union> held c" using i(4,5,6) h by blast
  moreover have "wf_world (x_world ?x)" "set (w_open (x_world ?x)) = set (w_open (x_world x)) - {snd e}"
    using wf_close [OF i(1), of "snd e"] h i(6) unfolding chans by auto
  ultimately show ?thesis using i(2) by (simp add: own_def hs)
qed (simp add: unregister_chan_def)

lemma own_unregisters: "own B (c, x) \<Longrightarrow> own B (c, fold unregister_chan ns x)"
  by (induction ns arbitrary: x) (simp_all add: own_unregister)

lemma own_unregister_all: "own B st \<Longrightarrow> own B (unregister_all ns st)"
proof -
  assume a: "own B st"
  obtain c x where st: "st = (c, x)" by (rule prod.exhaust)
  have "own B (c, fold unregister_chan ns x)" using a st own_unregisters by blast
  then show ?thesis unfolding st unregister_all_def by (simp add: own_child [of "c\<lparr>c_chIn := [], c_chOut := [], c_chErr := []\<rparr>" c])
qed

lemma own_name: "own B (c, x) \<Longrightarrow> own B (c\<lparr>c_chIn := n\<rparr>, x)" "own B (c, x) \<Longrightarrow> own B (c\<lparr>c_chOut := n\<rparr>, x)"
  "own B (c, x) \<Longrightarrow> own B (c\<lparr>c_chErr := n\<rparr>, x)"
  by (simp_all add: own_child [of "c\<lparr>c_chIn := n\<rparr>" c] own_child [of "c\<lparr>c_chOut := n\<rparr>" c] own_child [of "c\<lparr>c_chErr := n\<rparr>" c])

lemma child_channels_own: "own B st \<Longrightarrow> child_channels os st = (ok, st') \<Longrightarrow> own B st'"
proof -
  assume a: "own B st" and r: "child_channels os st = (ok, st')"
  show ?thesis
  proof (cases "ca_in os")
    case (Some ci)
    note ci = Some
    obtain c1 x1 where 1: "register_chan ci SInW st = (c1, x1)" by (rule prod.exhaust)
    define s1 where "s1 = (c1\<lparr>c_chIn := c_prefix CHAN_NAME ci\<rparr>, x1)"
    have o1: "own B s1" unfolding s1_def by (rule own_name) (metis 1 a own_register)
    show ?thesis
    proof (cases "ca_out os")
      case None
      then show ?thesis using r own_unregister_all [OF o1] by (auto simp: child_channels_def ci 1 s1_def [symmetric])
    next
      case (Some co)
      obtain c2 x2 where 2: "register_chan co SOutR s1 = (c2, x2)" by (rule prod.exhaust)
      define s2 where "s2 = (c2\<lparr>c_chOut := c_prefix CHAN_NAME co\<rparr>, x2)"
      have o2: "own B s2" unfolding s2_def by (rule own_name) (metis 2 o1 own_register)
      show ?thesis
      proof (cases "ca_err os")
        case None
        then show ?thesis using r own_unregister_all [OF o2]
          by (auto simp: child_channels_def ci 1 s1_def [symmetric] Some 2 s2_def [symmetric])
      next
        case (Some ce)
        obtain c3 x3 where 3: "register_chan ce SErrR s2 = (c3, x3)" by (rule prod.exhaust)
        have o3: "own B (c3\<lparr>c_chErr := c_prefix CHAN_NAME ce\<rparr>, x3)" by (rule own_name) (metis 3 o2 own_register)
        then show ?thesis using r own_unregister_all [OF o3]
          by (auto simp: child_channels_def ci 1 s1_def [symmetric] \<open>ca_out os = Some co\<close> 2 s2_def [symmetric] Some 3 Let_def split: if_splits)
      qed
    qed
  qed (use a r in \<open>simp add: child_channels_def\<close>)
qed

lemma child_channels_free_own: "own B st \<Longrightarrow> own B (child_channels_free st)"
  by (cases st) (simp add: child_channels_free_def own_unregister_all)

section \<open>The state of a launched child\<close>

text \<open>
  A child after its launch: the launcher's locals are empty, only a running writer holds the stdin
  handle, drains run in capture mode only, no thread outlives the completion signal, and a reaped child holds at most its stdin channel end.
\<close>

definition wf_child :: "child_t \<Rightarrow> bool" where
  "wf_child c \<longleftrightarrow> (\<forall>s\<in>local_slots. c_slots c s = None) \<and>
     (c_slots c SWrite \<noteq> None \<longrightarrow> running c STIn) \<and>
     (c_stream c \<or> c_channels c \<or> c_inherit c \<longrightarrow> c_slots c STOut = None \<and> c_slots c STErr = None) \<and>
     (c_done c \<longrightarrow> (\<forall>s\<in>set join_slots. \<not> running c s)) \<and>
     (c_reaped c \<longrightarrow> (\<forall>s. s \<noteq> SInW \<longrightarrow> c_slots c s = None))"

lemma ready_wf: "ready_child c \<Longrightarrow> wf_child c"
  by (simp add: ready_child_def wf_child_def running_def ended_def)

lemma wf_running: "wf_child c \<Longrightarrow> running c s \<Longrightarrow> s \<in> set join_slots \<Longrightarrow> \<not> c_done c \<and> \<not> c_reaped c"
proof (intro conjI notI)
  assume w: "wf_child c" "running c s" "s \<in> set join_slots"
  show False if "c_done c" using w that unfolding wf_child_def by blast
  assume "c_reaped c"
  moreover have "s \<noteq> SInW" using w(3) by (auto simp: join_slots_def)
  ultimately have "c_slots c s = None" using w(1) unfolding wf_child_def by blast
  then show False using w(2) by (simp add: running_def)
qed

text \<open>Progress of the threads: the world changes only by the writer's handle.\<close>

definition progress :: "child_t \<times> 'x proc_ctx_scheme \<Rightarrow> child_t \<times> 'x proc_ctx_scheme \<Rightarrow> bool" where
  "progress st st' \<longleftrightarrow> x_children (snd st') = x_children (snd st) \<and> x_counter (snd st') = x_counter (snd st) \<and>
     x_root (snd st') = x_root (snd st) \<and> x_chans (snd st') = x_chans (snd st) \<and>
     c_token (fst st') = c_token (fst st) \<and> c_pid (fst st') = c_pid (fst st) \<and> c_channels (fst st') = c_channels (fst st) \<and>
     c_chIn (fst st') = c_chIn (fst st) \<and> c_chOut (fst st') = c_chOut (fst st) \<and> c_chErr (fst st') = c_chErr (fst st)"

lemma progress_refl [simp]: "progress st st"
  by (simp add: progress_def)

lemma progress_trans: "progress a b \<Longrightarrow> progress b c \<Longrightarrow> progress a c"
  by (simp add: progress_def)

lemma progress_close [simp]: "progress st (close_slot s st') \<longleftrightarrow> progress st st'"
  by (cases st') (simp add: progress_def close_slot_def set_slot_def split: option.split)

lemma progress_closes [simp]: "progress st (close_slots ss st') \<longleftrightarrow> progress st st'"
  by (induction ss arbitrary: st') (simp_all add: close_slots_def)

lemma progress_log [simp]: "progress st (log_jobs jp cs st') \<longleftrightarrow> progress st st'"
  by (cases st') (simp add: progress_def log_jobs_def)

text \<open>Closing keeps everything about a child but the slots.\<close>

lemma close_child: "fst (close_slot s (c, x)) = (c\<lparr>c_slots := (c_slots c)(s := None)\<rparr>)"
proof (cases "c_slots c s")
  case None
  then have "(c_slots c)(s := None) = c_slots c" by (simp add: fun_upd_idem)
  then show ?thesis using None by (simp add: close_slot_def)
qed (simp add: close_slot_def set_slot_def)

lemma closes_child: "fst (close_slots ss (c, x)) = c\<lparr>c_slots := (\<lambda>s. if s \<in> set ss then None else c_slots c s)\<rparr>"
proof (induction ss arbitrary: c x)
  case (Cons s ss)
  obtain c1 x1 where 1: "close_slot s (c, x) = (c1, x1)" by (rule prod.exhaust)
  have c1: "c1 = c\<lparr>c_slots := (c_slots c)(s := None)\<rparr>" using close_child [of s c x] 1 by simp
  have "fst (close_slots ss (c1, x1)) = c1\<lparr>c_slots := (\<lambda>s. if s \<in> set ss then None else c_slots c1 s)\<rparr>" by (rule Cons)
  then show ?case using 1 c1 by (simp add: close_slots_def) (auto simp: fun_eq_iff)
qed (simp add: close_slots_def)

lemma closes_fst: "fst (close_slots ss st) = (fst st)\<lparr>c_slots := (\<lambda>s. if s \<in> set ss then None else c_slots (fst st) s)\<rparr>"
  using closes_child [of ss "fst st" "snd st"] by simp

lemma running_cong: "c_slots d s = c_slots c s \<Longrightarrow> t_ended (c_thr d) s = t_ended (c_thr c) s \<Longrightarrow> running d s \<longleftrightarrow> running c s"
  by (simp add: running_def ended_def)

lemma set_ended_simps [simp]: "c_slots (set_ended s e c) = c_slots c" "c_stream (set_ended s e c) = c_stream c"
  "c_channels (set_ended s e c) = c_channels c" "c_inherit (set_ended s e c) = c_inherit c" "c_done (set_ended s e c) = c_done c"
  "c_reaped (set_ended s e c) = c_reaped c" "c_token (set_ended s e c) = c_token c" "c_pid (set_ended s e c) = c_pid c"
  "c_chIn (set_ended s e c) = c_chIn c" "c_chOut (set_ended s e c) = c_chOut c" "c_chErr (set_ended s e c) = c_chErr c"
  "c_job (set_ended s e c) = c_job c" "c_wi (set_ended s e c) = c_wi c"
  "running (set_ended s e c) t \<longleftrightarrow> (if t = s then c_slots c s \<noteq> None \<and> \<not> e else running c t)"
  by (auto simp: set_ended_def running_def ended_def)

text \<open>A thread marked as ended, or working on, keeps the child well formed unless it is the writer.\<close>

lemma wf_step:
  assumes "wf_child c" "c_slots d = c_slots c" "c_stream d = c_stream c" "c_channels d = c_channels c" "c_inherit d = c_inherit c"
    "c_done d = c_done c" "c_reaped d = c_reaped c" "\<And>s. s \<noteq> STIn \<Longrightarrow> running d s \<Longrightarrow> running c s" "running d STIn \<longleftrightarrow> running c STIn"
  shows "wf_child d"
  using assms unfolding wf_child_def by (auto simp: join_slots_def)

lemma readers_wf: "wf_child c \<Longrightarrow> wf_child (readers_run obs c) \<and> c_slots (readers_run obs c) = c_slots c"
proof -
  assume w: "wf_child c"
  obtain r e where r: "reader_thread (ob_out obs) (c_ro c) = (r, e)" by (rule prod.exhaust)
  define c1 where "c1 = (if running c STOut then set_ended STOut e (c\<lparr>c_ro := r\<rparr>) else c)"
  have ru: "running (c\<lparr>c_ro := r\<rparr>) s \<longleftrightarrow> running c s" "running (c1\<lparr>c_re := r2\<rparr>) s \<longleftrightarrow> running c1 s" for s r2
    by (simp_all add: running_def ended_def)
  have 1: "wf_child c1" "c_slots c1 = c_slots c"
    by (auto simp: c1_def w ru intro!: wf_step [OF w] split: if_splits)
  obtain r2 e2 where r2: "reader_thread (ob_err obs) (c_re c1) = (r2, e2)" by (rule prod.exhaust)
  have "wf_child (set_ended STErr e2 (c1\<lparr>c_re := r2\<rparr>))"  if "running c1 STErr"
    using that by (intro wf_step [OF 1(1)]) (auto simp: ru split: if_splits)
  moreover have "readers_run obs c = (if running c1 STErr then set_ended STErr e2 (c1\<lparr>c_re := r2\<rparr>) else c1)"
    unfolding readers_run_def Let_def r prod.case c1_def [symmetric] r2 ..
  ultimately show ?thesis using 1 by simp
qed

lemma readers_progress: "progress (c, x) (readers_run obs c, x)"
  by (auto simp: readers_run_def progress_def Let_def split: prod.split)

lemma writer_own: "own B (c, x) \<Longrightarrow> own B (writer_run obs (c, x))"
proof -
  assume o: "own B (c, x)"
  obtain w out e where w: "writer_loop (ob_in obs) (t_off (c_thr c)) (t_out (c_thr c)) (c_wi c) = (w, out, e)" by (rule prod_cases3)
  define d where "d = set_ended STIn e (c\<lparr>c_wi := w, c_thr := (c_thr c)\<lparr>t_off := length out, t_out := out\<rparr>\<rparr>)"
  have sl: "c_slots d = c_slots c" "c_slots (d\<lparr>c_wi := w\<lparr>wi_open := False\<rparr>\<rparr>) = c_slots c" by (simp_all add: d_def)
  have "own B (d, x)" "own B (d\<lparr>c_wi := w\<lparr>wi_open := False\<rparr>\<rparr>, x)" using o own_child [OF sl(1)] own_child [OF sl(2)] by blast+
  moreover have "writer_run obs (c, x) = (if running c STIn then if e then close_slot SWrite (d\<lparr>c_wi := w\<lparr>wi_open := False\<rparr>\<rparr>, x) else (d, x) else (c, x))"
    unfolding writer_run_def Let_def w prod.case d_def ..
  moreover have "own B (close_slot SWrite (d\<lparr>c_wi := w\<lparr>wi_open := False\<rparr>\<rparr>, x))" using calculation(2) by (rule own_close)
  ultimately show ?thesis using o by simp
qed

lemma writer_wf:
  assumes "wf_child c"
  shows "wf_child (fst (writer_run obs (c, x))) \<and> (\<forall>s. s \<noteq> SWrite \<longrightarrow> c_slots (fst (writer_run obs (c, x))) s = c_slots c s)"
proof (cases "running c STIn")
  case True
  obtain w out e where w: "writer_loop (ob_in obs) (t_off (c_thr c)) (t_out (c_thr c)) (c_wi c) = (w, out, e)" by (rule prod_cases3)
  define d where "d = set_ended STIn e (c\<lparr>c_wi := w, c_thr := (c_thr c)\<lparr>t_off := length out, t_out := out\<rparr>\<rparr>)"
  have "running (c\<lparr>c_wi := w, c_thr := (c_thr c)\<lparr>t_off := length out, t_out := out\<rparr>\<rparr>) s \<longleftrightarrow> running c s" for s
    by (simp add: running_def ended_def)
  then have ru: "running d s \<longleftrightarrow> (if s = STIn then \<not> e else running c s)" for s
    using True unfolding d_def set_ended_simps(14) by (auto simp: running_def)
  have sl: "c_slots d = c_slots c" "c_stream d = c_stream c" "c_channels d = c_channels c" "c_inherit d = c_inherit c" "c_done d = c_done c"
    "c_reaped d = c_reaped c" by (simp_all add: d_def)
  have nd: "\<not> c_done c" "\<not> c_reaped c" using wf_running [OF assms True] by (simp_all add: join_slots_def)
  show ?thesis
  proof (cases e)
    case True
    have "fst (writer_run obs (c, x)) = d\<lparr>c_wi := w\<lparr>wi_open := False\<rparr>, c_slots := (c_slots c)(SWrite := None)\<rparr>"
      using \<open>running c STIn\<close> True unfolding writer_run_def Let_def w prod.case d_def [symmetric] by (simp add: close_child sl)
    then show ?thesis using assms nd sl by (auto simp: wf_child_def)
  next
    case False
    then have "fst (writer_run obs (c, x)) = d" using \<open>running c STIn\<close> unfolding writer_run_def Let_def w prod.case d_def [symmetric] by simp
    then show ?thesis using assms nd sl ru False by (auto simp: wf_child_def)
  qed
qed (use assms in \<open>simp add: writer_run_def\<close>)

lemma writer_progress: "progress (c, x) (writer_run obs (c, x))"
  by (auto simp: writer_run_def Let_def split: prod.split) (auto simp: progress_def set_ended_def)

lemma monitor_run_facts:
  assumes "monitor_run obs (c, x) = (d, y)"
  shows "c_slots d = c_slots c \<and> c_stream d = c_stream c \<and> c_channels d = c_channels c \<and> c_inherit d = c_inherit c \<and> c_reaped d = c_reaped c \<and>
    (\<forall>s. s \<noteq> SMonitor \<longrightarrow> (ended d s \<longleftrightarrow> ended c s)) \<and> (if running c SMonitor then ended d SMonitor = c_done d else d = c) \<and>
    x_world y = x_world x \<and> progress (c, x) (d, y) \<and>
    (c_done d \<longrightarrow> c_done c \<or> (\<forall>s\<in>{STIn, STOut, STErr}. (s = STIn \<or> \<not> c_stream c \<and> \<not> c_channels c \<and> \<not> c_inherit c) \<longrightarrow> \<not> running c s))"
proof (cases "running c SMonitor")
  case True
  define m where "m = child_monitor_thread (map (seen_turn c) (ob_mon obs))
      \<lparr>m_child = c, m_direct = t_direct (c_thr c), m_failed = t_failed (c_thr c), m_calls = []\<rparr>"
  have d: "d = (m_child m)\<lparr>c_thr := (c_thr (m_child m))\<lparr>t_direct := m_direct m, t_failed := m_failed m,
      t_ended := (t_ended (c_thr (m_child m)))(SMonitor := c_done (m_child m))\<rparr>\<rparr>" "y = x\<lparr>x_jobs := x_jobs x @ m_calls m\<rparr>"
    using assms True by (simp_all add: monitor_run_def m_def Let_def)
  have s: "same_child c (m_child m)" and f: "c_done (m_child m) \<longrightarrow> c_done c \<or> (\<exists>t\<in>set (ob_mon obs). mon_io_done (seen_turn c t) (m_child m))"
    using same_monitor [of "\<lparr>m_child = c, m_direct = t_direct (c_thr c), m_failed = t_failed (c_thr c), m_calls = []\<rparr>" "map (seen_turn c) (ob_mon obs)"]
    unfolding m_def by auto
  have io: "\<not> running c s" if "mon_io_done (seen_turn c t) (m_child m)" "s \<in> {STIn, STOut, STErr}"
      "s = STIn \<or> \<not> c_stream c \<and> \<not> c_channels c \<and> \<not> c_inherit c" for s t
    using that s by (auto simp: mon_io_done_def seen_turn_def handle_signaled_def same_child_def running_def)
  have "progress (c, x) (d, y)" using s unfolding d by (simp add: progress_def same_child_def)
  moreover have "ended d s \<longleftrightarrow> ended c s" if "s \<noteq> SMonitor" for s using s that unfolding d by (simp add: ended_def same_child_def)
  moreover have "ended d SMonitor = c_done d" unfolding d by (simp add: ended_def)
  moreover have "c_done d = c_done (m_child m)" unfolding d by simp
  ultimately show ?thesis using True s f io unfolding d(2) by (auto simp: same_child_def d(1))
qed (use assms in \<open>simp add: monitor_run_def\<close>)

lemma threads_run_facts:
  assumes "threads_run obs (c, x) = (d, y)" "own B (c, x)" "wf_child c"
  shows "own B (d, y) \<and> wf_child d \<and> progress (c, x) (d, y) \<and> (\<forall>s. s \<noteq> SWrite \<longrightarrow> c_slots d s = c_slots c s)"
proof -
  define c1 where "c1 = readers_run obs c"
  have 1: "wf_child c1" "c_slots c1 = c_slots c" using readers_wf [OF assms(3), of obs] by (simp_all add: c1_def)
  have o1: "own B (c1, x)" using assms(2) own_child [OF 1(2)] by blast
  have p1: "progress (c, x) (c1, x)" unfolding c1_def by (rule readers_progress)
  obtain c2 x2 where 2: "writer_run obs (c1, x) = (c2, x2)" by (rule prod.exhaust)
  have o2: "own B (c2, x2)" using writer_own [OF o1, of obs] 2 by simp
  have w2: "wf_child c2" "\<forall>s. s \<noteq> SWrite \<longrightarrow> c_slots c2 s = c_slots c1 s" using writer_wf [OF 1(1), of obs x] 2 by simp_all
  have p2: "progress (c1, x) (c2, x2)" using writer_progress [of c1 x obs] 2 by simp
  have 3: "monitor_run obs (c2, x2) = (d, y)" using assms(1) 2 by (simp add: threads_run_def c1_def)
  note m = monitor_run_facts [OF 3]
  have "own B (d, y)" using o2 m by (simp add: own_def held_def slots_inj_def chan_handles_def progress_def)
  moreover have "wf_child d"
  proof (cases "running c2 SMonitor")
    case True
    have r: "running d s \<longleftrightarrow> running c2 s" if "s \<noteq> SMonitor" for s using m that by (simp add: running_def)
    have "\<not> c_done c2" "\<not> c_reaped c2" using wf_running [OF w2(1) True] by (simp_all add: join_slots_def)
    moreover have "\<not> running d SMonitor" if "c_done d" using m that True by (simp add: running_def)
    moreover have "\<not> running c2 STOut \<and> \<not> running c2 STErr" if "c_stream c2 \<or> c_channels c2 \<or> c_inherit c2"
      using w2(1) that by (simp add: wf_child_def running_def)
    moreover have "c_slots d = c_slots c2" "c_stream d = c_stream c2" "c_channels d = c_channels c2" "c_inherit d = c_inherit c2" "c_reaped d = c_reaped c2"
      using m by blast+
    moreover have "c_done d \<longrightarrow> \<not> running c2 STIn \<and> (\<not> (c_stream c2 \<or> c_channels c2 \<or> c_inherit c2) \<longrightarrow> \<not> running c2 STOut \<and> \<not> running c2 STErr)"
      using m \<open>\<not> c_done c2\<close> by blast
    ultimately show ?thesis using w2(1) r by (simp add: wf_child_def join_slots_def) blast
  next
    case False
    then show ?thesis using w2(1) m by simp
  qed
  moreover have "progress (c2, x2) (d, y)" "c_slots d = c_slots c2" using m by blast+
  then have "progress (c, x) (d, y)" "\<forall>s. s \<noteq> SWrite \<longrightarrow> c_slots d s = c_slots c s"
    using progress_trans [OF p1 progress_trans [OF p2]] w2(2) 1(2) by simp_all
  ultimately show ?thesis by blast
qed

section \<open>Reaping and release\<close>

lemma closed_wf:
  assumes "wf_child c" "c_done c" "fst st = c\<lparr>c_slots := (\<lambda>s. if s \<in> set [SProc, SOutR, SErrR, SDoneEv] then None
    else if s \<in> set join_slots then None else c_slots c s)\<rparr>"
  shows "wf_child ((fst st)\<lparr>c_reaped := True\<rparr>) \<and> c_slots (fst st) SInW = c_slots c SInW"
proof -
  have nw: "c_slots c SWrite = None" using assms(1,2) unfolding wf_child_def by (auto simp: join_slots_def)
  have "c_slots (fst st) s = None" if "s \<noteq> SInW" for s
    using assms(1) nw that unfolding assms(3) wf_child_def by (cases s) (simp_all add: join_slots_def)
  then have "\<forall>s. s \<noteq> SInW \<longrightarrow> c_slots ((fst st)\<lparr>c_reaped := True\<rparr>) s = None" by simp
  moreover from this have "\<not> running ((fst st)\<lparr>c_reaped := True\<rparr>) s" if "s \<in> set join_slots" for s
    using that by (auto simp: running_def join_slots_def)
  ultimately have "wf_child ((fst st)\<lparr>c_reaped := True\<rparr>)" unfolding wf_child_def by simp
  then show ?thesis by (simp add: assms(3) join_slots_def)
qed

lemma child_reap_facts:
  assumes "child_reap os ms st = (r, st')" "own B st" "wf_child (fst st)" "\<forall>s. \<not> rp_join_failed os s"
  shows "own B st' \<and> wf_child (fst st') \<and> progress st st' \<and> c_slots (fst st') SInW = c_slots (fst st) SInW \<and>
    (r = ReapDone \<longrightarrow> c_reaped (fst st')) \<and> (\<not> rp_failed os \<longrightarrow> isl (case r of ReapFailed m \<Rightarrow> Inl () | _ \<Rightarrow> Inr ()) \<longrightarrow> c_reaped (fst st')) \<and>
    (r = ReapBlocked \<longrightarrow> ms = WJ_INFINITE \<and> \<not> c_done (fst st'))"
proof (cases "c_reaped (fst st)")
  case True
  then show ?thesis using assms by (auto simp: child_reap_def)
next
  case False
  obtain c x where st: "st = (c, x)" by (rule prod.exhaust)
  obtain d y where t: "threads_run (rp_obs os) (c, x) = (d, y)" by (rule prod.exhaust)
  have 0: "own B (c, x)" "wf_child c" using assms(2,3) st by simp_all
  note f = threads_run_facts [OF t 0]
  have fs: "c_slots d SInW = c_slots c SInW" using f by simp
  show ?thesis
  proof (cases "rp_failed os \<or> \<not> c_done d")
    case True
    then consider "r = ReapFailed ''waiting for child completion failed''" "st' = (d, y)" "rp_failed os"
      | "r = ReapBlocked" "st' = (d, y)" "ms = WJ_INFINITE" "\<not> c_done d" | "r = ReapRunning" "st' = (d, y)"
      using assms(1) False by (cases "rp_failed os"; cases "ms = WJ_INFINITE") (simp_all add: child_reap_def st t Let_def)
    then show ?thesis using f fs by cases (simp_all add: st)
  next
    case fin: False
    have nr: "\<not> (\<exists>s\<in>set join_slots. \<not> rp_join_failed os s \<and> running d s)" using f fin unfolding wf_child_def by blast
    define cl where "cl = close_slots [SProc, SOutR, SErrR, SDoneEv] (close_slots join_slots (d, y))"
    obtain e z where cl: "cl = (e, z)" by (rule prod.exhaust)
    have res: "st' = (e\<lparr>c_reaped := True\<rparr>, z)" "r = ReapDone \<or> (\<exists>m. r = ReapFailed m)"
      using assms(1) False fin by (auto simp: child_reap_def st t nr Let_def cl_def [symmetric] cl split: option.splits)
    have "fst cl = d\<lparr>c_slots := (\<lambda>s. if s \<in> set [SProc, SOutR, SErrR, SDoneEv] then None else if s \<in> set join_slots then None else c_slots d s)\<rparr>"
      unfolding cl_def closes_fst by (simp cong: if_cong)
    from closed_wf [OF _ _ this] have w: "wf_child (e\<lparr>c_reaped := True\<rparr>)" "c_slots e SInW = c_slots d SInW" using f fin cl by simp_all
    have "own B cl" unfolding cl_def using f by (intro own_closes) blast
    then have o: "own B (e\<lparr>c_reaped := True\<rparr>, z)" using own_child [of "e\<lparr>c_reaped := True\<rparr>" e B z] cl by simp
    have "progress (c, x) cl" unfolding cl_def using f by simp
    then have "progress (c, x) (e\<lparr>c_reaped := True\<rparr>, z)" unfolding cl progress_def by simp
    then show ?thesis using res w o fs by (auto simp: st)
  qed
qed

text \<open>Releasing a child leaves none of its handles open, unless its threads could not be joined.\<close>

lemma child_free_facts:
  assumes "child_free os ro st = Some (gone, st')" "own B st" "wf_child (fst st)" "\<forall>s. \<not> rp_join_failed ro s"
  shows "own B st' \<and> wf_child (fst st') \<and> progress st st' \<and> (gone \<longrightarrow> (\<forall>s. empty st' s)) \<and> (\<not> rp_failed ro \<longrightarrow> gone)"
proof -
  obtain c x where st: "st = (c, x)" by (rule prod.exhaust)
  obtain ok jp cs where k: "kill_tree os 1 (c_job c) = (ok, jp, cs)" by (rule prod_cases3)
  define st1 where "st1 = log_jobs jp cs st"
  have 1: "own B st1" "progress st st1" using assms(2) by (simp_all add: st1_def)
  have w1: "wf_child (fst st1)" using assms(3) by (simp add: st1_def st log_jobs_def wf_child_def running_def ended_def)
  obtain r st2 where r: "(if c_reaped (fst st) then (ReapDone, st) else child_reap ro WJ_INFINITE st1) = (r, st2)" by (rule prod.exhaust)
  have 2: "own B st2 \<and> wf_child (fst st2) \<and> progress st st2 \<and> (r = ReapDone \<longrightarrow> c_reaped (fst st2)) \<and>
      (\<not> rp_failed ro \<longrightarrow> isl (case r of ReapFailed m \<Rightarrow> Inl () | _ \<Rightarrow> Inr ()) \<longrightarrow> c_reaped (fst st2))"
  proof (cases "c_reaped (fst st)")
    case True
    then show ?thesis using r assms(2,3) by auto
  next
    case False
    then have rr: "child_reap ro WJ_INFINITE st1 = (r, st2)" using r by simp
    show ?thesis using child_reap_facts [OF rr 1(1) w1 assms(4)] 1(2) progress_trans by blast
  qed
  have running: "r \<noteq> ReapRunning" using r by (auto simp: child_reap_def Let_def split: if_splits option.splits prod.splits)
  have fr: "(if r = ReapBlocked then None else if r \<noteq> ReapDone \<and> \<not> c_reaped (fst st2) then Some (False, st2)
      else case close_slots [SInW, SDoneEv] st2 of (c, x) \<Rightarrow>
          Some (True, c, (case c_job c of None \<Rightarrow> x | Some j \<Rightarrow> x\<lparr>x_jobs := x_jobs x @ wj_job_free j\<rparr>))) = Some (gone, st')"
  proof -
    have "(if c_reaped (fst st) then (ReapDone, st) else case st of (c, x) \<Rightarrow> let (_, jp, cs) = kill_tree os 1 (c_job c)
        in child_reap ro WJ_INFINITE (log_jobs jp cs st)) = (r, st2)" using r by (auto simp: st k st1_def split: if_splits)
    then show ?thesis using assms(1) unfolding child_free_def Let_def by (simp only: prod.case)
  qed
  show ?thesis
  proof (cases "r \<noteq> ReapDone \<and> \<not> c_reaped (fst st2)")
    case True
    then have "\<not> gone" "st' = st2" "r \<noteq> ReapBlocked" using fr by (auto split: if_splits)
    then show ?thesis using 2 True running by (cases r) simp_all
  next
    case False
    then have reaped: "c_reaped (fst st2)" using 2 by blast
    obtain d y where d: "close_slots [SInW, SDoneEv] st2 = (d, y)" by (rule prod.exhaust)
    have g: "gone" "st' = (d, (case c_job d of None \<Rightarrow> y | Some j \<Rightarrow> y\<lparr>x_jobs := x_jobs y @ wj_job_free j\<rparr>))"
      using fr False d by (auto split: if_splits)
    have dd: "d = (fst st2)\<lparr>c_slots := (\<lambda>s. if s \<in> set [SInW, SDoneEv] then None else c_slots (fst st2) s)\<rparr>"
      using closes_child [of "[SInW, SDoneEv]" "fst st2" "snd st2"] d by simp
    have none: "c_slots d s = None" for s using 2 reaped unfolding dd wf_child_def by simp
    have "own B (d, y)" using own_closes [of B st2 "[SInW, SDoneEv]"] 2 d by simp
    then have "own B st'" unfolding g(2) by (auto simp: own_def chan_handles_def split: option.split)
    moreover have "progress st (d, y)" unfolding d [symmetric] using 2 by simp
    then have "progress st st'" unfolding g(2) by (auto simp: progress_def split: option.split)
    moreover have "wf_child d" using none by (simp add: wf_child_def running_def)
    ultimately show ?thesis using g none by (simp add: empty_def)
  qed
qed

text \<open>A pumped run keeps the ledger too.\<close>

lemma wf_child_same:
  "wf_child c \<Longrightarrow> c_slots d = c_slots c \<Longrightarrow> c_thr d = c_thr c \<Longrightarrow> c_stream d = c_stream c \<Longrightarrow> c_channels d = c_channels c \<Longrightarrow>
     c_inherit d = c_inherit c \<Longrightarrow> c_done d = c_done c \<Longrightarrow> c_reaped d = c_reaped c \<Longrightarrow> wf_child d"
  by (simp add: wf_child_def running_def ended_def)

lemma child_pump_facts:
  assumes "child_pump pp os ro opts st = Some (rc, st')" "own B st" "wf_child (fst st)" "\<forall>s. \<not> rp_join_failed ro s"
  shows "own B st' \<and> wf_child (fst st') \<and> progress st st'"
proof -
  obtain c x where st: "st = (c, x)" by (rule prod.exhaust)
  obtain rc1 po pe where l: "pump_loop (pp_mok pp) (pp_out pp) (pp_err pp) (pp_turns pp) (new_pump (o_onout opts) (c_ro c))
      (new_pump (o_onerr opts) (c_re c)) = Some (rc1, po, pe)"
    using assms(1) by (auto simp: child_pump_def st split: option.splits)
  define c1 where "c1 = c\<lparr>c_ro := pu_rd po, c_re := pu_rd pe\<rparr>"
  obtain ok jp cs where k: "kill_tree os 1 (c_job c) = (ok, jp, cs)" by (rule prod_cases3)
  define st2 where "st2 = (if isl rc1 then (c1\<lparr>c_job := jp, c_killed := True\<rparr>, x\<lparr>x_jobs := x_jobs x @ cs\<rparr>) else (c1, x))"
  have same: "c_slots (fst st2) = c_slots c" "c_thr (fst st2) = c_thr c" "c_stream (fst st2) = c_stream c" "c_channels (fst st2) = c_channels c"
    "c_inherit (fst st2) = c_inherit c" "c_done (fst st2) = c_done c" "c_reaped (fst st2) = c_reaped c"
    by (simp_all add: st2_def c1_def)
  have o2: "own B st2"
    using assms(2) own_child [of "fst st2" c B "snd st2"] same(1) by (auto simp: st st2_def own_def chan_handles_def)
  have w2: "wf_child (fst st2)" using wf_child_same [of c "fst st2"] assms(3) same st by simp
  have p2: "progress st st2" by (simp add: st st2_def c1_def progress_def)
  obtain rc2 po2 pe2 where f: "pump_finish (pp_out pp) (pp_err pp) (rc1, po, pe) = (rc2, po2, pe2)" by (rule prod_cases3)
  obtain r st3 where r: "child_reap ro WJ_INFINITE st2 = (r, st3)" by (rule prod.exhaust)
  have "st' = st3"
    using assms(1) l f r k by (auto simp: child_pump_def st st2_def c1_def log_jobs_def Let_def split: reap.splits if_splits)
  then show ?thesis using child_reap_facts [OF r o2 w2 assms(4)] p2 progress_trans by blast
qed

end
