(* ===== verification/ProcCmd.thy ===== *)
theory ProcCmd
  imports Reap Registry
begin

text \<open>
  The verbs over children (\<^verbatim>\<open>src/proc.c\<close>): \<^verbatim>\<open>run\<close>, \<^verbatim>\<open>child\<close> with its six subcommands and \<^verbatim>\<open>detach\<close>,
  with the child registry. \<open>None\<close> as the result of a verb means that with the given observations the
  call is still waiting.
\<close>

section \<open>Registry\<close>

definition registry_find :: "'x proc_ctx_scheme \<Rightarrow> string \<Rightarrow> child_t option" where
  "registry_find x t = List.find (\<lambda>c. c_token c = t) (x_children x)"

definition registry_remove :: "child_t \<Rightarrow> 'x proc_ctx_scheme \<Rightarrow> 'x proc_ctx_scheme" where
  "registry_remove c x = x\<lparr>x_children := List.filter (\<lambda>d. c_token d \<noteq> c_token c) (x_children x)\<rparr>"

text \<open>A registered child is changed in place.\<close>

definition registry_update :: "child_t \<times> 'x proc_ctx_scheme \<Rightarrow> 'x proc_ctx_scheme" where
  "registry_update = (\<lambda>(c, x). x\<lparr>x_children := map (\<lambda>d. if c_token d = c_token c then c else d) (x_children x)\<rparr>)"

section \<open>Environment of a verb\<close>

text \<open>
  What a verb asks of its surroundings: \<open>pv_malloc\<close> the heap for the argument vector, \<open>pv_int\<close>
  \<^verbatim>\<open>Tcl_GetIntFromObj\<close>, \<open>pv_reap\<close> and \<open>pv_free\<close> the waits of reaping and of release.
\<close>

record proc_env =
  pv_malloc :: bool
  pv_env :: env_env
  pv_child :: child_os
  pv_reap :: reap_os
  pv_free :: reap_os
  pv_pump :: pump_os
  pv_chans :: chan_os
  pv_int :: "string \<Rightarrow> int option"
  pv_detail :: string

record child_info =
  ci_token :: string
  ci_pid :: int
  ci_running :: bool
  ci_exit :: "dword option"
  ci_chans :: "(string \<times> string \<times> string) option"

datatype proc_value = PNone | PText string | PInt int | PList "string list" | PResult child_result | PInfo child_info

type_synonym 'x proc_out = "(proc_value res \<times> 'x proc_ctx_scheme) option"

section \<open>run\<close>

definition run_allowed :: dword where
  "run_allowed = OPT_TIMEOUT OR OPT_MEM OR OPT_CPU OR OPT_DIR OR OPT_ARG0 OR OPT_STDIN OR OPT_ENV OR OPT_ONOUT OR OPT_ONERR OR OPT_INHERIT"

text \<open>The options and words of a command, up to its environment block; shared by the three launching verbs.\<close>

definition command_words :: "proc_env \<Rightarrow> string \<Rightarrow> string \<Rightarrow> run_opts \<Rightarrow> cstr list res" where
  "command_words pv dm usage opts =
    (if o_cmd opts = [] then Inl (MtError dm ''usage'' usage)
     else case build_argv dm (pv_malloc pv) (o_cmd opts) of
       Inl e \<Rightarrow> Inl e | Inr None \<Rightarrow> Inl TclError | Inr (Some cargv) \<Rightarrow> Inr cargv)"

definition run_opts_ok :: "run_opts \<Rightarrow> unit res" where
  "run_opts_ok opts =
    (if o_inherit opts \<and> (o_onout opts \<noteq> None \<or> o_onerr opts \<noteq> None) then
       Inl (MtError ''RUN'' ''usage'' ''-inherit cannot be combined with -onout or -onerr: the child writes straight to our stdio'')
     else if o_inherit opts \<and> o_stdin_obj opts \<noteq> None then
       Inl (MtError ''RUN'' ''usage'' ''-inherit cannot be combined with -stdin: the child reads our stdin'')
     else Inr ())"

text \<open>From the launched child to the result: pump or wait, then release.\<close>

definition run_wait :: "proc_env \<Rightarrow> run_opts \<Rightarrow> bool \<Rightarrow> child_t \<times> 'x proc_ctx_scheme \<Rightarrow> (unit res \<times> child_t \<times> 'x proc_ctx_scheme) option" where
  "run_wait pv opts stream st =
    (if stream then child_pump (pv_pump pv) (co_job (pv_child pv)) (pv_reap pv) opts st
     else case child_reap (pv_reap pv) WJ_INFINITE st of
       (ReapBlocked, _) \<Rightarrow> None
     | (ReapFailed e, st) \<Rightarrow> Some (Inl (MtError ''RUN'' ''oserror'' e), st)
     | (_, st) \<Rightarrow> Some (Inr (), st))"

definition run_child :: "proc_env \<Rightarrow> run_opts \<Rightarrow> bool \<Rightarrow> child_t \<times> 'x proc_ctx_scheme \<Rightarrow> 'x proc_out" where
  "run_child pv opts stream st =
    (case run_wait pv opts stream st of
       None \<Rightarrow> None
     | Some (rc, st) \<Rightarrow>
       (case child_free (co_job (pv_child pv)) (pv_free pv) st of
          None \<Rightarrow> None
        | Some (_, _, x) \<Rightarrow> Some (case rc of Inl e \<Rightarrow> Inl e | Inr _ \<Rightarrow> Inr (PResult (child_dict (fst st))), x)))"

definition RunCmd :: "proc_env \<Rightarrow> tvalue list \<Rightarrow> 'x proc_ctx_scheme \<Rightarrow> 'x proc_out" where
  "RunCmd pv words x =
    (case parse_opts ''RUN'' run_allowed words of
       Inl e \<Rightarrow> Some (Inl e, x)
     | Inr opts \<Rightarrow>
       (case bind_res (run_opts_ok opts) (\<lambda>_. command_words pv ''RUN'' ''run ?-opt val ...? ?--? command ?arg ...?'' opts) of
          Inl e \<Rightarrow> Some (Inl e, x)
        | Inr cargv \<Rightarrow>
          (case launch_env (pv_env pv) ''RUN'' opts of
             Inl e \<Rightarrow> Some (Inl e, x)
           | Inr opts \<Rightarrow>
              let stream = (o_onout opts \<noteq> None \<or> o_onerr opts \<noteq> None) in
              (case child_launch (pv_child pv) opts cargv False stream x of
                 (Inl (m, code), x) \<Rightarrow> Some (Inl (MtError ''RUN'' code m), x)
               | (Inr c, x) \<Rightarrow> run_child pv opts stream (c, x)))))"

section \<open>child\<close>

abbreviation child_error :: "string \<Rightarrow> string \<Rightarrow> mt_error" where
  "child_error code msg \<equiv> MtError ''CHILD'' code msg"

definition start_allowed :: dword where
  "start_allowed = OPT_TIMEOUT OR OPT_MEM OR OPT_CPU OR OPT_DIR OR OPT_ARG0 OR OPT_STDIN OR OPT_ENV OR OPT_CHANNELS"

text \<open>Failed channel setup: the child is unlinked and released. \<open>pv_detail\<close> is Tcl's message.\<close>

definition start_undo :: "proc_env \<Rightarrow> child_t \<times> 'x proc_ctx_scheme \<Rightarrow> 'x proc_out" where
  "start_undo pv st =
    (case st of (c, x) \<Rightarrow>
      case child_free (co_job (pv_child pv)) (pv_free pv) (c, registry_remove c x) of
        None \<Rightarrow> None
      | Some (_, _, x) \<Rightarrow> Some (Inl (child_error ''oserror'' (''cannot configure child channels: '' @ pv_detail pv)), x))"

definition child_start :: "proc_env \<Rightarrow> tvalue list \<Rightarrow> 'x proc_ctx_scheme \<Rightarrow> 'x proc_out" where
  "child_start pv words x =
    (case parse_opts ''CHILD'' start_allowed words of
       Inl e \<Rightarrow> Some (Inl e, x)
     | Inr opts \<Rightarrow>
       if o_channels opts \<and> o_stdin_obj opts \<noteq> None then
         Some (Inl (child_error ''usage'' ''-channels cannot be combined with -stdin: write to the stdin channel instead''), x)
       else
       (case command_words pv ''CHILD'' ''child start ?-opt val ...? ?--? command ?arg ...?'' opts of
          Inl e \<Rightarrow> Some (Inl e, x)
        | Inr cargv \<Rightarrow>
          (case launch_env (pv_env pv) ''CHILD'' opts of
             Inl e \<Rightarrow> Some (Inl e, x)
           | Inr opts \<Rightarrow>
             (case child_launch (pv_child pv) opts cargv True False x of
                (Inl (m, code), x) \<Rightarrow> Some (Inl (child_error code m), x)
              | (Inr c, x) \<Rightarrow>
                 if o_channels opts then
                   (case child_channels (pv_chans pv) (c, x) of
                      (True, c, x) \<Rightarrow> Some (Inr (PText (c_token c)), registry_update (c, x))
                    | (False, st) \<Rightarrow> start_undo pv st)
                 else Some (Inr (PText (c_token c)), x)))))"

text \<open>The bound of a wait, from the words after the token.\<close>

definition wait_bound :: "tvalue list \<Rightarrow> nat res" where
  "wait_bound args =
    (case args of
       [] \<Rightarrow> Inr WJ_INFINITE
     | [opt, value] \<Rightarrow>
        if vtext opt \<noteq> ''-timeout'' then Inl (child_error ''usage'' ''unknown option'')
        else let want = parse_duration_ms (vtext value) in
          if want < 0 then Inl (child_error ''badvalue'' ''bad -timeout value'')
          else if nat want \<ge> WJ_INFINITE then Inl (child_error ''badvalue'' ''bad -timeout value'')
          else Inr (nat want)
     | _ \<Rightarrow> Inl (child_error ''usage'' ''child wait token ?-timeout duration?''))"

definition child_wait :: "proc_env \<Rightarrow> child_t \<Rightarrow> tvalue list \<Rightarrow> 'x proc_ctx_scheme \<Rightarrow> 'x proc_out" where
  "child_wait pv c args x =
    (case wait_bound args of
       Inl e \<Rightarrow> Some (Inl e, x)
     | Inr wait_ms \<Rightarrow>
        if c_reaped c then Some (Inr (PResult (child_dict c)), x)
        else (case child_reap (pv_reap pv) wait_ms (c, x) of
          (ReapBlocked, _) \<Rightarrow> None
        | (ReapRunning, c, x) \<Rightarrow> Some (Inr (PResult (child_dict_ex True c)), registry_update (c, x))
        | (ReapFailed e, st) \<Rightarrow> Some (Inl (child_error ''oserror'' e), registry_update st)
        | (ReapDone, c, x) \<Rightarrow> Some (Inr (PResult (child_dict c)), registry_update (c, x))))"

definition child_kill :: "proc_env \<Rightarrow> child_t \<Rightarrow> tvalue list \<Rightarrow> 'x proc_ctx_scheme \<Rightarrow> 'x proc_out" where
  "child_kill pv c args x =
    (if length args > 1 then Some (Inl (child_error ''usage'' ''child kill token ?exitCode?''), x)
     else case (if args = [] then Some 1 else pv_int pv (vtext (args ! 0))) of
       None \<Rightarrow> Some (Inl (child_error ''badvalue'' ''bad exit code''), x)
     | Some v \<Rightarrow>
        if c_reaped c then Some (Inr PNone, x)
        else (case on_job False (\<lambda>j. wj_job_terminate (co_job (pv_child pv)) j (word_of_int v)) (c_job c) of
          (ok, jp, cs) \<Rightarrow>
            let st = log_jobs jp cs (c, x) in
            if \<not> ok then Some (Inl (child_error ''oserror'' ''cannot terminate child job''), registry_update st)
            else Some (Inr PNone, registry_update ((fst st)\<lparr>c_killed := True\<rparr>, snd st))))"

definition child_info_dict :: "child_t \<Rightarrow> child_info" where
  "child_info_dict c = \<lparr>ci_token = c_token c, ci_pid = c_pid c, ci_running = (\<not> c_reaped c \<and> \<not> c_done c),
     ci_exit = (if c_reaped c then Some (c_exit_code c) else None),
     ci_chans = (if c_channels c then Some (c_chIn c, c_chOut c, c_chErr c) else None)\<rparr>"

definition child_close :: "proc_env \<Rightarrow> child_t \<Rightarrow> 'x proc_ctx_scheme \<Rightarrow> 'x proc_out" where
  "child_close pv c x =
    (case child_channels_free (c, x) of (c, x) \<Rightarrow>
      case child_free (co_job (pv_child pv)) (pv_free pv) (c, registry_remove c x) of
        None \<Rightarrow> None
      | Some (_, _, x) \<Rightarrow> Some (Inr PNone, x))"

definition ChildCmd :: "proc_env \<Rightarrow> tvalue list \<Rightarrow> 'x proc_ctx_scheme \<Rightarrow> 'x proc_out" where
  "ChildCmd pv objv x =
    (case objv of
       [] \<Rightarrow> Some (Inl (child_error ''usage'' ''child subcommand ?arg ...?''), x)
     | sv # args \<Rightarrow>
       let sub = vtext sv in
       if sub \<notin> {''start'', ''wait'', ''kill'', ''info'', ''list'', ''close''} then Some (Inl (child_error ''usage'' ''unknown child subcommand''), x)
       else if sub = ''start'' then child_start pv args x
       else if sub = ''list'' then
         (if args \<noteq> [] then Some (Inl (child_error ''usage'' ''child list''), x)
          else Some (Inr (PList (map c_token (x_children x))), x))
       else case args of
         [] \<Rightarrow> Some (Inl (child_error ''usage'' ''child subcommand token ?arg ...?''), x)
       | tv # rest \<Rightarrow>
         (case registry_find x (vtext tv) of
            None \<Rightarrow> Some (Inl (child_error ''nohandle'' ''no such child''), x)
          | Some c \<Rightarrow>
             if sub = ''wait'' then child_wait pv c rest x
             else if sub = ''kill'' then child_kill pv c rest x
             else if sub = ''info'' then
               (if rest \<noteq> [] then Some (Inl (child_error ''usage'' ''child info token''), x)
                else Some (Inr (PInfo (child_info_dict c)), x))
             else if rest \<noteq> [] then Some (Inl (child_error ''usage'' ''child close token''), x)
             else child_close pv c x))"

section \<open>detach\<close>

definition detach_allowed :: dword where
  "detach_allowed = OPT_DIR OR OPT_ARG0 OR OPT_ENV"

text \<open>From the open null device on: launch outside every job, then close both handles.\<close>

definition detach_launch :: "child_os \<Rightarrow> run_opts \<Rightarrow> cstr \<Rightarrow> cstr list \<Rightarrow> world \<Rightarrow> proc_value res \<times> world" where
  "detach_launch os opts exe cargv w =
    (case open_handle w of (nul, w) \<Rightarrow>
      case argv_with_arg0 (co_argv os) opts cargv of
        None \<Rightarrow> (Inl (MtError ''DETACH'' ''oserror'' ''out of memory''), CloseHandle nul w)
      | Some dargv \<Rightarrow>
        (case wj_launch (co_launch os) (Some exe) dargv (o_dir opts) [] [Some nul, Some nul, Some nul] True (o_env_block opts) w of
           (Inl e, w) \<Rightarrow> (Inl (MtError ''DETACH'' ''launch'' e), CloseHandle nul w)
         | (Inr (pid, h), w) \<Rightarrow> (Inr (PInt pid), CloseHandle nul (CloseHandle h w))))"

definition DetachCmd :: "proc_env \<Rightarrow> tvalue list \<Rightarrow> 'x proc_ctx_scheme \<Rightarrow> proc_value res \<times> 'x proc_ctx_scheme" where
  "DetachCmd pv words x =
    (case parse_opts ''DETACH'' detach_allowed words of
       Inl e \<Rightarrow> (Inl e, x)
     | Inr opts \<Rightarrow>
       (case command_words pv ''DETACH'' ''detach ?-opt val ...? ?--? command ?arg ...?'' opts of
          Inl e \<Rightarrow> (Inl e, x)
        | Inr cargv \<Rightarrow>
          (case resolve_exe (co_text (pv_child pv)) (co_path (pv_child pv)) (hd cargv) of
             None \<Rightarrow> (Inl (MtError ''DETACH'' ''notfound'' ''command not found on PATH''), x)
           | Some exe \<Rightarrow>
             (case launch_env (pv_env pv) ''DETACH'' opts of
                Inl e \<Rightarrow> (Inl e, x)
              | Inr opts \<Rightarrow>
                 if \<not> co_nul (pv_child pv) then (Inl (MtError ''DETACH'' ''oserror'' ''open NUL failed''), x)
                 else (case detach_launch (pv_child pv) opts exe cargv (x_world x) of (r, w) \<Rightarrow> (r, x\<lparr>x_world := w\<rparr>))))))"

section \<open>The registry of children\<close>

interpretation child_reg: token_registry "''child#''" c_token x_children x_counter registry_add registry_find registry_remove
  by unfold_locales (simp_all add: registry_add_def registry_find_def registry_remove_def)

text \<open>
  The state between two commands: every open handle belongs to a registered child, to a Tcl channel
  or to the rest \<open>B\<close>, no two of them share one, tokens are distinct and every child is well formed.
\<close>

definition proc_wf :: "khandle list \<Rightarrow> 'x proc_ctx_scheme \<Rightarrow> bool" where
  "proc_wf B x \<longleftrightarrow> registry_owns B x \<and> (\<forall>c\<in>set (x_children x). wf_child c) \<and>
     token_registry.wf ''child#'' c_token x_children x_counter x"

lemma concat_mset_cong: "mset xs = mset ys \<Longrightarrow> mset (concat (map f xs)) = mset (concat (map f ys))"
proof -
  assume "mset xs = mset ys"
  then have "(\<Sum>x\<in>#mset xs. mset (f x)) = (\<Sum>x\<in>#mset ys. mset (f x))" by simp
  then show ?thesis by (simp add: mset_concat sum_mset_sum_list [symmetric] comp_def)
qed

lemma ledger_take:
  assumes "mset (x_children x) = mset (c # rest)"
  shows "registry_owns B x \<longleftrightarrow> owns (B @ concat (map slot_handles rest)) c x"
  using concat_mset_cong [OF assms, of slot_handles] by (simp add: registry_owns_def owns_def ac_simps)

lemma ledger_none:
  assumes "\<forall>s. c_slots c s = None"
  shows "owns (B @ concat (map slot_handles (x_children x))) c x \<longleftrightarrow> registry_owns B x"
  using slot_handles_empty [OF assms] by (simp add: registry_owns_def owns_def ac_simps)

lemma registry_mset: "distinct (map c_token (x_children x)) \<Longrightarrow> c \<in> set (x_children x) \<Longrightarrow>
    mset (x_children x) = mset (c # x_children (registry_remove c x))"
proof -
  assume "distinct (map c_token (x_children x))" "c \<in> set (x_children x)"
  then have "x_children (registry_remove c x) = remove1 c (x_children x)" "c \<in># mset (x_children x)"
    using remove1_by_token [of c_token "x_children x" c] by (simp_all add: registry_remove_def)
  then show ?thesis by simp
qed

lemma owns_registry: "x_world y = x_world x \<Longrightarrow> x_chans y = x_chans x \<Longrightarrow> owns B c y \<longleftrightarrow> owns B c x"
  by (simp add: owns_def)

lemma proc_wf_take:
  assumes "proc_wf B x" "c \<in> set (x_children x)"
  shows "owns (B @ concat (map slot_handles (x_children (registry_remove c x)))) c x \<and> wf_child c"
proof -
  have "distinct (map c_token (x_children x))" using assms(1) by (simp add: proc_wf_def child_reg.wf_def)
  from ledger_take [OF registry_mset [OF this assms(2)]] show ?thesis using assms by (simp add: proc_wf_def)
qed

lemma child_wf_tokens:
  fixes x y :: "'a proc_ctx_scheme"
  shows "map c_token (x_children y) = map c_token (x_children x) \<Longrightarrow> x_counter y = x_counter x \<Longrightarrow> child_reg.wf y \<longleftrightarrow> child_reg.wf x"
proof -
  assume t: "map c_token (x_children y) = map c_token (x_children x)" "x_counter y = x_counter x"
  have w: "child_reg.wf z \<longleftrightarrow> distinct (map c_token (x_children z)) \<and>
      (\<forall>t\<in>set (map c_token (x_children z)). \<exists>k. 1 \<le> k \<and> k \<le> x_counter z \<and> t = ''child#'' @ dec_of_nat k)" for z :: "'a proc_ctx_scheme"
    by (simp add: child_reg.wf_def)
  show ?thesis unfolding w t by (rule refl)
qed

text \<open>Putting back a child that worked on, and dropping one that holds nothing.\<close>

lemma proc_wf_update:
  fixes x x' :: "'a proc_ctx_scheme"
  assumes "proc_wf B x" "c \<in> set (x_children x)" "wf_child c'" "c_token c' = c_token c"
    "owns (B @ concat (map slot_handles (x_children (registry_remove c x)))) c' x'" "x_children x' = x_children x" "x_counter x' = x_counter x"
  shows "proc_wf B (registry_update (c', x'))"
proof -
  have w: "child_reg.wf x" "distinct (map c_token (x_children x))" using assms(1) by (simp_all add: proc_wf_def child_reg.wf_def)
  let ?f = "\<lambda>d. if c_token d = c_token c' then c' else d"
  have ch: "x_children (registry_update (c', x')) = map ?f (x_children x)" "x_counter (registry_update (c', x')) = x_counter x"
    by (simp_all add: registry_update_def assms(6,7))
  have tok: "map c_token (map ?f (x_children x)) = map c_token (x_children x)" using assms(4) by (auto simp: comp_def intro!: map_cong)
  have "map ?f (x_children (registry_remove c x)) = x_children (registry_remove c x)"
    using assms(4) by (auto simp: registry_remove_def intro!: map_idI)
  then have "mset (map ?f (x_children x)) = mset (c' # x_children (registry_remove c x))"
    using arg_cong [OF registry_mset [OF w(2) assms(2)], of "image_mset ?f"] assms(4) by (simp flip: mset_map)
  moreover have "owns (B @ concat (map slot_handles (x_children (registry_remove c x)))) c' (registry_update (c', x'))"
    using assms(5) by (simp add: owns_def registry_update_def)
  ultimately have "registry_owns B (registry_update (c', x'))" using ledger_take ch(1) by metis
  moreover have "\<forall>d\<in>set (map ?f (x_children x)). wf_child d" using assms(1,3) by (auto simp: proc_wf_def)
  moreover have "child_reg.wf (registry_update (c', x'))"
    using child_wf_tokens [of "registry_update (c', x')" x] w(1) tok unfolding ch by blast
  ultimately show ?thesis by (simp add: proc_wf_def ch)
qed

lemma proc_wf_drop:
  fixes x x' :: "'a proc_ctx_scheme"
  assumes "proc_wf B x" "c \<in> set (x_children x)" "\<forall>s. c_slots c' s = None"
    "owns (B @ concat (map slot_handles (x_children (registry_remove c x)))) c' x'"
    "x_children x' = x_children (registry_remove c x)" "x_counter x' = x_counter x"
  shows "proc_wf B x'"
proof -
  have "registry_owns B x'" using assms(4) ledger_none [OF assms(3), of B x'] by (simp add: assms(5))
  moreover have "child_reg.wf (registry_remove c x)" using child_reg.wf_drop assms(1,2) by (auto simp: proc_wf_def)
  then have "child_reg.wf x'" using assms(5,6) by (simp add: child_reg.wf_def registry_remove_def)
  ultimately show ?thesis using assms(1,5) by (auto simp: proc_wf_def registry_remove_def)
qed

section \<open>The verbs keep the ledger\<close>

text \<open>Waits for threads of the process itself succeed, as Windows documents for valid handles.\<close>

definition waits_ok :: "proc_env \<Rightarrow> bool" where
  "waits_ok pv \<longleftrightarrow> (\<forall>s. \<not> rp_join_failed (pv_reap pv) s) \<and> (\<forall>s. \<not> rp_join_failed (pv_free pv) s) \<and> \<not> rp_failed (pv_free pv)"

lemma owns_empty: "(\<forall>s. c_slots e s = None) \<Longrightarrow> owns B e x \<longleftrightarrow> owns B new_child x"
  using slot_handles_empty [of e] slot_handles_empty [of new_child] by (simp add: owns_def new_child_def)

lemma owns_free:
  assumes "child_free os ro (c, x) = Some (gone, d, y)" "owns B c x" "wf_child c" "\<forall>s. \<not> rp_join_failed ro s" "\<not> rp_failed ro"
  shows "owns B d y \<and> (\<forall>s. c_slots d s = None) \<and> progress (c, x) (d, y)"
  using child_free_facts [OF assms(1) _ _ assms(4), of "set B"] assms(2,3,5) by (auto simp: owns_own empty_def)

lemma owns_reap:
  assumes "child_reap os ms (c, x) = (r, d, y)" "owns B c x" "wf_child c" "\<forall>s. \<not> rp_join_failed os s"
  shows "owns B d y \<and> wf_child d \<and> progress (c, x) (d, y)"
  using child_reap_facts [OF assms(1) _ _ assms(4), of "set B"] assms(2,3) by (auto simp: owns_own)

lemma run_wait_ledger:
  assumes "run_wait pv opts stream (c, x) = Some (rc, d, y)" "owns B c x" "wf_child c" "waits_ok pv"
  shows "owns B d y \<and> wf_child d \<and> progress (c, x) (d, y)"
proof (cases stream)
  case True
  then have "child_pump (pv_pump pv) (co_job (pv_child pv)) (pv_reap pv) opts (c, x) = Some (rc, d, y)" using assms(1) by (simp add: run_wait_def)
  from child_pump_facts [OF this, of "set B"] show ?thesis using assms(2-4) by (auto simp: owns_own waits_ok_def)
next
  case False
  obtain r st where r: "child_reap (pv_reap pv) WJ_INFINITE (c, x) = (r, st)" by (rule prod.exhaust)
  then have "st = (d, y)" using assms(1) False by (auto simp: run_wait_def split: reap.splits)
  with r have "child_reap (pv_reap pv) WJ_INFINITE (c, x) = (r, d, y)" by simp
  from owns_reap [OF this assms(2,3)] show ?thesis using assms(4) by (simp add: waits_ok_def)
qed

lemma run_child_ledger:
  assumes "run_child pv opts stream (c, x) = Some (r, y)" "owns B c x" "wf_child c" "waits_ok pv"
  shows "owns B new_child y \<and> x_children y = x_children x \<and> x_counter y = x_counter x \<and> x_chans y = x_chans x"
proof -
  obtain rc d z where w: "run_wait pv opts stream (c, x) = Some (rc, d, z)"
    using assms(1) by (auto simp: run_child_def split: option.splits)
  note o = run_wait_ledger [OF w assms(2-4)]
  obtain g e where f: "child_free (co_job (pv_child pv)) (pv_free pv) (d, z) = Some (g, e, y)"
    using assms(1) by (auto simp: run_child_def w split: option.splits)
  have "owns B e y \<and> (\<forall>s. c_slots e s = None) \<and> progress (d, z) (e, y)"
    using owns_free [OF f] o assms(4) by (auto simp: waits_ok_def)
  then have "owns B new_child y" "progress (c, x) (e, y)"
    using o progress_trans owns_empty [of e B y] by auto
  then show ?thesis by (simp add: progress_def)
qed

text \<open>A run leaves open exactly what was open before, whatever happens in it.\<close>

lemma RunCmd_ledger:
  assumes "RunCmd pv words x = Some (r, y)" "owns B new_child x" "waits_ok pv"
  shows "owns B new_child y \<and> x_children y = x_children x \<and> x_counter y = x_counter x \<and> x_chans y = x_chans x"
proof (cases "\<exists>opts cargv opts2. parse_opts ''RUN'' run_allowed words = Inr opts \<and>
    bind_res (run_opts_ok opts) (\<lambda>_. command_words pv ''RUN'' ''run ?-opt val ...? ?--? command ?arg ...?'' opts) = Inr cargv \<and>
    launch_env (pv_env pv) ''RUN'' opts = Inr opts2")
  case False
  then have "y = x" using assms(1) by (auto simp: RunCmd_def split: sum.splits)
  then show ?thesis using assms(2) by simp
next
  case True
  then obtain opts cargv o2 where p: "parse_opts ''RUN'' run_allowed words = Inr opts"
    "bind_res (run_opts_ok opts) (\<lambda>_. command_words pv ''RUN'' ''run ?-opt val ...? ?--? command ?arg ...?'' opts) = Inr cargv"
    "launch_env (pv_env pv) ''RUN'' opts = Inr o2" by blast
  define stream where "stream = (o_onout o2 \<noteq> None \<or> o_onerr o2 \<noteq> None)"
  obtain res z where l: "child_launch (pv_child pv) o2 cargv False stream x = (res, z)" by (rule prod.exhaust)
  note cl = child_launch_own [OF l assms(2)]
  have R: "RunCmd pv words x = (case (res, z) of (Inl (m, code), x) \<Rightarrow> Some (Inl (MtError ''RUN'' code m), x)
      | (Inr c, x) \<Rightarrow> run_child pv o2 stream (c, x))"
    unfolding l [symmetric] stream_def RunCmd_def p sum.case Let_def ..
  show ?thesis
  proof (cases res)
    case (Inl e)
    then have "y = z" using assms(1) R by (auto split: prod.splits)
    then show ?thesis using cl Inl by simp
  next
    case (Inr c)
    then have "run_child pv o2 stream (c, z) = Some (r, y)" using assms(1) R by simp
    from run_child_ledger [OF this _ ready_wf assms(3)] show ?thesis using cl Inr by auto
  qed
qed

lemma proc_wf_new: "proc_wf B x \<Longrightarrow> owns (B @ concat (map slot_handles (x_children x))) new_child x"
  using registry_none by (auto simp: proc_wf_def)

lemma RunCmd_wf:
  fixes x y :: "'a proc_ctx_scheme"
  shows "RunCmd pv words x = Some (r, y) \<Longrightarrow> proc_wf B x \<Longrightarrow> waits_ok pv \<Longrightarrow> proc_wf B y"
proof -
  assume r: "RunCmd pv words x = Some (r, y)" and w: "proc_wf B x" and ok: "waits_ok pv"
  note l = RunCmd_ledger [OF r proc_wf_new [OF w] ok]
  have "registry_owns B y" using l registry_none [of B y] by simp
  moreover have "child_reg.wf y" using w l child_wf_tokens [of y x] by (simp add: proc_wf_def)
  ultimately show ?thesis using w l by (simp add: proc_wf_def)
qed

text \<open>Releasing a registered child.\<close>

lemma release_wf:
  fixes x y x1 :: "'a proc_ctx_scheme"
  assumes "child_free os ro (c1, registry_remove c1 x1) = Some (g, d, y)" "\<forall>s. \<not> rp_join_failed ro s" "\<not> rp_failed ro"
    "proc_wf B x" "c \<in> set (x_children x)" "wf_child c1" "c_token c1 = c_token c"
    "owns (B @ concat (map slot_handles (x_children (registry_remove c x)))) c1 x1" "x_children x1 = x_children x" "x_counter x1 = x_counter x"
  shows "proc_wf B y"
proof -
  have rm: "x_children (registry_remove c1 x1) = x_children (registry_remove c x)" "x_counter (registry_remove c1 x1) = x_counter x"
    by (simp_all add: registry_remove_def assms(7,9,10))
  have "owns (B @ concat (map slot_handles (x_children (registry_remove c x)))) c1 (registry_remove c1 x1)"
    using assms(8) by (simp add: owns_def registry_remove_def)
  from owns_free [OF assms(1) this assms(6,2,3)]
  show ?thesis using proc_wf_drop [OF assms(4,5), of d y] rm by (simp add: progress_def)
qed

text \<open>Adding the launched child.\<close>

lemma started_wf:
  fixes x z :: "'a proc_ctx_scheme"
  assumes "proc_wf B x" "owns (B @ concat (map slot_handles (x_children x))) c z" "wf_child c" "x_children z = c # x_children x"
    "x_counter z = x_counter x + 1" "c_token c = ''child#'' @ dec_of_nat (x_counter x + 1)"
  shows "proc_wf B z"
proof -
  have "registry_owns B z" using ledger_take [of z c "x_children x" B] assms(2,4) by simp
  moreover have "child_reg.wf (registry_add c x)" using child_reg.wf_add [of x c] assms(1,6) by (simp add: proc_wf_def)
  then have "child_reg.wf z" using child_wf_tokens [of z "registry_add c x"] assms(4,5)
    by (simp add: registry_add_def)
  ultimately show ?thesis using assms(1,3,4) by (simp add: proc_wf_def)
qed

text \<open>Handing the pipe ends to Tcl, and closing channels, touches nothing else.\<close>

definition chan_step :: "child_t \<times> 'x proc_ctx_scheme \<Rightarrow> child_t \<times> 'x proc_ctx_scheme \<Rightarrow> bool" where
  "chan_step st st' \<longleftrightarrow> (case (st, st') of ((c, x), (d, y)) \<Rightarrow>
     (\<forall>s. s \<notin> {SInW, SOutR, SErrR} \<longrightarrow> c_slots d s = c_slots c s) \<and> (\<forall>s. c_slots d s = None \<or> c_slots d s = c_slots c s) \<and>
     c_thr d = c_thr c \<and> c_stream d = c_stream c \<and> c_channels d = c_channels c \<and> c_inherit d = c_inherit c \<and> c_done d = c_done c \<and>
     c_reaped d = c_reaped c \<and> c_token d = c_token c \<and> c_pid d = c_pid c \<and>
     x_children y = x_children x \<and> x_counter y = x_counter x \<and> x_root y = x_root x)"

lemma chan_step_refl [simp]: "chan_step st st"
  by (cases st) (simp add: chan_step_def)

lemma chan_step_trans:
  assumes "chan_step a b" "chan_step b c"
  shows "chan_step a c"
proof -
  obtain c1 x1 c2 x2 c3 x3 where e: "a = (c1, x1)" "b = (c2, x2)" "c = (c3, x3)" by (metis prod.exhaust)
  have "c_slots c3 s = None \<or> c_slots c3 s = c_slots c1 s" for s
    using assms unfolding chan_step_def e prod.case by metis
  moreover have "c_slots c3 s = c_slots c1 s" if "s \<notin> {SInW, SOutR, SErrR}" for s
    using assms that unfolding chan_step_def e prod.case by simp
  ultimately show ?thesis using assms unfolding chan_step_def e prod.case by simp
qed

lemma chan_step_register: "s \<in> {SInW, SOutR, SErrR} \<Longrightarrow> chan_step st (register_chan n s st)"
  by (cases st) (auto simp: chan_step_def register_chan_def set_slot_def split: option.splits)

lemma chan_step_name: "chan_step st (c, x) \<Longrightarrow> chan_step st (c\<lparr>c_chIn := n\<rparr>, x) \<and> chan_step st (c\<lparr>c_chOut := n\<rparr>, x) \<and> chan_step st (c\<lparr>c_chErr := n\<rparr>, x)"
  by (cases st) (simp add: chan_step_def)

lemma fold_unregister: "x_children (fold unregister_chan ns x) = x_children x \<and> x_counter (fold unregister_chan ns x) = x_counter x \<and>
    x_root (fold unregister_chan ns x) = x_root x"
  by (induction ns arbitrary: x) (simp_all add: unregister_frame)

lemma chan_step_unregister: "chan_step st st' \<Longrightarrow> chan_step st (unregister_all ns st')"
  by (cases st; cases st') (simp add: chan_step_def unregister_all_def fold_unregister)

lemma child_channels_step: "child_channels os st = (ok, st') \<Longrightarrow> chan_step st st'"
proof -
  assume r: "child_channels os st = (ok, st')"
  show ?thesis
  proof (cases "ca_in os")
    case (Some ci)
    note ci = Some
    obtain c1 x1 where 1: "register_chan ci SInW st = (c1, x1)" by (rule prod.exhaust)
    define s1 where "s1 = (c1\<lparr>c_chIn := c_prefix CHAN_NAME ci\<rparr>, x1)"
    have "chan_step st (c1, x1)" using chan_step_register [of SInW st ci] 1 by simp
    then have t1: "chan_step st s1" unfolding s1_def using chan_step_name by blast
    show ?thesis
    proof (cases "ca_out os")
      case None
      then show ?thesis using r chan_step_unregister [OF t1] by (auto simp: child_channels_def ci 1 s1_def [symmetric])
    next
      case (Some co)
      obtain c2 x2 where 2: "register_chan co SOutR s1 = (c2, x2)" by (rule prod.exhaust)
      define s2 where "s2 = (c2\<lparr>c_chOut := c_prefix CHAN_NAME co\<rparr>, x2)"
      have "chan_step st (c2, x2)" using chan_step_trans [OF t1 chan_step_register [of SOutR s1 co]] 2 by simp
      then have t2: "chan_step st s2" unfolding s2_def using chan_step_name by blast
      show ?thesis
      proof (cases "ca_err os")
        case None
        then show ?thesis using r chan_step_unregister [OF t2]
          by (auto simp: child_channels_def ci 1 s1_def [symmetric] Some 2 s2_def [symmetric])
      next
        case (Some ce)
        obtain c3 x3 where 3: "register_chan ce SErrR s2 = (c3, x3)" by (rule prod.exhaust)
        have "chan_step st (c3, x3)" using chan_step_trans [OF t2 chan_step_register [of SErrR s2 ce]] 3 by simp
        then have t3: "chan_step st (c3\<lparr>c_chErr := c_prefix CHAN_NAME ce\<rparr>, x3)" using chan_step_name by blast
        then show ?thesis using r chan_step_unregister [OF t3]
          by (auto simp: child_channels_def ci 1 s1_def [symmetric] \<open>ca_out os = Some co\<close> 2 s2_def [symmetric] Some 3 Let_def split: if_splits)
      qed
    qed
  qed (use r in \<open>simp add: child_channels_def\<close>)
qed

lemma channels_free_step: "chan_step st (child_channels_free st)"
  by (cases st) (auto simp: child_channels_free_def intro!: chan_step_unregister)

lemma wf_chan_step:
  assumes "chan_step (c, x) (d, y)" "wf_child c"
  shows "wf_child d"
proof -
  have s: "c_slots d s = c_slots c s" if "s \<notin> {SInW, SOutR, SErrR}" for s using assms(1) that by (simp add: chan_step_def)
  have n: "c_slots d s = None" if "c_slots c s = None" for s using assms(1) that unfolding chan_step_def prod.case by metis
  have e: "c_thr d = c_thr c" "c_stream d = c_stream c" "c_channels d = c_channels c" "c_inherit d = c_inherit c" "c_done d = c_done c" "c_reaped d = c_reaped c"
    using assms(1) by (simp_all add: chan_step_def)
  have "running d s \<longleftrightarrow> running c s" if "s \<in> set join_slots" for s using that s e by (auto simp: running_def ended_def join_slots_def)
  moreover have "STIn \<in> set join_slots" by (simp add: join_slots_def)
  ultimately show ?thesis using assms(2) n s [of SWrite] e unfolding wf_child_def by auto
qed

lemma owns_channels: "child_channels os (c, x) = (ok, d, y) \<Longrightarrow> owns B c x \<Longrightarrow> owns B d y"
  using child_channels_own [of "set B" "(c, x)" os ok "(d, y)"] by (simp add: owns_own)

lemma owns_channels_free: "child_channels_free (c, x) = (d, y) \<Longrightarrow> owns B c x \<Longrightarrow> owns B d y"
  using child_channels_free_own [of "set B" "(c, x)"] by (simp add: owns_own)

lemma chan_step_facts: "chan_step (c, x) (d, y) \<Longrightarrow> c_token d = c_token c \<and> x_children y = x_children x \<and> x_counter y = x_counter x"
  by (simp add: chan_step_def)

lemma child_start_cases:
  assumes "child_start pv words x = Some (r, y)" "owns B new_child x"
  shows "(owns B new_child y \<and> x_children y = x_children x \<and> x_counter y = x_counter x) \<or>
    (\<exists>c z. owns B c z \<and> ready_child c \<and> x_children z = c # x_children x \<and> x_counter z = x_counter x + 1 \<and>
       c_token c = ''child#'' @ dec_of_nat (x_counter x + 1) \<and>
       (y = z \<or> (\<exists>d u. chan_step (c, z) (d, u) \<and> owns B d u \<and>
          (y = registry_update (d, u) \<or>
           (\<exists>g e. child_free (co_job (pv_child pv)) (pv_free pv) (d, registry_remove d u) = Some (g, e, y))))))"
proof (cases "\<exists>opts cargv o2. parse_opts ''CHILD'' start_allowed words = Inr opts \<and> \<not> (o_channels opts \<and> o_stdin_obj opts \<noteq> None) \<and>
    command_words pv ''CHILD'' ''child start ?-opt val ...? ?--? command ?arg ...?'' opts = Inr cargv \<and> launch_env (pv_env pv) ''CHILD'' opts = Inr o2")
  case False
  then have "y = x" using assms(1) by (auto simp: child_start_def split: sum.splits if_splits)
  then show ?thesis using assms(2) by simp
next
  case True
  then obtain opts cargv o2 where p: "parse_opts ''CHILD'' start_allowed words = Inr opts" "\<not> (o_channels opts \<and> o_stdin_obj opts \<noteq> None)"
    "command_words pv ''CHILD'' ''child start ?-opt val ...? ?--? command ?arg ...?'' opts = Inr cargv" "launch_env (pv_env pv) ''CHILD'' opts = Inr o2"
    by blast
  obtain res z where l: "child_launch (pv_child pv) o2 cargv True False x = (res, z)" by (rule prod.exhaust)
  note cl = child_launch_own [OF l assms(2)]
  have R: "child_start pv words x = (case (res, z) of (Inl (m, code), x) \<Rightarrow> Some (Inl (child_error code m), x)
      | (Inr c, x) \<Rightarrow> if o_channels o2 then (case child_channels (pv_chans pv) (c, x) of
                      (True, c, x) \<Rightarrow> Some (Inr (PText (c_token c)), registry_update (c, x))
                    | (False, st) \<Rightarrow> start_undo pv st)
                 else Some (Inr (PText (c_token c)), x))"
    unfolding l [symmetric] child_start_def p(1) sum.case if_not_P [OF p(2)] p(3,4) ..
  show ?thesis
  proof (cases res)
    case (Inl e)
    then have "y = z" using assms(1) R by (auto split: prod.splits)
    then show ?thesis using cl Inl by simp
  next
    case (Inr c)
    have cw: "owns B c z" "ready_child c" "x_children z = c # x_children x" "x_counter z = x_counter x + 1"
      "c_token c = ''child#'' @ dec_of_nat (x_counter x + 1)"
      using cl Inr by simp_all
    have "y = z \<or> (\<exists>d u. chan_step (c, z) (d, u) \<and> owns B d u \<and> (y = registry_update (d, u) \<or>
           (\<exists>g e. child_free (co_job (pv_child pv)) (pv_free pv) (d, registry_remove d u) = Some (g, e, y))))"
    proof (cases "o_channels o2")
      case False
      then show ?thesis using assms(1) R Inr by simp
    next
      case True
      obtain ok d u where ch: "child_channels (pv_chans pv) (c, z) = (ok, d, u)" by (rule prod_cases3)
      have "y = registry_update (d, u) \<or> start_undo pv (d, u) = Some (r, y)"
        using assms(1) R Inr True ch by (cases ok) simp_all
      then have "y = registry_update (d, u) \<or> (\<exists>g e. child_free (co_job (pv_child pv)) (pv_free pv) (d, registry_remove d u) = Some (g, e, y))"
        by (auto simp: start_undo_def split: option.splits prod.splits)
      then show ?thesis using child_channels_step [OF ch] owns_channels [OF ch cw(1)] by blast
    qed
    then show ?thesis using cw by blast
  qed
qed

lemma child_start_wf:
  fixes x y :: "'a proc_ctx_scheme"
  assumes "child_start pv words x = Some (r, y)" "proc_wf B x" "waits_ok pv"
  shows "proc_wf B y"
  using child_start_cases [OF assms(1) proc_wf_new [OF assms(2)]]
proof (elim disjE exE conjE)
  assume same: "owns (B @ concat (map slot_handles (x_children x))) new_child y" "x_children y = x_children x" "x_counter y = x_counter x"
  have "registry_owns B y" using same registry_none [of B y] by simp
  moreover have "child_reg.wf y" using assms(2) same child_wf_tokens [of y x] by (simp add: proc_wf_def)
  ultimately show ?thesis using assms(2) same by (simp add: proc_wf_def)
next
  fix c :: child_t and z :: "'a proc_ctx_scheme"
  assume c: "owns (B @ concat (map slot_handles (x_children x))) c z" "ready_child c" "x_children z = c # x_children x"
    "x_counter z = x_counter x + 1" "c_token c = ''child#'' @ dec_of_nat (x_counter x + 1)"
  have z: "proc_wf B z" by (rule started_wf [OF assms(2) c(1) ready_wf [OF c(2)] c(3-5)])
  then show "y = z \<Longrightarrow> proc_wf B y" by simp
  have cz: "c \<in> set (x_children z)" by (simp add: c(3))
  have rm: "x_children (registry_remove c z) = x_children x"
    using registry_mset [of z c] z cz c(3) by (simp add: proc_wf_def child_reg.wf_def registry_remove_def filter_id_conv) (auto simp: image_iff)
  fix d :: child_t and u :: "'a proc_ctx_scheme"
  assume du: "chan_step (c, z) (d, u)" "owns (B @ concat (map slot_handles (x_children x))) d u"
  note st = chan_step_facts [OF du(1)] and wd = wf_chan_step [OF du(1) ready_wf [OF c(2)]]
  have od: "owns (B @ concat (map slot_handles (x_children (registry_remove c z)))) d u" using du(2) rm by simp
  show "y = registry_update (d, u) \<Longrightarrow> proc_wf B y" using proc_wf_update [OF z cz wd _ od] st by simp
  fix g e
  assume "child_free (co_job (pv_child pv)) (pv_free pv) (d, registry_remove d u) = Some (g, e, y)"
  from release_wf [OF this _ _ z cz wd _ od] show ?thesis using st assms(3) by (simp add: waits_ok_def)
qed

lemma child_wait_wf:
  fixes x y :: "'a proc_ctx_scheme"
  assumes "child_wait pv c args x = Some (r, y)" "proc_wf B x" "c \<in> set (x_children x)" "waits_ok pv"
  shows "proc_wf B y"
proof -
  note take = proc_wf_take [OF assms(2,3)]
  show ?thesis
  proof (cases "wait_bound args")
    case (Inl e)
    then show ?thesis using assms(1,2) by (simp add: child_wait_def)
  next
    case (Inr ms)
    obtain res d z where rp: "child_reap (pv_reap pv) ms (c, x) = (res, d, z)" by (rule prod_cases3)
    have "y = x \<or> y = registry_update (d, z)"
      using assms(1) rp Inr by (cases res) (simp_all add: child_wait_def split: if_splits)
    have "\<forall>s. \<not> rp_join_failed (pv_reap pv) s" using assms(4) by (simp add: waits_ok_def)
    note rf = owns_reap [OF rp conjunct1 [OF take] conjunct2 [OF take] this]
    have "proc_wf B (registry_update (d, z))"
      using rf by (intro proc_wf_update [OF assms(2,3)]) (simp_all add: progress_def)
    moreover note \<open>y = x \<or> y = registry_update (d, z)\<close>
    ultimately show ?thesis using assms(2) by blast
  qed
qed

lemma same_update_wf:
  fixes x :: "'a proc_ctx_scheme"
  assumes "proc_wf B x" "c \<in> set (x_children x)" "c_slots d = c_slots c" "c_thr d = c_thr c" "c_stream d = c_stream c"
    "c_channels d = c_channels c" "c_inherit d = c_inherit c" "c_done d = c_done c" "c_reaped d = c_reaped c" "c_token d = c_token c"
  shows "proc_wf B (registry_update (d, x\<lparr>x_jobs := js\<rparr>))"
proof (rule proc_wf_update [OF assms(1,2)])
  note take = proc_wf_take [OF assms(1,2)]
  show "wf_child d" by (rule wf_child_same [OF conjunct2 [OF take] assms(3-9)])
  show "owns (B @ concat (map slot_handles (x_children (registry_remove c x)))) d (x\<lparr>x_jobs := js\<rparr>)"
    using conjunct1 [OF take] unfolding owns_def slot_handles_def assms(3) by simp
qed (simp_all add: assms(10))

lemma child_kill_cases:
  assumes "child_kill pv c args x = Some (r, y)"
  obtains "y = x" | js jp k where "\<not> c_reaped c" "y = registry_update (c\<lparr>c_job := jp, c_killed := k\<rparr>, x\<lparr>x_jobs := js\<rparr>)"
proof -
  obtain v0 where v: "(if args = [] then Some 1 else pv_int pv (vtext (args ! 0))) = v0" by blast
  show thesis
  proof (cases "length args > 1 \<or> v0 = None \<or> c_reaped c")
    case True
    then have "y = x" using assms v by (cases v0) (simp_all add: child_kill_def split: if_split_asm)
    then show thesis using that by blast
  next
    case False
    then obtain v' where v': "v0 = Some v'" by auto
    obtain ok jp cs where k: "on_job False (\<lambda>j. wj_job_terminate (co_job (pv_child pv)) j (word_of_int v')) (c_job c) = (ok, jp, cs)" by (rule prod_cases3)
    have "c\<lparr>c_job := jp, c_killed := c_killed c\<rparr> = c\<lparr>c_job := jp\<rparr>" by simp
    then have "y = registry_update (c\<lparr>c_job := jp, c_killed := (if ok then True else c_killed c)\<rparr>, x\<lparr>x_jobs := x_jobs x @ cs\<rparr>)"
      using assms False v v' k by (cases ok) (simp_all add: child_kill_def log_jobs_def Let_def)
    then show thesis using that(2) False by blast
  qed
qed

lemma child_kill_wf:
  fixes x y :: "'a proc_ctx_scheme"
  assumes "child_kill pv c args x = Some (r, y)" "proc_wf B x" "c \<in> set (x_children x)"
  shows "proc_wf B y"
  using assms(1)
proof (cases rule: child_kill_cases)
  case (2 js jp k)
  show ?thesis unfolding 2(2) by (intro same_update_wf [OF assms(2,3)]) simp_all
qed (use assms(2) in simp)

lemma child_close_wf:
  fixes x y :: "'a proc_ctx_scheme"
  assumes "child_close pv c x = Some (r, y)" "proc_wf B x" "c \<in> set (x_children x)" "waits_ok pv"
  shows "proc_wf B y"
proof -
  note take = proc_wf_take [OF assms(2,3)]
  obtain d z where ch: "child_channels_free (c, x) = (d, z)" by (rule prod.exhaust)
  have st: "chan_step (c, x) (d, z)" unfolding ch [symmetric] by (rule channels_free_step)
  obtain g e where "child_free (co_job (pv_child pv)) (pv_free pv) (d, registry_remove d z) = Some (g, e, y)"
    using assms(1) ch by (auto simp: child_close_def split: option.splits prod.splits)
  from release_wf [OF this _ _ assms(2,3) wf_chan_step [OF st]] show ?thesis
    using chan_step_facts [OF st] assms(4) take owns_channels_free [OF ch] by (simp add: waits_ok_def)
qed

lemma ChildCmd_cases:
  assumes "ChildCmd pv objv x = Some (r, y)"
  shows "y = x \<or> (\<exists>args. child_start pv args x = Some (r, y)) \<or>
    (\<exists>c rest. c \<in> set (x_children x) \<and>
       (child_wait pv c rest x = Some (r, y) \<or> child_kill pv c rest x = Some (r, y) \<or> child_close pv c x = Some (r, y)))"
proof (cases objv)
  case Nil
  then show ?thesis using assms by (simp add: ChildCmd_def)
next
  case (Cons sv args)
  note R = assms [unfolded ChildCmd_def Cons list.case Let_def]
  show ?thesis
  proof (cases "vtext sv \<notin> {''start'', ''wait'', ''kill'', ''info'', ''list'', ''close''} \<or> vtext sv = ''start'' \<or> vtext sv = ''list'' \<or> args = []")
    case True
    then show ?thesis using R by (auto split: if_split_asm list.splits)
  next
    case False
    then obtain tv rest where a: "args = tv # rest" by (cases args) auto
    from False have f: "(vtext sv \<notin> {''start'', ''wait'', ''kill'', ''info'', ''list'', ''close''}) = False" "(vtext sv = ''start'') = False" "(vtext sv = ''list'') = False" by auto
    note R2 = R [unfolded f if_False a list.case]
    show ?thesis
    proof (cases "registry_find x (vtext tv)")
      case None
      then show ?thesis using R2 by simp
    next
      case (Some c)
      have "c \<in> set (x_children x)" using Some by (auto simp: registry_find_def find_Some_iff)
      moreover have "y = x \<or> child_wait pv c rest x = Some (r, y) \<or> child_kill pv c rest x = Some (r, y) \<or> child_close pv c x = Some (r, y)"
        using R2 [unfolded Some option.case] by (simp split: if_split_asm)
      ultimately show ?thesis by blast
    qed
  qed
qed

lemma ChildCmd_wf:
  fixes x y :: "'a proc_ctx_scheme"
  assumes "ChildCmd pv objv x = Some (r, y)" "proc_wf B x" "waits_ok pv"
  shows "proc_wf B y"
  using ChildCmd_cases [OF assms(1)] child_start_wf [OF _ assms(2,3)] child_wait_wf [OF _ assms(2) _ assms(3)]
    child_kill_wf [OF _ assms(2)] child_close_wf [OF _ assms(2) _ assms(3)] assms(2) by blast

section \<open>detach\<close>

lemma wf_world_mset: "wf_world w \<Longrightarrow> wf_world w' \<Longrightarrow> set (w_open w') = set (w_open w) \<Longrightarrow> mset (w_open w') = mset (w_open w)"
  by (simp add: wf_world_def set_eq_iff_mset_eq_distinct)

lemma detach_launch_ledger:
  assumes "detach_launch os opts exe cargv w = (r, w')" "wf_world w"
  shows "wf_world w' \<and> mset (w_open w') = mset (w_open w)"
proof -
  obtain nul w1 where n: "open_handle w = (nul, w1)" by (rule prod.exhaust)
  note o = wf_open [OF assms(2) n]
  have close1: "wf_world (CloseHandle nul w1) \<and> set (w_open (CloseHandle nul w1)) = set (w_open w)"
    using wf_close [of w1 nul] o by auto
  show ?thesis
  proof (cases "argv_with_arg0 (co_argv os) opts cargv")
    case None
    then have "w' = CloseHandle nul w1" using assms(1) by (auto simp: detach_launch_def n)
    then show ?thesis using close1 wf_world_mset [OF assms(2)] by simp
  next
    case (Some dargv)
    obtain res w2 where l: "wj_launch (co_launch os) (Some exe) dargv (o_dir opts) [] [Some nul, Some nul, Some nul] True (o_env_block opts) w1 = (res, w2)"
      by (rule prod.exhaust)
    have w1: "wf_world w1" using o by blast
    note la = wj_launch_launched [OF l w1]
    show ?thesis
    proof (cases res)
      case (Inl e)
      then have w': "w' = CloseHandle nul w2" using assms(1) by (auto simp: detach_launch_def n Some l)
      have "wf_world w2" "set (w_open w2) = set (w_open w1)" using la Inl by (auto simp: launched_def)
      then have "wf_world w'" "set (w_open w') = set (w_open w)" using wf_close [of w2 nul] o unfolding w' by auto
      then show ?thesis using wf_world_mset [OF assms(2)] by simp
    next
      case (Inr ph)
      obtain pid h where ph: "ph = (pid, h)" by (rule prod.exhaust)
      then have w': "w' = CloseHandle nul (CloseHandle h w2)" using assms(1) Inr by (auto simp: detach_launch_def n Some l)
      have w2: "wf_world w2" "set (w_open w2) = insert h (set (w_open w1))" "w_next w1 \<le> h" using la Inr ph by (auto simp: launched_def)
      have fresh: "h \<notin> set (w_open w1)" using w1 w2(3) by (auto simp: wf_world_def)
      have c: "wf_world (CloseHandle h w2)" "set (w_open (CloseHandle h w2)) = set (w_open w1)"
        using wf_close [OF w2(1), of h] w2(2) fresh by auto
      have "wf_world w'" "set (w_open w') = set (w_open w)" using wf_close [OF c(1), of nul] c(2) o unfolding w' by auto
      then show ?thesis using wf_world_mset [OF assms(2)] by simp
    qed
  qed
qed

lemma DetachCmd_ledger:
  assumes "DetachCmd pv words x = (r, y)" "wf_world (x_world x)"
  shows "\<exists>w. y = x\<lparr>x_world := w\<rparr> \<and> wf_world w \<and> mset (w_open w) = mset (w_open (x_world x))"
proof -
  have same: "\<exists>w. x = x\<lparr>x_world := w\<rparr> \<and> wf_world w \<and> mset (w_open w) = mset (w_open (x_world x))"
    using assms(2) by (intro exI [of _ "x_world x"]) simp
  have "y = x \<or> (\<exists>opts exe cargv r w. detach_launch (pv_child pv) opts exe cargv (x_world x) = (r, w) \<and> y = x\<lparr>x_world := w\<rparr>)"
    using assms(1) by (auto simp: DetachCmd_def split: sum.splits option.splits if_splits prod.splits) blast
  then show ?thesis using same detach_launch_ledger [OF _ assms(2)] by blast
qed

lemma DetachCmd_wf: "DetachCmd pv words x = (r, y) \<Longrightarrow> proc_wf B x \<Longrightarrow> proc_wf B y"
proof -
  assume d: "DetachCmd pv words x = (r, y)" and w: "proc_wf B x"
  have "wf_world (x_world x)" using w by (simp add: proc_wf_def registry_owns_def)
  from DetachCmd_ledger [OF d this] show ?thesis using w by (auto simp: proc_wf_def registry_owns_def child_reg.wf_def)
qed

section \<open>Every history of the verbs\<close>

text \<open>
  The steps: a verb returns, the threads of a registered child move on, or a script closes a channel
  of its own accord.
\<close>

inductive proc_step :: "'x proc_ctx_scheme \<Rightarrow> 'x proc_ctx_scheme \<Rightarrow> bool" where
  run_step: "RunCmd pv words x = Some (r, y) \<Longrightarrow> waits_ok pv \<Longrightarrow> proc_step x y"
| child_step: "ChildCmd pv objv x = Some (r, y) \<Longrightarrow> waits_ok pv \<Longrightarrow> proc_step x y"
| detach_step: "DetachCmd pv words x = (r, y) \<Longrightarrow> proc_step x y"
| threads_step: "c \<in> set (x_children x) \<Longrightarrow> threads_run obs (c, x) = (d, y) \<Longrightarrow> proc_step x (registry_update (d, y))"
| script_step: "proc_step x (unregister_chan n x)"

inductive proc_reach :: "'x proc_ctx_scheme \<Rightarrow> 'x proc_ctx_scheme \<Rightarrow> bool" for x0 where
  reach_init: "proc_reach x0 x0"
| reach_step: "proc_reach x0 x \<Longrightarrow> proc_step x y \<Longrightarrow> proc_reach x0 y"

text \<open>The state after \<^verbatim>\<open>Machteldproc_Init\<close>, with whatever the process has open by then.\<close>

definition proc_start :: "'x proc_ctx_scheme \<Rightarrow> bool" where
  "proc_start x \<longleftrightarrow> x_children x = [] \<and> x_chans x = [] \<and> wf_world (x_world x)"

lemma script_wf: "proc_wf B x \<Longrightarrow> proc_wf B (unregister_chan n x)"
proof -
  assume w: "proc_wf B x"
  have "own (set (B @ concat (map slot_handles (x_children x)))) (new_child, unregister_chan n x)"
    using proc_wf_new [OF w] own_unregister by (auto simp: owns_own)
  moreover have "distinct (B @ concat (map slot_handles (x_children x)))" using proc_wf_new [OF w] by (simp add: owns_own)
  ultimately have "registry_owns B (unregister_chan n x)" using registry_none [of B "unregister_chan n x"] by (simp add: owns_own unregister_frame)
  moreover have "child_reg.wf (unregister_chan n x)" using w child_wf_tokens [of "unregister_chan n x" x] by (simp add: proc_wf_def unregister_frame)
  ultimately show ?thesis using w by (simp add: proc_wf_def unregister_frame)
qed

lemma threads_wf:
  fixes x y :: "'a proc_ctx_scheme"
  assumes "proc_wf B x" "c \<in> set (x_children x)" "threads_run obs (c, x) = (d, y)"
  shows "proc_wf B (registry_update (d, y))"
proof -
  note take = proc_wf_take [OF assms(1,2)]
  have o: "own (set (B @ concat (map slot_handles (x_children (registry_remove c x))))) (c, x)" "wf_child c"
    "distinct (B @ concat (map slot_handles (x_children (registry_remove c x))))"
    using take by (simp_all add: owns_own)
  note t = threads_run_facts [OF assms(3) o(1,2)]
  show ?thesis using t o(3) by (intro proc_wf_update [OF assms(1,2)]) (simp_all add: owns_own progress_def)
qed

lemma proc_step_wf: "proc_step x y \<Longrightarrow> proc_wf B x \<Longrightarrow> proc_wf B y"
  by (induction rule: proc_step.induct)
    (blast intro: RunCmd_wf ChildCmd_wf DetachCmd_wf threads_wf script_wf)+

lemma proc_start_wf: "proc_start x \<Longrightarrow> proc_wf (w_open (x_world x)) x"
  by (simp add: proc_start_def proc_wf_def registry_owns_def child_reg.wf_def)

lemma proc_reach_wf: "proc_reach x0 x \<Longrightarrow> proc_start x0 \<Longrightarrow> proc_wf (w_open (x_world x0)) x"
  by (induction rule: proc_reach.induct) (auto intro: proc_start_wf proc_step_wf)

section \<open>Abstract life of the children\<close>

text \<open>
  What a script can rely on: a counter that makes tokens, and for each token, newest first, whether
  the child is live (\<open>None\<close>) or finished with a result, which then never changes. A step names the token it closes, if it
  closes one; no other step lets a token go.
\<close>

type_synonym lives = "nat \<times> (string \<times> child_result option) list"

inductive life_step :: "string option \<Rightarrow> lives \<Rightarrow> lives \<Rightarrow> bool" where
  life_keep: "life_step None s s"
| life_start: "life_step None (n, ls) (Suc n, (''child#'' @ dec_of_nat (Suc n), None) # ls)"
| life_undone: "life_step None (n, ls) (Suc n, ls)"
| life_finish: "life_step None (n, ks @ (t, None) # ls) (n, ks @ (t, Some r) # ls)"
| life_close: "t \<in> fst ` set ls \<Longrightarrow> life_step (Some t) (n, ls) (n, List.filter (\<lambda>l. fst l \<noteq> t) ls)"

definition life_of :: "child_t \<Rightarrow> string \<times> child_result option" where
  "life_of c = (c_token c, if c_reaped c then Some (child_dict c) else None)"

definition lives_of :: "'x proc_ctx_scheme \<Rightarrow> lives" where
  "lives_of x = (x_counter x, map life_of (x_children x))"

text \<open>A child that is changed in place finishes or keeps its life.\<close>

lemma life_update:
  fixes x x' :: "'a proc_ctx_scheme"
  assumes "proc_wf B x" "c \<in> set (x_children x)" "c_token d = c_token c" "x_children x' = x_children x" "x_counter x' = x_counter x"
    "c_reaped c \<Longrightarrow> c_reaped d \<and> child_dict d = child_dict c"
  shows "life_step None (lives_of x) (lives_of (registry_update (d, x')))"
proof -
  obtain as bs where s: "x_children x = as @ c # bs" using split_list [OF assms(2)] by blast
  have dist: "distinct (map c_token (x_children x))" using assms(1) by (simp add: proc_wf_def child_reg.wf_def)
  let ?f = "\<lambda>e. if c_token e = c_token d then d else e"
  have ne: "c_token e \<noteq> c_token d" if "e \<in> set as \<union> set bs" for e
    using imageI [OF that, of c_token] dist by (auto simp: s assms(3))
  have "map ?f as = as" "map ?f bs = bs" using ne by (auto intro!: map_idI)
  then have ch: "x_children (registry_update (d, x')) = as @ d # bs" by (simp add: registry_update_def assms(3,4) s)
  have n: "x_counter (registry_update (d, x')) = x_counter x" by (simp add: registry_update_def assms(5))
  show ?thesis
  proof (cases "life_of d = life_of c")
    case True
    then have "lives_of (registry_update (d, x')) = lives_of x" by (simp add: lives_of_def ch n s)
    then show ?thesis by (simp add: life_keep)
  next
    case False
    then have "\<not> c_reaped c" "c_reaped d" using assms(3,6) by (auto simp: life_of_def split: if_splits)
    then show ?thesis using life_finish [of "x_counter x" "map life_of as" "c_token c" "map life_of bs" "child_dict d"] assms(3)
      by (simp add: lives_of_def ch n s life_of_def)
  qed
qed

lemma life_drop:
  assumes "c \<in> set (x_children x)" "x_children y = x_children (registry_remove c x)" "x_counter y = x_counter x"
  shows "life_step (Some (c_token c)) (lives_of x) (lives_of y)"
proof -
  have "c_token c \<in> fst ` set (map life_of (x_children x))" using assms(1) by (force simp: life_of_def)
  from life_close [OF this, of "x_counter x"]
  show ?thesis using assms(2,3) by (simp add: lives_of_def registry_remove_def filter_map comp_def life_of_def)
qed

lemma life_same: "x_children y = x_children x \<Longrightarrow> x_counter y = x_counter x \<Longrightarrow> life_step None (lives_of x) (lives_of y)"
  by (simp add: lives_of_def life_keep)

text \<open>The threads of a reaped child have ended.\<close>

lemma threads_reaped:
  assumes "threads_run obs (c, x) = (d, y)" "wf_child c" "c_reaped c"
  shows "d = c \<and> y = x"
proof -
  have "c_slots c s = None" if "s \<noteq> SInW" for s using assms(2,3) that unfolding wf_child_def by blast
  then have "\<not> running c s" if "s \<noteq> SInW" for s using that by (simp add: running_def)
  then show ?thesis using assms(1) by (simp add: threads_run_def readers_run_def writer_run_def monitor_run_def)
qed

lemma reap_life: "child_reap os ms (c, x) = (r, d, y) \<Longrightarrow> c_reaped c \<Longrightarrow> d = c \<and> y = x"
  by (simp add: child_reap_def)

lemma child_start_life:
  fixes x y :: "'a proc_ctx_scheme"
  assumes "child_start pv words x = Some (r, y)" "proc_wf B x" "waits_ok pv"
  shows "life_step None (lives_of x) (lives_of y)"
  using child_start_cases [OF assms(1) proc_wf_new [OF assms(2)]]
proof (elim disjE exE conjE)
  assume "x_children y = x_children x" "x_counter y = x_counter x"
  then show ?thesis by (rule life_same)
next
  fix c :: child_t and z :: "'a proc_ctx_scheme"
  assume c: "owns (B @ concat (map slot_handles (x_children x))) c z" "ready_child c" "x_children z = c # x_children x"
    "x_counter z = x_counter x + 1" "c_token c = ''child#'' @ dec_of_nat (x_counter x + 1)"
  have live: "\<not> c_reaped c" using c(2) by (simp add: ready_child_def)
  have z: "proc_wf B z" by (rule started_wf [OF assms(2) c(1) ready_wf [OF c(2)] c(3-5)])
  have "c_token c \<notin> c_token ` set (x_children x)" using z c(3) by (simp add: proc_wf_def child_reg.wf_def)
  then have fresh: "c_token e \<noteq> c_token c" if "e \<in> set (x_children x)" for e using that by (metis imageI)
  have start: "life_step None (lives_of x) (Suc (x_counter x), (c_token c, None) # map life_of (x_children x))"
    using life_start [of "x_counter x" "map life_of (x_children x)"] c(5) by (simp add: lives_of_def)
  then show "y = z \<Longrightarrow> life_step None (lives_of x) (lives_of y)" using live by (simp add: lives_of_def c(3,4) life_of_def)
  fix d :: child_t and u :: "'a proc_ctx_scheme"
  assume du: "chan_step (c, z) (d, u)"
  note st = chan_step_facts [OF du]
  have ld: "\<not> c_reaped d" "c_token d = c_token c" using du live by (simp_all add: chan_step_def)
  have old: "map (\<lambda>e. if c_token e = c_token d then d else e) (x_children x) = x_children x" using fresh ld(2) by (auto intro!: map_idI)
  show "y = registry_update (d, u) \<Longrightarrow> life_step None (lives_of x) (lives_of y)"
    using start st ld old c(3,4) by (simp add: lives_of_def registry_update_def life_of_def)
  fix g e
  assume f: "child_free (co_job (pv_child pv)) (pv_free pv) (d, registry_remove d u) = Some (g, e, y)"
  have wd: "wf_child d" by (rule wf_chan_step [OF du ready_wf [OF c(2)]])
  assume ou: "owns (B @ concat (map slot_handles (x_children x))) d u"
  have "owns (B @ concat (map slot_handles (x_children x))) d (registry_remove d u)" using ou by (simp add: owns_def registry_remove_def)
  from owns_free [OF f this wd] have "progress (d, registry_remove d u) (e, y)" using assms(3) by (simp add: waits_ok_def)
  then have y: "x_children y = List.filter (\<lambda>e. c_token e \<noteq> c_token d) (x_children u)" "x_counter y = x_counter u"
    by (simp_all add: progress_def registry_remove_def)
  have "List.filter (\<lambda>e. c_token e \<noteq> c_token d) (x_children x) = x_children x" using fresh ld(2) by (simp add: filter_id_conv)
  then have "x_children y = x_children x" using y(1) st ld(2) c(3) by simp
  then show ?thesis using life_undone [of "x_counter x" "map life_of (x_children x)"] y(2) st c(4) by (simp add: lives_of_def)
qed

lemma child_wait_life:
  fixes x y :: "'a proc_ctx_scheme"
  assumes "child_wait pv c args x = Some (r, y)" "proc_wf B x" "c \<in> set (x_children x)" "waits_ok pv"
  shows "life_step None (lives_of x) (lives_of y)"
proof (cases "y = x")
  case False
  then obtain ms where ms: "wait_bound args = Inr ms" "\<not> c_reaped c" using assms(1) by (auto simp: child_wait_def split: sum.splits if_splits)
  obtain res d z where rp: "child_reap (pv_reap pv) ms (c, x) = (res, d, z)" by (rule prod_cases3)
  have y: "y = registry_update (d, z)" using assms(1) rp ms by (cases res) (simp_all add: child_wait_def)
  note take = proc_wf_take [OF assms(2,3)]
  have "\<forall>s. \<not> rp_join_failed (pv_reap pv) s" using assms(4) by (simp add: waits_ok_def)
  note rf = owns_reap [OF rp conjunct1 [OF take] conjunct2 [OF take] this]
  show ?thesis unfolding y using rf ms(2) by (intro life_update [OF assms(2,3)]) (simp_all add: progress_def)
qed (simp add: life_keep)

lemma child_close_life:
  fixes x y :: "'a proc_ctx_scheme"
  assumes "child_close pv c x = Some (r, y)" "proc_wf B x" "c \<in> set (x_children x)" "waits_ok pv"
  shows "life_step (Some (c_token c)) (lives_of x) (lives_of y)"
proof -
  obtain d z where ch: "child_channels_free (c, x) = (d, z)" by (rule prod.exhaust)
  have st: "chan_step (c, x) (d, z)" unfolding ch [symmetric] by (rule channels_free_step)
  obtain g e where f: "child_free (co_job (pv_child pv)) (pv_free pv) (d, registry_remove d z) = Some (g, e, y)"
    using assms(1) ch by (auto simp: child_close_def split: option.splits prod.splits)
  note take = proc_wf_take [OF assms(2,3)]
  have wd: "wf_child d" using wf_chan_step [OF st] take by blast
  have "owns (B @ concat (map slot_handles (x_children (registry_remove c x)))) d (registry_remove d z)"
    using owns_channels_free [OF ch conjunct1 [OF take]] by (simp add: owns_def registry_remove_def)
  from owns_free [OF f this wd] have p: "progress (d, registry_remove d z) (e, y)" using assms(4) by (simp add: waits_ok_def)
  show ?thesis
    using p chan_step_facts [OF st] by (intro life_drop [OF assms(3)]) (simp_all add: progress_def registry_remove_def)
qed

lemma child_kill_life:
  fixes x y :: "'a proc_ctx_scheme"
  assumes "child_kill pv c args x = Some (r, y)" "proc_wf B x" "c \<in> set (x_children x)"
  shows "life_step None (lives_of x) (lives_of y)"
  using assms(1)
proof (cases rule: child_kill_cases)
  case 1
  then show ?thesis by (simp add: life_keep)
next
  case (2 js jp k)
  show ?thesis unfolding 2(2) using 2(1) by (intro life_update [OF assms(2,3)]) simp_all
qed

text \<open>The step is a \<^verbatim>\<open>child close\<close> of the token.\<close>

definition closes :: "string \<Rightarrow> 'x proc_ctx_scheme \<Rightarrow> 'x proc_ctx_scheme \<Rightarrow> bool" where
  "closes t x y \<longleftrightarrow> (\<exists>pv w v r. vtext w = ''close'' \<and> vtext v = t \<and> ChildCmd pv [w, v] x = Some (r, y))"

lemma ChildCmd_closes:
  assumes "ChildCmd pv objv x = Some (r, y)"
  shows "y = x \<or> (\<exists>args. child_start pv args x = Some (r, y)) \<or>
    (\<exists>c rest. c \<in> set (x_children x) \<and> (child_wait pv c rest x = Some (r, y) \<or> child_kill pv c rest x = Some (r, y) \<or>
       child_close pv c x = Some (r, y) \<and> closes (c_token c) x y))"
proof (cases "\<exists>w v. objv = [w, v] \<and> vtext w = ''close''")
  case True
  then obtain w v where o: "objv = [w, v]" "vtext w = ''close''" by blast
  show ?thesis
  proof (cases "registry_find x (vtext v)")
    case None
    then show ?thesis using assms o by (simp add: ChildCmd_def)
  next
    case (Some c)
    then have c: "c \<in> set (x_children x)" "c_token c = vtext v" using child_reg.find_some [OF Some] by auto
    moreover have "child_close pv c x = Some (r, y)" using assms o Some by (simp add: ChildCmd_def)
    moreover have "closes (c_token c) x y" using assms o c(2) unfolding closes_def by metis
    ultimately show ?thesis by blast
  qed
next
  case False
  then have "y = x \<or> (\<exists>args. child_start pv args x = Some (r, y)) \<or>
    (\<exists>c rest. c \<in> set (x_children x) \<and> (child_wait pv c rest x = Some (r, y) \<or> child_kill pv c rest x = Some (r, y)))"
    using assms child_reg.find_some [of x]
    by (auto simp: ChildCmd_def Let_def split: list.splits if_split_asm option.splits)
  then show ?thesis by blast
qed

lemma ChildCmd_life:
  fixes x y :: "'a proc_ctx_scheme"
  assumes "ChildCmd pv objv x = Some (r, y)" "proc_wf B x" "waits_ok pv"
  shows "\<exists>l. life_step l (lives_of x) (lives_of y) \<and> (\<forall>t. l = Some t \<longrightarrow> closes t x y)"
  using ChildCmd_closes [OF assms(1)]
proof (elim disjE exE conjE)
  assume "y = x"
  then show ?thesis using life_keep by (intro exI [of _ None]) simp
next
  fix args
  assume "child_start pv args x = Some (r, y)"
  then show ?thesis using child_start_life [OF _ assms(2,3)] by (intro exI [of _ None]) simp
next
  fix c rest
  assume c: "c \<in> set (x_children x)"
  show "child_wait pv c rest x = Some (r, y) \<Longrightarrow> ?thesis"
    using child_wait_life [OF _ assms(2) c assms(3)] by (intro exI [of _ None]) simp
  show "child_kill pv c rest x = Some (r, y) \<Longrightarrow> ?thesis"
    using child_kill_life [OF _ assms(2) c] by (intro exI [of _ None]) simp
  show "child_close pv c x = Some (r, y) \<Longrightarrow> closes (c_token c) x y \<Longrightarrow> ?thesis"
    using child_close_life [OF _ assms(2) c assms(3)] by (intro exI [of _ "Some (c_token c)"]) simp
qed

lemma proc_step_life:
  "proc_step x y \<Longrightarrow> proc_wf B x \<Longrightarrow> \<exists>l. life_step l (lives_of x) (lives_of y) \<and> (\<forall>t. l = Some t \<longrightarrow> closes t x y)"
proof (induction rule: proc_step.induct)
  case (run_step pv words x r y)
  then show ?case using RunCmd_ledger [OF run_step(1) proc_wf_new] life_same by blast
next
  case (child_step pv objv x r y)
  then show ?case using ChildCmd_life by blast
next
  case (detach_step pv words x r y)
  have "wf_world (x_world x)" using detach_step(2) by (simp add: proc_wf_def registry_owns_def)
  then have "life_step None (lives_of x) (lives_of y)" using DetachCmd_ledger [OF detach_step(1)] by (auto intro!: life_same)
  then show ?case by blast
next
  case (threads_step c x obs d y)
  note take = proc_wf_take [OF threads_step(3,1)]
  have o: "own (set (B @ concat (map slot_handles (x_children (registry_remove c x))))) (c, x)" "wf_child c" using take by (simp_all add: owns_own)
  note t = threads_run_facts [OF threads_step(2) o]
  have "life_step None (lives_of x) (lives_of (registry_update (d, y)))" using t threads_reaped [OF threads_step(2) o(2)]
    by (intro life_update [OF threads_step(3,1)]) (auto simp: progress_def)
  then show ?case by blast
next
  case (script_step x n)
  have "life_step None (lives_of x) (lives_of (unregister_chan n x))" by (intro life_same) (simp_all add: unregister_frame)
  then show ?case by blast
qed

lemma proc_reach_keeps: "proc_reach x y \<Longrightarrow> proc_wf B x \<Longrightarrow> proc_wf B y"
  by (induction rule: proc_reach.induct) (auto intro: proc_step_wf)

lemma lives_tokens: "proc_wf B x \<Longrightarrow> distinct (map fst (snd (lives_of x))) \<and>
    (\<forall>t\<in>fst ` set (snd (lives_of x)). \<exists>k. k \<le> fst (lives_of x) \<and> t = ''child#'' @ dec_of_nat k)"
  by (fastforce simp: lives_of_def proc_wf_def child_reg.wf_def comp_def life_of_def)

text \<open>A result is written once, and a token that is gone never comes back.\<close>

abbreviation settled :: "string \<Rightarrow> child_result \<Rightarrow> (string \<times> child_result option) list \<Rightarrow> bool" where
  "settled t r ls \<equiv> (t, Some r) \<in> set ls \<or> t \<notin> fst ` set ls"

lemma life_settled:
  assumes "life_step l s s'" "distinct (map fst (snd s))" "t = ''child#'' @ dec_of_nat k" "k \<le> fst s"
  shows "k \<le> fst s' \<and> (settled t r (snd s) \<longrightarrow> settled t r (snd s')) \<and> (t \<notin> fst ` set (snd s) \<longrightarrow> t \<notin> fst ` set (snd s')) \<and>
    (l \<noteq> Some t \<longrightarrow> t \<in> fst ` set (snd s) \<longrightarrow> t \<in> fst ` set (snd s'))"
  using assms
proof (induction rule: life_step.induct)
  case (life_start n ls)
  have "t \<noteq> ''child#'' @ dec_of_nat (Suc n)" using life_start dec_of_nat_inj by fastforce
  then show ?case using life_start by auto
next
  case (life_finish n ks u ls q)
  have "(t, Some r) \<in> set (ks @ (u, Some q) # ls)" if "(t, Some r) \<in> set (ks @ (u, None) # ls)" using that by auto
  then show ?case using life_finish by auto
qed auto

text \<open>The abstract runs.\<close>

abbreviation life_runs :: "lives \<Rightarrow> lives \<Rightarrow> bool" where
  "life_runs \<equiv> (\<lambda>s s'. \<exists>l. life_step l s s')\<^sup>*\<^sup>*"

lemma reach_settled:
  "proc_reach x y \<Longrightarrow> proc_wf B x \<Longrightarrow> t = ''child#'' @ dec_of_nat k \<Longrightarrow> k \<le> x_counter x \<Longrightarrow>
     k \<le> x_counter y \<and> (settled t r (snd (lives_of x)) \<longrightarrow> settled t r (snd (lives_of y))) \<and>
     (t \<notin> fst ` set (snd (lives_of x)) \<longrightarrow> t \<notin> fst ` set (snd (lives_of y))) \<and> life_runs (lives_of x) (lives_of y)"
proof (induction rule: proc_reach.induct)
  case (reach_step y z)
  have w: "proc_wf B y" by (rule proc_reach_keeps [OF reach_step(1,4)])
  obtain l where s: "life_step l (lives_of y) (lives_of z)" using proc_step_life [OF reach_step(2) w] by blast
  note ih = reach_step(3) [OF reach_step(4-6)]
  have d: "distinct (map fst (snd (lives_of y)))" using lives_tokens [OF w] by blast
  have "k \<le> fst (lives_of y)" using ih by (simp add: lives_of_def)
  note n = life_settled [OF s d reach_step(5) this, of r]
  have "life_runs (lives_of x) (lives_of z)" using ih s rtranclp.rtrancl_into_rtrancl [of "\<lambda>s s'. \<exists>l. life_step l s s'"] by blast
  moreover have "k \<le> x_counter z" using n by (simp add: lives_of_def)
  ultimately show ?case using ih n by blast
qed auto

text \<open>Waiting for a finished child answers at once.\<close>

lemma wait_finished:
  assumes "(t, Some r) \<in> set (snd (lives_of y))" "proc_wf B y"
  shows "ChildCmd pv [VText ''wait'', VText t] y = Some (Inr (PResult r), y)"
proof -
  obtain c where c: "c \<in> set (x_children y)" "c_token c = t" "c_reaped c" "child_dict c = r"
    using assms(1) by (auto simp: lives_of_def life_of_def split: if_splits)
  have "registry_find y t = Some c"
  proof (cases "registry_find y t")
    case None
    then show ?thesis using child_reg.find_none [of y t] c(1,2) by blast
  next
    case (Some d)
    have "d \<in> set (x_children y)" "c_token d = t" using child_reg.find_some [OF Some] by blast+
    moreover have "inj_on c_token (set (x_children y))" using assms(2) by (simp add: proc_wf_def child_reg.wf_def distinct_map)
    ultimately show ?thesis using Some c(1,2) by (auto dest: inj_onD)
  qed
  then show ?thesis using c(3,4) by (simp add: ChildCmd_def child_wait_def wait_bound_def)
qed

section \<open>Properties\<close>

text \<open>In every state that any history of run, child and detach commands, thread progress and script-closed channels reaches,
  no handle has been closed twice, and the open handles are exactly those from before, those of Tcl's channels and those of the
  registered children: nothing is leaked.\<close>

theorem proc_ledger:
  assumes "proc_reach x0 x" "proc_start x0"
  shows "\<not> w_fault (x_world x) \<and> distinct (w_open (x_world x)) \<and>
    mset (w_open (x_world x)) = mset (w_open (x_world x0)) + mset (map snd (x_chans x)) + mset (concat (map slot_handles (x_children x)))"
  using proc_reach_wf [OF assms] by (simp add: proc_wf_def registry_owns_def wf_world_def)


text \<open>a wait for a registered child is still waiting only if it has no bound and the child's monitor has not signalled
  completion: once it has, no join can block, whatever the other threads were doing.\<close>

theorem child_wait_returns:
  assumes "proc_reach x0 x" "proc_start x0" "registry_find x t = Some c" "wait_bound args = Inr ms"
  shows "child_wait pv c args x = None \<longleftrightarrow>
    ms = WJ_INFINITE \<and> \<not> c_reaped c \<and> \<not> rp_failed (pv_reap pv) \<and> \<not> c_done (fst (threads_run (rp_obs (pv_reap pv)) (c, x)))"
proof -
  have w: "proc_wf (w_open (x_world x0)) x" by (rule proc_reach_wf [OF assms(1,2)])
  have "c \<in> set (x_children x)" using child_reg.find_some [OF assms(3)] by blast
  note take = proc_wf_take [OF w this]
  obtain d y where t: "threads_run (rp_obs (pv_reap pv)) (c, x) = (d, y)" by (rule prod.exhaust)
  have o: "own (set (w_open (x_world x0) @ concat (map slot_handles (x_children (registry_remove c x))))) (c, x)" "wf_child c"
    using take by (simp_all add: owns_own)
  have wd: "wf_child d" using threads_run_facts [OF t o] by blast
  then have nr: "c_done d \<Longrightarrow> \<not> (\<exists>s\<in>set join_slots. \<not> rp_join_failed (pv_reap pv) s \<and> running d s)" unfolding wf_child_def by blast
  have "fst (child_reap (pv_reap pv) ms (c, x)) = ReapBlocked \<longleftrightarrow>
      ms = WJ_INFINITE \<and> \<not> c_reaped c \<and> \<not> rp_failed (pv_reap pv) \<and> \<not> c_done d"
    using nr by (auto simp: child_reap_def t Let_def split: if_splits option.splits prod.splits)
  moreover have "child_wait pv c args x = None \<longleftrightarrow> \<not> c_reaped c \<and> fst (child_reap (pv_reap pv) ms (c, x)) = ReapBlocked"
    using assms(4) by (auto simp: child_wait_def split: reap.splits prod.splits)
  ultimately show ?thesis using t by auto
qed

text \<open>C15: the children refine an abstract map from tokens to lives. Once a child has finished, every later wait for it answers
  at once with that same result and leaves everything as it is; only a \<^verbatim>\<open>child close\<close> of its token takes the token out of the
  registry, so waiting does not close it; and a token that is gone never comes back, as long as fewer than
  \<open>2 ^ 31\<close> children were started, which is how far the \<^verbatim>\<open>int\<close> counter of the tokens goes.\<close>

theorem child_life_refines:
  assumes "proc_reach x0 x" "proc_start x0" "proc_reach x y" "(t, Some r) \<in> set (snd (lives_of x))" "x_counter y \<le> 2147483647"
  shows "life_runs (lives_of x) (lives_of y) \<and>
    (t \<in> set (map c_token (x_children y)) \<longrightarrow>
       ChildCmd pv [VText ''wait'', VText t] y = Some (Inr (PResult r), y) \<and>
       (\<forall>z. proc_step y z \<longrightarrow> t \<in> set (map c_token (x_children z)) \<or> closes t y z)) \<and>
    (t \<notin> set (map c_token (x_children y)) \<longrightarrow>
       (\<forall>z. proc_reach y z \<and> x_counter z \<le> 2147483647 \<longrightarrow> t \<notin> set (map c_token (x_children z))))"
proof -
  have w: "proc_wf (w_open (x_world x0)) x" by (rule proc_reach_wf [OF assms(1,2)])
  have wy: "proc_wf (w_open (x_world x0)) y" by (rule proc_reach_keeps [OF assms(3) w])
  have "t \<in> fst ` set (snd (lives_of x))" using assms(4) by force
  then obtain k where k: "t = ''child#'' @ dec_of_nat k" "k \<le> x_counter x"
    using lives_tokens [OF w] unfolding lives_of_def fst_conv by blast
  note s = reach_settled [OF assms(3) w k, of r]
  have tok: "fst ` set (snd (lives_of v)) = set (map c_token (x_children v))" for v :: "'a proc_ctx_scheme"
    by (simp add: lives_of_def image_image life_of_def)
  have "t \<in> set (map c_token (x_children z)) \<or> closes t y z" if t: "t \<in> set (map c_token (x_children y))" and z: "proc_step y z" for z
  proof -
    obtain l where l: "life_step l (lives_of y) (lives_of z)" "\<forall>t. l = Some t \<longrightarrow> closes t y z" using proc_step_life [OF z wy] by blast
    have "distinct (map fst (snd (lives_of y)))" "k \<le> fst (lives_of y)" using lives_tokens [OF wy] s by (auto simp: lives_of_def)
    from life_settled [OF l(1) this(1) k(1) this(2)] show ?thesis using l(2) t unfolding tok by blast
  qed
  moreover have "t \<notin> set (map c_token (x_children z))" if "t \<notin> set (map c_token (x_children y))" "proc_reach y z" for z
    using reach_settled [OF that(2) wy k(1), of r] s that(1) unfolding tok by blast
  moreover have "ChildCmd pv [VText ''wait'', VText t] y = Some (Inr (PResult r), y)" if "t \<in> set (map c_token (x_children y))"
    using wait_finished [OF _ wy] s assms(4) that unfolding tok by blast
  ultimately show ?thesis using s by blast
qed

section \<open>A concrete history\<close>

text \<open>
  A child is started with channels, exits with code 3 and is waited for; a run whose monitor thread
  cannot be started is undone.
\<close>

definition demo_reap :: reap_os where
  "demo_reap = \<lparr>rp_failed = False, rp_obs = \<lparr>ob_out = [], ob_err = [], ob_in = [], ob_mon = [demo_turn]\<rparr>, rp_join_failed = (\<lambda>s. False)\<rparr>"

definition demo_child_os :: child_os where
  "demo_child_os = \<lparr>co_text = demo_text, co_path = demo_path, co_calloc = True, co_std = (None, None, None), co_nul = True,
     co_pipe_out = True, co_pipe_err = True, co_pipe_in = True, co_job = kind_os, co_argv = True,
     co_launch = demo_launch\<lparr>lx_create := Inr 42\<rparr>, co_tick = 0, co_buffers = True, co_thread_out = True, co_thread_err = True,
     co_stdin_malloc = True, co_thread_in = True, co_event = True, co_thread_monitor = True, co_utf8 = id\<rparr>"

definition demo_pv :: proc_env where
  "demo_pv = \<lparr>pv_malloc = True,
     pv_env = \<lparr>list_elements = (\<lambda>v. None), env_strings = None, ordinal = (\<lambda>a b. 2), heap_ok = (\<lambda>n. True), text_of = demo_text\<rparr>,
     pv_child = demo_child_os, pv_reap = demo_reap, pv_free = demo_reap,
     pv_pump = \<lparr>pp_mok = (\<lambda>n. True), pp_out = (\<lambda>l. True), pp_err = (\<lambda>l. True), pp_turns = []\<rparr>,
     pv_chans = \<lparr>ca_in = Some ''f1'', ca_out = Some ''f2'', ca_err = Some ''f3'', ca_options = [True]\<rparr>, pv_int = (\<lambda>s. None), pv_detail = []\<rparr>"

definition demo_ctx :: proc_ctx where
  "demo_ctx = \<lparr>x_root = \<lparr>jb_handle = 2, jb_closed = False, jb_kill_on_close = True\<rparr>, x_children = [], x_counter = 0,
     x_world = demo_world, x_jobs = [], x_chans = []\<rparr>"

definition demo_started :: proc_ctx where
  "demo_started = (case ChildCmd demo_pv [VText ''start'', VText ''-channels'', VText ''a.b''] demo_ctx of None \<Rightarrow> demo_ctx | Some (r, y) \<Rightarrow> y)"

lemma demo_start: "proc_start demo_ctx" "waits_ok demo_pv"
  using demo_wf by (simp_all add: proc_start_def demo_ctx_def waits_ok_def demo_pv_def demo_reap_def)

lemma demo_start_runs:
  "case ChildCmd demo_pv [VText ''start'', VText ''-channels'', VText ''a.b''] demo_ctx of None \<Rightarrow> False
   | Some (r, y) \<Rightarrow> map c_token (x_children y) = [''child#1''] \<and> length (x_chans y) = 3"
  by code_simp

lemma demo_started_facts:
  obtains r c where "ChildCmd demo_pv [VText ''start'', VText ''-channels'', VText ''a.b''] demo_ctx = Some (r, demo_started)"
    "x_children demo_started = [c]" "c_token c = ''child#1''" "length (x_chans demo_started) = 3"
proof -
  obtain r y where y: "ChildCmd demo_pv [VText ''start'', VText ''-channels'', VText ''a.b''] demo_ctx = Some (r, y)"
    "map c_token (x_children y) = [''child#1'']" "length (x_chans y) = 3"
    using demo_start_runs by (auto split: option.splits)
  then have "y = demo_started" by (simp add: demo_started_def)
  then show thesis using that y by auto
qed

lemma demo_reach: "proc_reach demo_ctx demo_started"
  by (rule demo_started_facts) (blast intro: reach_step [OF reach_init] child_step demo_start(2))

lemma demo_reaps:
  "case child_reap demo_reap ms (hd (x_children demo_started), demo_started) of (r, c, x) \<Rightarrow> r = ReapDone \<and> c_exit_code c = 3 \<and> c_reaped c"
  by code_simp

theorem proc_ledger_witness:
  "\<not> w_fault (x_world demo_started) \<and> length (x_chans demo_started) = 3 \<and> mset (w_open (x_world demo_started)) =
     mset [4, 3, 2] + mset (map snd (x_chans demo_started)) + mset (concat (map slot_handles (x_children demo_started)))"
proof (rule demo_started_facts)
  assume "length (x_chans demo_started) = 3"
  then show ?thesis using proc_ledger [OF demo_reach demo_start(1)] by (simp add: demo_ctx_def demo_world_def)
qed



theorem child_wait_returns_witness:
  "\<exists>c. registry_find demo_started ''child#1'' = Some c \<and> child_wait demo_pv c [] demo_started \<noteq> None"
proof (rule demo_started_facts)
  fix r c
  assume c: "x_children demo_started = [c]" "c_token c = ''child#1''"
  have f: "registry_find demo_started ''child#1'' = Some c" using c by (simp add: registry_find_def)
  have "c_reaped c \<or> c_done (fst (threads_run (rp_obs demo_reap) (c, demo_started)))"
    using demo_reaps [of 5] c by (auto simp: child_reap_def Let_def WJ_INFINITE_def demo_reap_def split: if_splits prod.splits)
  moreover have "pv_reap demo_pv = demo_reap" "wait_bound [] = Inr WJ_INFINITE" by (simp_all add: demo_pv_def wait_bound_def)
  ultimately show ?thesis
    using child_wait_returns [OF demo_reach demo_start(1) f, of "[]" WJ_INFINITE demo_pv] f by auto
qed

theorem child_life_refines_witness:
  "\<exists>x r. cr_exit r = Some 3 \<and> ChildCmd demo_pv [VText ''wait'', VText ''child#1''] demo_started = Some (Inr (PResult r), x) \<and>
     ChildCmd demo_pv [VText ''wait'', VText ''child#1''] x = Some (Inr (PResult r), x)"
proof (rule demo_started_facts)
  fix u c
  assume c: "x_children demo_started = [c]" "c_token c = ''child#1''"
  have f: "registry_find demo_started ''child#1'' = Some c" using c by (simp add: registry_find_def)
  obtain d z where rp: "child_reap demo_reap WJ_INFINITE (c, demo_started) = (ReapDone, d, z)" "c_exit_code d = 3" "c_reaped d"
    using demo_reaps [of WJ_INFINITE] c(1) by (auto split: prod.splits)
  have w: "proc_wf (w_open (x_world demo_ctx)) demo_started" by (rule proc_reach_wf [OF demo_reach demo_start(1)])
  have mem: "c \<in> set (x_children demo_started)" using c(1) by simp
  note take = proc_wf_take [OF w mem]
  have "progress (c, demo_started) (d, z)" using owns_reap [OF rp(1) conjunct1 [OF take] conjunct2 [OF take]] by (simp add: demo_reap_def)
  then have d: "c_token d = ''child#1''" "x_children z = [c]" "x_counter z = x_counter demo_started" using c by (simp_all add: progress_def)
  have "x_counter demo_started = 1" by code_simp
  then have counter: "x_counter demo_started \<le> 2147483647" by simp
  let ?x = "registry_update (d, z)"
  have live: "(''child#1'', Some (child_dict d)) \<in> set (snd (lives_of ?x))" using d c(2) rp(3) by (simp add: lives_of_def registry_update_def life_of_def)
  show ?thesis
  proof (cases "c_reaped c")
    case True
    then have "d = c" "z = demo_started" using rp(1) by (simp_all add: child_reap_def)
    then have step: "ChildCmd demo_pv [VText ''wait'', VText ''child#1''] demo_started = Some (Inr (PResult (child_dict d)), demo_started)"
      using f True by (simp add: ChildCmd_def child_wait_def wait_bound_def)
    then show ?thesis using rp(2) by (auto simp: child_dict_def child_dict_ex_def)
  next
    case False
    then have step: "ChildCmd demo_pv [VText ''wait'', VText ''child#1''] demo_started = Some (Inr (PResult (child_dict d)), ?x)"
      using f rp(1) by (simp add: ChildCmd_def child_wait_def wait_bound_def demo_pv_def)
    have reach: "proc_reach demo_ctx ?x" by (rule proc_reach.reach_step [OF demo_reach child_step [OF step demo_start(2)]])
    have few: "x_counter ?x \<le> 2147483647" using counter d(3) by (simp add: registry_update_def)
    have "''child#1'' \<in> set (map c_token (x_children ?x))" using d c(2) by (simp add: registry_update_def)
    then have "ChildCmd demo_pv [VText ''wait'', VText ''child#1''] ?x = Some (Inr (PResult (child_dict d)), ?x)"
      using child_life_refines [OF reach demo_start(1) reach_init live, of demo_pv] few by blast
    then show ?thesis using step rp(2) by (auto simp: child_dict_def child_dict_ex_def)
  qed
qed

end
