(* ===== verification/Pty.thy ===== *)
theory Pty
  imports Child Registry
begin

text \<open>
  Pseudoconsoles (\<^verbatim>\<open>src/proc.c\<close>): \<^verbatim>\<open>pty_spawn\<close>, \<^verbatim>\<open>pty_free\<close>, the output retained while a
  send is blocked (\<^verbatim>\<open>pty_output_capture\<close>, \<^verbatim>\<open>pty_output_result\<close>, \<^verbatim>\<open>pty_output_free\<close>) and the
  verb \<^verbatim>\<open>pty\<close>. The pseudoconsole is a handle of the ledger like the pipes.
\<close>

section \<open>State\<close>

definition PTY_IO_CHUNK :: nat where "PTY_IO_CHUNK = 8192"
definition PTY_SEND_QUEUE_LIMIT :: nat where "PTY_SEND_QUEUE_LIMIT = 8 * 1024 * 1024"

definition ERROR_ARITHMETIC_OVERFLOW :: nat where "ERROR_ARITHMETIC_OVERFLOW = 534"
definition ERROR_NOT_ENOUGH_MEMORY :: nat where "ERROR_NOT_ENOUGH_MEMORY = 8"

text \<open>
  A pty; the queue holds the bytes of each \<^verbatim>\<open>pty_output_t\<close>, head first. \<open>y_read\<close> is a ghost: every byte
  taken from the output pipe so far, in order.
\<close>

record pty_t =
  y_token :: string
  y_hpc :: "khandle option"
  y_job :: "wj_job option"
  y_proc :: "khandle option"
  y_pid :: int
  y_inW :: "khandle option"
  y_outR :: "khandle option"
  y_queue :: "string list"
  y_queued_bytes :: nat
  y_read :: string

text \<open>The fields of \<^verbatim>\<open>proc_ctx\<close> that belong to ptys.\<close>

record pty_part =
  ptys :: "pty_t list"
  pty_counter :: nat

section \<open>Retained output\<close>

datatype pty_output_status_t = PTY_OUTPUT_ERROR nat | PTY_OUTPUT_EMPTY | PTY_OUTPUT_CAPTURED | PTY_OUTPUT_LIMIT

text \<open>
  What the pipe answers: \<^verbatim>\<open>PeekNamedPipe\<close> an error or the bytes available, \<^verbatim>\<open>malloc\<close>, and \<^verbatim>\<open>ReadFile\<close> an
  error or bytes, of which it gives at most as many as are wanted.
\<close>

record pipe_answer =
  pa_peek :: "nat + nat"
  pa_malloc :: bool
  pa_read :: "nat + string"

definition gone_error :: "nat \<Rightarrow> bool" where
  "gone_error e \<longleftrightarrow> e = ERROR_BROKEN_PIPE \<or> e = ERROR_PIPE_NOT_CONNECTED \<or> e = ERROR_NO_DATA"

definition pty_output_capture :: "pipe_answer \<Rightarrow> pty_t \<Rightarrow> pty_output_status_t \<times> pty_t" where
  "pty_output_capture a p =
    (case pa_peek a of
       Inl e \<Rightarrow> (if gone_error e then PTY_OUTPUT_EMPTY else PTY_OUTPUT_ERROR e, p)
     | Inr available \<Rightarrow>
       if available = 0 then (PTY_OUTPUT_EMPTY, p)
       else if y_queued_bytes p \<ge> PTY_SEND_QUEUE_LIMIT then (PTY_OUTPUT_LIMIT, p)
       else
         let room = PTY_SEND_QUEUE_LIMIT - y_queued_bytes p;
             want = (if available < PTY_IO_CHUNK then available else PTY_IO_CHUNK);
             want = (if want > room then room else want)
         in if y_queued_bytes p > 2 ^ 64 - 1 - want then (PTY_OUTPUT_ERROR ERROR_ARITHMETIC_OVERFLOW, p)
            else if \<not> pa_malloc a then (PTY_OUTPUT_ERROR ERROR_NOT_ENOUGH_MEMORY, p)
            else (case pa_read a of
              Inl e \<Rightarrow> (if gone_error e then PTY_OUTPUT_EMPTY else PTY_OUTPUT_ERROR e, p)
            | Inr bytes \<Rightarrow>
                let got = take want bytes in
                if got = [] then (PTY_OUTPUT_EMPTY, p)
                else (PTY_OUTPUT_CAPTURED, p\<lparr>y_queue := y_queue p @ [got], y_queued_bytes := y_queued_bytes p + length got,
                                             y_read := y_read p @ got\<rparr>)))"

text \<open>The oldest chunk as a result, if there is one.\<close>

definition pty_output_result :: "pty_t \<Rightarrow> string option \<times> pty_t" where
  "pty_output_result p =
    (case y_queue p of
       [] \<Rightarrow> (None, p)
     | chunk # rest \<Rightarrow> (Some chunk, p\<lparr>y_queue := rest, y_queued_bytes := y_queued_bytes p - length chunk\<rparr>))"

definition pty_output_free :: "pty_t \<Rightarrow> pty_t" where
  "pty_output_free p = p\<lparr>y_queue := [], y_queued_bytes := 0\<rparr>"

section \<open>Registry\<close>

definition pty_find :: "pty_part \<Rightarrow> string \<Rightarrow> pty_t option" where
  "pty_find q t = List.find (\<lambda>p. y_token p = t) (ptys q)"

definition pty_add :: "pty_t \<Rightarrow> pty_part \<Rightarrow> pty_part" where
  "pty_add p q = q\<lparr>pty_counter := pty_counter q + 1, ptys := p # ptys q\<rparr>"

definition pty_remove :: "pty_t \<Rightarrow> pty_part \<Rightarrow> pty_part" where
  "pty_remove p q = q\<lparr>ptys := List.filter (\<lambda>d. y_token d \<noteq> y_token p) (ptys q)\<rparr>"

definition pty_update :: "pty_t \<Rightarrow> pty_part \<Rightarrow> pty_part" where
  "pty_update p q = q\<lparr>ptys := map (\<lambda>d. if y_token d = y_token p then p else d) (ptys q)\<rparr>"

section \<open>Spawn\<close>

record pty_os =
  yo_text :: text_env
  yo_path :: path_env
  yo_argv :: bool
  yo_pipe_in :: bool
  yo_pipe_out :: bool
  yo_console :: bool
  yo_job :: job_os
  yo_calloc :: bool
  yo_launch :: launch_os
  yo_drain_thread :: bool
  yo_drain_ends :: bool

text \<open>The locals of \<^verbatim>\<open>pty_spawn\<close> that hold handles, with its job.\<close>

record spawn_t =
  sp_inR :: "khandle option"
  sp_inW :: "khandle option"
  sp_outR :: "khandle option"
  sp_outW :: "khandle option"
  sp_hpc :: "khandle option"
  sp_job :: "wj_job option"

definition spawn_init :: spawn_t where
  "spawn_init = \<lparr>sp_inR = None, sp_inW = None, sp_outR = None, sp_outW = None, sp_hpc = None, sp_job = None\<rparr>"

text \<open>Closing those of some handles that are there.\<close>

primrec present :: "khandle option list \<Rightarrow> khandle list" where
  "present [] = []"
| "present (h # hs) = (case h of None \<Rightarrow> present hs | Some g \<Rightarrow> g # present hs)"

definition close_present :: "khandle option list \<Rightarrow> world \<Rightarrow> world" where
  "close_present hs w = close_all (present hs) w"

definition spawn_pipes :: "pty_os \<Rightarrow> spawn_t \<times> world \<Rightarrow> string option \<times> spawn_t \<times> world" where
  "spawn_pipes os = (\<lambda>(l, w).
    if \<not> yo_pipe_in os then (Some ''CreatePipe failed'', l, w)
    else case open_handle w of (inR, w) \<Rightarrow> case open_handle w of (inW, w) \<Rightarrow>
      let l = l\<lparr>sp_inR := Some inR, sp_inW := Some inW\<rparr> in
      if \<not> yo_pipe_out os then (Some ''CreatePipe failed'', l, w)
      else case open_handle w of (outR, w) \<Rightarrow> case open_handle w of (outW, w) \<Rightarrow>
        (None, l\<lparr>sp_outR := Some outR, sp_outW := Some outW\<rparr>, w))"

definition spawn_console :: "pty_os \<Rightarrow> spawn_t \<times> world \<Rightarrow> string option \<times> spawn_t \<times> world" where
  "spawn_console os = (\<lambda>(l, w).
    if \<not> yo_console os then (Some ''CreatePseudoConsole failed'', l, w)
    else case open_handle w of (hpc, w) \<Rightarrow>
      (None, l\<lparr>sp_hpc := Some hpc, sp_inR := None, sp_outW := None\<rparr>, close_present [sp_inR l, sp_outW l] w))"

definition spawn_job :: "pty_os \<Rightarrow> run_opts \<Rightarrow> spawn_t \<Rightarrow> string option \<times> spawn_t \<times> jcall list" where
  "spawn_job os opts l =
    (case wj_job_new (yo_job os) True of
       (Inl e, cs) \<Rightarrow> (Some e, l, cs)
     | (Inr j, cs) \<Rightarrow>
        if o_mem opts \<noteq> 0 \<or> o_cpu_100ns opts \<noteq> 0 then
          (let lim = \<lparr>process_memory_bytes = word_of_nat (o_mem opts), job_memory_bytes = 0,
                      process_cpu_100ns = word_of_nat (o_cpu_100ns opts), job_cpu_100ns = 0, active_process_cap = 0\<rparr> in
           case wj_job_set_limits (yo_job os) j (Some lim) of
             (Inl e, j, cs') \<Rightarrow> (Some e, l\<lparr>sp_job := Some j\<rparr>, cs @ cs')
           | (Inr _, j, cs') \<Rightarrow> (None, l\<lparr>sp_job := Some j\<rparr>, cs @ cs'))
        else (None, l\<lparr>sp_job := Some j\<rparr>, cs))"

text \<open>The label \<^verbatim>\<open>done\<close> after a failure: no process exists then.\<close>

definition spawn_fail :: "spawn_t \<times> 'x proc_ctx_scheme \<Rightarrow> 'x proc_ctx_scheme" where
  "spawn_fail = (\<lambda>(l, x).
    x\<lparr>x_world := close_present [sp_inR l, sp_outW l, sp_inW l, sp_outR l, sp_hpc l] (x_world x),
      x_jobs := x_jobs x @ (case sp_job l of None \<Rightarrow> [] | Some j \<Rightarrow> wj_job_free j)\<rparr>)"

definition pty_launch :: "pty_os \<Rightarrow> run_opts \<Rightarrow> cstr \<Rightarrow> cstr list \<Rightarrow> spawn_t \<times> 'x proc_ctx_scheme \<Rightarrow> pty_part
    \<Rightarrow> (string + pty_t) \<times> 'x proc_ctx_scheme \<times> pty_part" where
  "pty_launch os opts exe pargv = (\<lambda>(l, x) q.
    (let (rooth, cs1) = wj_job_handle (x_root x);
         (jobh, cs2) = (case sp_job l of None \<Rightarrow> (None, []) | Some j \<Rightarrow> wj_job_handle j);
         x = x\<lparr>x_jobs := x_jobs x @ cs1 @ cs2\<rparr>
     in if \<not> yo_calloc os then (Inl ''out of memory'', spawn_fail (l, x), q)
        else case wj_launch_pty (yo_launch os) (Some exe) pargv (o_dir opts) [rooth, jobh] (sp_hpc l) (o_env_block opts) (x_world x) of
          (Inl e, w) \<Rightarrow> (Inl e, spawn_fail (l, x\<lparr>x_world := w\<rparr>), q)
        | (Inr (pid, h), w) \<Rightarrow>
           let p = \<lparr>y_token = ''pty#'' @ dec_of_nat (pty_counter q + 1), y_hpc = sp_hpc l, y_job = sp_job l, y_proc = Some h, y_pid = pid,
                    y_inW = sp_inW l, y_outR = sp_outR l, y_queue = [], y_queued_bytes = 0, y_read = []\<rparr>
           in (Inr p, x\<lparr>x_world := close_present [sp_inR l, sp_outW l] w\<rparr>, pty_add p q)))"

definition pty_spawn :: "pty_os \<Rightarrow> run_opts \<Rightarrow> cstr list \<Rightarrow> 'x proc_ctx_scheme \<times> pty_part
    \<Rightarrow> (string \<times> string + pty_t) \<times> 'x proc_ctx_scheme \<times> pty_part" where
  "pty_spawn os opts cargv = (\<lambda>(x, q).
    (case resolve_exe (yo_text os) (yo_path os) (hd cargv) of
       None \<Rightarrow> (Inl (''command not found on PATH'', ''notfound''), x, q)
     | Some exe \<Rightarrow>
       (case argv_with_arg0 (yo_argv os) opts cargv of
          None \<Rightarrow> (Inl (''out of memory'', ''launch''), x, q)
        | Some pargv \<Rightarrow>
          (case and_then (spawn_pipes os (spawn_init, x_world x)) (spawn_console os) of
             (Some e, l, w) \<Rightarrow> (Inl (e, ''launch''), spawn_fail (l, x\<lparr>x_world := w\<rparr>), q)
           | (None, l, w) \<Rightarrow>
             (case spawn_job os opts l of
                (Some e, l, cs) \<Rightarrow> (Inl (e, ''launch''), spawn_fail (l, x\<lparr>x_world := w, x_jobs := x_jobs x @ cs\<rparr>), q)
              | (None, l, cs) \<Rightarrow>
                (case pty_launch os opts exe pargv (l, x\<lparr>x_world := w, x_jobs := x_jobs x @ cs\<rparr>) q of
                   (Inl e, x, q) \<Rightarrow> (Inl (e, ''launch''), x, q)
                 | (Inr p, x, q) \<Rightarrow> (Inr p, x, q)))))))"

section \<open>Release\<close>

text \<open>
  The drain thread keeps reading until the console host is gone; \<open>yo_drain_ends\<close> says that it ends within
  the two bounded waits. The result is the C result 0, and the pty is unlinked unless that thread cannot be started.
\<close>

definition pty_free :: "pty_os \<Rightarrow> pty_t \<Rightarrow> 'x proc_ctx_scheme \<times> pty_part \<Rightarrow> bool \<times> 'x proc_ctx_scheme \<times> pty_part" where
  "pty_free os p = (\<lambda>(x, q).
    if y_outR p \<noteq> None \<and> \<not> yo_drain_thread os then (False, x, q)
    else
      let (drain, w) = (if y_outR p \<noteq> None then map_prod Some id (open_handle (x_world x)) else (None, x_world x));
          q = pty_remove p q;
          (ok, jp, cs) = kill_tree (yo_job os) 1 (y_job p);
          failed = (y_job p \<noteq> None \<and> \<not> ok);
          w = close_present [y_inW p, y_hpc p] w;
          x = x\<lparr>x_world := w, x_jobs := x_jobs x @ cs\<rparr>
      in if drain \<noteq> None \<and> \<not> yo_drain_ends os then (False, x\<lparr>x_world := close_present [drain] w\<rparr>, q)
         else (\<not> failed, x\<lparr>x_world := close_present [drain, y_outR p, y_proc p] w,
                           x_jobs := x_jobs x @ (case jp of None \<Rightarrow> [] | Some j \<Rightarrow> wj_job_free j)\<rparr>, q))"

section \<open>send\<close>

text \<open>A turn of the send loop: the two waits for the writer with their error codes, and the output pipe.\<close>

record send_turn =
  st_first :: wait_res
  st_error :: nat
  st_answer :: pipe_answer
  st_second :: wait_res
  st_error2 :: nat

text \<open>The error and the limit flag at the end of the loop; \<open>None\<close>: still looping.\<close>

fun send_loop :: "send_turn list \<Rightarrow> pty_t \<Rightarrow> (nat \<times> bool \<times> pty_t) option" where
  "send_loop [] p = None"
| "send_loop (t # ts) p =
    (case st_first t of
       WaitObject \<Rightarrow> Some (0, False, p)
     | WaitFailed \<Rightarrow> Some (st_error t, False, p)
     | WaitTimeout \<Rightarrow>
       (case pty_output_capture (st_answer t) p of
          (PTY_OUTPUT_ERROR e, p) \<Rightarrow> Some (e, False, p)
        | (PTY_OUTPUT_LIMIT, p) \<Rightarrow>
            (case st_second t of WaitObject \<Rightarrow> Some (0, False, p) | WaitFailed \<Rightarrow> Some (st_error2 t, False, p) | WaitTimeout \<Rightarrow> Some (0, True, p))
        | (PTY_OUTPUT_EMPTY, p) \<Rightarrow>
            (case st_second t of WaitObject \<Rightarrow> Some (0, False, p) | WaitFailed \<Rightarrow> Some (st_error2 t, False, p) | WaitTimeout \<Rightarrow> send_loop ts p)
        | (PTY_OUTPUT_CAPTURED, p) \<Rightarrow> send_loop ts p))"

record send_os =
  sd_dup :: bool
  sd_thread :: bool
  sd_turns :: "send_turn list"
  sd_writes :: "(bool \<times> write_res) list"

abbreviation pty_error :: "string \<Rightarrow> string \<Rightarrow> mt_error" where
  "pty_error code msg \<equiv> MtError ''PTY'' code msg"

text \<open>
  The writer's handle is a duplicate that the writer thread closes. The verb never returns before that
  thread has ended; the second component is what the writer delivered.
\<close>

definition pty_send :: "send_os \<Rightarrow> pty_t \<Rightarrow> string \<Rightarrow> world \<Rightarrow> (unit res \<times> string \<times> pty_t \<times> world) option" where
  "pty_send os p s w =
    (if s = [] then Some (Inr (), [], p, w)
     else if \<not> sd_dup os then Some (Inl (pty_error ''oserror'' ''duplicate pty input handle failed''), [], p, w)
     else case open_handle w of (wr, w) \<Rightarrow>
       if \<not> sd_thread os then Some (Inl (pty_error ''oserror'' ''start pty input writer failed''), [], p, CloseHandle wr w)
       else case open_handle w of (thread, w) \<Rightarrow>
         (case send_loop (sd_turns os) p of
            None \<Rightarrow> None
          | Some (send_error, send_limit, p) \<Rightarrow>
            (case writer_thread (sd_writes os) \<lparr>wi_buf = s, wi_error = 0, wi_open = True\<rparr> of (state, sent, fin) \<Rightarrow>
               if \<not> fin then None
               else
                 let w = CloseHandle thread (CloseHandle wr w);
                     r = (if send_limit then Inl (pty_error ''limit'' ''retained pty output reached the 8 MiB send limit'')
                          else if send_error \<noteq> 0 then Inl (pty_error ''oserror'' ''capture output during pty write failed'')
                          else if wi_error state \<noteq> 0 then Inl (pty_error ''oserror'' ''write to pty failed'')
                          else Inr ())
                 in Some (r, sent, p, w))))"

section \<open>read\<close>

record read_turn =
  rt_peek :: "nat option"
  rt_read :: "string option"
  rt_now :: nat

fun pipe_read :: "nat \<Rightarrow> read_turn list \<Rightarrow> pty_t \<Rightarrow> (string \<times> pty_t) option" where
  "pipe_read deadline [] p = None"
| "pipe_read deadline (t # ts) p =
    (case rt_peek t of
       None \<Rightarrow> Some ([], p)
     | Some avail \<Rightarrow>
        if avail > 0 then
          (let want = (if avail < 8192 then avail else 8192);
               got = (case rt_read t of None \<Rightarrow> [] | Some bytes \<Rightarrow> take want bytes)
           in Some (got, p\<lparr>y_read := y_read p @ got\<rparr>))
        else if rt_now t \<ge> deadline then Some ([], p)
        else pipe_read deadline ts p)"

definition read_bound :: "tvalue list \<Rightarrow> nat res" where
  "read_bound args =
    (case args of
       [] \<Rightarrow> Inr 0
     | [opt, value] \<Rightarrow>
        if vtext opt \<noteq> ''-timeout'' then Inl (pty_error ''usage'' ''unknown option'')
        else let t = parse_duration_ms (vtext value) in
          if t < 0 \<or> nat t \<ge> WJ_INFINITE then Inl (pty_error ''badvalue'' ''bad -timeout value'')
          else Inr (nat t)
     | _ \<Rightarrow> Inl (pty_error ''usage'' ''pty read token ?-timeout duration?''))"

text \<open>Retained output first; \<open>tick\<close> is the clock when the verb looks at the pipe.\<close>

definition pty_read :: "read_turn list \<Rightarrow> nat \<Rightarrow> nat \<Rightarrow> pty_t \<Rightarrow> (string \<times> pty_t) option" where
  "pty_read turns tick timeout_ms p =
    (case pty_output_result p of
       (Some chunk, p) \<Rightarrow> Some (chunk, p)
     | (None, p) \<Rightarrow> pipe_read ((tick + timeout_ms) mod 2 ^ 64) turns p)"

section \<open>The verb\<close>

record pty_env =
  pe_malloc :: bool
  pe_env :: env_env
  pe_os :: pty_os
  pe_send :: send_os
  pe_turns :: "read_turn list"
  pe_tick :: nat
  pe_peek :: "nat option"

record pty_info =
  yi_token :: string
  yi_pid :: int
  yi_running :: bool
  yi_pending :: nat

datatype pty_value = YNone | YText string | YList "string list" | YInfo pty_info

type_synonym 'x pty_out = "(pty_value res \<times> 'x proc_ctx_scheme \<times> pty_part) option"

definition pty_allowed :: dword where
  "pty_allowed = OPT_MEM OR OPT_CPU OR OPT_DIR OR OPT_ARG0 OR OPT_ENV"

definition pty_spawn_cmd :: "pty_env \<Rightarrow> tvalue list \<Rightarrow> 'x proc_ctx_scheme \<times> pty_part \<Rightarrow> pty_value res \<times> 'x proc_ctx_scheme \<times> pty_part" where
  "pty_spawn_cmd pe words st =
    (case parse_opts ''PTY'' pty_allowed words of
       Inl e \<Rightarrow> (Inl e, st)
     | Inr opts \<Rightarrow>
       if o_cmd opts = [] then (Inl (pty_error ''usage'' ''pty spawn ?-opt val ...? ?--? command ?arg ...?''), st)
       else (case build_argv ''PTY'' (pe_malloc pe) (o_cmd opts) of
          Inl e \<Rightarrow> (Inl e, st)
        | Inr None \<Rightarrow> (Inl TclError, st)
        | Inr (Some cargv) \<Rightarrow>
          (case launch_env (pe_env pe) ''PTY'' opts of
             Inl e \<Rightarrow> (Inl e, st)
           | Inr opts \<Rightarrow>
             (case pty_spawn (pe_os pe) opts cargv st of
                (Inl (m, code), st) \<Rightarrow> (Inl (pty_error code m), st)
              | (Inr p, st) \<Rightarrow> (Inr (YText (y_token p)), st)))))"

definition pty_info_cmd :: "pty_env \<Rightarrow> pty_t \<Rightarrow> 'x proc_ctx_scheme \<times> pty_part \<Rightarrow> pty_value res \<times> 'x proc_ctx_scheme \<times> pty_part" where
  "pty_info_cmd pe p = (\<lambda>(x, q).
    (case on_job (Inl ''job is closed'') (wj_job_active (yo_job (pe_os pe))) (y_job p) of
       (r, jp, cs) \<Rightarrow>
         let x = x\<lparr>x_jobs := x_jobs x @ cs\<rparr> in
         (case r of
            Inl e \<Rightarrow> (Inl (pty_error ''oserror'' e), x, q)
          | Inr active \<Rightarrow>
             let avail = (case pe_peek pe of None \<Rightarrow> 0 | Some n \<Rightarrow> n);
                 total = (y_queued_bytes p + avail) mod 2 ^ 64
             in (Inr (YInfo \<lparr>yi_token = y_token p, yi_pid = y_pid p, yi_running = (active > 0),
                             yi_pending = (if total > LLONG_MAX then LLONG_MAX else total)\<rparr>), x, q))))"

definition PtyCmd :: "pty_env \<Rightarrow> tvalue list \<Rightarrow> 'x proc_ctx_scheme \<times> pty_part \<Rightarrow> 'x pty_out" where
  "PtyCmd pe objv st =
    (case objv of
       [] \<Rightarrow> Some (Inl (pty_error ''usage'' ''pty subcommand ?arg ...?''), st)
     | sv # args \<Rightarrow>
       let sub = vtext sv in
       if sub \<notin> {''spawn'', ''send'', ''read'', ''close'', ''list'', ''info''} then Some (Inl (pty_error ''usage'' ''unknown pty subcommand''), st)
       else if sub = ''spawn'' then Some (pty_spawn_cmd pe args st)
       else if sub = ''list'' then
         (if args \<noteq> [] then Some (Inl (pty_error ''usage'' ''pty list''), st)
          else Some (Inr (YList (map y_token (ptys (snd st)))), st))
       else case args of
         [] \<Rightarrow> Some (Inl (pty_error ''usage'' ''pty subcommand token ?arg ...?''), st)
       | tv # rest \<Rightarrow>
         (case pty_find (snd st) (vtext tv) of
            None \<Rightarrow> Some (Inl (pty_error ''nohandle'' ''no such pty''), st)
          | Some p \<Rightarrow>
             if sub = ''info'' then
               (if rest \<noteq> [] then Some (Inl (pty_error ''usage'' ''pty info token''), st) else Some (pty_info_cmd pe p st))
             else if sub = ''send'' then
               (case rest of
                  [v] \<Rightarrow> (case pty_send (pe_send pe) p (vtext v) (x_world (fst st)) of
                      None \<Rightarrow> None
                    | Some (r, sent, p, w) \<Rightarrow>
                       Some (map_sum id (\<lambda>u. YNone) r, (fst st)\<lparr>x_world := w\<rparr>, pty_update p (snd st)))
                | _ \<Rightarrow> Some (Inl (pty_error ''usage'' ''pty send token bytes''), st))
             else if sub = ''read'' then
               (case read_bound rest of
                  Inl e \<Rightarrow> Some (Inl e, st)
                | Inr ms \<Rightarrow>
                   (case pty_read (pe_turns pe) (pe_tick pe) ms p of
                      None \<Rightarrow> None
                    | Some (text, p) \<Rightarrow> Some (Inr (YText text), fst st, pty_update p (snd st))))
             else if rest \<noteq> [] then Some (Inl (pty_error ''usage'' ''pty close token''), st)
             else (case pty_free (pe_os pe) p st of
                     (True, st) \<Rightarrow> Some (Inr YNone, st)
                   | (False, st) \<Rightarrow> Some (Inl (pty_error ''oserror'' ''pty teardown failed''), st))))"

section \<open>Ledger\<close>

text \<open>Ledger lemmas over the multiset of open handles.\<close>

lemma ledger_open: "wf_world w \<Longrightarrow> open_handle w = (h, w') \<Longrightarrow> wf_world w' \<and> mset (w_open w') = add_mset h (mset (w_open w))"
  by (auto simp: open_handle_def wf_world_def less_SucI)

lemma ledger_close: "wf_world w \<Longrightarrow> mset (w_open w) = add_mset h M \<Longrightarrow> wf_world (CloseHandle h w) \<and> mset (w_open (CloseHandle h w)) = M"
proof -
  assume w: "wf_world w" and m: "mset (w_open w) = add_mset h M"
  have "h \<in> set (w_open w)" using m by (metis set_mset_mset union_single_eq_member add_mset_add_single)
  then show ?thesis using m wf_close [OF w] by (simp add: CloseHandle_def)
qed

lemma ledger_close_all: "wf_world w \<Longrightarrow> mset (w_open w) = mset hs + M \<Longrightarrow> wf_world (close_all hs w) \<and> mset (w_open (close_all hs w)) = M"
proof (induction hs arbitrary: w)
  case (Cons h hs)
  have "mset (w_open w) = add_mset h (mset hs + M)" using Cons(3) by simp
  from ledger_close [OF Cons(2) this] show ?case using Cons(1) by simp
qed simp

lemma ledger_launched:
  assumes "launched w r w' P" "wf_world w"
  shows "wf_world w' \<and> mset (w_open w') = mset (w_open w) + (case r of Inl e \<Rightarrow> {#} | Inr ph \<Rightarrow> {#snd ph#})"
proof (cases r)
  case (Inl e)
  then show ?thesis using assms set_eq_iff_mset_eq_distinct [of "w_open w'" "w_open w"] by (simp add: launched_def wf_world_def)
next
  case (Inr ph)
  have s: "wf_world w'" "set (w_open w') = set (snd ph # w_open w)" "w_next w \<le> snd ph" using assms(1) Inr by (auto simp: launched_def)
  have "distinct (snd ph # w_open w)" using assms(2) s(3) by (auto simp: wf_world_def)
  then have "mset (w_open w') = mset (snd ph # w_open w)" using s(1,2) set_eq_iff_mset_eq_distinct [of "w_open w'" "snd ph # w_open w"] by (simp add: wf_world_def)
  then show ?thesis using s(1) Inr by simp
qed

definition spawn_handles :: "spawn_t \<Rightarrow> khandle list" where
  "spawn_handles l = present [sp_inR l, sp_outW l, sp_inW l, sp_outR l, sp_hpc l]"

definition pty_handles :: "pty_t \<Rightarrow> khandle list" where
  "pty_handles p = present [y_outR p, y_proc p, y_inW p, y_hpc p]"

lemma mset_present: "mset (present (a # hs)) = mset (present [a]) + mset (present hs)"
  by (simp split: option.split)

text \<open>The stages of a spawn.\<close>

lemma spawn_pipes_ledger:
  assumes "spawn_pipes os (spawn_init, w) = (e, l, w')" "wf_world w"
  shows "wf_world w' \<and> mset (w_open w') = mset (spawn_handles l) + mset (w_open w) \<and> sp_hpc l = None \<and> sp_job l = None"
proof -
  obtain h1 w1 where 1: "open_handle w = (h1, w1)" by (rule prod.exhaust)
  obtain h2 w2 where 2: "open_handle w1 = (h2, w2)" by (rule prod.exhaust)
  obtain h3 w3 where 3: "open_handle w2 = (h3, w3)" by (rule prod.exhaust)
  obtain h4 w4 where 4: "open_handle w3 = (h4, w4)" by (rule prod.exhaust)
  note o1 = ledger_open [OF assms(2) 1]
  note o2 = ledger_open [OF conjunct1 [OF o1] 2]
  note o3 = ledger_open [OF conjunct1 [OF o2] 3]
  note o4 = ledger_open [OF conjunct1 [OF o3] 4]
  show ?thesis
    using assms o1 o2 o3 o4 by (auto simp: spawn_pipes_def spawn_init_def spawn_handles_def 1 2 3 4 Let_def split: if_splits)
qed

lemma spawn_console_ledger:
  assumes "spawn_console os (l, w) = (e, l', w')" "wf_world w" "mset (w_open w) = mset (spawn_handles l) + M" "sp_hpc l = None"
  shows "wf_world w' \<and> mset (w_open w') = mset (spawn_handles l') + M \<and> sp_job l' = sp_job l \<and> (e = None \<longrightarrow> sp_inR l' = None \<and> sp_outW l' = None)"
proof (cases "yo_console os")
  case True
  obtain h w1 where h: "open_handle w = (h, w1)" by (rule prod.exhaust)
  note o = ledger_open [OF assms(2) h]
  have m: "mset (w_open w1) = mset (present [sp_inR l, sp_outW l]) + add_mset h (mset (present [sp_inW l, sp_outR l]) + M)"
    using o assms(3,4) by (cases "sp_inR l"; cases "sp_outW l"; cases "sp_inW l"; cases "sp_outR l") (simp_all add: spawn_handles_def)
  note c = ledger_close_all [OF conjunct1 [OF o] m]
  have e: "e = None" "l' = l\<lparr>sp_hpc := Some h, sp_inR := None, sp_outW := None\<rparr>" "w' = close_all (present [sp_inR l, sp_outW l]) w1"
    using assms(1) True h by (auto simp: spawn_console_def close_present_def)
  have "mset (spawn_handles l') = add_mset h (mset (present [sp_inW l, sp_outR l]))"
    unfolding e(2) by (simp add: spawn_handles_def split: option.split)
  then show ?thesis using c e by simp
qed (use assms in \<open>auto simp: spawn_console_def\<close>)

lemma spawn_fail_ledger:
  assumes "wf_world (x_world x)" "mset (w_open (x_world x)) = mset (spawn_handles l) + M"
  shows "wf_world (x_world (spawn_fail (l, x))) \<and> mset (w_open (x_world (spawn_fail (l, x)))) = M"
  using ledger_close_all [OF assms(1), of "spawn_handles l" M] assms(2) by (simp add: spawn_fail_def close_present_def spawn_handles_def)

lemma spawn_job_slots: "spawn_job os opts l = (e, l', cs) \<Longrightarrow> spawn_handles l' = spawn_handles l \<and> sp_inR l' = sp_inR l \<and> sp_outW l' = sp_outW l"
proof -
  assume s: "spawn_job os opts l = (e, l', cs)"
  have "l' = l \<or> (\<exists>j. l' = l\<lparr>sp_job := Some j\<rparr>)"
    using s by (auto simp: spawn_job_def Let_def split: sum.splits prod.splits if_splits)
  then show ?thesis unfolding spawn_handles_def by (elim disjE exE) (simp_all del: present.simps)
qed

text \<open>What a spawn leaves alone.\<close>

definition outside :: "'x proc_ctx_scheme \<Rightarrow> 'x proc_ctx_scheme \<Rightarrow> bool" where
  "outside x y \<longleftrightarrow> x_children y = x_children x \<and> x_counter y = x_counter x \<and> x_chans y = x_chans x \<and> x_root y = x_root x"

lemma pty_launch_ledger:
  assumes "pty_launch os opts exe pargv (l, x) q = (r, y, q')" "wf_world (x_world x)" "mset (w_open (x_world x)) = mset (spawn_handles l) + M"
    "sp_inR l = None" "sp_outW l = None"
  shows "wf_world (x_world y) \<and> mset (w_open (x_world y)) = (case r of Inl e \<Rightarrow> {#} | Inr p \<Rightarrow> mset (pty_handles p)) + M \<and> outside x y \<and>
    q' = (case r of Inl e \<Rightarrow> q | Inr p \<Rightarrow> pty_add p q) \<and>
    (case r of Inl e \<Rightarrow> True | Inr p \<Rightarrow> y_token p = ''pty#'' @ dec_of_nat (Suc (pty_counter q)) \<and> y_queue p = [] \<and> y_queued_bytes p = 0 \<and> y_read p = [])"
proof -
  obtain rooth cs1 where r1: "wj_job_handle (x_root x) = (rooth, cs1)" by (rule prod.exhaust)
  obtain jobh cs2 where r2: "(case sp_job l of None \<Rightarrow> (None, []) | Some j \<Rightarrow> wj_job_handle j) = (jobh, cs2)" by (rule prod.exhaust)
  obtain res w where la: "wj_launch_pty (yo_launch os) (Some exe) pargv (o_dir opts) [rooth, jobh] (sp_hpc l) (o_env_block opts) (x_world x) = (res, w)"
    by (rule prod.exhaust)
  note led = ledger_launched [OF wj_launch_pty_launched [OF la assms(2)] assms(2)]
  note eq = assms(1) [unfolded pty_launch_def prod.case r1 r2 Let_def]
  have fail: "r = Inl e \<Longrightarrow> y = spawn_fail (l, z) \<Longrightarrow> q' = q \<Longrightarrow> outside x z \<Longrightarrow> wf_world (x_world z) \<Longrightarrow>
      mset (w_open (x_world z)) = mset (spawn_handles l) + M \<Longrightarrow> ?thesis" for e z
    using spawn_fail_ledger [of z l M] by (simp add: outside_def spawn_fail_def)
  show ?thesis
  proof (cases "yo_calloc os")
    case False
    then show ?thesis using eq assms(2,3) by (intro fail [of "''out of memory''" "x\<lparr>x_jobs := x_jobs x @ cs1 @ cs2\<rparr>"]) (auto simp: outside_def)
  next
    case True
    show ?thesis
    proof (cases res)
      case (Inl e)
      then show ?thesis using eq True la led assms(3)
        by (intro fail [of e "x\<lparr>x_jobs := x_jobs x @ cs1 @ cs2, x_world := w\<rparr>"]) (auto simp: outside_def)
    next
      case (Inr ph)
      obtain pid h where ph: "ph = (pid, h)" by (rule prod.exhaust)
      let ?p = "\<lparr>y_token = ''pty#'' @ dec_of_nat (pty_counter q + 1), y_hpc = sp_hpc l, y_job = sp_job l, y_proc = Some h, y_pid = pid,
                    y_inW = sp_inW l, y_outR = sp_outR l, y_queue = [], y_queued_bytes = 0, y_read = []\<rparr>"
      have e: "r = Inr ?p" "y = x\<lparr>x_jobs := x_jobs x @ cs1 @ cs2, x_world := w\<rparr>" "q' = pty_add ?p q"
        using eq True la Inr ph assms(4,5) by (auto simp: close_present_def)
      have "mset (pty_handles ?p) = add_mset h (mset (spawn_handles l))"
        by (simp add: pty_handles_def spawn_handles_def assms(4,5) split: option.split)
      then show ?thesis using e led Inr ph assms(3) by (simp add: outside_def)
    qed
  qed
qed

lemma pty_spawn_ledger:
  assumes "pty_spawn os opts cargv (x, q) = (r, y, q')" "wf_world (x_world x)"
  shows "wf_world (x_world y) \<and> mset (w_open (x_world y)) = (case r of Inl e \<Rightarrow> {#} | Inr p \<Rightarrow> mset (pty_handles p)) + mset (w_open (x_world x)) \<and>
    outside x y \<and> q' = (case r of Inl e \<Rightarrow> q | Inr p \<Rightarrow> pty_add p q) \<and>
    (case r of Inl e \<Rightarrow> True | Inr p \<Rightarrow> y_token p = ''pty#'' @ dec_of_nat (Suc (pty_counter q)) \<and> y_queue p = [] \<and> y_queued_bytes p = 0 \<and> y_read p = [])"
proof (cases "\<exists>exe pargv. resolve_exe (yo_text os) (yo_path os) (hd cargv) = Some exe \<and> argv_with_arg0 (yo_argv os) opts cargv = Some pargv")
  case False
  then have "y = x" "q' = q" "isl r" using assms(1) by (auto simp: pty_spawn_def split: option.splits)
  then show ?thesis using assms(2) by (cases r) (simp_all add: outside_def)
next
  case True
  then obtain exe pargv where ex: "resolve_exe (yo_text os) (yo_path os) (hd cargv) = Some exe" "argv_with_arg0 (yo_argv os) opts cargv = Some pargv"
    by blast
  obtain e1 l1 w1 where 1: "spawn_pipes os (spawn_init, x_world x) = (e1, l1, w1)" by (rule prod_cases3)
  note p1 = spawn_pipes_ledger [OF 1 assms(2)]
  obtain e2 l2 w2 where 2: "and_then (e1, l1, w1) (spawn_console os) = (e2, l2, w2)" by (rule prod_cases3)
  have p2: "wf_world w2 \<and> mset (w_open w2) = mset (spawn_handles l2) + mset (w_open (x_world x)) \<and> (e2 = None \<longrightarrow> sp_inR l2 = None \<and> sp_outW l2 = None)"
  proof (cases e1)
    case None
    then have "spawn_console os (l1, w1) = (e2, l2, w2)" using 2 by (simp add: and_then_def)
    from spawn_console_ledger [OF this] p1 show ?thesis by blast
  qed (use 2 p1 in \<open>auto simp: and_then_def\<close>)
  have fail: "r = Inl e \<Longrightarrow> y = spawn_fail (l, z) \<Longrightarrow> q' = q \<Longrightarrow> outside x z \<Longrightarrow> wf_world (x_world z) \<Longrightarrow>
      mset (w_open (x_world z)) = mset (spawn_handles l) + mset (w_open (x_world x)) \<Longrightarrow> ?thesis" for e l z
    using spawn_fail_ledger [of z l "mset (w_open (x_world x))"] by (simp add: outside_def spawn_fail_def)
  have R: "(case (e2, l2, w2) of (Some e, l, w) \<Rightarrow> (Inl (e, ''launch''), spawn_fail (l, x\<lparr>x_world := w\<rparr>), q)
           | (None, l, w) \<Rightarrow>
             (case spawn_job os opts l of
                (Some e, l, cs) \<Rightarrow> (Inl (e, ''launch''), spawn_fail (l, x\<lparr>x_world := w, x_jobs := x_jobs x @ cs\<rparr>), q)
              | (None, l, cs) \<Rightarrow>
                (case pty_launch os opts exe pargv (l, x\<lparr>x_world := w, x_jobs := x_jobs x @ cs\<rparr>) q of
                   (Inl e, x, q) \<Rightarrow> (Inl (e, ''launch''), x, q)
                 | (Inr p, x, q) \<Rightarrow> (Inr p, x, q)))) = (r, y, q')"
    using assms(1) unfolding pty_spawn_def prod.case ex option.case 1 2 .
  show ?thesis
  proof (cases e2)
    case (Some e)
    then show ?thesis using R p2 by (intro fail [of "(e, ''launch'')" l2 "x\<lparr>x_world := w2\<rparr>"]) (auto simp: outside_def)
  next
    case None
    obtain e3 l3 cs where 3: "spawn_job os opts l2 = (e3, l3, cs)" by (rule prod_cases3)
    note p3 = spawn_job_slots [OF 3]
    let ?x = "x\<lparr>x_world := w2, x_jobs := x_jobs x @ cs\<rparr>"
    show ?thesis
    proof (cases e3)
      case (Some e)
      then show ?thesis using R None 3 p2 p3 by (intro fail [of "(e, ''launch'')" l3 ?x]) (auto simp: outside_def)
    next
      case e3: None
      obtain r4 y4 q4 where 4: "pty_launch os opts exe pargv (l3, ?x) q = (r4, y4, q4)" by (rule prod_cases3)
      have "wf_world (x_world ?x)" "mset (w_open (x_world ?x)) = mset (spawn_handles l3) + mset (w_open (x_world x))" "sp_inR l3 = None" "sp_outW l3 = None"
        using p2 p3 None by simp_all
      note p4 = pty_launch_ledger [OF 4 this]
      have "y = y4" "q' = q4" "(case r4 of Inl e \<Rightarrow> r = Inl (e, ''launch'') | Inr p \<Rightarrow> r = Inr p)"
        using R None e3 3 4 by (auto split: sum.splits)
      moreover have "outside x y4" using p4 by (simp add: outside_def)
      ultimately show ?thesis using p4 by (cases r4) simp_all
    qed
  qed
qed

text \<open>Release gives everything back, unless the drain thread cannot be had or does not end.\<close>

lemma pty_free_ledger:
  assumes "pty_free os p (x, q) = (ok, y, q')" "wf_world (x_world x)" "mset (w_open (x_world x)) = mset (pty_handles p) + M"
    "yo_drain_thread os" "yo_drain_ends os"
  shows "wf_world (x_world y) \<and> mset (w_open (x_world y)) = M \<and> outside x y \<and> q' = pty_remove p q"
proof -
  obtain drain w where d: "(if y_outR p \<noteq> None then map_prod Some id (open_handle (x_world x)) else (None, x_world x)) = (drain, w)" by (rule prod.exhaust)
  have w: "wf_world w \<and> mset (w_open w) = mset (present [drain]) + mset (w_open (x_world x))"
  proof (cases "y_outR p")
    case (Some h)
    obtain g u where g: "open_handle (x_world x) = (g, u)" by (rule prod.exhaust)
    then show ?thesis using ledger_open [OF assms(2) g] d Some by auto
  qed (use d assms(2) in auto)
  obtain k jp cs where k: "kill_tree (yo_job os) 1 (y_job p) = (k, jp, cs)" by (rule prod_cases3)
  have "mset (w_open w) = mset (present [y_inW p, y_hpc p]) + (mset (present [drain, y_outR p, y_proc p]) + M)"
    using w assms(3) by (cases "y_inW p"; cases "y_hpc p"; cases drain; cases "y_outR p"; cases "y_proc p") (simp_all add: pty_handles_def)
  note c1 = ledger_close_all [OF conjunct1 [OF w] this]
  note c2 = ledger_close_all [OF conjunct1 [OF c1] conjunct2 [OF c1]]
  have "y = x\<lparr>x_world := close_all (present [drain, y_outR p, y_proc p]) (close_all (present [y_inW p, y_hpc p]) w),
      x_jobs := x_jobs x @ cs @ (case jp of None \<Rightarrow> [] | Some j \<Rightarrow> wj_job_free j)\<rparr>" "q' = pty_remove p q"
    using assms(1) unfolding pty_free_def prod.case Let_def d k close_present_def using assms(4,5) by auto
  then show ?thesis using c2 by (simp add: outside_def)
qed

section \<open>The output stream\<close>

text \<open>The queue of a pty: chunks of 1 to 8192 bytes, counted exactly, within the limit.\<close>

definition queue_ok :: "pty_t \<Rightarrow> bool" where
  "queue_ok p \<longleftrightarrow> y_queued_bytes p = length (concat (y_queue p)) \<and> y_queued_bytes p \<le> PTY_SEND_QUEUE_LIMIT \<and>
     (\<forall>c\<in>set (y_queue p). c \<noteq> [] \<and> length c \<le> PTY_IO_CHUNK)"

text \<open>Everything taken from the pipe was given out (\<open>d\<close>) or is retained, in order.\<close>

definition stream_at :: "string \<Rightarrow> pty_t \<Rightarrow> bool" where
  "stream_at d p \<longleftrightarrow> queue_ok p \<and> y_read p = d @ concat (y_queue p)"

lemma capture_stream:
  assumes "pty_output_capture a p = (s, p')" "stream_at d p"
  shows "stream_at d p'"
proof (cases "s = PTY_OUTPUT_CAPTURED")
  case True
  let ?room = "PTY_SEND_QUEUE_LIMIT - y_queued_bytes p"
  obtain available bytes where a: "pa_peek a = Inr available" "pa_read a = Inr bytes" "y_queued_bytes p < PTY_SEND_QUEUE_LIMIT"
    using assms(1) True by (auto simp: pty_output_capture_def Let_def split: sum.splits if_splits)
  define want where "want = (let w = (if available < PTY_IO_CHUNK then available else PTY_IO_CHUNK) in if w > ?room then ?room else w)"
  have want: "want \<le> PTY_IO_CHUNK" "want \<le> ?room" by (simp_all add: want_def Let_def)
  have p': "p' = p\<lparr>y_queue := y_queue p @ [take want bytes], y_queued_bytes := y_queued_bytes p + length (take want bytes),
      y_read := y_read p @ take want bytes\<rparr>" "take want bytes \<noteq> []"
    using assms(1) True a by (auto simp: pty_output_capture_def Let_def want_def split: if_splits)
  show ?thesis using assms(2) want a(3) p' by (auto simp: stream_at_def queue_ok_def)
next
  case False
  then have "p' = p" using assms(1) by (auto simp: pty_output_capture_def Let_def split: sum.splits if_splits)
  then show ?thesis using assms(2) by simp
qed

lemma send_loop_stream: "send_loop ts p = Some (e, l, p') \<Longrightarrow> stream_at d p \<Longrightarrow> stream_at d p'"
proof (induction ts arbitrary: p)
  case (Cons t ts)
  obtain s p1 where c: "pty_output_capture (st_answer t) p = (s, p1)" by (rule prod.exhaust)
  have s1: "stream_at d p1" by (rule capture_stream [OF c Cons(3)])
  show ?case
    using Cons(1) [OF _ s1] Cons(2,3) s1 c by (auto split: wait_res.splits pty_output_status_t.splits)
qed simp

lemma pty_send_stream:
  assumes "pty_send os p s w = Some (r, sent, p', w')" "stream_at d p"
  shows "stream_at d p'"
proof (cases "s = [] \<or> \<not> sd_dup os \<or> \<not> sd_thread os")
  case True
  then show ?thesis using assms by (auto simp: pty_send_def split: if_splits prod.splits)
next
  case False
  then obtain e l where "send_loop (sd_turns os) p = Some (e, l, p')"
    using assms(1) by (auto simp: pty_send_def Let_def split: option.splits prod.splits if_splits)
  from send_loop_stream [OF this assms(2)] show ?thesis .
qed

text \<open>A send delivers a prefix of its bytes, all of them when it succeeds, and leaves the ledger as it was.\<close>

lemma pty_send_sent:
  assumes "pty_send os p s w = Some (r, sent, p', w')" "WriteFail 0 \<notin> snd ` set (sd_writes os)"
  shows "(\<exists>n. sent = take n s) \<and> (r = Inr () \<longrightarrow> sent = s)"
proof (cases "s = [] \<or> \<not> sd_dup os \<or> \<not> sd_thread os")
  case True
  then show ?thesis using assms by (auto simp: pty_send_def split: if_splits prod.splits intro: exI [of _ 0])
next
  case False
  obtain st out fin where w: "writer_thread (sd_writes os) \<lparr>wi_buf = s, wi_error = 0, wi_open = True\<rparr> = (st, out, fin)" by (rule prod_cases3)
  obtain l where l: "send_loop (sd_turns os) p = Some l" using assms False by (auto simp: pty_send_def split: option.splits prod.splits)
  have r: "sent = out" "fin" "r = Inr () \<longrightarrow> wi_error st = 0"
    using assms False l w by (auto simp: pty_send_def Let_def split: prod.splits if_splits)
  from w obtain st' where wl: "writer_loop (sd_writes os) 0 [] \<lparr>wi_buf = s, wi_error = 0, wi_open = True\<rparr> = (st', out, fin)" "wi_error st = wi_error st'"
    by (auto simp: writer_thread_def split: prod.splits if_splits)
  have "out = take (length out) s \<and> (wi_error st' = 0 \<longrightarrow> out = s)"
    using writer_loop_prefix [OF wl(1)] assms(2) r(2) by simp
  then show ?thesis using wl(2) r(1,3) by metis
qed

lemma pty_send_ledger:
  assumes "pty_send os p s w = Some (r, sent, p', w')" "wf_world w"
  shows "wf_world w' \<and> mset (w_open w') = mset (w_open w) \<and> pty_handles p' = pty_handles p \<and> y_token p' = y_token p \<and> y_job p' = y_job p"
proof -
  obtain h1 w1 where 1: "open_handle w = (h1, w1)" by (rule prod.exhaust)
  obtain h2 w2 where 2: "open_handle w1 = (h2, w2)" by (rule prod.exhaust)
  note o1 = ledger_open [OF assms(2) 1]
  note o2 = ledger_open [OF conjunct1 [OF o1] 2]
  have c1: "wf_world (CloseHandle h1 w1) \<and> mset (w_open (CloseHandle h1 w1)) = mset (w_open w)" using ledger_close o1 by blast
  have "mset (w_open w2) = add_mset h1 (add_mset h2 (mset (w_open w)))" using o1 o2 by (simp add: add_mset_commute)
  then have c2: "wf_world (CloseHandle h2 (CloseHandle h1 w2)) \<and> mset (w_open (CloseHandle h2 (CloseHandle h1 w2))) = mset (w_open w)"
    using ledger_close o2 by metis
  have cap: "pty_handles p2 = pty_handles p1 \<and> y_token p2 = y_token p1 \<and> y_job p2 = y_job p1" if "pty_output_capture a p1 = (u, p2)" for a u p1 p2
  proof -
    have "p2 = p1 \<or> (\<exists>c n d. p2 = p1\<lparr>y_queue := c, y_queued_bytes := n, y_read := d\<rparr>)"
      using that by (auto simp: pty_output_capture_def Let_def split: sum.splits if_splits)
    then show ?thesis unfolding pty_handles_def by (elim disjE exE) (simp_all del: present.simps)
  qed
  have loop: "send_loop ts p1 = Some (e, l, p2) \<Longrightarrow> pty_handles p2 = pty_handles p1 \<and> y_token p2 = y_token p1 \<and> y_job p2 = y_job p1" for ts p1 e l p2
  proof (induction ts arbitrary: p1)
    case (Cons t ts)
    obtain u p3 where c: "pty_output_capture (st_answer t) p1 = (u, p3)" by (rule prod.exhaust)
    show ?case using Cons cap [OF c] c by (auto split: wait_res.splits pty_output_status_t.splits)
  qed simp
  show ?thesis
    using assms c1 c2 loop by (auto simp: pty_send_def 1 2 Let_def split: option.splits prod.splits if_splits)
qed

text \<open>Reads.\<close>

lemma pipe_read_facts:
  "pipe_read dl ts p = Some (text, p') \<Longrightarrow>
     p' = p\<lparr>y_read := y_read p @ text\<rparr> \<and> length text \<le> 8192"
proof (induction ts)
  case (Cons t ts)
  show ?case
  proof (cases "rt_peek t")
    case None
    then show ?thesis using Cons(2) by auto
  next
    case (Some avail)
    show ?thesis
    proof (cases "avail > 0")
      case True
      then show ?thesis using Cons(2) Some by (auto simp: Let_def split: option.splits if_splits)
    next
      case False
      then show ?thesis using Cons Some by (auto split: if_splits)
    qed
  qed
qed simp

lemma pty_read_stream:
  assumes "pty_read ts tick ms p = Some (text, p')" "stream_at d p"
  shows "stream_at (d @ text) p' \<and> length text \<le> 8192 \<and> pty_handles p' = pty_handles p \<and> y_token p' = y_token p \<and> y_job p' = y_job p"
proof (cases "y_queue p")
  case Nil
  then have "pipe_read ((tick + ms) mod 2 ^ 64) ts p = Some (text, p')" using assms(1) by (simp add: pty_read_def pty_output_result_def)
  from pipe_read_facts [OF this] show ?thesis using assms(2) Nil by (simp add: stream_at_def queue_ok_def pty_handles_def del: present.simps)
next
  case (Cons c cs)
  then have "text = c" "p' = p\<lparr>y_queue := cs, y_queued_bytes := y_queued_bytes p - length c\<rparr>"
    using assms(1) by (auto simp: pty_read_def pty_output_result_def)
  then show ?thesis using assms(2) Cons by (auto simp: stream_at_def queue_ok_def pty_handles_def PTY_IO_CHUNK_def simp del: present.simps)
qed

text \<open>A history of one pty: sends and reads, with the texts the reads gave.\<close>

datatype pty_op = PSend send_os string world | PRead "read_turn list" nat nat

fun pty_history :: "pty_op list \<Rightarrow> pty_t \<Rightarrow> (string list \<times> pty_t) option" where
  "pty_history [] p = Some ([], p)"
| "pty_history (PSend os s w # ops) p =
    (case pty_send os p s w of None \<Rightarrow> None | Some (r, sent, p, w') \<Rightarrow> pty_history ops p)"
| "pty_history (PRead ts tick ms # ops) p =
    (case pty_read ts tick ms p of
       None \<Rightarrow> None
     | Some (text, p) \<Rightarrow> map_option (\<lambda>(texts, p). (text # texts, p)) (pty_history ops p))"

lemma pty_history_stream:
  "pty_history ops p = Some (texts, p') \<Longrightarrow> stream_at d p \<Longrightarrow> stream_at (d @ concat texts) p' \<and> (\<forall>t\<in>set texts. length t \<le> 8192)"
proof (induction ops arbitrary: p d texts)
  case (Cons op ops)
  show ?case
  proof (cases op)
    case (PSend os s w)
    then obtain r sent p1 w' where s: "pty_send os p s w = Some (r, sent, p1, w')" "pty_history ops p1 = Some (texts, p')"
      using Cons(2) by (auto split: option.splits)
    show ?thesis by (rule Cons(1) [OF s(2) pty_send_stream [OF s(1) Cons(3)]])
  next
    case (PRead ts tick ms)
    then obtain tx p1 rest where r: "pty_read ts tick ms p = Some (tx, p1)" "pty_history ops p1 = Some (rest, p')" "texts = tx # rest"
      using Cons(2) by (auto split: option.splits)
    note s = pty_read_stream [OF r(1) Cons(3)]
    show ?thesis using Cons(1) [OF r(2) conjunct1 [OF s]] s r(3) by simp
  qed
qed simp

lemma fresh_stream: "y_queue p = [] \<Longrightarrow> y_queued_bytes p = 0 \<Longrightarrow> y_read p = [] \<Longrightarrow> stream_at [] p"
  by (simp add: stream_at_def queue_ok_def)

section \<open>Property\<close>

text \<open>C10: whatever sends and reads follow a spawn, the texts the reads gave followed by the retained output are exactly the bytes
  taken from the screen pipe, in order; the retained output never exceeds 8 MiB and is counted exactly; a send delivers a prefix of its
  bytes, and all of them when it succeeds.\<close>

theorem pty_stream_exact:
  assumes "pty_spawn os opts cargv (x, q) = (Inr p, y, q')" "wf_world (x_world x)" "pty_history ops p = Some (texts, p')"
  shows "concat texts @ concat (y_queue p') = y_read p' \<and>
    y_queued_bytes p' = length (concat (y_queue p')) \<and> y_queued_bytes p' \<le> PTY_SEND_QUEUE_LIMIT \<and> (\<forall>t\<in>set texts. length t \<le> PTY_IO_CHUNK) \<and>
    (\<forall>so s w r sent p2 w2. pty_send so p' s w = Some (r, sent, p2, w2) \<and> WriteFail 0 \<notin> snd ` set (sd_writes so) \<longrightarrow>
       (\<exists>n. sent = take n s) \<and> (r = Inr () \<longrightarrow> sent = s))"
proof -
  have "stream_at [] p" using pty_spawn_ledger [OF assms(1,2)] by (intro fresh_stream) simp_all
  from pty_history_stream [OF assms(3) this] show ?thesis
    using pty_send_sent by (auto simp: stream_at_def queue_ok_def PTY_IO_CHUNK_def)
qed

definition demo_pty_os :: pty_os where
  "demo_pty_os = \<lparr>yo_text = demo_text, yo_path = demo_path, yo_argv = True, yo_pipe_in = True, yo_pipe_out = True, yo_console = True,
     yo_job = kind_os, yo_calloc = True, yo_launch = demo_launch\<lparr>lx_create := Inr 42\<rparr>, yo_drain_thread = True, yo_drain_ends = True\<rparr>"

definition demo_pty_ctx :: proc_ctx where
  "demo_pty_ctx = \<lparr>x_root = \<lparr>jb_handle = 2, jb_closed = False, jb_kill_on_close = True\<rparr>, x_children = [], x_counter = 0,
     x_world = demo_world, x_jobs = [], x_chans = []\<rparr>"

text \<open>A send during which the program writes three bytes, then a read.\<close>

definition demo_send :: send_os where
  "demo_send = \<lparr>sd_dup = True, sd_thread = True, sd_turns = [
     \<lparr>st_first = WaitTimeout, st_error = 0, st_answer = \<lparr>pa_peek = Inr 3, pa_malloc = True, pa_read = Inr ''abc''\<rparr>, st_second = WaitTimeout, st_error2 = 0\<rparr>,
     \<lparr>st_first = WaitObject, st_error = 0, st_answer = \<lparr>pa_peek = Inr 0, pa_malloc = True, pa_read = Inr []\<rparr>, st_second = WaitTimeout, st_error2 = 0\<rparr>],
     sd_writes = [(False, Wrote 2)]\<rparr>"

lemma demo_pty_spawns: "case pty_spawn demo_pty_os opts_init [''a.b''] (demo_pty_ctx, \<lparr>ptys = [], pty_counter = 0\<rparr>) of (r, y, q) \<Rightarrow> \<not> isl r"
  by code_simp

theorem pty_stream_exact_witness:
  "\<exists>p y q p'. pty_spawn demo_pty_os opts_init [''a.b''] (demo_pty_ctx, \<lparr>ptys = [], pty_counter = 0\<rparr>) = (Inr p, y, q) \<and>
     pty_history [PSend demo_send ''hi'' demo_world, PRead [] 0 0] p = Some ([''abc''], p') \<and> ''abc'' @ concat (y_queue p') = y_read p'"
proof -
  let ?q = "\<lparr>ptys = [], pty_counter = 0\<rparr>"
  obtain r y q where e: "pty_spawn demo_pty_os opts_init [''a.b''] (demo_pty_ctx, ?q) = (r, y, q)" by (rule prod_cases3)
  then have "\<not> isl r" using demo_pty_spawns by simp
  then obtain p where "r = Inr p" by (cases r) auto
  then have s: "pty_spawn demo_pty_os opts_init [''a.b''] (demo_pty_ctx, ?q) = (Inr p, y, q)" using e by simp
  have w: "wf_world (x_world demo_pty_ctx)" using demo_wf by (simp add: demo_pty_ctx_def)
  have f: "y_queue p = []" "y_queued_bytes p = 0" "y_read p = []" using pty_spawn_ledger [OF s w] by simp_all
  obtain p' where h: "pty_history [PSend demo_send ''hi'' demo_world, PRead [] 0 0] p = Some ([''abc''], p')"
    by (simp add: pty_send_def demo_send_def f pty_output_capture_def Let_def PTY_SEND_QUEUE_LIMIT_def PTY_IO_CHUNK_def writer_thread_def
      pty_read_def pty_output_result_def split: prod.split)
  show ?thesis using pty_stream_exact [OF s w h] s h by auto
qed

end
