(* ===== verification/Watch.thy ===== *)
theory Watch
  imports Pty Bytes "HOL-Library.Sublist"
begin

text \<open>
  Directory watches (\<^verbatim>\<open>src/proc.c\<close>): the reader thread \<^verbatim>\<open>watch_thread\<close>, which parses the notification
  buffer of Windows and queues events with \<^verbatim>\<open>watch_push\<close>, and the verb \<^verbatim>\<open>watch\<close>, whose read takes the
  whole queue and coalesces it. A critical section of the code is one step here.
\<close>

section \<open>State\<close>

text \<open>An event; \<open>we_from\<close> and \<open>we_done\<close> are set by coalescing alone.\<close>

record wevent =
  we_action :: nat
  we_path :: string
  we_from :: "string option"
  we_done :: bool

definition WATCH_QUEUE_MAX :: nat where "WATCH_QUEUE_MAX = 8192"

definition ERROR_INVALID_DATA :: nat where "ERROR_INVALID_DATA = 13"
definition ERROR_GEN_FAILURE :: nat where "ERROR_GEN_FAILURE = 31"

definition FILE_ACTION_ADDED :: nat where "FILE_ACTION_ADDED = 1"
definition FILE_ACTION_REMOVED :: nat where "FILE_ACTION_REMOVED = 2"
definition FILE_ACTION_MODIFIED :: nat where "FILE_ACTION_MODIFIED = 3"
definition FILE_ACTION_RENAMED_OLD_NAME :: nat where "FILE_ACTION_RENAMED_OLD_NAME = 4"
definition FILE_ACTION_RENAMED_NEW_NAME :: nat where "FILE_ACTION_RENAMED_NEW_NAME = 5"

text \<open>Where the reader thread stands: not yet run, before a read (is it the first?), in the wait, gone.\<close>

datatype reader_state = RNew | RIssue bool | RWait | REnded

text \<open>What a notification needs besides its bytes: the conversion of names, and the heap's answers for the record at an offset.\<close>

record notify_env =
  ne_text :: text_env
  ne_realloc :: "nat \<Rightarrow> bool"
  ne_strdup :: "nat \<Rightarrow> bool"

text \<open>
  A watch. \<open>wt_data\<close>, \<open>wt_ready\<close> and \<open>wt_stop\<close> say whether the events are signalled; \<open>wt_reader\<close> and
  \<open>wt_ioEv\<close> are locals of the thread. Two ghosts, which nothing reads: \<open>wt_bufs\<close> the buffers as Windows filled them,
  and \<open>wt_wrapped\<close> whether the \<^verbatim>\<open>int\<close> that counts losses ever overflowed.
\<close>

record watch_t =
  wt_token :: string
  wt_dir :: "khandle option"
  wt_thread :: "khandle option"
  wt_stopEv :: "khandle option"
  wt_dataEv :: "khandle option"
  wt_readyEv :: "khandle option"
  wt_armed :: bool
  wt_failed :: bool
  wt_error :: nat
  wt_ev :: "wevent list"
  wt_cap :: nat
  wt_dropped :: int
  wt_recursive :: bool
  wt_dir_path :: "string option"
  wt_stop :: bool
  wt_data :: bool
  wt_ready :: bool
  wt_reader :: reader_state
  wt_ioEv :: "khandle option"
  wt_bufs :: "(notify_env \<times> string) list"
  wt_wrapped :: bool

record watch_part =
  watches :: "watch_t list"
  watch_counter :: nat

definition watch_find :: "watch_part \<Rightarrow> string \<Rightarrow> watch_t option" where
  "watch_find q t = List.find (\<lambda>w. wt_token w = t) (watches q)"

definition watch_add :: "watch_t \<Rightarrow> watch_part \<Rightarrow> watch_part" where
  "watch_add w q = q\<lparr>watch_counter := watch_counter q + 1, watches := w # watches q\<rparr>"

definition watch_remove :: "watch_t \<Rightarrow> watch_part \<Rightarrow> watch_part" where
  "watch_remove w q = q\<lparr>watches := List.filter (\<lambda>d. wt_token d \<noteq> wt_token w) (watches q)\<rparr>"

definition watch_update :: "watch_t \<Rightarrow> watch_part \<Rightarrow> watch_part" where
  "watch_update w q = q\<lparr>watches := map (\<lambda>d. if wt_token d = wt_token w then w else d) (watches q)\<rparr>"

section \<open>Queueing\<close>

definition watch_fail :: "watch_t \<Rightarrow> nat \<Rightarrow> watch_t" where
  "watch_fail w error = w\<lparr>wt_failed := True, wt_error := (if error \<noteq> 0 then error else ERROR_GEN_FAILURE), wt_ready := True, wt_data := True\<rparr>"

definition new_event :: "nat \<Rightarrow> string \<Rightarrow> wevent" where
  "new_event action path = \<lparr>we_action = action, we_path = path, we_from = None, we_done = False\<rparr>"

text \<open>\<^verbatim>\<open>dropped++\<close>, at its width.\<close>

definition count_loss :: "watch_t \<Rightarrow> watch_t" where
  "count_loss w = (if wt_dropped w = 2147483647 then w\<lparr>wt_dropped := - 2147483648, wt_wrapped := True\<rparr>
     else w\<lparr>wt_dropped := wt_dropped w + 1\<rparr>)"

text \<open>\<open>re\<close> and \<open>du\<close>: do \<^verbatim>\<open>realloc\<close> and \<^verbatim>\<open>_strdup\<close> succeed.\<close>

definition watch_push :: "bool \<Rightarrow> bool \<Rightarrow> nat \<Rightarrow> string \<Rightarrow> watch_t \<Rightarrow> watch_t" where
  "watch_push re du action path w =
    (if length (wt_ev w) \<ge> WATCH_QUEUE_MAX then count_loss w
     else
       let full = (length (wt_ev w) = wt_cap w) in
       if full \<and> \<not> re then count_loss w
       else
         let w = (if full then w\<lparr>wt_cap := (if wt_cap w \<noteq> 0 then wt_cap w * 2 else 64)\<rparr> else w) in
         if \<not> du then count_loss w
         else w\<lparr>wt_ev := wt_ev w @ [new_event action path]\<rparr>)"

section \<open>The notification buffer\<close>

text \<open>The header is the offset of \<^verbatim>\<open>FileName\<close> in \<^verbatim>\<open>FILE_NOTIFY_INFORMATION\<close>.\<close>

definition NOTIFY_HEADER :: nat where "NOTIFY_HEADER = 12"

definition to_slash :: "string \<Rightarrow> string" where
  "to_slash s = map (\<lambda>c. if c = BS then CHR ''/'' else c) (takeWhile (\<lambda>c. c \<noteq> NUL) s)"

definition notify_name :: "notify_env \<Rightarrow> nat \<Rightarrow> nat \<Rightarrow> wstr \<Rightarrow> watch_t \<Rightarrow> watch_t" where
  "notify_name ne off action name w =
    (if name = [] then w
     else case to_utf8 (ne_text ne) name (int (length name)) of
         None \<Rightarrow> count_loss w
       | Some u8 \<Rightarrow> watch_push (ne_realloc ne off) (ne_strdup ne off) action (to_slash u8) w)"

definition invalid_data :: "watch_t \<Rightarrow> watch_t" where
  "invalid_data w = w\<lparr>wt_failed := True, wt_error := ERROR_INVALID_DATA\<rparr>"

function notify_loop :: "notify_env \<Rightarrow> string \<Rightarrow> nat \<Rightarrow> watch_t \<Rightarrow> watch_t" where
  "notify_loop ne buf off w =
    (if off + NOTIFY_HEADER \<le> length buf then
       let next = dword_at buf off;
           action = dword_at buf (off + 4);
           nlen = dword_at buf (off + 8)
       in if odd nlen \<or> nlen > length buf - off - NOTIFY_HEADER then invalid_data w
          else
            let w = notify_name ne off action (wide_of (take nlen (List.drop (off + NOTIFY_HEADER) buf))) w in
            if next = 0 then w
            else if next < NOTIFY_HEADER \<or> next > length buf - off then invalid_data w
            else notify_loop ne buf (off + next) w
     else w)"
  by pat_completeness auto
termination
  by (relation "measure (\<lambda>(ne, buf, off, w). length buf - off)") (auto simp: NOTIFY_HEADER_def)

declare notify_loop.simps [simp del]

text \<open>The critical section of the thread: an empty answer is an overflow of the buffer of Windows.\<close>

definition notify_batch :: "notify_env \<Rightarrow> string \<Rightarrow> watch_t \<Rightarrow> watch_t" where
  "notify_batch ne buf w =
    (let w = w\<lparr>wt_bufs := wt_bufs w @ [(ne, buf)]\<rparr>;
         w = (if buf = [] then count_loss w else notify_loop ne buf 0 w)
     in if wt_ev w \<noteq> [] \<or> wt_dropped w > 0 \<or> wt_failed w then w\<lparr>wt_data := True\<rparr> else w)"

section \<open>The reader thread\<close>

text \<open>
  One move of the thread with the answers it gets: \<^verbatim>\<open>malloc\<close> and \<^verbatim>\<open>CreateEventW\<close> at its start, the error of
  \<^verbatim>\<open>ReadDirectoryChangesW\<close>, and the wait: stop, another result, or the outcome of the read. A move the thread
  cannot make where it stands leaves everything as it is.
\<close>

datatype thread_act =
    TStart bool "nat option"
  | TIssue "nat option"
  | TWakeStop
  | TWakeBad nat
  | TWakeRead "nat + string" notify_env

definition reader_end :: "watch_t \<times> world \<Rightarrow> watch_t \<times> world" where
  "reader_end = (\<lambda>(w, u). (w\<lparr>wt_reader := REnded, wt_ioEv := None\<rparr>, close_present [wt_ioEv w] u))"

definition thread_step :: "thread_act \<Rightarrow> watch_t \<times> world \<Rightarrow> watch_t \<times> world" where
  "thread_step a = (\<lambda>(w, u).
    (case (wt_reader w, a) of
       (RNew, TStart malloc_ok event_error) \<Rightarrow>
         if \<not> malloc_ok then reader_end (watch_fail w ERROR_NOT_ENOUGH_MEMORY, u)
         else (case event_error of
             Some e \<Rightarrow> reader_end (watch_fail w e, u)
           | None \<Rightarrow> (case open_handle u of (io, u) \<Rightarrow> (w\<lparr>wt_ioEv := Some io, wt_reader := RIssue True\<rparr>, u)))
     | (RIssue first, TIssue error) \<Rightarrow>
         let w = (if first then w\<lparr>wt_armed := (error = None), wt_ready := True\<rparr> else w) in
         (case error of Some e \<Rightarrow> reader_end (watch_fail w e, u) | None \<Rightarrow> (w\<lparr>wt_reader := RWait\<rparr>, u))
     | (RWait, TWakeStop) \<Rightarrow> if wt_stop w then reader_end (w, u) else (w, u)
     | (RWait, TWakeBad e) \<Rightarrow> reader_end (watch_fail w e, u)
     | (RWait, TWakeRead (Inl e) ne) \<Rightarrow> reader_end (watch_fail w e, u)
     | (RWait, TWakeRead (Inr buf) ne) \<Rightarrow>
         let w = notify_batch ne buf w in
         if wt_failed w then reader_end (w, u) else (w\<lparr>wt_reader := RIssue False\<rparr>, u)
     | _ \<Rightarrow> (w, u)))"

definition thread_moves :: "thread_act list \<Rightarrow> watch_t \<times> world \<Rightarrow> watch_t \<times> world" where
  "thread_moves acts st = fold thread_step acts st"

section \<open>Release\<close>

text \<open>The moves the thread makes during each of the two bounded waits, and whether the wait itself fails.\<close>

record stop_os =
  so_acts :: "thread_act list"
  so_fails :: bool
  so_acts2 :: "thread_act list"
  so_fails2 :: bool

definition join_answer :: "bool \<Rightarrow> watch_t \<Rightarrow> wait_res" where
  "join_answer fails w = (if fails then WaitFailed else if wt_reader w = REnded then WaitObject else WaitTimeout)"

definition watch_release :: "watch_t \<Rightarrow> world \<Rightarrow> world" where
  "watch_release w u = close_present [wt_dir w, wt_stopEv w, wt_dataEv w, wt_readyEv w] u"

text \<open>The result is the C result 0; a watch whose thread does not end is unlinked and leaked.\<close>

definition watch_free :: "stop_os \<Rightarrow> watch_t \<Rightarrow> world \<times> watch_part \<Rightarrow> bool \<times> world \<times> watch_part" where
  "watch_free so w = (\<lambda>(u, q).
    let q = watch_remove w q;
        w = w\<lparr>wt_stop := True\<rparr>
    in case wt_thread w of
         None \<Rightarrow> (True, watch_release w u, q)
       | Some th \<Rightarrow>
          (case thread_moves (so_acts so) (w, u) of (w, u) \<Rightarrow>
             let r = join_answer (so_fails so) w in
             case (if r = WaitTimeout
                   then (case thread_moves (so_acts2 so) (w\<lparr>wt_dir := None\<rparr>, close_present [wt_dir w] u) of
                           (w, u) \<Rightarrow> (join_answer (so_fails2 so) w, w, u))
                   else (r, w, u)) of
               (r, w, u) \<Rightarrow>
                 if r \<noteq> WaitObject then (False, u, q)
                 else (True, watch_release w (CloseHandle th u), q)))"

section \<open>The seam of wait\<close>

definition watch_ready :: "watch_t \<Rightarrow> bool" where
  "watch_ready w \<longleftrightarrow> wt_ev w \<noteq> [] \<or> wt_dropped w > 0 \<or> wt_failed w"

definition watch_waitable :: "watch_part \<Rightarrow> string \<Rightarrow> (string \<times> khandle option \<times> bool) option" where
  "watch_waitable q token = map_option (\<lambda>w. (wt_token w, wt_dataEv w, watch_ready w)) (watch_find q token)"

section \<open>Coalescing\<close>

definition watch_action_name :: "nat \<Rightarrow> string" where
  "watch_action_name action =
    (if action = FILE_ACTION_ADDED then ''added''
     else if action = FILE_ACTION_REMOVED then ''removed''
     else if action = FILE_ACTION_MODIFIED then ''modified''
     else if action = FILE_ACTION_RENAMED_OLD_NAME then ''renamed-old''
     else if action = FILE_ACTION_RENAMED_NEW_NAME then ''renamed-new''
     else ''unknown'')"

record watch_event =
  ve_path :: string
  ve_action :: string
  ve_from :: "string option"
  ve_count :: "int option"

definition watch_event_obj :: "string \<Rightarrow> string \<Rightarrow> string option \<Rightarrow> watch_event" where
  "watch_event_obj path action from = \<lparr>ve_path = path, ve_action = action, ve_from = from, ve_count = None\<rparr>"

text \<open>The first pass: each old name is joined with the first new name after it that is not consumed.\<close>

fun join_new :: "string \<Rightarrow> wevent list \<Rightarrow> wevent list option" where
  "join_new old [] = None"
| "join_new old (e # es) =
    (if \<not> we_done e \<and> we_action e = FILE_ACTION_RENAMED_NEW_NAME then Some (e\<lparr>we_from := Some old\<rparr> # es)
     else map_option ((#) e) (join_new old es))"

lemma join_new_length: "join_new old es = Some es' \<Longrightarrow> length es' = length es"
  by (induction es arbitrary: es') (auto split: if_splits)

function pair_renames :: "wevent list \<Rightarrow> wevent list" where
  "pair_renames [] = []"
| "pair_renames (e # es) =
    (if we_action e \<noteq> FILE_ACTION_RENAMED_OLD_NAME \<or> we_done e then e # pair_renames es
     else case join_new (we_path e) es of
       None \<Rightarrow> e # pair_renames es
     | Some es' \<Rightarrow> e\<lparr>we_done := True\<rparr> # pair_renames es')"
  by pat_completeness auto
termination
  by (relation "measure length") (auto dest: join_new_length)

text \<open>The second pass: what the inner loop notes about one path.\<close>

record path_notes =
  pn_removed :: bool
  pn_added :: bool
  pn_renamed :: bool
  pn_from :: "string option"

definition note_event :: "wevent \<Rightarrow> path_notes \<Rightarrow> path_notes" where
  "note_event e n =
    (if we_action e = FILE_ACTION_REMOVED then n\<lparr>pn_removed := True\<rparr>
     else if we_action e = FILE_ACTION_ADDED then n\<lparr>pn_added := True\<rparr>
     else if we_action e = FILE_ACTION_RENAMED_NEW_NAME then
       n\<lparr>pn_renamed := True, pn_from := (if we_from e \<noteq> None then we_from e else pn_from n)\<rparr>
     else n)"

fun note_path :: "string \<Rightarrow> wevent list \<Rightarrow> path_notes \<Rightarrow> path_notes" where
  "note_path path [] n = n"
| "note_path path (e # es) n =
    note_path path es (if we_done e \<or> we_path e \<noteq> path then n else note_event e n)"

definition mark_done :: "string \<Rightarrow> wevent list \<Rightarrow> wevent list" where
  "mark_done path es = map (\<lambda>e. if \<not> we_done e \<and> we_path e = path then e\<lparr>we_done := True\<rparr> else e) es"

function coalesce :: "wevent list \<Rightarrow> watch_event list" where
  "coalesce [] = []"
| "coalesce (e # es) =
    (if we_done e then coalesce es
     else
       let n = note_path (we_path e) (e # es) \<lparr>pn_removed = False, pn_added = False, pn_renamed = False, pn_from = None\<rparr>;
           act = (if pn_removed n then ''removed'' else if pn_added n then ''added'' else if pn_renamed n then ''renamed''
                  else watch_action_name (we_action e))
       in watch_event_obj (we_path e) act (pn_from n) # coalesce (mark_done (we_path e) es))"
  by pat_completeness auto
termination
  by (relation "measure length") (auto simp: mark_done_def)

section \<open>The verb\<close>

record watch_os =
  wo_text :: text_env
  wo_open :: bool
  wo_calloc :: bool
  wo_strdup :: bool
  wo_stopEv :: bool
  wo_dataEv :: bool
  wo_readyEv :: bool
  wo_thread :: bool
  wo_arm :: "thread_act list"
  wo_arm_fails :: bool
  wo_free :: stop_os
  wo_wait :: "thread_act list"
  wo_wait_fails :: bool

record watch_info =
  wi_token :: string
  wi_directory :: string
  wi_recursive :: bool
  wi_armed :: bool
  wi_pending :: nat
  wi_dropped :: int
  wi_failed :: bool
  wi_win32 :: nat

datatype watch_value = WNone | WText string | WList "string list" | WInfo watch_info | WEvents "watch_event list"

abbreviation watch_error :: "string \<Rightarrow> string \<Rightarrow> mt_error" where
  "watch_error code msg \<equiv> MtError ''WATCH'' code msg"

definition opt_handle :: "bool \<Rightarrow> world \<Rightarrow> khandle option \<times> world" where
  "opt_handle ok u = (if ok then map_prod Some id (open_handle u) else (None, u))"

definition new_watch :: "khandle \<Rightarrow> bool \<Rightarrow> string option \<Rightarrow> watch_t" where
  "new_watch h recursive dir =
    \<lparr>wt_token = [], wt_dir = Some h, wt_thread = None, wt_stopEv = None, wt_dataEv = None, wt_readyEv = None, wt_armed = False,
     wt_failed = False, wt_error = 0, wt_ev = [], wt_cap = 0, wt_dropped = 0, wt_recursive = recursive, wt_dir_path = dir,
     wt_stop = False, wt_data = False, wt_ready = False, wt_reader = RNew, wt_ioEv = None, wt_bufs = [], wt_wrapped = False\<rparr>"
text \<open>From the open directory to the token; the watch is linked before its thread is created.\<close>

definition watch_arm :: "watch_os \<Rightarrow> watch_t \<Rightarrow> world \<times> watch_part \<Rightarrow> watch_value res \<times> world \<times> watch_part" where
  "watch_arm os w = (\<lambda>(u, q).
    let w = w\<lparr>wt_token := ''watch#'' @ dec_of_nat (watch_counter q + 1)\<rparr>;
        q = watch_add w q
    in if \<not> wo_thread os then
         (Inl (watch_error ''oserror'' ''cannot start watch thread''), snd (watch_free (wo_free os) w (u, q)))
       else (case open_handle u of (th, u) \<Rightarrow>
         case thread_moves (wo_arm os) (w\<lparr>wt_thread := Some th\<rparr>, u) of (w, u) \<Rightarrow>
           if wo_arm_fails os \<or> \<not> wt_ready w \<or> \<not> wt_armed w then
             (Inl (watch_error ''oserror'' ''cannot arm directory watch''), snd (watch_free (wo_free os) w (u, q)))
           else (Inr (WText (wt_token w)), u, watch_update w q)))"

definition watch_start :: "watch_os \<Rightarrow> string \<Rightarrow> bool \<Rightarrow> world \<times> watch_part \<Rightarrow> watch_value res \<times> world \<times> watch_part" where
  "watch_start os dir recursive = (\<lambda>(u, q).
    (case to_wide (wo_text os) dir of
       None \<Rightarrow> (Inl (watch_error ''badvalue'' ''bad directory name''), u, q)
     | Some wdir \<Rightarrow>
       if \<not> wo_open os then (Inl (watch_error ''notfound'' ''cannot open directory to watch''), u, q)
       else case open_handle u of (h, u) \<Rightarrow>
         if \<not> wo_calloc os then (Inl (watch_error ''oserror'' ''out of memory''), CloseHandle h u, q)
         else
           case opt_handle (wo_stopEv os) u of (stopEv, u) \<Rightarrow>
           case opt_handle (wo_dataEv os) u of (dataEv, u) \<Rightarrow>
           case opt_handle (wo_readyEv os) u of (readyEv, u) \<Rightarrow>
             let w = (new_watch h recursive (if wo_strdup os then Some dir else None))\<lparr>wt_stopEv := stopEv, wt_dataEv := dataEv, wt_readyEv := readyEv\<rparr>
             in if \<not> wo_strdup os \<or> stopEv = None \<or> dataEv = None \<or> readyEv = None then
                  (Inl (watch_error ''oserror'' ''cannot allocate watch resources''), snd (watch_free (wo_free os) w (u, q)))
                else watch_arm os w (u, q)))"

definition watch_info_dict :: "watch_t \<Rightarrow> watch_info" where
  "watch_info_dict w =
    \<lparr>wi_token = wt_token w, wi_directory = (case wt_dir_path w of None \<Rightarrow> [] | Some d \<Rightarrow> d), wi_recursive = wt_recursive w, wi_armed = wt_armed w,
     wi_pending = length (wt_ev w), wi_dropped = wt_dropped w, wi_failed = wt_failed w, wi_win32 = wt_error w\<rparr>"

text \<open>The options of a read: raw and the bound in milliseconds.\<close>

fun read_options :: "bool \<Rightarrow> bool \<Rightarrow> nat \<Rightarrow> string list \<Rightarrow> (bool \<times> nat) res" where
  "read_options raw saw tmo [] = Inr (raw, tmo)"
| "read_options raw saw tmo (a # rest) =
    (if a = ''-raw'' then
       (if raw then Inl (watch_error ''usage'' ''duplicate -raw option'') else read_options True saw tmo rest)
     else if a = ''-timeout'' then
       (if saw then Inl (watch_error ''usage'' ''duplicate -timeout option'')
        else case rest of
          [] \<Rightarrow> Inl (watch_error ''usage'' ''option needs a value'')
        | v # rest' \<Rightarrow>
           let t = parse_duration_ms v in
           if t < 0 \<or> nat t \<ge> WJ_INFINITE then Inl (watch_error ''badvalue'' ''bad -timeout value'')
           else read_options raw True (nat t) rest')
     else Inl (watch_error ''usage'' ''unknown option''))"

text \<open>Taking the queue; \<open>None\<close> when the watch has failed.\<close>

definition watch_take :: "watch_t \<Rightarrow> (wevent list \<times> int \<times> watch_t) option" where
  "watch_take w =
    (if wt_failed w then None
     else Some (wt_ev w, wt_dropped w, w\<lparr>wt_ev := [], wt_cap := 0, wt_dropped := 0, wt_data := False\<rparr>))"

definition watch_report :: "bool \<Rightarrow> wevent list \<Rightarrow> int \<Rightarrow> watch_event list" where
  "watch_report raw ev dropped =
    (if dropped > 0 then [(watch_event_obj [] ''overflow'' None)\<lparr>ve_count := Some dropped\<rparr>] else []) @
    (if raw then map (\<lambda>e. watch_event_obj (we_path e) (watch_action_name (we_action e)) None) ev
     else coalesce (pair_renames ev))"

definition watch_read :: "watch_os \<Rightarrow> bool \<Rightarrow> nat \<Rightarrow> watch_t \<times> world \<Rightarrow> watch_value res \<times> watch_t \<times> world" where
  "watch_read os raw tmo = (\<lambda>(w, u).
    let wait = (tmo > 0 \<and> wt_ev w = [] \<and> wt_dropped w = 0)
    in case (if wait then thread_moves (wo_wait os) (w, u) else (w, u)) of (w, u) \<Rightarrow>
         if wait \<and> wo_wait_fails os then (Inl (watch_error ''oserror'' ''waiting for watch events failed''), w, u)
         else (case watch_take w of
           None \<Rightarrow> (Inl (watch_error ''oserror'' (''directory watch failed (error '' @ dec_of_nat (wt_error w) @ '')'')), w, u)
         | Some (ev, dropped, w) \<Rightarrow> (Inr (WEvents (watch_report raw ev dropped)), w, u)))"

definition WatchCmd :: "watch_os \<Rightarrow> tvalue list \<Rightarrow> world \<times> watch_part \<Rightarrow> watch_value res \<times> world \<times> watch_part" where
  "WatchCmd os objv = (\<lambda>(u, q).
    (case objv of
       [] \<Rightarrow> (Inl (watch_error ''usage'' ''watch subcommand ?arg ...?''), u, q)
     | sv # args \<Rightarrow>
       let sub = vtext sv in
       if sub \<notin> {''start'', ''read'', ''close'', ''list'', ''info''} then (Inl (watch_error ''usage'' ''unknown watch subcommand''), u, q)
       else if sub = ''start'' then
         (case map vtext args of
            [dir] \<Rightarrow> watch_start os dir False (u, q)
          | [dir, a] \<Rightarrow> if a = ''-recursive'' then watch_start os dir True (u, q) else (Inl (watch_error ''usage'' ''unknown option''), u, q)
          | _ \<Rightarrow> (Inl (watch_error ''usage'' ''watch start dir ?-recursive?''), u, q))
       else if sub = ''list'' then
         (if args \<noteq> [] then (Inl (watch_error ''usage'' ''watch list''), u, q) else (Inr (WList (map wt_token (watches q))), u, q))
       else case args of
         [] \<Rightarrow> (Inl (watch_error ''usage'' ''watch subcommand token ?arg ...?''), u, q)
       | tv # rest \<Rightarrow>
         (case watch_find q (vtext tv) of
            None \<Rightarrow> (Inl (watch_error ''nohandle'' ''no such watch''), u, q)
          | Some w \<Rightarrow>
             if sub = ''info'' then
               (if rest \<noteq> [] then (Inl (watch_error ''usage'' ''watch info token''), u, q) else (Inr (WInfo (watch_info_dict w)), u, q))
             else if sub = ''close'' then
               (if rest \<noteq> [] then (Inl (watch_error ''usage'' ''watch close token''), u, q)
                else case watch_free (wo_free os) w (u, q) of
                  (True, u, q) \<Rightarrow> (Inr WNone, u, q)
                | (False, u, q) \<Rightarrow> (Inl (watch_error ''oserror'' ''watch thread did not stop''), u, q))
             else (case read_options False False 0 (map vtext rest) of
                Inl e \<Rightarrow> (Inl e, u, q)
              | Inr (raw, tmo) \<Rightarrow>
                 (case watch_read os raw tmo (w, u) of (r, w, u) \<Rightarrow> (r, u, watch_update w q))))))"

section \<open>The registry of watches\<close>

interpretation watch_reg: token_registry "''watch#''" wt_token watches watch_counter watch_add watch_find watch_remove
  by unfold_locales (simp_all add: watch_add_def watch_find_def watch_remove_def)

section \<open>The buffer as Windows lays it out\<close>

text \<open>
  The documented layout: per change the offset of the next record (0 in the last), the action, the length of the
  name in bytes and the name, records aligned to 4 bytes.
\<close>

definition notify_pad :: "wstr \<Rightarrow> nat" where
  "notify_pad u = (if odd (length u) then 2 else 0)"

definition record_size :: "wstr \<Rightarrow> nat" where
  "record_size u = NOTIFY_HEADER + 2 * length u + notify_pad u"

fun notify_bytes :: "(nat \<times> wstr) list \<Rightarrow> string" where
  "notify_bytes [] = []"
| "notify_bytes ((a, u) # rs) =
    dword_bytes (if rs = [] then 0 else record_size u) @ dword_bytes a @ dword_bytes (2 * length u) @ wide_bytes u @
    (if rs = [] then [] else replicate (notify_pad u) NUL) @ notify_bytes rs"

text \<open>The heap never fails; the records stay below the range of a \<^verbatim>\<open>DWORD\<close>.\<close>

definition heap_ok :: "notify_env \<Rightarrow> bool" where
  "heap_ok ne \<longleftrightarrow> (\<forall>k. ne_realloc ne k \<and> ne_strdup ne k)"

definition change_ok :: "nat \<times> wstr \<Rightarrow> bool" where
  "change_ok r \<longleftrightarrow> fst r < 4294967296 \<and> length (snd r) < 2147483640"

text \<open>What a list of changes should queue: those whose name can be represented, slashes forward.\<close>

definition representable :: "notify_env \<Rightarrow> (nat \<times> wstr) list \<Rightarrow> wevent list" where
  "representable ne rs =
    concat (map (\<lambda>(a, u). case to_utf8 (ne_text ne) u (int (length u)) of None \<Rightarrow> [] | Some s \<Rightarrow> [new_event a (to_slash s)]) rs)"

definition named :: "(nat \<times> wstr) list \<Rightarrow> (nat \<times> wstr) list" where
  "named rs = List.filter (\<lambda>r. snd r \<noteq> []) rs"

lemma representable_Cons: "representable ne (r # rs) = representable ne [r] @ representable ne rs"
  by (simp add: representable_def)

lemma named_Cons: "named (r # rs) = named [r] @ named rs"
  by (simp add: named_def)

lemma representable_append: "representable ne (xs @ ys) = representable ne xs @ representable ne ys"
  by (simp add: representable_def)

lemma representable_length: "length (representable ne rs) \<le> length rs"
  by (induction rs) (auto simp: representable_def split: option.split)

text \<open>The records of a buffer one after the other, each at its offset.\<close>

fun deliver_all :: "notify_env \<Rightarrow> nat \<Rightarrow> (nat \<times> wstr) list \<Rightarrow> watch_t \<Rightarrow> watch_t" where
  "deliver_all ne off [] w = w"
| "deliver_all ne off ((a, u) # rs) w = deliver_all ne (off + record_size u) rs (notify_name ne off a u w)"

lemma notify_loop_bytes:
  "list_all change_ok rs \<Longrightarrow> rs \<noteq> [] \<Longrightarrow> notify_loop ne (pre @ notify_bytes rs) (length pre) w = deliver_all ne (length pre) rs w"
proof (induction rs arbitrary: pre w)
  case (Cons r rs)
  obtain a u where r: "r = (a, u)" by (rule prod.exhaust)
  let ?next = "if rs = [] then 0 else record_size u"
  let ?tail = "(if rs = [] then [] else replicate (notify_pad u) NUL) @ notify_bytes rs"
  let ?buf = "pre @ dword_bytes ?next @ dword_bytes a @ dword_bytes (2 * length u) @ wide_bytes u @ ?tail"
  have ok: "a < 4294967296" "2 * length u < 4294967296" "?next < 4294967296"
    using Cons(2) r by (auto simp: change_ok_def record_size_def notify_pad_def NOTIFY_HEADER_def)
  have d: "dword_at ?buf (length pre) = ?next" "dword_at ?buf (length pre + 4) = a" "dword_at ?buf (length pre + 8) = 2 * length u"
    using dword_at_bytes [OF ok(3), of pre "dword_bytes a @ dword_bytes (2 * length u) @ wide_bytes u @ ?tail"]
      dword_at_bytes [OF ok(1), of "pre @ dword_bytes ?next" "dword_bytes (2 * length u) @ wide_bytes u @ ?tail"]
      dword_at_bytes [OF ok(2), of "pre @ dword_bytes ?next @ dword_bytes a" "wide_bytes u @ ?tail"] by (simp_all del: if_split)
  have t: "take (2 * length u) (List.drop (length pre + 12) ?buf) = wide_bytes u" by simp
  have n: "wide_of (take (2 * length u) (List.drop (length pre + NOTIFY_HEADER) ?buf)) = u" unfolding NOTIFY_HEADER_def t by (rule wide_of_bytes)
  have b: "pre @ notify_bytes (r # rs) = ?buf" using r by simp
  have L: "length ?buf = length pre + NOTIFY_HEADER + 2 * length u + length ?tail" by (simp add: NOTIFY_HEADER_def)
  show ?case
  proof (cases "rs = []")
    case True
    then show ?thesis
      unfolding b by (subst notify_loop.simps) (use d n L in \<open>simp add: Let_def r\<close>)
  next
    case False
    have size: "NOTIFY_HEADER \<le> record_size u" "record_size u \<le> length ?buf - length pre" "record_size u \<noteq> 0"
      using False L by (simp_all add: record_size_def NOTIFY_HEADER_def)
    have "notify_loop ne ?buf (length pre) w = notify_loop ne ?buf (length pre + record_size u) (notify_name ne (length pre) a u w)"
      by (subst notify_loop.simps) (use d n L size False in \<open>simp add: Let_def\<close>)
    also have "?buf = (pre @ dword_bytes ?next @ dword_bytes a @ dword_bytes (2 * length u) @ wide_bytes u @ replicate (notify_pad u) NUL) @ notify_bytes rs"
      using False by simp
    also have "length pre + record_size u = length (pre @ dword_bytes ?next @ dword_bytes a @ dword_bytes (2 * length u) @ wide_bytes u @ replicate (notify_pad u) NUL)"
      by (simp add: record_size_def NOTIFY_HEADER_def)
    also have "notify_loop ne ((pre @ dword_bytes ?next @ dword_bytes a @ dword_bytes (2 * length u) @ wide_bytes u @ replicate (notify_pad u) NUL) @ notify_bytes rs)
        (length (pre @ dword_bytes ?next @ dword_bytes a @ dword_bytes (2 * length u) @ wide_bytes u @ replicate (notify_pad u) NUL)) (notify_name ne (length pre) a u w)
      = deliver_all ne (length (pre @ dword_bytes ?next @ dword_bytes a @ dword_bytes (2 * length u) @ wide_bytes u @ replicate (notify_pad u) NUL)) rs
          (notify_name ne (length pre) a u w)"
      by (rule Cons(1)) (use Cons(2) False in simp_all)
    finally show ?thesis unfolding b using r False by (simp add: record_size_def NOTIFY_HEADER_def add.assoc)
  qed
qed simp

section \<open>Nothing is lost silently\<close>

text \<open>What an event says, and that coalescing has not touched it.\<close>

definition change_of :: "wevent \<Rightarrow> nat \<times> string" where
  "change_of e = (we_action e, we_path e)"

definition clean :: "wevent \<Rightarrow> bool" where
  "clean e \<longleftrightarrow> \<not> we_done e \<and> we_from e = None"

text \<open>
  The changes that Windows put into the buffers it filled, by the documented layout; a buffer without any is the report of an
  overflow. The events they ask for, their number, and a history that gives no reason to lose any.
\<close>

type_synonym reports = "(notify_env \<times> (nat \<times> wstr) list) list"

definition reported :: "(notify_env \<times> string) list \<Rightarrow> reports \<Rightarrow> bool" where
  "reported bufs Rs \<longleftrightarrow> bufs = map (\<lambda>(ne, rs). (ne, notify_bytes rs)) Rs \<and> list_all (\<lambda>(ne, rs). list_all change_ok rs) Rs"

definition expected :: "reports \<Rightarrow> wevent list" where
  "expected Rs = concat (map (\<lambda>(ne, rs). representable ne (named rs)) Rs)"

definition count_reported :: "reports \<Rightarrow> nat" where
  "count_reported Rs = sum_list (map (\<lambda>(ne, rs). if rs = [] then 1 else length (named rs)) Rs)"

definition calm :: "reports \<Rightarrow> bool" where
  "calm Rs \<longleftrightarrow> count_reported Rs \<le> WATCH_QUEUE_MAX \<and>
     list_all (\<lambda>(ne, rs). rs \<noteq> [] \<and> heap_ok ne \<and> length (representable ne (named rs)) = length (named rs)) Rs"

lemma reports_snoc [simp]:
  "expected (Rs @ [(ne, rs)]) = expected Rs @ representable ne (named rs)"
  "count_reported (Rs @ [(ne, rs)]) = count_reported Rs + (if rs = [] then 1 else length (named rs))"
  by (simp_all add: expected_def count_reported_def)

lemma reported_snoc:
  assumes "reported (bufs @ [(ne, buf)]) Rs"
  obtains Rs0 rs where "Rs = Rs0 @ [(ne, rs)]" "reported bufs Rs0" "buf = notify_bytes rs" "list_all change_ok rs"
proof (cases Rs rule: rev_cases)
  case Nil
  then show ?thesis using assms by (simp add: reported_def)
next
  case (snoc Rs0 r)
  then show ?thesis using assms that by (cases r) (auto simp: reported_def)
qed

text \<open>
  How the queue moves when Windows delivers \<open>rs\<close>: some of the representable names are queued, in order, and the others are
  counted; none is lost without a reason. The count is right unless it overflowed.
\<close>

definition moved :: "notify_env \<Rightarrow> (nat \<times> wstr) list \<Rightarrow> watch_t \<Rightarrow> watch_t \<Rightarrow> bool" where
  "moved ne rs w w' \<longleftrightarrow> (\<exists>new lost. wt_ev w' = wt_ev w @ new \<and> subseq new (representable ne (named rs)) \<and>
     length new + lost = length (named rs) \<and>
     (\<not> wt_wrapped w' \<longrightarrow> \<not> wt_wrapped w \<and> wt_dropped w' = wt_dropped w + int lost) \<and>
     (heap_ok ne \<and> length (representable ne (named rs)) = length (named rs) \<and> length (wt_ev w) + length (named rs) \<le> WATCH_QUEUE_MAX
        \<longrightarrow> lost = 0))"

lemma watch_push_cases:
  obtains (lost) c where "watch_push re du a p w = count_loss w \<or> watch_push re du a p w = count_loss (w\<lparr>wt_cap := c\<rparr>)"
      "\<not> (re \<and> du \<and> length (wt_ev w) < WATCH_QUEUE_MAX)"
  | (queued) "wt_ev (watch_push re du a p w) = wt_ev w @ [new_event a p]" "wt_dropped (watch_push re du a p w) = wt_dropped w"
      "wt_wrapped (watch_push re du a p w) = wt_wrapped w"
  by (cases "length (wt_ev w) \<ge> WATCH_QUEUE_MAX"; cases "length (wt_ev w) = wt_cap w"; cases re; cases du)
    (auto simp: watch_push_def Let_def)

lemma count_loss_frame: "wt_ev (count_loss w) = wt_ev w" "\<not> wt_wrapped (count_loss w) \<Longrightarrow> \<not> wt_wrapped w \<and> wt_dropped (count_loss w) = wt_dropped w + 1"
  by (auto simp: count_loss_def split: if_splits)

lemma moved_lost:
  assumes "u \<noteq> []" "w' = count_loss w \<or> w' = count_loss (w\<lparr>wt_cap := c\<rparr>)"
    "\<not> (heap_ok ne \<and> length (representable ne [(a, u)]) = 1 \<and> length (wt_ev w) < WATCH_QUEUE_MAX)"
  shows "moved ne [(a, u)] w w'"
  unfolding moved_def
  using assms count_loss_frame [of w] count_loss_frame [of "w\<lparr>wt_cap := c\<rparr>"]
  by (intro exI [of _ "[]"] exI [of _ 1]) (auto simp: named_def)

lemma moved_name: "moved ne [(a, u)] w (notify_name ne off a u w)"
proof (cases "u = []")
  case True
  then show ?thesis unfolding moved_def by (intro exI [of _ "[]"] exI [of _ 0]) (simp add: notify_name_def named_def)
next
  case u: False
  show ?thesis
  proof (cases "to_utf8 (ne_text ne) u (int (length u))")
    case None
    then show ?thesis using u by (intro moved_lost [where c = 0]) (simp_all add: notify_name_def representable_def)
  next
    case (Some s)
    let ?w' = "watch_push (ne_realloc ne off) (ne_strdup ne off) a (to_slash s) w"
    have r: "notify_name ne off a u w = ?w'" "representable ne [(a, u)] = [new_event a (to_slash s)]"
      using u Some by (simp_all add: notify_name_def representable_def)
    show ?thesis
    proof (rule watch_push_cases [of "ne_realloc ne off" "ne_strdup ne off" a "to_slash s" w])
      fix c
      assume "?w' = count_loss w \<or> ?w' = count_loss (w\<lparr>wt_cap := c\<rparr>)"
        "\<not> (ne_realloc ne off \<and> ne_strdup ne off \<and> length (wt_ev w) < WATCH_QUEUE_MAX)"
      then show ?thesis using u r by (intro moved_lost) (auto simp: heap_ok_def)
    next
      assume "wt_ev ?w' = wt_ev w @ [new_event a (to_slash s)]" "wt_dropped ?w' = wt_dropped w" "wt_wrapped ?w' = wt_wrapped w"
      then show ?thesis unfolding moved_def r(1)
        using u r(2) by (intro exI [of _ "[new_event a (to_slash s)]"] exI [of _ 0]) (simp add: named_def)
    qed
  qed
qed

lemma moved_Cons:
  assumes "moved ne [r] w v" "moved ne rs v w'"
  shows "moved ne (r # rs) w w'"
proof -
  obtain n1 l1 where 1: "wt_ev v = wt_ev w @ n1" "subseq n1 (representable ne (named [r]))" "length n1 + l1 = length (named [r])"
    "\<not> wt_wrapped v \<longrightarrow> \<not> wt_wrapped w \<and> wt_dropped v = wt_dropped w + int l1"
    "heap_ok ne \<and> length (representable ne (named [r])) = length (named [r]) \<and> length (wt_ev w) + length (named [r]) \<le> WATCH_QUEUE_MAX \<longrightarrow> l1 = 0"
    using assms(1) unfolding moved_def by blast
  obtain n2 l2 where 2: "wt_ev w' = wt_ev v @ n2" "subseq n2 (representable ne (named rs))" "length n2 + l2 = length (named rs)"
    "\<not> wt_wrapped w' \<longrightarrow> \<not> wt_wrapped v \<and> wt_dropped w' = wt_dropped v + int l2"
    "heap_ok ne \<and> length (representable ne (named rs)) = length (named rs) \<and> length (wt_ev v) + length (named rs) \<le> WATCH_QUEUE_MAX \<longrightarrow> l2 = 0"
    using assms(2) unfolding moved_def by blast
  note le = representable_length [of ne "named [r]"] representable_length [of ne "named rs"]
  have "l1 + l2 = 0" if "heap_ok ne" "length (representable ne (named (r # rs))) = length (named (r # rs))"
    "length (wt_ev w) + length (named (r # rs)) \<le> WATCH_QUEUE_MAX"
  proof -
    have "length (representable ne (named [r])) = length (named [r])" "length (representable ne (named rs)) = length (named rs)"
      using that(2) le unfolding named_Cons [of r rs] representable_append length_append by linarith+
    moreover have "length (wt_ev w) + length (named [r]) + length (named rs) \<le> WATCH_QUEUE_MAX"
      using that(3) unfolding named_Cons [of r rs] by simp
    ultimately show ?thesis using 1(1,3,5) 2(5) that(1) by simp
  qed
  moreover have "subseq (n1 @ n2) (representable ne (named (r # rs)))"
    unfolding named_Cons [of r rs] representable_append using 1(2) 2(2) by (rule list_emb_append_mono)
  ultimately show ?thesis
    unfolding moved_def using 1(1,3,4) 2(1,3,4)
    by (intro exI [of _ "n1 @ n2"] exI [of _ "l1 + l2"]) (simp add: named_Cons [of r rs])
qed

lemma moved_all: "moved ne rs w (deliver_all ne off rs w)"
proof (induction ne off rs w rule: deliver_all.induct)
  case (1 ne off w)
  show ?case unfolding moved_def by (intro exI [of _ "[]"] exI [of _ 0]) (simp add: named_def)
next
  case (2 ne off a u rs w)
  then show ?case using moved_Cons [OF moved_name] by simp
qed

text \<open>
  With \<open>taken\<close> the changes reads have taken and \<open>d\<close> the losses they have reported: what is taken and queued are reported changes in
  order, every other one is counted, and the queue is bounded and untouched by coalescing.
\<close>

definition queue_inv :: "(nat \<times> string) list \<Rightarrow> int \<Rightarrow> watch_t \<Rightarrow> bool" where
  "queue_inv taken d w \<longleftrightarrow> length (wt_ev w) \<le> WATCH_QUEUE_MAX \<and> (\<forall>e\<in>set (wt_ev w). clean e) \<and>
     (\<not> wt_wrapped w \<longrightarrow> (\<forall>Rs. reported (wt_bufs w) Rs \<longrightarrow>
        subseq (taken @ map change_of (wt_ev w)) (map change_of (expected Rs)) \<and>
        int (length taken + length (wt_ev w)) + d + wt_dropped w = int (count_reported Rs) \<and>
        (calm Rs \<longrightarrow> d + wt_dropped w = 0)))"

text \<open>What is not the queue does not matter to it.\<close>

lemma queue_inv_other:
  "wt_ev w' = wt_ev w \<Longrightarrow> wt_bufs w' = wt_bufs w \<Longrightarrow> wt_dropped w' = wt_dropped w \<Longrightarrow> wt_wrapped w' = wt_wrapped w \<Longrightarrow>
     queue_inv taken d w' = queue_inv taken d w"
  by (simp add: queue_inv_def)

lemma fail_inv: "queue_inv taken d (watch_fail w e) = queue_inv taken d w"
  by (rule queue_inv_other) (simp_all add: watch_fail_def)

text \<open>What the notification loop leaves alone or only adds to, on any bytes.\<close>

definition same_frame :: "watch_t \<Rightarrow> watch_t \<Rightarrow> bool" where
  "same_frame w w' \<longleftrightarrow> wt_token w' = wt_token w \<and> wt_thread w' = wt_thread w \<and> wt_stopEv w' = wt_stopEv w \<and> wt_dataEv w' = wt_dataEv w \<and>
     wt_readyEv w' = wt_readyEv w \<and> wt_dir w' = wt_dir w \<and> wt_ioEv w' = wt_ioEv w \<and> wt_reader w' = wt_reader w"

definition bounded :: "watch_t \<Rightarrow> bool" where
  "bounded w \<longleftrightarrow> length (wt_ev w) \<le> WATCH_QUEUE_MAX \<and> (\<forall>e\<in>set (wt_ev w). clean e)"

definition grows :: "watch_t \<Rightarrow> watch_t \<Rightarrow> bool" where
  "grows w w' \<longleftrightarrow> same_frame w w' \<and> wt_data w' = wt_data w \<and> wt_bufs w' = wt_bufs w \<and> length (wt_ev w) \<le> length (wt_ev w') \<and>
     (\<not> wt_wrapped w' \<longrightarrow> \<not> wt_wrapped w \<and> wt_dropped w \<le> wt_dropped w') \<and> (wt_failed w \<longrightarrow> wt_failed w') \<and> (bounded w \<longrightarrow> bounded w')"

lemma grows_refl: "grows w w"
  by (simp add: grows_def same_frame_def)

lemma grows_trans: "grows a b \<Longrightarrow> grows b c \<Longrightarrow> grows a c"
  unfolding grows_def same_frame_def by (metis order_trans)

lemma grows_loss: "grows w (count_loss w)"
  by (simp add: count_loss_def grows_def same_frame_def bounded_def)

lemma grows_cap: "grows w (w\<lparr>wt_cap := c\<rparr>)"
  by (simp add: grows_def same_frame_def bounded_def)

lemma grows_push: "grows w (watch_push re du a p w)"
proof -
  have q: "grows w (w\<lparr>wt_cap := c, wt_ev := wt_ev w @ [new_event a p]\<rparr>)" "grows w (w\<lparr>wt_ev := wt_ev w @ [new_event a p]\<rparr>)"
    if "\<not> length (wt_ev w) \<ge> WATCH_QUEUE_MAX" for c
    using that by (auto simp: grows_def same_frame_def bounded_def clean_def new_event_def)
  have "grows w (count_loss (w\<lparr>wt_cap := c\<rparr>))" for c by (rule grows_trans [OF grows_cap grows_loss])
  then show ?thesis using q grows_loss [of w] by (simp add: watch_push_def Let_def)
qed

lemma grows_name: "grows w (notify_name ne off a n w)"
  using grows_refl grows_loss grows_push by (simp add: notify_name_def split: option.split)

lemma grows_invalid: "grows a w \<Longrightarrow> grows a (invalid_data w)"
  by (simp add: invalid_data_def grows_def same_frame_def bounded_def)

lemma grows_loop: "grows w (notify_loop ne buf off w)"
proof (induction ne buf off w rule: notify_loop.induct)
  case (1 ne buf off w)
  show ?case
    by (subst notify_loop.simps) (auto simp: Let_def grows_refl grows_name intro: grows_invalid grows_trans [OF grows_name 1])
qed

text \<open>The critical section of the reader as one move of the queue, and its signal.\<close>

definition batch_core :: "notify_env \<Rightarrow> string \<Rightarrow> watch_t \<Rightarrow> watch_t" where
  "batch_core ne buf w = (if buf = [] then count_loss w else notify_loop ne buf 0 w)"

lemma notify_batch_core:
  "notify_batch ne buf w =
    (let v = batch_core ne buf (w\<lparr>wt_bufs := wt_bufs w @ [(ne, buf)]\<rparr>) in if watch_ready v then v\<lparr>wt_data := True\<rparr> else v)"
  by (simp add: notify_batch_def batch_core_def watch_ready_def Let_def)

lemma grows_core: "grows w (batch_core ne buf w)"
  using grows_loss grows_loop by (simp add: batch_core_def)

lemma core_moved:
  assumes "list_all change_ok rs" "rs \<noteq> []"
  shows "moved ne rs w (batch_core ne (notify_bytes rs) w)"
proof -
  have "notify_bytes rs \<noteq> []" using assms(2) by (cases rs) (auto simp: dword_bytes_def)
  then show ?thesis using notify_loop_bytes [OF assms, of ne "[]" w] moved_all [of ne rs w 0] by (simp add: batch_core_def)
qed

text \<open>The counts after a delivery: \<open>n\<close> changes more, of which \<open>k\<close> are queued and \<open>l\<close> counted.\<close>

lemma calm_snoc: "calm (Rs @ [(ne, rs)]) \<Longrightarrow> calm Rs \<and> rs \<noteq> [] \<and> heap_ok ne \<and>
    length (representable ne (named rs)) = length (named rs) \<and> count_reported Rs + length (named rs) \<le> WATCH_QUEUE_MAX"
  by (auto simp: calm_def split: if_splits)

lemma batch_inv:
  assumes q: "queue_inv taken d w"
  shows "queue_inv taken d (notify_batch ne buf w)"
proof -
  define w1 where "w1 = w\<lparr>wt_bufs := wt_bufs w @ [(ne, buf)]\<rparr>"
  define v where "v = batch_core ne buf w1"
  have g: "grows w1 v" unfolding v_def by (rule grows_core)
  have b: "wt_bufs v = wt_bufs w @ [(ne, buf)]" "bounded v"
    using g q by (simp_all add: grows_def w1_def queue_inv_def bounded_def)
  have "subseq (taken @ map change_of (wt_ev v)) (map change_of (expected Rs)) \<and>
      int (length taken + length (wt_ev v)) + d + wt_dropped v = int (count_reported Rs) \<and> (calm Rs \<longrightarrow> d + wt_dropped v = 0)"
    if nw: "\<not> wt_wrapped v" and R: "reported (wt_bufs v) Rs" for Rs
  proof -
    obtain Rs0 rs where R: "Rs = Rs0 @ [(ne, rs)]" "reported (wt_bufs w) Rs0" "buf = notify_bytes rs" "list_all change_ok rs"
      using R unfolding b(1) by (rule reported_snoc)
    have "\<not> wt_wrapped w" using g nw by (simp add: grows_def w1_def)
    with q R(2) have old: "subseq (taken @ map change_of (wt_ev w)) (map change_of (expected Rs0))"
      "int (length taken + length (wt_ev w)) + d + wt_dropped w = int (count_reported Rs0)" "calm Rs0 \<longrightarrow> d + wt_dropped w = 0"
      unfolding queue_inv_def by blast+
    show ?thesis
    proof (cases "rs = []")
      case True
      then have v: "wt_ev v = wt_ev w" "wt_dropped v = wt_dropped w + 1"
        using nw R(3) by (auto simp: v_def w1_def batch_core_def count_loss_def split: if_splits)
      have "\<not> calm Rs" using calm_snoc [of Rs0 ne rs] True R(1) by blast
      then show ?thesis using old True R(1) v by (simp add: named_def representable_def)
    next
      case False
      have m: "moved ne rs w1 v" unfolding v_def R(3) by (rule core_moved [OF R(4) False])
      obtain new lost where new: "wt_ev v = wt_ev w @ new" "subseq new (representable ne (named rs))" "length new + lost = length (named rs)"
        "wt_dropped v = wt_dropped w + int lost"
        "heap_ok ne \<and> length (representable ne (named rs)) = length (named rs) \<and> length (wt_ev w) + length (named rs) \<le> WATCH_QUEUE_MAX \<longrightarrow> lost = 0"
        using m nw unfolding moved_def w1_def by auto
      have s: "subseq ((taken @ map change_of (wt_ev w)) @ map change_of new) (map change_of (expected Rs0) @ map change_of (representable ne (named rs)))"
        using old(1) subseq_map [OF new(2)] by (rule list_emb_append_mono)
      have "d + wt_dropped v = 0" if c: "calm Rs"
      proof -
        note c = calm_snoc [OF c [unfolded R(1)]]
        have "length (wt_ev w) \<le> count_reported Rs0" using old(2,3) c by linarith
        then have "lost = 0" using new(5) c by linarith
        then show ?thesis using old(3) c new(4) by simp
      qed
      moreover have "int (length taken + length (wt_ev v)) + d + wt_dropped v = int (count_reported Rs)"
        using old(2) new(1,3,4) False R(1) by simp
      ultimately show ?thesis using s new(1) R(1) by simp
    qed
  qed
  then have "queue_inv taken d v" using b(2) by (simp add: queue_inv_def bounded_def)
  then show ?thesis
    using queue_inv_other [of "v\<lparr>wt_data := True\<rparr>" v] unfolding notify_batch_core Let_def w1_def [symmetric] v_def [symmetric] by simp
qed

text \<open>The data event is signalled exactly when there is something to read or report.\<close>

definition signal_ok :: "watch_t \<Rightarrow> bool" where
  "signal_ok w \<longleftrightarrow> (\<not> wt_wrapped w \<longrightarrow> 0 \<le> wt_dropped w \<and> (wt_data w \<longleftrightarrow> watch_ready w))"

lemma batch_signal: "signal_ok w \<Longrightarrow> signal_ok (notify_batch ne buf w)"
proof -
  assume s: "signal_ok w"
  define w1 where "w1 = w\<lparr>wt_bufs := wt_bufs w @ [(ne, buf)]\<rparr>"
  have g: "grows w1 (batch_core ne buf w1)" by (rule grows_core)
  have "wt_data (batch_core ne buf w1) \<longrightarrow> watch_ready (batch_core ne buf w1)" if "\<not> wt_wrapped (batch_core ne buf w1)"
    using s g that by (fastforce simp: signal_ok_def watch_ready_def grows_def w1_def)
  moreover have "0 \<le> wt_dropped (batch_core ne buf w1)" if "\<not> wt_wrapped (batch_core ne buf w1)"
    using s g that by (fastforce simp: signal_ok_def grows_def w1_def)
  ultimately show ?thesis
    unfolding notify_batch_core Let_def w1_def [symmetric] by (auto simp: signal_ok_def watch_ready_def)
qed

lemma batch_frame: "same_frame w (notify_batch ne buf w)"
proof -
  have "grows (w\<lparr>wt_bufs := wt_bufs w @ [(ne, buf)]\<rparr>) (batch_core ne buf (w\<lparr>wt_bufs := wt_bufs w @ [(ne, buf)]\<rparr>))" by (rule grows_core)
  then show ?thesis by (simp add: notify_batch_core Let_def grows_def same_frame_def)
qed

lemma end_inv: "reader_end (w, u) = (w', u') \<Longrightarrow> (queue_inv taken d w' = queue_inv taken d w) \<and> (signal_ok w' = signal_ok w)"
  by (auto simp: reader_end_def signal_ok_def watch_ready_def queue_inv_def)

lemma fail_signal: "signal_ok w \<Longrightarrow> signal_ok (watch_fail w e)"
  by (simp add: signal_ok_def watch_ready_def watch_fail_def)

lemma armed_inv: "queue_inv taken d (w\<lparr>wt_armed := b, wt_ready := True\<rparr>) = queue_inv taken d w" "signal_ok (w\<lparr>wt_armed := b, wt_ready := True\<rparr>) = signal_ok w"
  "queue_inv taken d (w\<lparr>wt_reader := r\<rparr>) = queue_inv taken d w" "signal_ok (w\<lparr>wt_reader := r\<rparr>) = signal_ok w"
  "queue_inv taken d (w\<lparr>wt_ioEv := i\<rparr>) = queue_inv taken d w" "signal_ok (w\<lparr>wt_ioEv := i\<rparr>) = signal_ok w"
  by (simp_all add: queue_inv_def signal_ok_def watch_ready_def)

lemma thread_step_inv:
  assumes "thread_step a (w, u) = (w', u')" "queue_inv taken d w" "signal_ok w"
  shows "queue_inv taken d w' \<and> signal_ok w'"
proof -
  have ended: "reader_end (v, x) = (w', u') \<Longrightarrow> queue_inv taken d v \<Longrightarrow> signal_ok v \<Longrightarrow> ?thesis" for v x
    using end_inv by blast
  have fail: "reader_end (watch_fail v e, x) = (w', u') \<Longrightarrow> queue_inv taken d v \<Longrightarrow> signal_ok v \<Longrightarrow> ?thesis" for v e x
    using ended [of "watch_fail v e" x] by (simp add: fail_inv fail_signal)
  note b = batch_inv [OF assms(2)] batch_signal [OF assms(3)]
  show ?thesis
    using assms fail ended b
    by (auto simp: thread_step_def Let_def armed_inv split: reader_state.splits thread_act.splits if_splits option.splits sum.splits prod.splits)
qed

lemma thread_moves_inv:
  "thread_moves acts (w, u) = (w', u') \<Longrightarrow> queue_inv taken d w \<Longrightarrow> signal_ok w \<Longrightarrow> queue_inv taken d w' \<and> signal_ok w'"
proof (induction acts arbitrary: w u)
  case (Cons a acts)
  obtain w1 u1 where s: "thread_step a (w, u) = (w1, u1)" by (rule prod.exhaust)
  show ?case using Cons(1) [of w1 u1] Cons(2) s thread_step_inv [OF s Cons(3,4)] by (simp add: thread_moves_def)
qed (simp add: thread_moves_def)

text \<open>A read takes the queue whole, or fails and takes nothing.\<close>

lemma watch_read_inv:
  assumes "watch_read os raw tmo (w, u) = (r, w', u')" "queue_inv taken d w" "signal_ok w"
  shows "signal_ok w' \<and>
    ((\<exists>e. r = Inl e) \<and> queue_inv taken d w' \<or>
     (\<exists>ev n. r = Inr (WEvents (watch_report raw ev n)) \<and> (\<forall>e\<in>set ev. clean e) \<and> queue_inv (taken @ map change_of ev) (d + n) w'))"
proof -
  let ?wait = "tmo > 0 \<and> wt_ev w = [] \<and> wt_dropped w = 0"
  obtain w1 u1 where m: "(if ?wait then thread_moves (wo_wait os) (w, u) else (w, u)) = (w1, u1)" by (rule prod.exhaust)
  have i: "queue_inv taken d w1 \<and> signal_ok w1" using m thread_moves_inv [OF _ assms(2,3)] assms(2,3) by (auto split: if_splits)
  have R: "(if ?wait \<and> wo_wait_fails os then (Inl (watch_error ''oserror'' ''waiting for watch events failed''), w1, u1)
      else case watch_take w1 of None \<Rightarrow> (Inl (watch_error ''oserror'' (''directory watch failed (error '' @ dec_of_nat (wt_error w1) @ '')'')), w1, u1)
         | Some (ev, dropped, w) \<Rightarrow> (Inr (WEvents (watch_report raw ev dropped)), w, u1)) = (r, w', u')"
    using assms(1) unfolding watch_read_def prod.case Let_def m .
  show ?thesis
  proof (cases "?wait \<and> wo_wait_fails os \<or> wt_failed w1")
    case True
    then show ?thesis using R i by (auto simp: watch_take_def split: if_splits)
  next
    case False
    then have "r = Inr (WEvents (watch_report raw (wt_ev w1) (wt_dropped w1)))" "w' = w1\<lparr>wt_ev := [], wt_cap := 0, wt_dropped := 0, wt_data := False\<rparr>"
      using R by (auto simp: watch_take_def split: if_splits)
    moreover have "queue_inv (taken @ map change_of (wt_ev w1)) (d + wt_dropped w1) (w1\<lparr>wt_ev := [], wt_cap := 0, wt_dropped := 0, wt_data := False\<rparr>)"
      "\<forall>e\<in>set (wt_ev w1). clean e"
      using i by (auto simp: queue_inv_def)
    moreover have "signal_ok (w1\<lparr>wt_ev := [], wt_cap := 0, wt_dropped := 0, wt_data := False\<rparr>)"
      using False by (simp add: signal_ok_def watch_ready_def)
    ultimately show ?thesis by blast
  qed
qed

text \<open>A history of one watch: moves of its thread and reads, with what the successful reads gave.\<close>

datatype watch_op = WMove thread_act | WRead watch_os bool nat

fun watch_history :: "watch_op list \<Rightarrow> watch_t \<times> world \<Rightarrow> (bool \<times> watch_event list) list \<times> watch_t \<times> world" where
  "watch_history [] st = ([], st)"
| "watch_history (WMove a # ops) st = watch_history ops (thread_step a st)"
| "watch_history (WRead os raw tmo # ops) st =
    (case watch_read os raw tmo st of (r, st) \<Rightarrow>
      case watch_history ops st of (outs, st) \<Rightarrow>
        (case r of Inr (WEvents es) \<Rightarrow> (raw, es) # outs | _ \<Rightarrow> outs, st))"

type_synonym batch = "bool \<times> wevent list \<times> int"

definition report_batch :: "batch \<Rightarrow> bool \<times> watch_event list" where
  "report_batch = (\<lambda>(raw, ev, n). (raw, watch_report raw ev n))"

definition batch_events :: "batch list \<Rightarrow> wevent list" where
  "batch_events bs = concat (map (\<lambda>(raw, ev, n). ev) bs)"

definition batch_lost :: "batch list \<Rightarrow> int" where
  "batch_lost bs = sum_list (map (\<lambda>(raw, ev, n). n) bs)"

lemma batch_simps [simp]:
  "batch_events [] = []" "batch_events ((raw, ev, n) # bs) = ev @ batch_events bs"
  "batch_lost [] = 0" "batch_lost ((raw, ev, n) # bs) = n + batch_lost bs"
  "report_batch (raw, ev, n) = (raw, watch_report raw ev n)"
  by (simp_all add: batch_events_def batch_lost_def report_batch_def)

lemma watch_history_inv:
  "watch_history ops (w, u) = (outs, w', u') \<Longrightarrow> queue_inv taken d w \<Longrightarrow> signal_ok w \<Longrightarrow>
     signal_ok w' \<and> (\<exists>bs. outs = map report_batch bs \<and> (\<forall>e\<in>set (batch_events bs). clean e) \<and>
       queue_inv (taken @ map change_of (batch_events bs)) (d + batch_lost bs) w')"
proof (induction ops arbitrary: w u outs taken d)
  case Nil
  then show ?case by (auto intro: exI [of _ "[]"])
next
  case (Cons op ops)
  show ?case
  proof (cases op)
    case (WMove a)
    obtain w1 u1 where s: "thread_step a (w, u) = (w1, u1)" by (rule prod.exhaust)
    note i = thread_step_inv [OF s Cons(3,4)]
    show ?thesis by (rule Cons(1) [of w1 u1]) (use Cons(2) WMove s i in auto)
  next
    case (WRead os raw tmo)
    obtain r w1 u1 where s: "watch_read os raw tmo (w, u) = (r, w1, u1)" by (rule prod_cases3)
    obtain outs1 w2 u2 where h: "watch_history ops (w1, u1) = (outs1, w2, u2)" by (rule prod_cases3)
    have e: "w2 = w'" "u2 = u'" "outs = (case r of Inr (WEvents es) \<Rightarrow> (raw, es) # outs1 | _ \<Rightarrow> outs1)"
      using Cons(2) WRead s h by auto
    note h = h [unfolded e(1,2)]
    from watch_read_inv [OF s Cons(3,4)] show ?thesis
    proof (elim conjE disjE exE)
      fix err assume i: "signal_ok w1" "r = Inl err" "queue_inv taken d w1"
      show ?thesis using Cons(1) [OF h i(3,1)] e i(2) by simp
    next
      fix ev n assume i: "signal_ok w1" "r = Inr (WEvents (watch_report raw ev n))" "\<forall>e\<in>set ev. clean e" "queue_inv (taken @ map change_of ev) (d + n) w1"
      from Cons(1) [OF h i(4,1)] obtain bs where b: "signal_ok w'" "outs1 = map report_batch bs" "\<forall>e\<in>set (batch_events bs). clean e"
        "queue_inv ((taken @ map change_of ev) @ map change_of (batch_events bs)) (d + n + batch_lost bs) w'" by blast
      show ?thesis using b e i by (intro conjI exI [of _ "(raw, ev, n) # bs"]) (auto simp: add.assoc)
    qed
  qed
qed

section \<open>Coalescing\<close>

text \<open>The first pass changes neither actions nor paths; it consumes old names only and joins them to new names only.\<close>

lemma join_new_facts:
  "join_new old es = Some es' \<Longrightarrow> map change_of es' = map change_of es \<and> map we_done es' = map we_done es \<and>
     (\<forall>e\<in>set es'. \<forall>a. we_from e = Some a \<longrightarrow> (e \<in> set es \<or> a = old \<and> we_action e = FILE_ACTION_RENAMED_NEW_NAME))"
proof (induction es arbitrary: es')
  case (Cons e es)
  show ?case
  proof (cases "\<not> we_done e \<and> we_action e = FILE_ACTION_RENAMED_NEW_NAME")
    case True
    then show ?thesis using Cons(2) by (auto simp: change_of_def)
  next
    case False
    then obtain es1 where "join_new old es = Some es1" "es' = e # es1" using Cons(2) by auto
    then show ?thesis using Cons(1) [of es1] by auto
  qed
qed simp

definition joins_ok :: "string set \<Rightarrow> wevent list \<Rightarrow> bool" where
  "joins_ok A es \<longleftrightarrow> (\<forall>e\<in>set es. \<forall>a. we_from e = Some a \<longrightarrow> a \<in> A \<and> we_action e = FILE_ACTION_RENAMED_NEW_NAME)"

lemma change_of_eq: "change_of e = change_of d \<longleftrightarrow> we_action e = we_action d \<and> we_path e = we_path d"
  by (simp add: change_of_def)

lemma change_of_done [simp]: "change_of (e\<lparr>we_done := b\<rparr>) = change_of e"
  by (simp add: change_of_def)

lemma pair_renames_facts:
  "\<forall>e\<in>set es. \<not> we_done e \<Longrightarrow> joins_ok A es \<Longrightarrow> {we_path e | e. e \<in> set es \<and> we_action e = FILE_ACTION_RENAMED_OLD_NAME} \<subseteq> A \<Longrightarrow>
     map change_of (pair_renames es) = map change_of es \<and> joins_ok A (pair_renames es) \<and>
     (\<forall>e\<in>set (pair_renames es). we_done e \<longrightarrow> we_action e = FILE_ACTION_RENAMED_OLD_NAME)"
proof (induction es rule: pair_renames.induct)
  case (2 e es)
  show ?case
  proof (cases "we_action e \<noteq> FILE_ACTION_RENAMED_OLD_NAME \<or> we_done e \<or> join_new (we_path e) es = None")
    case True
    have t: "\<forall>e\<in>set es. \<not> we_done e" "joins_ok A es" "{we_path e | e. e \<in> set es \<and> we_action e = FILE_ACTION_RENAMED_OLD_NAME} \<subseteq> A"
      using 2(4,5,6) by (auto simp: joins_ok_def)
    have "pair_renames (e # es) = e # pair_renames es" using True by auto
    moreover have "map change_of (pair_renames es) = map change_of es \<and> joins_ok A (pair_renames es) \<and>
        (\<forall>e\<in>set (pair_renames es). we_done e \<longrightarrow> we_action e = FILE_ACTION_RENAMED_OLD_NAME)"
      using True 2(1,2) t by blast
    ultimately show ?thesis using 2(4,5) by (auto simp: joins_ok_def)
  next
    case False
    then obtain es' where j: "join_new (we_path e) es = Some es'" by blast
    note f = join_new_facts [OF j]
    have d: "\<forall>e\<in>set es'. \<not> we_done e"
      using f 2(4) by (metis (no_types, lifting) image_iff list.set_intros(2) list.set_map)
    have m: "change_of ` set es' = change_of ` set es" using f by (metis list.set_map)
    have a: "joins_ok A es'" using f 2(5,6) False by (fastforce simp: joins_ok_def)
    have p: "{we_path e | e. e \<in> set es' \<and> we_action e = FILE_ACTION_RENAMED_OLD_NAME} \<subseteq> A"
    proof
      fix x assume "x \<in> {we_path e | e. e \<in> set es' \<and> we_action e = FILE_ACTION_RENAMED_OLD_NAME}"
      then obtain e' where e': "e' \<in> set es'" "we_action e' = FILE_ACTION_RENAMED_OLD_NAME" "x = we_path e'" by auto
      then have "change_of e' \<in> change_of ` set es" using m by blast
      then obtain e2 where "e2 \<in> set es" "change_of e2 = change_of e'" by fastforce
      then show "x \<in> A" using e' 2(6) by (auto simp: change_of_eq)
    qed
    have r: "pair_renames (e # es) = e\<lparr>we_done := True\<rparr> # pair_renames es'" using False j by auto
    have nc: "\<not> (we_action e \<noteq> FILE_ACTION_RENAMED_OLD_NAME \<or> we_done e)" using False by blast
    note I = 2(3) [OF nc j d a p]
    have "joins_ok A (e\<lparr>we_done := True\<rparr> # pair_renames es')" using I 2(5) by (simp add: joins_ok_def)
    then show ?thesis unfolding r using I f nc by simp
  qed
qed (simp add: joins_ok_def)

text \<open>The second pass, path by path.\<close>

definition group :: "string \<Rightarrow> wevent list \<Rightarrow> wevent list" where
  "group p es = List.filter (\<lambda>e. \<not> we_done e \<and> we_path e = p) es"

lemma note_path_group: "note_path p es n = fold note_event (group p es) n"
  by (induction es arbitrary: n) (auto simp: group_def)

lemma fold_note:
  "(pn_removed (fold note_event g n) \<longleftrightarrow> pn_removed n \<or> (\<exists>e\<in>set g. we_action e = FILE_ACTION_REMOVED)) \<and>
   (pn_added (fold note_event g n) \<longleftrightarrow> pn_added n \<or> (\<exists>e\<in>set g. we_action e = FILE_ACTION_ADDED)) \<and>
   (pn_renamed (fold note_event g n) \<longleftrightarrow> pn_renamed n \<or> (\<exists>e\<in>set g. we_action e = FILE_ACTION_RENAMED_NEW_NAME)) \<and>
   (\<forall>a. pn_from (fold note_event g n) = Some a \<longrightarrow> pn_from n = Some a \<or>
      (\<exists>e\<in>set g. we_action e = FILE_ACTION_RENAMED_NEW_NAME \<and> we_from e = Some a))"
proof (induction g arbitrary: n)
  case (Cons e g)
  note I = Cons [of "note_event e n"]
  have "FILE_ACTION_REMOVED \<noteq> FILE_ACTION_ADDED" "FILE_ACTION_RENAMED_NEW_NAME \<noteq> FILE_ACTION_ADDED" "FILE_ACTION_RENAMED_NEW_NAME \<noteq> FILE_ACTION_REMOVED"
    by (simp_all add: FILE_ACTION_REMOVED_def FILE_ACTION_ADDED_def FILE_ACTION_RENAMED_NEW_NAME_def)
  then show ?case using I by (auto simp: note_event_def split: if_splits)
qed simp

definition action_word :: "wevent list \<Rightarrow> string" where
  "action_word g =
    (if \<exists>e\<in>set g. we_action e = FILE_ACTION_REMOVED then ''removed''
     else if \<exists>e\<in>set g. we_action e = FILE_ACTION_ADDED then ''added''
     else if \<exists>e\<in>set g. we_action e = FILE_ACTION_RENAMED_NEW_NAME then ''renamed''
     else watch_action_name (we_action (hd g)))"

definition told :: "wevent list \<Rightarrow> watch_event \<Rightarrow> bool" where
  "told es v \<longleftrightarrow> group (ve_path v) es \<noteq> [] \<and> ve_action v = action_word (group (ve_path v) es) \<and> ve_count v = None \<and>
     (\<forall>a. ve_from v = Some a \<longrightarrow>
       (\<exists>e\<in>set (group (ve_path v) es). we_action e = FILE_ACTION_RENAMED_NEW_NAME \<and> we_from e = Some a))"

lemma group_mark: "group q (mark_done p es) = (if q = p then [] else group q es)"
  by (induction es) (auto simp: group_def mark_done_def)

lemma coalesce_facts:
  "distinct (map ve_path (coalesce es)) \<and> (\<forall>p. p \<in> ve_path ` set (coalesce es) \<longleftrightarrow> group p es \<noteq> []) \<and> (\<forall>v\<in>set (coalesce es). told es v)"
proof (induction es rule: coalesce.induct)
  case 1
  then show ?case by (simp add: group_def)
next
  case (2 e es)
  show ?case
  proof (cases "we_done e")
    case True
    then have "group p (e # es) = group p es" for p by (simp add: group_def)
    moreover have "coalesce (e # es) = coalesce es" using True by simp
    ultimately show ?thesis using 2(1) [OF True] by (simp add: told_def)
  next
    case False
    define n where "n = note_path (we_path e) (e # es) \<lparr>pn_removed = False, pn_added = False, pn_renamed = False, pn_from = None\<rparr>"
    define v where "v = watch_event_obj (we_path e) (if pn_removed n then ''removed'' else if pn_added n then ''added'' else if pn_renamed n then ''renamed''
                  else watch_action_name (we_action e)) (pn_from n)"
    have c: "coalesce (e # es) = v # coalesce (mark_done (we_path e) es)" using False by (simp add: n_def v_def Let_def)
    note I = 2(2) [OF False n_def [symmetric, THEN sym] refl]
    have hd: "group (we_path e) (e # es) = e # group (we_path e) es" using False by (simp add: group_def)
    note fn = fold_note [of "group (we_path e) (e # es)" "\<lparr>pn_removed = False, pn_added = False, pn_renamed = False, pn_from = None\<rparr>",
      folded note_path_group, folded n_def]
    have v: "told (e # es) v" using fn by (auto simp: told_def v_def watch_event_obj_def action_word_def hd)
    have g: "group p (e # es) = group p (mark_done (we_path e) es)" if "p \<noteq> we_path e" for p
      unfolding group_mark using that by (simp add: group_def)
    have rest: "told (e # es) u" if u: "u \<in> set (coalesce (mark_done (we_path e) es))" for u
    proof -
      have "told (mark_done (we_path e) es) u" using I u by blast
      moreover from this have "ve_path u \<noteq> we_path e" by (auto simp: told_def group_mark)
      ultimately show ?thesis using g by (simp add: told_def)
    qed
    have pv: "ve_path v = we_path e" by (simp add: v_def watch_event_obj_def)
    have "we_path e \<notin> ve_path ` set (coalesce (mark_done (we_path e) es))" using I by (simp add: group_mark)
    moreover have "\<forall>p. p \<in> ve_path ` set (coalesce (e # es)) \<longleftrightarrow> group p (e # es) \<noteq> []"
    proof
      fix p
      show "p \<in> ve_path ` set (coalesce (e # es)) \<longleftrightarrow> group p (e # es) \<noteq> []"
        using I g [of p] pv hd unfolding c by (cases "p = we_path e") auto
    qed
    ultimately show ?thesis using I v rest pv unfolding c by auto
  qed
qed
lemma changes_same:
  assumes "map change_of es' = map change_of es"
  shows "(\<exists>e\<in>set es'. we_action e = a \<and> we_path e = p) \<longleftrightarrow> (\<exists>e\<in>set es. we_action e = a \<and> we_path e = p)"
proof -
  have "change_of ` set es' = change_of ` set es" using assms by (metis list.set_map)
  moreover have "(\<exists>e\<in>set xs. we_action e = a \<and> we_path e = p) \<longleftrightarrow> (a, p) \<in> change_of ` set xs" for xs
    by (auto simp: change_of_def)
  ultimately show ?thesis by blast
qed

section \<open>Properties\<close>

text \<open>A watch before its thread has run.\<close>

definition watch_fresh :: "watch_t \<Rightarrow> bool" where
  "watch_fresh w \<longleftrightarrow> wt_ev w = [] \<and> wt_dropped w = 0 \<and> \<not> wt_failed w \<and> \<not> wt_data w \<and> wt_bufs w = []"

text \<open>C8: whatever the reader thread and reads do, in any order and with any answers of Windows and of the heap, as long as fewer
  than \<open>2 ^ 31\<close> losses pile up between two reads. If the buffers that Windows filled hold, by the documented layout, the changes
  \<open>Rs\<close>, then what the batches of the reads and the queue hold is a subsequence of those changes, each with its action and its path in
  UTF-8 with forward slashes; all the others, and each overflow that Windows reported, are counted in the overflow reports of reads or still
  to be reported; and there is no loss at all unless Windows overflowed, the heap failed, a name had no UTF-8 form or more than 8192
  changes came. For any bytes at all the queue never exceeds 8192 events and the data event is signalled exactly when a read has
  something to give.\<close>

theorem watch_nothing_lost:
  assumes "watch_history ops (w0, u0) = (outs, w, u)" "watch_fresh w0" "\<not> wt_wrapped w"
  shows "(\<exists>bs. outs = map report_batch bs \<and>
      (\<forall>Rs. reported (wt_bufs w) Rs \<longrightarrow>
         subseq (map change_of (batch_events bs @ wt_ev w)) (map change_of (expected Rs)) \<and>
         int (length (batch_events bs @ wt_ev w)) + batch_lost bs + wt_dropped w = int (count_reported Rs) \<and>
         (calm Rs \<longrightarrow> map change_of (batch_events bs @ wt_ev w) = map change_of (expected Rs)))) \<and>
    length (wt_ev w) \<le> WATCH_QUEUE_MAX \<and> 0 \<le> wt_dropped w \<and> (wt_data w \<longleftrightarrow> wt_ev w \<noteq> [] \<or> wt_dropped w > 0 \<or> wt_failed w)"
proof -
  have "queue_inv [] 0 w0" "signal_ok w0"
    using assms(2) by (auto simp: watch_fresh_def queue_inv_def signal_ok_def watch_ready_def reported_def expected_def count_reported_def)
  from watch_history_inv [OF assms(1) this] obtain bs where i: "signal_ok w" "outs = map report_batch bs"
    "queue_inv (map change_of (batch_events bs)) (batch_lost bs) w" by auto
  have all: "map change_of (batch_events bs @ wt_ev w) = map change_of (expected Rs)" if "reported (wt_bufs w) Rs" "calm Rs" for Rs
  proof -
    have q: "subseq (map change_of (batch_events bs @ wt_ev w)) (map change_of (expected Rs))"
      "length (batch_events bs @ wt_ev w) = count_reported Rs"
      using i(3) assms(3) that by (auto simp: queue_inv_def)
    have "count_reported Rs = length (expected Rs)"
      using that(2) by (induction Rs) (auto simp: calm_def count_reported_def expected_def split: if_splits)
    then show ?thesis using q subseq_same_length [OF q(1)] by simp
  qed
  show ?thesis
    using i all assms(3) by (intro conjI exI [of _ bs]) (auto simp: queue_inv_def signal_ok_def watch_ready_def)
qed

text \<open>A coalesced event against the events of its path: the word that is told, and the old name that is joined.\<close>

lemma told_word:
  assumes "told es v" and grp: "\<And>a q. a \<noteq> FILE_ACTION_RENAMED_OLD_NAME \<Longrightarrow> (\<exists>e\<in>set (group q es). we_action e = a) \<longleftrightarrow> has a q"
    and any: "\<And>e. e \<in> set es \<Longrightarrow> has (we_action e) (we_path e)"
  shows "ve_action v = ''removed'' \<and> has FILE_ACTION_REMOVED (ve_path v) \<or>
     ve_action v = ''added'' \<and> has FILE_ACTION_ADDED (ve_path v) \<and> \<not> has FILE_ACTION_REMOVED (ve_path v) \<or>
     ve_action v = ''renamed'' \<and> has FILE_ACTION_RENAMED_NEW_NAME (ve_path v) \<and> \<not> has FILE_ACTION_REMOVED (ve_path v) \<and> \<not> has FILE_ACTION_ADDED (ve_path v) \<or>
     (\<exists>a. ve_action v = watch_action_name a \<and> has a (ve_path v) \<and> \<not> has FILE_ACTION_REMOVED (ve_path v) \<and> \<not> has FILE_ACTION_ADDED (ve_path v) \<and>
       \<not> has FILE_ACTION_RENAMED_NEW_NAME (ve_path v))"
proof -
  let ?g = "group (ve_path v) es" and ?has = "\<lambda>a. has a (ve_path v)"
  have ne: "FILE_ACTION_REMOVED \<noteq> FILE_ACTION_RENAMED_OLD_NAME" "FILE_ACTION_ADDED \<noteq> FILE_ACTION_RENAMED_OLD_NAME"
    "FILE_ACTION_RENAMED_NEW_NAME \<noteq> FILE_ACTION_RENAMED_OLD_NAME"
    by (simp_all add: FILE_ACTION_REMOVED_def FILE_ACTION_ADDED_def FILE_ACTION_RENAMED_NEW_NAME_def FILE_ACTION_RENAMED_OLD_NAME_def)
  have "hd ?g \<in> set ?g" using assms(1) by (simp add: told_def)
  then have "hd ?g \<in> set es" "we_path (hd ?g) = ve_path v" by (auto simp: group_def)
  then have kind: "?has (we_action (hd ?g))" using any [of "hd ?g"] by simp
  have word: "ve_action v = (if ?has FILE_ACTION_REMOVED then ''removed'' else if ?has FILE_ACTION_ADDED then ''added''
      else if ?has FILE_ACTION_RENAMED_NEW_NAME then ''renamed'' else watch_action_name (we_action (hd ?g)))"
    using assms(1) unfolding told_def action_word_def grp [OF ne(1)] grp [OF ne(2)] grp [OF ne(3)] by blast
  show ?thesis
    using word kind by (cases "?has FILE_ACTION_REMOVED"; cases "?has FILE_ACTION_ADDED"; cases "?has FILE_ACTION_RENAMED_NEW_NAME") (simp_all, blast?)
qed

lemma told_from:
  assumes "told es v" "joins_ok A es" "ve_from v = Some old"
  shows "old \<in> A \<and> (\<exists>e\<in>set (group (ve_path v) es). we_action e = FILE_ACTION_RENAMED_NEW_NAME)"
  using assms by (auto simp: told_def joins_ok_def group_def)

text \<open>C32: a read without -raw reports losses first and then one event per path: \<open>removed\<close> if the batch removed the path, else
  \<open>added\<close> if it added it, else \<open>renamed\<close> if something got its name, else the kind of one of its changes; a path goes unreported only if
  all its changes are old names, and an event names as its origin only an old name of the batch.\<close>

theorem watch_report_exact:
  assumes "\<forall>e\<in>set ev. clean e"
  shows "\<exists>out. watch_report False ev lost =
      (if lost > 0 then [(watch_event_obj [] ''overflow'' None)\<lparr>ve_count := Some lost\<rparr>] else []) @ out \<and>
    distinct (map ve_path out) \<and>
    (\<forall>e\<in>set ev. we_action e \<noteq> FILE_ACTION_RENAMED_OLD_NAME \<longrightarrow> we_path e \<in> ve_path ` set out) \<and>
    (\<forall>v\<in>set out.
      (let has = (\<lambda>a. \<exists>e\<in>set ev. we_action e = a \<and> we_path e = ve_path v) in
       ve_action v = ''removed'' \<and> has FILE_ACTION_REMOVED \<or>
       ve_action v = ''added'' \<and> has FILE_ACTION_ADDED \<and> \<not> has FILE_ACTION_REMOVED \<or>
       ve_action v = ''renamed'' \<and> has FILE_ACTION_RENAMED_NEW_NAME \<and> \<not> has FILE_ACTION_REMOVED \<and> \<not> has FILE_ACTION_ADDED \<or>
       (\<exists>a. ve_action v = watch_action_name a \<and> has a \<and> \<not> has FILE_ACTION_REMOVED \<and> \<not> has FILE_ACTION_ADDED \<and> \<not> has FILE_ACTION_RENAMED_NEW_NAME)) \<and>
      (\<forall>old. ve_from v = Some old \<longrightarrow>
         (\<exists>e\<in>set ev. we_action e = FILE_ACTION_RENAMED_OLD_NAME \<and> we_path e = old) \<and>
         (\<exists>e\<in>set ev. we_action e = FILE_ACTION_RENAMED_NEW_NAME \<and> we_path e = ve_path v)))"
proof -
  let ?A = "{we_path e | e. e \<in> set ev \<and> we_action e = FILE_ACTION_RENAMED_OLD_NAME}"
  define es where "es = pair_renames ev"
  define has where "has = (\<lambda>a q. \<exists>e\<in>set ev. we_action e = a \<and> we_path e = q)"
  have "\<forall>e\<in>set ev. \<not> we_done e" "joins_ok ?A ev" using assms by (auto simp: clean_def joins_ok_def)
  from pair_renames_facts [OF this] have p: "map change_of es = map change_of ev" "joins_ok ?A es"
    "\<forall>e\<in>set es. we_done e \<longrightarrow> we_action e = FILE_ACTION_RENAMED_OLD_NAME" by (simp_all add: es_def)
  note c = coalesce_facts [of es]
  have grp: "(\<exists>e\<in>set (group q es). we_action e = a) \<longleftrightarrow> has a q" if "a \<noteq> FILE_ACTION_RENAMED_OLD_NAME" for a q
    unfolding has_def changes_same [OF p(1), symmetric] using p(3) that by (auto simp: group_def)
  have any: "has (we_action e) (we_path e)" if "e \<in> set es" for e
    unfolding has_def changes_same [OF p(1), symmetric] using that by blast
  have new: "FILE_ACTION_RENAMED_NEW_NAME \<noteq> FILE_ACTION_RENAMED_OLD_NAME"
    by (simp add: FILE_ACTION_RENAMED_NEW_NAME_def FILE_ACTION_RENAMED_OLD_NAME_def)
  have shown: "we_path e \<in> ve_path ` set (coalesce es)" if "e \<in> set ev" "we_action e \<noteq> FILE_ACTION_RENAMED_OLD_NAME" for e
  proof -
    have "\<exists>d\<in>set (group (we_path e) es). we_action d = we_action e" unfolding grp [OF that(2)] has_def using that(1) by blast
    then show ?thesis using c by (metis empty_iff empty_set)
  qed
  have from': "(\<exists>e\<in>set ev. we_action e = FILE_ACTION_RENAMED_OLD_NAME \<and> we_path e = old) \<and> has FILE_ACTION_RENAMED_NEW_NAME (ve_path v)"
    if "v \<in> set (coalesce es)" "ve_from v = Some old" for v old
    using told_from [OF _ p(2) that(2)] c that(1) grp [OF new] by blast
  have told: "told es v" if "v \<in> set (coalesce es)" for v using c that by blast
  show ?thesis
    by (intro exI [of _ "coalesce es"] conjI ballI allI impI)
      (use c shown from' told_word [OF told grp any] in \<open>auto simp: watch_report_def es_def Let_def has_def\<close>)
qed

text \<open>A rename and a change of the file under its new name, with the heap of the other examples.\<close>

definition demo_ne :: notify_env where
  "demo_ne = \<lparr>ne_text = demo_text, ne_realloc = (\<lambda>k. True), ne_strdup = (\<lambda>k. True)\<rparr>"

definition demo_changes :: "(nat \<times> wstr) list" where
  "demo_changes = [(4, wide_ascii ''a''), (5, wide_ascii ''bc''), (3, wide_ascii ''bc'')]"

definition demo_moves :: "watch_op list" where
  "demo_moves = [WMove (TStart True None), WMove (TIssue None), WMove (TWakeRead (Inr (notify_bytes demo_changes)) demo_ne)]"

lemma demo_reported: "reported [(demo_ne, notify_bytes demo_changes)] [(demo_ne, demo_changes)]" "calm [(demo_ne, demo_changes)]"
    "expected [(demo_ne, demo_changes)] = [new_event 4 ''a'', new_event 5 ''bc'', new_event 3 ''bc'']"
proof -
  show "reported [(demo_ne, notify_bytes demo_changes)] [(demo_ne, demo_changes)]"
    by (simp add: reported_def demo_changes_def change_ok_def wide_ascii_def)
  have r: "representable demo_ne (named demo_changes) = [new_event 4 ''a'', new_event 5 ''bc'', new_event 3 ''bc'']" by code_simp
  then show "expected [(demo_ne, demo_changes)] = [new_event 4 ''a'', new_event 5 ''bc'', new_event 3 ''bc'']" by (simp add: expected_def)
  have n: "length (named demo_changes) = 3" "demo_changes \<noteq> []" by (simp_all add: demo_changes_def named_def wide_ascii_def)
  show "calm [(demo_ne, demo_changes)]" using r n by (simp add: calm_def count_reported_def heap_ok_def demo_ne_def WATCH_QUEUE_MAX_def)
qed

lemma demo_name:
  assumes "length (wt_ev w) < 8"
  shows "wt_wrapped (notify_name demo_ne off a [x] w) = wt_wrapped w \<and> length (wt_ev (notify_name demo_ne off a [x] w)) = Suc (length (wt_ev w))"
    "wt_wrapped (notify_name demo_ne off a [x, y] w) = wt_wrapped w \<and> length (wt_ev (notify_name demo_ne off a [x, y] w)) = Suc (length (wt_ev w))"
proof -
  have n: "wt_wrapped (notify_name demo_ne off a u w) = wt_wrapped w \<and> length (wt_ev (notify_name demo_ne off a u w)) = Suc (length (wt_ev w))"
    if u: "u \<noteq> []" "to_utf8 (ne_text demo_ne) u (int (length u)) = Some s" for u s
  proof (rule watch_push_cases [of True True a "to_slash s" w])
    assume "wt_ev (watch_push True True a (to_slash s) w) = wt_ev w @ [new_event a (to_slash s)]"
      "wt_wrapped (watch_push True True a (to_slash s) w) = wt_wrapped w"
    then show ?thesis using u by (simp add: notify_name_def demo_ne_def)
  qed (use assms in \<open>auto simp: WATCH_QUEUE_MAX_def\<close>)
  have "\<exists>s. to_utf8 (ne_text demo_ne) [x] (int (length [x])) = Some s" "\<exists>s. to_utf8 (ne_text demo_ne) [x, y] (int (length [x, y])) = Some s"
    by (simp_all add: to_utf8_def mt_wide_to_utf8_def demo_ne_def demo_text_def)
  then show "wt_wrapped (notify_name demo_ne off a [x] w) = wt_wrapped w \<and> length (wt_ev (notify_name demo_ne off a [x] w)) = Suc (length (wt_ev w))"
    "wt_wrapped (notify_name demo_ne off a [x, y] w) = wt_wrapped w \<and> length (wt_ev (notify_name demo_ne off a [x, y] w)) = Suc (length (wt_ev w))"
    using n by blast+
qed

lemma demo_history:
  "case watch_history demo_moves (new_watch 1 False None, demo_world) of (outs, w, u) \<Rightarrow>
     outs = [] \<and> wt_bufs w = [(demo_ne, notify_bytes demo_changes)] \<and> \<not> wt_wrapped w"
proof -
  obtain io u1 where o: "open_handle demo_world = (io, u1)" by (rule prod.exhaust)
  have g: "grows (w\<lparr>wt_bufs := wt_bufs w @ [(demo_ne, buf)]\<rparr>) (batch_core demo_ne buf (w\<lparr>wt_bufs := wt_bufs w @ [(demo_ne, buf)]\<rparr>))" for w buf
    by (rule grows_core)
  have b: "wt_bufs (notify_batch demo_ne buf w) = wt_bufs w @ [(demo_ne, buf)]" for w buf
    using g [of w buf] by (simp add: notify_batch_core Let_def grows_def)
  have c: "list_all change_ok demo_changes" "demo_changes \<noteq> []" by (simp_all add: demo_changes_def change_ok_def wide_ascii_def)
  have d: "wt_wrapped (deliver_all demo_ne 0 demo_changes w) = wt_wrapped w" if "wt_ev w = []" for w
    using that demo_name by (simp add: demo_changes_def wide_ascii_def)
  have "notify_bytes demo_changes \<noteq> []" by (simp add: demo_changes_def dword_bytes_def)
  then have "wt_wrapped (notify_batch demo_ne (notify_bytes demo_changes) w) = wt_wrapped w" if "wt_ev w = []" for w
    using notify_loop_bytes [OF c, of demo_ne "[]"] d that by (simp add: notify_batch_def Let_def)
  then show ?thesis
    using b by (simp add: demo_moves_def thread_step_def new_watch_def o reader_end_def Let_def split: if_split)
qed

theorem watch_nothing_lost_witness:
  "\<exists>w u. watch_history demo_moves (new_watch 1 False None, demo_world) = ([], w, u) \<and>
     map change_of (wt_ev w) = [(4, ''a''), (5, ''bc''), (3, ''bc'')]"
proof -
  obtain outs w u where h: "watch_history demo_moves (new_watch 1 False None, demo_world) = (outs, w, u)" by (rule prod_cases3)
  then have o: "outs = []" "wt_bufs w = [(demo_ne, notify_bytes demo_changes)]" "\<not> wt_wrapped w" using demo_history by simp_all
  have "watch_fresh (new_watch 1 False None)" by (simp add: watch_fresh_def new_watch_def)
  from watch_nothing_lost [OF h this o(3)] obtain bs :: "batch list" where bs: "[] = map report_batch bs"
    "\<forall>Rs. reported (wt_bufs w) Rs \<longrightarrow> calm Rs \<longrightarrow> map change_of (batch_events bs @ wt_ev w) = map change_of (expected Rs)"
    unfolding o(1) by blast
  then have "map change_of (wt_ev w) = map change_of (expected [(demo_ne, demo_changes)])"
    using demo_reported(1,2) o(2) by simp
  then show ?thesis using h o(1) by (simp add: demo_reported(3) change_of_def new_event_def)
qed

theorem watch_report_exact_witness:
  "watch_report False [new_event 4 ''a'', new_event 5 ''bc'', new_event 3 ''bc''] 2 =
     [\<lparr>ve_path = [], ve_action = ''overflow'', ve_from = None, ve_count = Some 2\<rparr>,
      \<lparr>ve_path = ''bc'', ve_action = ''renamed'', ve_from = Some ''a'', ve_count = None\<rparr>] \<and>
   (\<exists>out::watch_event list. distinct (map ve_path out) \<and> ''bc'' \<in> ve_path ` set out)"
proof -
  have "\<forall>e\<in>set [new_event 4 ''a'', new_event 5 ''bc'', new_event 3 ''bc'']. clean e" by (simp add: clean_def new_event_def)
  from watch_report_exact [OF this, of 2]
  have "\<exists>out::watch_event list. distinct (map ve_path out) \<and>
    (\<forall>e\<in>set [new_event 4 ''a'', new_event 5 ''bc'', new_event 3 ''bc'']. we_action e \<noteq> FILE_ACTION_RENAMED_OLD_NAME \<longrightarrow> we_path e \<in> ve_path ` set out)"
    by - (erule exE, elim conjE, rule exI, rule conjI, assumption+)
  then obtain out :: "watch_event list" where d: "distinct (map ve_path out)"
    and h: "\<forall>e\<in>set [new_event 4 ''a'', new_event 5 ''bc'', new_event 3 ''bc'']. we_action e \<noteq> FILE_ACTION_RENAMED_OLD_NAME \<longrightarrow>
      we_path e \<in> ve_path ` set out" by blast
  have "''bc'' \<in> ve_path ` set out" using h by (simp add: new_event_def FILE_ACTION_RENAMED_OLD_NAME_def)
  then have "\<exists>out::watch_event list. distinct (map ve_path out) \<and> ''bc'' \<in> ve_path ` set out" using d by blast
  moreover have "watch_report False [new_event 4 ''a'', new_event 5 ''bc'', new_event 3 ''bc''] 2 =
     [\<lparr>ve_path = [], ve_action = ''overflow'', ve_from = None, ve_count = Some 2\<rparr>,
      \<lparr>ve_path = ''bc'', ve_action = ''renamed'', ve_from = Some ''a'', ve_count = None\<rparr>]" by code_simp
  ultimately show ?thesis by blast
qed

text \<open>
  Two old names and two new names: the join does not consume a new name, so both old names are joined to the first
  one. The second rename loses its origin and the first old name is not reported at all, though nothing was dropped.
\<close>

lemma rename_swallowed:
  "watch_report False [new_event 4 ''a'', new_event 4 ''b'', new_event 5 ''c'', new_event 5 ''d''] 0 =
     [\<lparr>ve_path = ''c'', ve_action = ''renamed'', ve_from = Some ''b'', ve_count = None\<rparr>,
      \<lparr>ve_path = ''d'', ve_action = ''renamed'', ve_from = None, ve_count = None\<rparr>]"
  by code_simp

end
