(* ===== verification/Proc.thy ===== *)
theory Proc
  imports ProcCmd Watch
begin

text \<open>
  The process verbs together (\<^verbatim>\<open>src/proc.c\<close>): \<^verbatim>\<open>wait\<close> over children and watches, the start-up and the teardown of
  the package, and the ledger of handles over every history of \<^verbatim>\<open>run\<close>, \<^verbatim>\<open>child\<close>, \<^verbatim>\<open>detach\<close>, \<^verbatim>\<open>pty\<close> and \<^verbatim>\<open>watch\<close>
  commands and of the threads behind them.
\<close>

section \<open>wait\<close>

definition MAXIMUM_WAIT_OBJECTS :: nat where "MAXIMUM_WAIT_OBJECTS = 64"

abbreviation wait_error :: "string \<Rightarrow> string \<Rightarrow> mt_error" where
  "wait_error code msg \<equiv> MtError ''WAIT'' code msg"

text \<open>The token words, checked in order against the words before them.\<close>

fun wait_tokens :: "string list \<Rightarrow> tvalue list \<Rightarrow> string list res" where
  "wait_tokens before [] = Inr []"
| "wait_tokens before (v # vs) =
    (case obj_no_nul v of
       None \<Rightarrow> Inl (wait_error ''badvalue'' ''handle token may not contain NUL'')
     | Some tok \<Rightarrow>
        if tok \<in> set before then Inl (wait_error ''usage'' ''duplicate handle token'')
        else bind_res (wait_tokens (before @ [tok]) vs) (\<lambda>toks. Inr (tok # toks)))"

text \<open>The token of a child or of a watch with its readiness.\<close>

definition wait_target :: "'x proc_ctx_scheme \<Rightarrow> watch_part \<Rightarrow> string \<Rightarrow> (string \<times> bool) option" where
  "wait_target x q tok =
    (case registry_find x tok of
       Some c \<Rightarrow> Some (c_token c, c_reaped c \<or> c_done c)
     | None \<Rightarrow> (case watch_waitable q tok of None \<Rightarrow> None | Some (t, h, ready) \<Rightarrow> Some (t, ready)))"

text \<open>The tokens that are done and those still to be waited for.\<close>

fun wait_scan :: "'x proc_ctx_scheme \<Rightarrow> watch_part \<Rightarrow> string list \<Rightarrow> (string list \<times> string list) res" where
  "wait_scan x q [] = Inr ([], [])"
| "wait_scan x q (tok # toks) =
    (case wait_target x q tok of
       None \<Rightarrow> Inl (wait_error ''nohandle'' ''no such child or watch'')
     | Some (t, ready) \<Rightarrow>
        bind_res (wait_scan x q toks) (\<lambda>(done_toks, pending). Inr (if ready then (t # done_toks, pending) else (done_toks, t # pending))))"

text \<open>What \<^verbatim>\<open>WaitForMultipleObjects\<close> answers: failure, an offset from \<^verbatim>\<open>WAIT_OBJECT_0\<close>, or any other value.\<close>

datatype wait_multi = MultiFailed | MultiObject nat | MultiOther

definition wait_rest :: "wait_multi \<Rightarrow> bool \<Rightarrow> string list \<Rightarrow> string list res" where
  "wait_rest r any pending =
    (case r of
       MultiFailed \<Rightarrow> Inl (wait_error ''oserror'' ''waiting for handles failed'')
     | MultiOther \<Rightarrow> Inl (wait_error ''oserror'' ''unexpected wait result'')
     | MultiObject i \<Rightarrow>
        if any then (if i < length pending then Inr [pending ! i] else Inl (wait_error ''oserror'' ''unexpected wait result''))
        else (if i \<noteq> 0 then Inl (wait_error ''oserror'' ''unexpected wait result'') else Inr pending))"

definition WaitCmd :: "wait_multi \<Rightarrow> tvalue list \<Rightarrow> 'x proc_ctx_scheme \<Rightarrow> watch_part \<Rightarrow> string list res" where
  "WaitCmd r words x q =
    (let any = (words \<noteq> [] \<and> vtext (hd words) = ''-any'');
         option = (words \<noteq> [] \<and> \<not> any \<and> take 1 (vtext (hd words)) = ''-'');
         toks = (if any then tl words else words)
     in if option then Inl (wait_error ''usage'' ''unknown option'')
        else if toks = [] then Inl (wait_error ''usage'' ''wait ?-any? token ...'')
        else if length toks > MAXIMUM_WAIT_OBJECTS then Inl (wait_error ''usage'' ''too many children to wait on (max 64)'')
        else bind_res (wait_tokens [] toks) (\<lambda>toks.
             bind_res (wait_scan x q toks) (\<lambda>(done_toks, pending).
               if pending = [] \<or> any \<and> done_toks \<noteq> [] then Inr done_toks
               else bind_res (wait_rest r any pending) (\<lambda>more. Inr (done_toks @ more)))))"

section \<open>Start-up and teardown\<close>

type_synonym 'x sys = "'x proc_ctx_scheme \<times> pty_part \<times> watch_part"

text \<open>The state \<^verbatim>\<open>Machteldproc_Init\<close> makes; \<open>tcl_ok\<close> is whether the namespace and the package could be had.\<close>

definition new_sys :: "wj_job \<Rightarrow> jcall list \<Rightarrow> world \<Rightarrow> unit sys" where
  "new_sys root cs w =
    (\<lparr>x_root = root, x_children = [], x_counter = 0, x_world = w, x_jobs = cs, x_chans = []\<rparr>,
     \<lparr>ptys = [], pty_counter = 0\<rparr>, \<lparr>watches = [], watch_counter = 0\<rparr>)"

record cleanup_os =
  cl_job :: "string \<Rightarrow> job_os"
  cl_reap :: "string \<Rightarrow> reap_os"
  cl_pty :: "string \<Rightarrow> pty_os"
  cl_stop :: "string \<Rightarrow> stop_os"

text \<open>Each entry with the answers for its token; \<open>None\<close>: a child's threads do not end.\<close>

fun cleanup_children :: "cleanup_os \<Rightarrow> child_t list \<Rightarrow> 'x proc_ctx_scheme \<Rightarrow> 'x proc_ctx_scheme option" where
  "cleanup_children os [] x = Some x"
| "cleanup_children os (c # cs) x =
    (case child_free (cl_job os (c_token c)) (cl_reap os (c_token c)) (c, x\<lparr>x_children := cs\<rparr>) of
       None \<Rightarrow> None
     | Some (_, _, x) \<Rightarrow> cleanup_children os cs x)"

fun cleanup_ptys :: "cleanup_os \<Rightarrow> pty_t list \<Rightarrow> 'x proc_ctx_scheme \<times> pty_part \<Rightarrow> 'x proc_ctx_scheme \<times> pty_part" where
  "cleanup_ptys os [] st = st"
| "cleanup_ptys os (p # ps) st =
    (case pty_free (cl_pty os (y_token p)) p st of (ok, st) \<Rightarrow> if ok then cleanup_ptys os ps st else st)"

fun cleanup_watches :: "cleanup_os \<Rightarrow> watch_t list \<Rightarrow> world \<times> watch_part \<Rightarrow> world \<times> watch_part" where
  "cleanup_watches os [] st = st"
| "cleanup_watches os (w # ws) st =
    (case watch_free (cl_stop os (wt_token w)) w st of (ok, st) \<Rightarrow> if ok then cleanup_watches os ws st else st)"

definition proc_cleanup :: "cleanup_os \<Rightarrow> 'x sys \<Rightarrow> 'x sys option" where
  "proc_cleanup os = (\<lambda>(x, p, q).
    (case cleanup_children os (x_children x) x of
       None \<Rightarrow> None
     | Some x \<Rightarrow>
        (case cleanup_ptys os (ptys p) (x, p) of (x, p) \<Rightarrow>
          case cleanup_watches os (watches q) (x_world x, q) of (u, q) \<Rightarrow>
            Some (x\<lparr>x_world := u, x_jobs := x_jobs x @ wj_job_free (x_root x)\<rparr>, p, q))))"

definition Machteldproc_Init :: "job_os \<Rightarrow> bool \<Rightarrow> bool \<Rightarrow> string \<Rightarrow> world \<Rightarrow> (string + unit sys) \<times> jcall list" where
  "Machteldproc_Init os calloc_ok tcl_ok detail w =
    (case wj_job_new os True of
       (Inl e, cs) \<Rightarrow> (Inl e, cs)
     | (Inr root, cs) \<Rightarrow>
        if \<not> calloc_ok then (Inl ''out of memory'', cs @ wj_job_free root)
        else if \<not> tcl_ok then (Inl detail, cs @ wj_job_free root)
        else (Inr (new_sys root cs w), cs))"

section \<open>The ledger of ptys\<close>


text \<open>The handles of a list of entries, with what the rest of the process holds.\<close>

definition holding :: "('e \<Rightarrow> khandle list) \<Rightarrow> 'e list \<Rightarrow> khandle multiset \<Rightarrow> world \<Rightarrow> bool" where
  "holding hs es M w \<longleftrightarrow> wf_world w \<and> mset (w_open w) = mset (concat (map hs es)) + M"

lemma holding_Cons: "holding hs (e # es) M w \<longleftrightarrow> wf_world w \<and> mset (w_open w) = mset (hs e) + (mset (concat (map hs es)) + M)"
  by (simp add: holding_def add.assoc)






text \<open>Windows gives a drain thread, it ends once the console host is gone, and jobs can be terminated.\<close>

definition pty_os_ok :: "pty_os \<Rightarrow> bool" where
  "pty_os_ok os \<longleftrightarrow> yo_drain_thread os \<and> yo_drain_ends os"

lemma outside_refl [simp]: "outside x x" and outside_world [simp]: "outside x (x\<lparr>x_world := w\<rparr>)"
  and outside_jobs [simp]: "outside x (x\<lparr>x_jobs := cs\<rparr>)"
  by (simp_all add: outside_def)










section \<open>The ledger of watches\<close>










text \<open>The thread ends within the first wait once its stop event is set.\<close>

definition stops :: "stop_os \<Rightarrow> bool" where
  "stops so \<longleftrightarrow> \<not> so_fails so \<and> (\<forall>w u. wt_stop w \<longrightarrow> wt_reader (fst (thread_moves (so_acts so) (w, u))) = REnded)"











section \<open>The whole system\<close>













section \<open>Teardown\<close>

definition reap_ok :: "reap_os \<Rightarrow> bool" where
  "reap_ok ro \<longleftrightarrow> (\<forall>s. \<not> rp_join_failed ro s) \<and> \<not> rp_failed ro"

definition cleanup_ok :: "cleanup_os \<Rightarrow> bool" where
  "cleanup_ok os \<longleftrightarrow> (\<forall>t. reap_ok (cl_reap os t) \<and> pty_os_ok (cl_pty os t) \<and> stops (cl_stop os t))"









section \<open>wait\<close>

lemma wait_target_token: "wait_target x q tok = Some (t, r) \<Longrightarrow> t = tok"
proof -
  assume t: "wait_target x q tok = Some (t, r)"
  show "t = tok"
  proof (cases "registry_find x tok")
    case None
    then show ?thesis using t watch_reg.find_some [of q tok] by (auto simp: wait_target_def watch_waitable_def split: option.splits)
  next
    case (Some c)
    then show ?thesis using t child_reg.find_some [OF Some] by (simp add: wait_target_def)
  qed
qed

definition wait_ready :: "'x proc_ctx_scheme \<Rightarrow> watch_part \<Rightarrow> string \<Rightarrow> bool" where
  "wait_ready x q tok \<longleftrightarrow> wait_target x q tok = Some (tok, True)"

lemma wait_scan_Inr:
  "wait_scan x q toks = Inr (d, p) \<Longrightarrow> (\<forall>t\<in>set toks. wait_target x q t \<noteq> None) \<and>
     d = List.filter (wait_ready x q) toks \<and> p = List.filter (\<lambda>t. \<not> wait_ready x q t) toks"
proof (induction toks arbitrary: d p)
  case (Cons tok toks)
  obtain t r where t: "wait_target x q tok = Some (t, r)" using Cons(2) by (auto split: option.splits)
  obtain d1 p1 where s: "wait_scan x q toks = Inr (d1, p1)" using Cons(2) t by (auto simp: result_simps)
  show ?case using Cons(1) [OF s] Cons(2) s t wait_target_token [OF t] by (auto simp: wait_ready_def)
qed simp

lemma wait_tokens_Inr: "wait_tokens before vs = Inr toks \<Longrightarrow> toks = map vtext vs \<and> distinct toks \<and> set toks \<inter> set before = {}"
proof (induction vs arbitrary: before toks)
  case (Cons v vs)
  obtain ts where t: "obj_no_nul v = Some (vtext v)" "vtext v \<notin> set before" "wait_tokens (before @ [vtext v]) vs = Inr ts" "toks = vtext v # ts"
    using Cons(2) by (auto simp: result_simps split: option.splits if_splits)
  have i: "set ts \<inter> set (before @ [vtext v]) = {}" "ts = map vtext vs" "distinct ts" using Cons(1) [OF t(3)] by blast+
  then have "set ts \<inter> set before = {}" "vtext v \<notin> set ts" by auto
  then have "set toks \<inter> set before = {}" "distinct toks" using t(2,4) i(3) by auto
  then show ?case using t(4) i(2) by simp
qed simp
section \<open>Properties\<close>


lemma WaitCmd_Inr:
  assumes "WaitCmd r words x q = Inr toks"
  defines "any \<equiv> vtext (hd words) = ''-any''"
  defines "asked \<equiv> map vtext (if any then tl words else words)"
  obtains d p where "distinct asked" "asked \<noteq> []" "wait_scan x q asked = Inr (d, p)"
    "(if p = [] \<or> any \<and> d \<noteq> [] then Inr d else bind_res (wait_rest r any p) (\<lambda>more. Inr (d @ more))) = Inr toks"
proof -
  let ?words = "if any then tl words else words"
  have ne: "words \<noteq> []" using assms(1) by (auto simp: WaitCmd_def Let_def split: if_splits)
  then have R: "(if \<not> any \<and> take 1 (vtext (hd words)) = ''-'' then Inl (wait_error ''usage'' ''unknown option'')
      else if ?words = [] then Inl (wait_error ''usage'' ''wait ?-any? token ...'')
      else if length ?words > MAXIMUM_WAIT_OBJECTS then Inl (wait_error ''usage'' ''too many children to wait on (max 64)'')
      else bind_res (wait_tokens [] ?words) (\<lambda>toks. bind_res (wait_scan x q toks) (\<lambda>(done_toks, pending).
               if pending = [] \<or> any \<and> done_toks \<noteq> [] then Inr done_toks
               else bind_res (wait_rest r any pending) (\<lambda>more. Inr (done_toks @ more))))) = Inr toks"
    using assms(1) by (simp add: WaitCmd_def Let_def any_def cong: if_cong)
  then obtain ts d p where t: "?words \<noteq> []" "wait_tokens [] ?words = Inr ts" "wait_scan x q ts = Inr (d, p)"
    and f: "(if p = [] \<or> any \<and> d \<noteq> [] then Inr d else bind_res (wait_rest r any p) (\<lambda>more. Inr (d @ more))) = Inr toks"
    by (auto simp: result_simps split: if_splits)
  have a1: "ts = asked" using wait_tokens_Inr [OF t(2)] by (simp add: asked_def)
  have "distinct asked" using wait_tokens_Inr [OF t(2)] unfolding a1 by blast
  moreover have "asked \<noteq> []" using t(1) unfolding asked_def by (simp only: map_is_Nil_conv not_False_eq_True)
  ultimately have a: "ts = asked" "distinct asked" "asked \<noteq> []" using a1 by simp_all
  show thesis by (rule that [of d p]) (use a t(3) f in simp_all)
qed

text \<open>C36: a wait that succeeds names known tokens only, each at most once; without -any it names every token it was asked about, those
  already finished first; with -any it names at least one: every token that was ready, or, if none was, the one the system picked.\<close>

theorem wait_exact:
  assumes "WaitCmd r words x q = Inr toks"
  defines "any \<equiv> vtext (hd words) = ''-any''"
  defines "asked \<equiv> map vtext (if any then tl words else words)"
  shows "distinct toks \<and> toks \<noteq> [] \<and> set toks \<subseteq> set asked \<and> (\<forall>t\<in>set asked. wait_target x q t \<noteq> None) \<and>
    (\<not> any \<longrightarrow> toks = List.filter (wait_ready x q) asked @ List.filter (\<lambda>t. \<not> wait_ready x q t) asked) \<and>
    (any \<longrightarrow> toks = List.filter (wait_ready x q) asked \<or> (\<forall>t\<in>set asked. \<not> wait_ready x q t) \<and> (\<exists>i<length asked. r = MultiObject i \<and> toks = [asked ! i]))"
proof -
  obtain d p where a: "distinct asked" "asked \<noteq> []" "wait_scan x q asked = Inr (d, p)"
    and f: "(if p = [] \<or> any \<and> d \<noteq> [] then Inr d else bind_res (wait_rest r any p) (\<lambda>more. Inr (d @ more))) = Inr toks"
    unfolding any_def asked_def by (rule WaitCmd_Inr [OF assms(1)])
  note s = wait_scan_Inr [OF a(3)]
  show ?thesis
  proof (cases "p = [] \<or> any \<and> d \<noteq> []")
    case True
    then have "toks = d" "\<not> any \<Longrightarrow> p = []" using f by auto
    moreover have "d \<noteq> []" using True s a(2) by (auto simp: filter_empty_conv ex_in_conv)
    ultimately show ?thesis using s a(1) by auto
  next
    case False
    then obtain more where m: "wait_rest r any p = Inr more" "toks = d @ more" using f by (auto simp: result_simps)
    show ?thesis
    proof (cases any)
      case True
      then have d: "d = []" using False by simp
      then have p: "p = asked" using s by (auto simp: filter_empty_conv intro!: filter_True)
      obtain i where i: "r = MultiObject i" "i < length asked" "more = [asked ! i]" using m(1) True p by (auto simp: wait_rest_def split: wait_multi.splits if_splits)
      have nr: "\<forall>t\<in>set asked. \<not> wait_ready x q t" using s d by (metis filter_empty_conv)
      have e: "toks = [asked ! i]" using m(2) i(3) d by simp
      show ?thesis using e i(1,2) nr s True by simp
    next
      case False
      then have "more = p" using m(1) by (auto simp: wait_rest_def split: wait_multi.splits if_splits)
      then have e: "toks = List.filter (wait_ready x q) asked @ List.filter (\<lambda>t. \<not> wait_ready x q t) asked" using m(2) s by simp
      then have dt: "distinct toks" "set toks = set asked" using a(1) by auto
      then have "toks \<noteq> []" using a(2) by (metis set_empty)
      then show ?thesis using dt e s False by blast
    qed
  qed
qed

section \<open>A concrete history\<close>

text \<open>A watch is started, something is dropped, and the package is torn down.\<close>

definition demo_stop :: stop_os where
  "demo_stop = \<lparr>so_acts = [TStart False None, TIssue (Some 5), TWakeStop], so_fails = False, so_acts2 = [], so_fails2 = False\<rparr>"

lemma demo_stops: "stops demo_stop"
proof -
  have "wt_reader (fst (thread_moves (so_acts demo_stop) (w, u))) = REnded" if "wt_stop w" for w u
    using that by (cases "wt_reader w") (auto simp: demo_stop_def thread_moves_def thread_step_def reader_end_def watch_fail_def Let_def)
  then show ?thesis by (simp add: stops_def demo_stop_def)
qed

definition demo_watch_os :: watch_os where
  "demo_watch_os = \<lparr>wo_text = demo_text, wo_open = True, wo_calloc = True, wo_strdup = True, wo_stopEv = True, wo_dataEv = True, wo_readyEv = True,
     wo_thread = True, wo_arm = [TStart True None, TIssue None], wo_arm_fails = False, wo_free = demo_stop, wo_wait = [], wo_wait_fails = False\<rparr>"

definition demo_cleanup :: cleanup_os where
  "demo_cleanup = \<lparr>cl_job = (\<lambda>t. kind_os), cl_reap = (\<lambda>t. demo_reap), cl_pty = (\<lambda>t. demo_pty_os), cl_stop = (\<lambda>t. demo_stop)\<rparr>"

lemma demo_cleanup_ok: "cleanup_ok demo_cleanup"
  using demo_stops by (simp add: cleanup_ok_def demo_cleanup_def reap_ok_def demo_reap_def pty_os_ok_def demo_pty_os_def)

definition demo_watched :: "world \<times> watch_part" where
  "demo_watched = snd (WatchCmd demo_watch_os [VText ''start'', VText ''a''] (demo_world, \<lparr>watches = [], watch_counter = 0\<rparr>))"

definition demo_sys0 :: "unit sys" where
  "demo_sys0 = (case fst (Machteldproc_Init kind_os True True [] demo_world) of Inr s \<Rightarrow> s)"

definition demo_sys :: "unit sys" where
  "demo_sys = (case demo_sys0 of (x, p, q) \<Rightarrow> (x\<lparr>x_world := fst demo_watched\<rparr>, p, snd demo_watched))"

lemma demo_watched_facts:
  "length (watches (snd demo_watched)) = 1 \<and> length (w_open (fst demo_watched)) = length (w_open demo_world) + 6"
  by code_simp

lemma demo_torn_down: "case proc_cleanup demo_cleanup demo_sys of Some (x, p, q) \<Rightarrow> w_open (x_world x) = w_open demo_world | None \<Rightarrow> False"
  by code_simp



definition demo_ready_watch :: watch_t where
  "demo_ready_watch = (new_watch 1 False None)\<lparr>wt_token := ''watch#1'', wt_dropped := 1\<rparr>"

theorem wait_exact_witness:
  "WaitCmd MultiOther [VText ''watch#1''] demo_pty_ctx \<lparr>watches = [demo_ready_watch], watch_counter = 1\<rparr> = Inr [''watch#1''] \<and>
   wait_target demo_pty_ctx \<lparr>watches = [demo_ready_watch], watch_counter = 1\<rparr> ''watch#1'' \<noteq> None"
proof -
  have w: "WaitCmd MultiOther [VText ''watch#1''] demo_pty_ctx \<lparr>watches = [demo_ready_watch], watch_counter = 1\<rparr> = Inr [''watch#1'']"
    by (simp add: WaitCmd_def MAXIMUM_WAIT_OBJECTS_def obj_no_nul_def wait_target_def registry_find_def demo_pty_ctx_def watch_waitable_def watch_find_def
      demo_ready_watch_def new_watch_def watch_ready_def)
  from wait_exact [OF this] show ?thesis using w by simp
qed

end
