(* ===== verification/Ps.thy ===== *)
theory Ps
  imports TclValue Utf8 "HOL-Library.Signed_Division" "HOL-Library.Product_Lexorder"
begin

text \<open>
  The verb \<^verbatim>\<open>mtps\<close> (\<^verbatim>\<open>src/ps.c\<close>): the rows of processes, and termination of one process or of the tree a snapshot
  shows. A snapshot is the list of its entries with the error after the last one; what Windows answers about a
  process is given per process id. Handles are opened and closed within one call and are not part of the state.
\<close>

section \<open>Answers of Windows\<close>

record ps_entry =
  pe_pid :: nat
  pe_ppid :: nat
  pe_name :: wstr
  pe_threads :: nat

text \<open>What an opened process tells: its image, its memory, its times (creation, kernel, user) in units of 100 ns.\<close>

record ps_proc =
  pp_path :: "wstr option"
  pp_memory :: "(64 word \<times> 64 word) option"
  pp_times :: "(64 word \<times> 64 word \<times> 64 word) option"

text \<open>Termination: both rights, the right to terminate alone (or its error), the call, the exit code afterwards.\<close>

record ps_kill =
  pk_both :: bool
  pk_only :: "nat option"
  pk_terminate :: "nat \<Rightarrow> bool"
  pk_exit :: "dword option"

record ps_os =
  po_text :: text_env
  po_snapshot :: bool
  po_entries :: "ps_entry list"
  po_end :: nat
  po_proc :: "nat \<Rightarrow> ps_proc option"
  po_kill :: "nat \<Rightarrow> ps_kill"
  po_realloc :: "nat \<Rightarrow> bool"
  po_wide :: "string \<Rightarrow> int option"

definition ERROR_NO_MORE_FILES :: nat where "ERROR_NO_MORE_FILES = 18"
definition ERROR_INVALID_PARAMETER :: nat where "ERROR_INVALID_PARAMETER = 87"
definition STILL_ACTIVE :: dword where "STILL_ACTIVE = 259"

section \<open>Rows\<close>

datatype ps_field = PStr string | PWide int

definition ft_to_100ns :: "64 word \<Rightarrow> int" where
  "ft_to_100ns ft = sint ft"

definition ps_row :: "ps_os \<Rightarrow> ps_entry \<Rightarrow> (string \<times> ps_field) list" where
  "ps_row os e =
    (let text = (\<lambda>w. case to_utf8 (po_text os) w (- 1) of None \<Rightarrow> [] | Some s \<Rightarrow> s);
         snap = [(''pid'', PWide (int (pe_pid e))), (''ppid'', PWide (int (pe_ppid e))), (''name'', PStr (text (pe_name e))),
                 (''threads'', PWide (int (pe_threads e)))]
     in case po_proc os (pe_pid e) of
          None \<Rightarrow> snap @ [(''access'', PWide 0), (''exe'', PStr []), (''mem'', PStr []), (''private'', PStr []), (''cpu'', PStr []), (''started'', PStr [])]
        | Some h \<Rightarrow> snap @ [(''access'', PWide 1)] @
            [(''exe'', PStr (case pp_path h of None \<Rightarrow> [] | Some w \<Rightarrow> text w))] @
            (case pp_memory h of
               Some (ws, priv) \<Rightarrow> [(''mem'', PWide (sint ws)), (''private'', PWide (sint priv))]
             | None \<Rightarrow> [(''mem'', PStr []), (''private'', PStr [])]) @
            (case pp_times h of
               Some (created, ker, usr) \<Rightarrow>
                 [(''cpu'', PWide ((ft_to_100ns ker + ft_to_100ns usr) sdiv 10000)),
                  (''started'', PWide ((ft_to_100ns created - 116444736000000000) sdiv 10000000))]
             | None \<Rightarrow> [(''cpu'', PStr []), (''started'', PStr [])]))"

section \<open>Termination\<close>

text \<open>\<open>None\<close> on success, else the code of the error; a process that has already exited is not found, not denied.\<close>

definition ps_kill_one :: "ps_os \<Rightarrow> nat \<Rightarrow> nat \<Rightarrow> string option" where
  "ps_kill_one os pid code =
    (let k = po_kill os pid in
     if \<not> pk_both k \<and> pk_only k \<noteq> None then
       Some (if pk_only k = Some ERROR_INVALID_PARAMETER then ''notfound'' else ''denied'')
     else if \<not> pk_terminate k code then
       Some (case pk_exit k of
               Some ec \<Rightarrow> if pk_both k \<and> ec \<noteq> STILL_ACTIVE then ''notfound'' else ''denied''
             | None \<Rightarrow> ''denied'')
     else None)"

record ps_node =
  nd_pid :: nat
  nd_ppid :: nat
  nd_depth :: int

text \<open>The nodes of the snapshot; the array grows by doubling, and \<open>po_realloc\<close> answers for a capacity.\<close>

fun ps_nodes :: "ps_os \<Rightarrow> nat \<Rightarrow> ps_entry list \<Rightarrow> nat \<Rightarrow> ps_node list \<Rightarrow> string + ps_node list" where
  "ps_nodes os root [] cap ns = Inr ns"
| "ps_nodes os root (e # es) cap ns =
    (let node = \<lparr>nd_pid = pe_pid e, nd_ppid = pe_ppid e, nd_depth = (if pe_pid e = root then 0 else - 1)\<rparr> in
     if length ns = cap then
       (let next = (if cap \<noteq> 0 then cap * 2 mod 2 ^ 64 else 256) in
        if next < cap \<or> next > (2 ^ 64 - 1) div 12 then Inl ''process snapshot is too large''
        else if \<not> po_realloc os next then Inl ''out of memory taking process snapshot''
        else ps_nodes os root es next (ns @ [node]))
     else ps_nodes os root es cap (ns @ [node]))"

text \<open>One pass: in index order, an unassigned node takes its depth from the first assigned parent in the array.\<close>

definition ps_depth_step :: "nat \<Rightarrow> bool \<times> ps_node list \<Rightarrow> bool \<times> ps_node list" where
  "ps_depth_step i = (\<lambda>(changed, ns).
    let n = ns ! i in
    if nd_depth n \<ge> 0 then (changed, ns)
    else case List.find (\<lambda>m. nd_depth m \<ge> 0 \<and> nd_ppid n = nd_pid m \<and> nd_pid n \<noteq> 0 \<and> nd_pid n \<noteq> 4) ns of
      None \<Rightarrow> (changed, ns)
    | Some m \<Rightarrow> (True, ns[i := n\<lparr>nd_depth := nd_depth m + 1\<rparr>]))"

definition ps_depth_pass :: "ps_node list \<Rightarrow> bool \<times> ps_node list" where
  "ps_depth_pass ns = fold ps_depth_step [0..<length ns] (False, ns)"

primrec ps_depths :: "nat \<Rightarrow> ps_node list \<Rightarrow> ps_node list" where
  "ps_depths 0 ns = ns"
| "ps_depths (Suc k) ns = (case ps_depth_pass ns of (changed, ns') \<Rightarrow> if changed then ps_depths k ns' else ns')"

text \<open>\<^verbatim>\<open>qsort\<close> with \<^verbatim>\<open>ps_depth_desc\<close>: deepest first, then by process id.\<close>

definition ps_sort :: "ps_node list \<Rightarrow> ps_node list" where
  "ps_sort ns = sort_key (\<lambda>n. (- nd_depth n, nd_pid n)) ns"

text \<open>The answer of a kill: what was terminated and what failed with which code; and the attempts in order.\<close>

record ps_killed =
  pk_killed :: "nat list"
  pk_failed :: "(nat \<times> string) list"

definition ps_attempt :: "ps_os \<Rightarrow> nat \<Rightarrow> nat \<Rightarrow> ps_killed \<times> nat list \<Rightarrow> ps_killed \<times> nat list" where
  "ps_attempt os code pid = (\<lambda>(r, tried).
    (case ps_kill_one os pid code of
       None \<Rightarrow> r\<lparr>pk_killed := pk_killed r @ [pid]\<rparr>
     | Some err \<Rightarrow> r\<lparr>pk_failed := pk_failed r @ [(pid, err)]\<rparr>,
     tried @ [pid]))"

definition ps_tree :: "ps_os \<Rightarrow> nat \<Rightarrow> string + nat list" where
  "ps_tree os pid =
    (if \<not> po_snapshot os then Inl ''cannot snapshot processes''
     else case ps_nodes os pid (po_entries os) 0 [] of
       Inl e \<Rightarrow> Inl e
     | Inr ns \<Rightarrow>
        if po_end os \<noteq> ERROR_NO_MORE_FILES then Inl ''process enumeration failed''
        else Inr (map nd_pid (List.filter (\<lambda>n. nd_depth n \<ge> 0 \<and> nd_pid n \<noteq> pid) (ps_sort (ps_depths (length ns) ns)))))"

section \<open>The verb\<close>

datatype ps_value = PsRows "(string \<times> ps_field) list list" | PsRow "(string \<times> ps_field) list" | PsKilled ps_killed

abbreviation ps_error :: "string \<Rightarrow> string \<Rightarrow> mt_error" where
  "ps_error code msg \<equiv> MtError ''MTPS'' code msg"

definition ps_list :: "ps_os \<Rightarrow> ps_value res" where
  "ps_list os =
    (if \<not> po_snapshot os then Inl (ps_error ''oserror'' ''cannot snapshot processes'')
     else if po_end os \<noteq> ERROR_NO_MORE_FILES then Inl (ps_error ''oserror'' ''process enumeration failed'')
     else Inr (PsRows (map (ps_row os) (po_entries os))))"

definition ps_info :: "ps_os \<Rightarrow> nat \<Rightarrow> ps_value res" where
  "ps_info os pid =
    (if \<not> po_snapshot os then Inl (ps_error ''oserror'' ''cannot snapshot processes'')
     else case List.find (\<lambda>e. pe_pid e = pid) (po_entries os) of
       Some e \<Rightarrow> Inr (PsRow (ps_row os e))
     | None \<Rightarrow>
        if po_end os \<noteq> ERROR_NO_MORE_FILES then Inl (ps_error ''oserror'' ''process enumeration failed'')
        else Inl (ps_error ''notfound'' ''no such process''))"

definition ps_kill_cmd :: "ps_os \<Rightarrow> nat \<Rightarrow> string list \<Rightarrow> ps_value res \<times> nat list" where
  "ps_kill_cmd os pid opts =
    (if opts \<noteq> [] \<and> hd opts \<noteq> ''-tree'' then (Inl (ps_error ''usage'' ''unknown option''), [])
     else if pid = 0 \<or> pid = 4 then (Inl (ps_error ''denied'' ''the system process cannot be terminated''), [])
     else
       let tree = (opts \<noteq> []); code = 1; none = (\<lparr>pk_killed = [], pk_failed = []\<rparr>, []) in
       case (if tree then ps_tree os pid else Inr []) of
         Inl e \<Rightarrow> (Inl (ps_error ''oserror'' e), [])
       | Inr pids \<Rightarrow>
          (case fold (ps_attempt os code) pids none of (r, tried) \<Rightarrow>
            (case ps_kill_one os pid code of
               Some err \<Rightarrow>
                 if \<not> tree then
                   (Inl (ps_error err (if err = ''notfound'' then ''no such process'' else ''cannot terminate that process'')), tried @ [pid])
                 else (Inr (PsKilled (fst (ps_attempt os code pid (r, tried)))), tried @ [pid])
             | None \<Rightarrow> (Inr (PsKilled (fst (ps_attempt os code pid (r, tried)))), tried @ [pid]))))"

definition PsCmd :: "ps_os \<Rightarrow> tvalue list \<Rightarrow> ps_value res \<times> nat list" where
  "PsCmd os objv =
    (case map vtext objv of
       [] \<Rightarrow> (Inl WrongNumArgs, [])
     | sub # args \<Rightarrow>
        if sub \<notin> {''list'', ''info'', ''kill''} then (Inl TclError, [])
        else if sub = ''kill'' \<and> length args \<notin> {1, 2} then (Inl (ps_error ''usage'' ''usage: mtps kill pid ?-tree?''), [])
        else if sub = ''list'' then (if args \<noteq> [] then (Inl WrongNumArgs, []) else (ps_list os, []))
        else case args of
          [] \<Rightarrow> (Inl WrongNumArgs, [])
        | word # rest \<Rightarrow>
          (case po_wide os word of
             None \<Rightarrow> (Inl (ps_error ''badvalue'' ''pid must be an integer''), [])
           | Some wpid \<Rightarrow>
              if wpid < 0 \<or> wpid > 0xFFFFFFFF then (Inl (ps_error ''badvalue'' ''pid out of range''), [])
              else if sub = ''info'' then (if rest \<noteq> [] then (Inl WrongNumArgs, []) else (ps_info os (nat wpid), []))
              else ps_kill_cmd os (nat wpid) rest))"

section \<open>The tree of a snapshot\<close>

definition pid_edges :: "ps_node list \<Rightarrow> (nat \<times> nat) list" where
  "pid_edges ns = map (\<lambda>n. (nd_pid n, nd_ppid n)) ns"

text \<open>The processes a snapshot shows below a root that is in it; the two system processes never are.\<close>

inductive ps_below :: "(nat \<times> nat) list \<Rightarrow> nat \<Rightarrow> nat \<Rightarrow> bool" for es root where
  below_root: "(p, root) \<in> set es \<Longrightarrow> root \<in> fst ` set es \<Longrightarrow> p \<notin> {0, 4, root} \<Longrightarrow> ps_below es root p"
| below_parent: "(p, q) \<in> set es \<Longrightarrow> ps_below es root q \<Longrightarrow> p \<notin> {0, 4, root} \<Longrightarrow> ps_below es root p"

definition depths_ok :: "(nat \<times> nat) list \<Rightarrow> nat \<Rightarrow> ps_node list \<Rightarrow> bool" where
  "depths_ok es root ns \<longleftrightarrow> pid_edges ns = es \<and> (\<forall>n\<in>set ns. nd_pid n = root \<longrightarrow> nd_depth n = 0) \<and>
     (\<forall>i<length ns. nd_depth (ns ! i) \<ge> 0 \<longrightarrow> nd_pid (ns ! i) = root \<or>
        ps_below es root (nd_pid (ns ! i)) \<and>
        (\<exists>j<length ns. nd_depth (ns ! j) \<ge> 0 \<and> nd_pid (ns ! j) = nd_ppid (ns ! i) \<and> nd_depth (ns ! i) = nd_depth (ns ! j) + 1))"

definition parent_found :: "ps_node list \<Rightarrow> ps_node \<Rightarrow> ps_node option" where
  "parent_found ns n = List.find (\<lambda>m. nd_depth m \<ge> 0 \<and> nd_ppid n = nd_pid m \<and> nd_pid n \<noteq> 0 \<and> nd_pid n \<noteq> 4) ns"

definition unassigned :: "ps_node list \<Rightarrow> nat" where
  "unassigned ns = length (List.filter (\<lambda>n. nd_depth n < 0) ns)"

lemma step_cases:
  assumes "ps_depth_step i (c, ns) = (c', ns')" "i < length ns"
  shows "(c' = c \<and> ns' = ns \<and> (nd_depth (ns ! i) \<ge> 0 \<or> parent_found ns (ns ! i) = None)) \<or>
    (\<exists>m. c' \<and> nd_depth (ns ! i) < 0 \<and> parent_found ns (ns ! i) = Some m \<and> ns' = ns[i := (ns ! i)\<lparr>nd_depth := nd_depth m + 1\<rparr>])"
  using assms by (auto simp: ps_depth_step_def Let_def parent_found_def split: if_splits option.splits)

lemma parent_found_Some:
  "parent_found ns n = Some m \<Longrightarrow> \<exists>j<length ns. ns ! j = m \<and> nd_depth m \<ge> 0 \<and> nd_pid m = nd_ppid n \<and> nd_pid n \<noteq> 0 \<and> nd_pid n \<noteq> 4"
  unfolding parent_found_def find_Some_iff by auto

lemma step_ok:
  assumes "ps_depth_step i (c, ns) = (c', ns')" "i < length ns" "depths_ok es root ns"
  shows "depths_ok es root ns' \<and> length ns' = length ns"
proof -
  consider (idle) "ns' = ns" | (found) m where "nd_depth (ns ! i) < 0" "parent_found ns (ns ! i) = Some m"
    "ns' = ns[i := (ns ! i)\<lparr>nd_depth := nd_depth m + 1\<rparr>]" using step_cases [OF assms(1,2)] by blast
  then show ?thesis
  proof cases
  case s: (found m)
  from parent_found_Some [OF s(2)] obtain j where j: "j < length ns" "ns ! j = m" "nd_depth m \<ge> 0" "nd_pid m = nd_ppid (ns ! i)"
    "nd_pid (ns ! i) \<noteq> 0" "nd_pid (ns ! i) \<noteq> 4" by blast
  have ij: "i \<noteq> j" using s(1) j by auto
  have e: "pid_edges ns' = pid_edges ns" unfolding s(3) pid_edges_def map_update using assms(2) by (auto intro!: list_update_same_conv [THEN iffD2])
  have es: "pid_edges ns = es" and roots: "\<forall>n\<in>set ns. nd_pid n = root \<longrightarrow> nd_depth n = 0" using assms(3) by (simp_all add: depths_ok_def)
  have nr: "nd_pid (ns ! i) \<noteq> root" using roots s(1) assms(2) by fastforce
  have edge: "(nd_pid (ns ! i), nd_ppid (ns ! i)) \<in> set es" "nd_pid m \<in> fst ` set es"
    using es assms(2) j(1,2) by (force simp: pid_edges_def)+
  have "nd_pid m = root \<or> ps_below es root (nd_pid m)" using assms(3) j(1-3) unfolding depths_ok_def by blast
  then have below: "ps_below es root (nd_pid (ns ! i))"
    using edge j(4-6) nr below_root [of "nd_pid (ns ! i)" root es] below_parent [of "nd_pid (ns ! i)" "nd_pid m" es root] by auto
  have "nd_pid (ns' ! k) = root \<or> ps_below es root (nd_pid (ns' ! k)) \<and>
        (\<exists>j<length ns'. nd_depth (ns' ! j) \<ge> 0 \<and> nd_pid (ns' ! j) = nd_ppid (ns' ! k) \<and> nd_depth (ns' ! k) = nd_depth (ns' ! j) + 1)"
    if k: "k < length ns'" "nd_depth (ns' ! k) \<ge> 0" for k
  proof (cases "k = i")
    case True
    then show ?thesis using below s(3) assms(2) j ij by (intro disjI2 conjI exI [of _ j]) simp_all
  next
    case False
    then have kk: "k < length ns" "ns' ! k = ns ! k" "nd_depth (ns ! k) \<ge> 0" using k s(3) by simp_all
    then consider "nd_pid (ns ! k) = root" | l where "ps_below es root (nd_pid (ns ! k))" "l < length ns" "nd_depth (ns ! l) \<ge> 0"
      "nd_pid (ns ! l) = nd_ppid (ns ! k)" "nd_depth (ns ! k) = nd_depth (ns ! l) + 1" using assms(3) unfolding depths_ok_def by blast
    then show ?thesis
    proof cases
      case (2 l)
      then have "l \<noteq> i" using s(1) by auto
      then show ?thesis using 2 kk(2) s(3) by (intro disjI2 conjI exI [of _ l]) simp_all
    qed (use kk(2) in simp)
  qed
  moreover have "\<forall>n\<in>set ns'. nd_pid n = root \<longrightarrow> nd_depth n = 0" using roots nr s(3) set_update_subset_insert [of ns i] by fastforce
  ultimately show ?thesis using e es s(3) unfolding depths_ok_def by simp
  qed (use assms(3) in simp)
qed

lemma step_count:
  assumes "ps_depth_step i (c, ns) = (c', ns')" "i < length ns"
  shows "unassigned ns' \<le> unassigned ns \<and> (c' \<and> \<not> c \<longrightarrow> unassigned ns' < unassigned ns) \<and> (c \<longrightarrow> c')"
proof -
  consider (idle) "ns' = ns" "c' = c" | (found) m where "nd_depth (ns ! i) < 0" "parent_found ns (ns ! i) = Some m"
    "ns' = ns[i := (ns ! i)\<lparr>nd_depth := nd_depth m + 1\<rparr>]" "c'" using step_cases [OF assms] by blast
  then show ?thesis
  proof cases
    case s: (found m)
    from parent_found_Some [OF s(2)] have d: "0 \<le> nd_depth m" by blast
    have "unassigned ns = unassigned (take i ns @ ns ! i # List.drop (Suc i) ns)" using id_take_nth_drop [OF assms(2)] by simp
    moreover have "unassigned ns' = unassigned (take i ns @ (ns ! i)\<lparr>nd_depth := nd_depth m + 1\<rparr> # List.drop (Suc i) ns)"
      unfolding s(3) using upd_conv_take_nth_drop [OF assms(2)] by simp
    ultimately show ?thesis using d s(1,4) by (simp add: unassigned_def)
  qed simp
qed

text \<open>A run of steps over indices; an unchanged run is a run of idle steps.\<close>

lemma steps_facts:
  "fold ps_depth_step is (c, ns) = (c', ns') \<Longrightarrow> \<forall>i\<in>set is. i < length ns \<Longrightarrow> depths_ok es root ns \<Longrightarrow>
     depths_ok es root ns' \<and> length ns' = length ns \<and> unassigned ns' \<le> unassigned ns \<and> (c' \<and> \<not> c \<longrightarrow> unassigned ns' < unassigned ns) \<and>
     (c \<longrightarrow> c') \<and> (\<not> c' \<longrightarrow> ns' = ns \<and> (\<forall>i\<in>set is. nd_depth (ns ! i) \<ge> 0 \<or> parent_found ns (ns ! i) = None))"
proof (induction "is" arbitrary: c ns)
  case (Cons i "is")
  obtain c1 n1 where s: "ps_depth_step i (c, ns) = (c1, n1)" by (rule prod.exhaust)
  have i: "i < length ns" using Cons(3) by simp
  note o = step_ok [OF s i Cons(4)] and k = step_count [OF s i] and cs = step_cases [OF s i]
  have f: "fold ps_depth_step is (c1, n1) = (c', ns')" "\<forall>i\<in>set is. i < length n1" using Cons(2,3) s o by simp_all
  note I = Cons(1) [OF f conjunct1 [OF o]]
  have "ns' = ns \<and> (\<forall>j\<in>set (i # is). nd_depth (ns ! j) \<ge> 0 \<or> parent_found ns (ns ! j) = None)" if n: "\<not> c'"
  proof -
    have c1: "\<not> c1" using I n by simp
    have r: "ns' = n1 \<and> (\<forall>i\<in>set is. nd_depth (n1 ! i) \<ge> 0 \<or> parent_found n1 (n1 ! i) = None)" using I n by simp
    have "n1 = ns \<and> (nd_depth (ns ! i) \<ge> 0 \<or> parent_found ns (ns ! i) = None)" using cs c1 by simp
    then show ?thesis using r by simp
  qed
  moreover have "unassigned ns' \<le> unassigned ns" "c' \<and> \<not> c \<longrightarrow> unassigned ns' < unassigned ns" "c \<longrightarrow> c'"
    using I k by linarith+
  moreover have "depths_ok es root ns'" "length ns' = length ns" using I o by simp_all
  ultimately show ?case by blast
qed simp

definition settled_depths :: "ps_node list \<Rightarrow> bool" where
  "settled_depths ns \<longleftrightarrow> (\<forall>i<length ns. nd_depth (ns ! i) \<ge> 0 \<or> parent_found ns (ns ! i) = None)"

lemma pass_facts:
  assumes "ps_depth_pass ns = (c, ns')" "depths_ok es root ns"
  shows "depths_ok es root ns' \<and> length ns' = length ns \<and> (c \<longrightarrow> unassigned ns' < unassigned ns) \<and> (\<not> c \<longrightarrow> ns' = ns \<and> settled_depths ns)"
  using steps_facts [OF assms(1) [unfolded ps_depth_pass_def] _ assms(2)] by (auto simp: settled_depths_def)

lemma depths_settle:
  "depths_ok es root ns \<Longrightarrow> unassigned ns \<le> k \<Longrightarrow> depths_ok es root (ps_depths k ns) \<and> settled_depths (ps_depths k ns) \<and> length (ps_depths k ns) = length ns"
proof (induction k arbitrary: ns)
  case 0
  then have "settled_depths ns" by (auto simp: settled_depths_def unassigned_def filter_empty_conv not_less)
  then show ?case using 0 by simp
next
  case (Suc k)
  obtain c n1 where p: "ps_depth_pass ns = (c, n1)" by (rule prod.exhaust)
  note f = pass_facts [OF p Suc(2)]
  show ?case using Suc(1) [of n1] Suc(3) f p by (cases c) auto
qed

text \<open>With distinct process ids, settled depths are assigned to exactly the processes below the root.\<close>

lemma settled_below:
  assumes "ps_below es root p" "depths_ok es root ns" "settled_depths ns" "distinct (map nd_pid ns)"
  shows "\<exists>i<length ns. nd_pid (ns ! i) = p \<and> nd_depth (ns ! i) \<ge> 0"
  using assms(1)
proof induction
  case (below_root p)
  have es: "es = map (\<lambda>n. (nd_pid n, nd_ppid n)) ns" using assms(2) by (simp add: depths_ok_def pid_edges_def)
  obtain r where "r \<in> set ns" "nd_pid r = root" using below_root(2) es by auto
  moreover from this have "nd_depth r = 0" using assms(2) by (simp add: depths_ok_def)
  moreover obtain i where "i < length ns" "nd_pid (ns ! i) = p" "nd_ppid (ns ! i) = root" using below_root(1) es by (auto simp: in_set_conv_nth)
  ultimately show ?case using assms(3) below_root(3) unfolding settled_depths_def parent_found_def find_None_iff by force
next
  case (below_parent p q)
  have es: "es = map (\<lambda>n. (nd_pid n, nd_ppid n)) ns" using assms(2) by (simp add: depths_ok_def pid_edges_def)
  obtain j where "j < length ns" "nd_pid (ns ! j) = q" "nd_depth (ns ! j) \<ge> 0" using below_parent(4) by blast
  moreover obtain i where "i < length ns" "nd_pid (ns ! i) = p" "nd_ppid (ns ! i) = q" using below_parent(1) es by (auto simp: in_set_conv_nth)
  ultimately show ?case using assms(3) below_parent(3) unfolding settled_depths_def parent_found_def find_None_iff by (metis insert_iff nth_mem)
qed

lemma settled_exact:
  assumes "depths_ok es root ns" "settled_depths ns" "distinct (map nd_pid ns)"
  shows "nd_pid ` {n \<in> set ns. nd_depth n \<ge> 0 \<and> nd_pid n \<noteq> root} = {p. ps_below es root p}"
proof (intro equalityI subsetI)
  fix p assume "p \<in> nd_pid ` {n \<in> set ns. nd_depth n \<ge> 0 \<and> nd_pid n \<noteq> root}"
  then show "p \<in> {p. ps_below es root p}" using assms(1) unfolding depths_ok_def in_set_conv_nth by fastforce
next
  fix p assume p: "p \<in> {p. ps_below es root p}"
  then have "p \<noteq> root" by (auto elim: ps_below.cases)
  moreover obtain i where "i < length ns" "nd_pid (ns ! i) = p" "nd_depth (ns ! i) \<ge> 0" using settled_below assms p by blast
  ultimately show "p \<in> nd_pid ` {n \<in> set ns. nd_depth n \<ge> 0 \<and> nd_pid n \<noteq> root}" by force
qed

lemma child_deeper:
  assumes "depths_ok es root ns" "distinct (map nd_pid ns)" "a \<in> set ns" "b \<in> set ns" "nd_depth a \<ge> 0" "nd_pid a \<noteq> root"
    "(nd_pid a, nd_pid b) \<in> set es"
  shows "nd_depth a = nd_depth b + 1"
proof -
  have es: "es = map (\<lambda>n. (nd_pid n, nd_ppid n)) ns" using assms(1) by (simp add: depths_ok_def pid_edges_def)
  have same: "x = y" if "x \<in> set ns" "y \<in> set ns" "nd_pid x = nd_pid y" for x y using assms(2) that by (auto simp: distinct_map inj_on_def)
  obtain a' where "a' \<in> set ns" "nd_pid a' = nd_pid a" "nd_ppid a' = nd_pid b" using assms(7) es by auto
  then have pa: "nd_ppid a = nd_pid b" using same assms(3) by metis
  obtain i where i: "i < length ns" "ns ! i = a" using assms(3) by (auto simp: in_set_conv_nth)
  then obtain j where j: "j < length ns" "nd_pid (ns ! j) = nd_ppid a" "nd_depth a = nd_depth (ns ! j) + 1"
    using assms(1,5,6) unfolding depths_ok_def by blast
  then have "ns ! j = b" using same [of "ns ! j" b] assms(4) pa by simp
  then show ?thesis using j(3) by simp
qed

lemma ps_nodes_Inr:
  "ps_nodes os root es cap ns = Inr r \<Longrightarrow>
     r = ns @ map (\<lambda>e. \<lparr>nd_pid = pe_pid e, nd_ppid = pe_ppid e, nd_depth = (if pe_pid e = root then 0 else - 1)\<rparr>) es"
  by (induction os root es cap ns rule: ps_nodes.induct) (auto simp: Let_def split: if_splits)

lemma ps_nodes_fits:
  "(\<forall>c. po_realloc os c) \<Longrightarrow> length ns + length es < 2 ^ 32 \<Longrightarrow> length ns \<le> cap \<Longrightarrow> cap \<le> max 256 (2 * length ns) \<Longrightarrow>
     \<exists>r. ps_nodes os root es cap ns = Inr r"
proof (induction es arbitrary: cap ns)
  case (Cons e es)
  define node where "node = \<lparr>nd_pid = pe_pid e, nd_ppid = pe_ppid e, nd_depth = (if pe_pid e = root then 0 else - 1 :: int)\<rparr>"
  show ?case
  proof (cases "length ns = cap")
    case True
    have "cap * 2 < 2 ^ 34" using True Cons(3) by simp
    then have m: "cap * 2 mod 2 ^ 64 = cap * 2" by simp
    have "\<exists>r. ps_nodes os root es (if cap \<noteq> 0 then cap * 2 else 256) (ns @ [node]) = Inr r"
      using Cons(1) [of "ns @ [node]" "if cap \<noteq> 0 then cap * 2 else 256"] Cons(2,3) True by (auto simp: Suc_le_eq)
    then show ?thesis using True Cons(2) \<open>cap * 2 < 2 ^ 34\<close> unfolding ps_nodes.simps Let_def m node_def by auto
  next
    case False
    then show ?thesis using Cons(1) [of "ns @ [node]" cap] Cons(2-5) by (simp add: Let_def node_def)
  qed
qed simp

definition snapshot_edges :: "ps_os \<Rightarrow> (nat \<times> nat) list" where
  "snapshot_edges os = map (\<lambda>e. (pe_pid e, pe_ppid e)) (po_entries os)"

lemma ps_tree_facts:
  assumes "ps_tree os pid = Inr ks" "distinct (map pe_pid (po_entries os))"
  shows "distinct ks \<and> set ks = {p. ps_below (snapshot_edges os) pid p} \<and>
    (\<forall>i<length ks. \<forall>j<length ks. (ks ! i, ks ! j) \<in> set (snapshot_edges os) \<longrightarrow> i < j)"
proof -
  define es where "es = snapshot_edges os"
  obtain ns where ns: "ps_nodes os pid (po_entries os) 0 [] = Inr ns" and ks0: "ks = map nd_pid (List.filter (\<lambda>n. nd_depth n \<ge> 0 \<and> nd_pid n \<noteq> pid) (ps_sort (ps_depths (length ns) ns)))"
    using assms(1) by (auto simp: ps_tree_def split: if_splits sum.splits)
  have nse: "ns = map (\<lambda>e. \<lparr>nd_pid = pe_pid e, nd_ppid = pe_ppid e, nd_depth = (if pe_pid e = pid then 0 else - 1)\<rparr>) (po_entries os)"
    using ps_nodes_Inr [OF ns] by simp
  have ok: "depths_ok es pid ns" unfolding depths_ok_def nse es_def snapshot_edges_def pid_edges_def by (auto simp: comp_def)
  define ds where "ds = ps_depths (length ns) ns"
  have "unassigned ns \<le> length ns" by (simp add: unassigned_def)
  from depths_settle [OF ok this] have d: "depths_ok es pid ds" "settled_depths ds" by (simp_all add: ds_def)
  have "map fst (pid_edges ds) = map pe_pid (po_entries os)" using d(1) by (simp add: depths_ok_def es_def snapshot_edges_def comp_def)
  then have dis: "distinct (map nd_pid ds)" using assms(2) by (simp add: pid_edges_def comp_def)
  define ls where "ls = List.filter (\<lambda>n. nd_depth n \<ge> 0 \<and> nd_pid n \<noteq> pid) (ps_sort ds)"
  have ks: "ks = map nd_pid ls" by (simp add: ks0 ls_def ds_def)
  have sls: "set ls = {n \<in> set ds. nd_depth n \<ge> 0 \<and> nd_pid n \<noteq> pid}" by (simp add: ls_def ps_sort_def)
  have "set ks = {p. ps_below es pid p}" using settled_exact [OF d dis] by (simp add: ks sls)
  moreover have "distinct (map nd_pid (ps_sort ds))" using dis by (simp add: ps_sort_def distinct_map)
  then have "distinct ks" unfolding ks ls_def by (rule distinct_map_filter)
  moreover have "sorted (map (\<lambda>n. (- nd_depth n, nd_pid n)) ls)" unfolding ls_def ps_sort_def by (rule sorted_filter) simp
  then have "i < j" if ij: "i < length ks" "j < length ks" "(ks ! i, ks ! j) \<in> set es" for i j
  proof (rule_tac ccontr)
    assume s: "sorted (map (\<lambda>n. (- nd_depth n, nd_pid n)) ls)" and "\<not> i < j"
    then have "(- nd_depth (ls ! j), nd_pid (ls ! j)) \<le> (- nd_depth (ls ! i), nd_pid (ls ! i))" using ij(1,2) sorted_nth_mono [OF s, of j i] by (simp add: ks)
    then have "nd_depth (ls ! i) \<le> nd_depth (ls ! j)" by (auto simp: less_eq_prod_def)
    moreover have m: "ls ! i \<in> set ls" "ls ! j \<in> set ls" using ij(1,2) by (simp_all add: ks)
    then have "nd_depth (ls ! i) = nd_depth (ls ! j) + 1" using child_deeper [OF d(1) dis, of "ls ! i" "ls ! j"] ij unfolding sls by (simp add: ks)
    ultimately show False by simp
  qed
  ultimately show ?thesis by (simp add: es_def)
qed

lemma attempts_exact:
  "fold (ps_attempt os code) ps (r, tried) =
    (\<lparr>pk_killed = pk_killed r @ List.filter (\<lambda>p. ps_kill_one os p code = None) ps,
      pk_failed = pk_failed r @ List.map_filter (\<lambda>p. map_option (Pair p) (ps_kill_one os p code)) ps\<rparr>, tried @ ps)"
  by (induction ps arbitrary: r tried) (simp_all add: ps_attempt_def map_filter_simps split: option.splits)

lemma ps_tree_fits:
  assumes "po_snapshot os" "po_end os = ERROR_NO_MORE_FILES" "\<forall>c. po_realloc os c" "length (po_entries os) < 2 ^ 32"
  shows "\<exists>ks. ps_tree os pid = Inr ks"
proof -
  obtain ns where "ps_nodes os pid (po_entries os) 0 [] = Inr ns" using ps_nodes_fits [of os "[]" "po_entries os" 0 pid] assms(3,4) by auto
  then show ?thesis using assms(1,2) by (simp add: ps_tree_def)
qed

lemma below_not_system: "ps_below es root p \<Longrightarrow> p \<noteq> 0 \<and> p \<noteq> 4 \<and> p \<noteq> root"
  by (induction rule: ps_below.induct) simp_all

lemma kill_tree_cases:
  assumes "ps_kill_cmd os pid [''-tree''] = (v, tried)"
  shows "(\<exists>e. v = Inl e \<and> tried = [] \<and> (pid \<in> {0, 4} \<or> (\<exists>x. ps_tree os pid = Inl x))) \<or>
    (\<exists>ks. ps_tree os pid = Inr ks \<and> pid \<notin> {0, 4} \<and> tried = ks @ [pid] \<and>
       v = Inr (PsKilled \<lparr>pk_killed = List.filter (\<lambda>p. ps_kill_one os p 1 = None) tried,
         pk_failed = List.map_filter (\<lambda>p. map_option (Pair p) (ps_kill_one os p 1)) tried\<rparr>))"
proof (cases "pid \<in> {0, 4} \<or> (\<exists>x. ps_tree os pid = Inl x)")
  case True
  then show ?thesis using assms by (auto simp: ps_kill_cmd_def split: if_splits)
next
  case False
  then obtain ks where ks: "ps_tree os pid = Inr ks" by (cases "ps_tree os pid") auto
  define none where "none = (\<lparr>pk_killed = [], pk_failed = []\<rparr>, [] :: nat list)"
  define r where "r = \<lparr>pk_killed = List.filter (\<lambda>p. ps_kill_one os p 1 = None) (ks @ [pid]),
         pk_failed = List.map_filter (\<lambda>p. map_option (Pair p) (ps_kill_one os p 1)) (ks @ [pid])\<rparr>"
  have all: "ps_attempt os 1 pid (fold (ps_attempt os 1) ks none) = (r, ks @ [pid])"
    using attempts_exact [of os 1 "ks @ [pid]" "fst none" "snd none"] by (simp add: none_def r_def)
  obtain r0 t0 where f: "fold (ps_attempt os 1) ks none = (r0, t0)" by (rule prod.exhaust)
  then have t: "fst (ps_attempt os 1 pid (r0, t0)) = r" "t0 @ [pid] = ks @ [pid]" using all by (simp_all add: ps_attempt_def)
  have "ps_kill_cmd os pid [''-tree''] = (Inr (PsKilled r), ks @ [pid])"
    unfolding ps_kill_cmd_def Let_def using False ks f [unfolded none_def] t by (cases "ps_kill_one os pid 1") simp_all
  then show ?thesis using assms ks False by (auto simp: r_def)
qed

section \<open>Properties\<close>

text \<open>C24: \<^verbatim>\<open>mtps kill pid -tree\<close> terminates exactly the processes that the snapshot shows below the root, each once, a
  child before its parent and the root last, and never a system process; the answer divides the attempts, in
  their order, into the killed and the failed. Every error comes before the first attempt, and a snapshot that
  is read to its end within the memory gives an answer.
\<close>

theorem ps_tree_exact:
  assumes "ps_kill_cmd os pid [''-tree''] = (v, tried)" "distinct (map pe_pid (po_entries os))"
  shows "case v of
      Inl e \<Rightarrow> tried = [] \<and> (pid \<in> {0, 4} \<or> \<not> po_snapshot os \<or> po_end os \<noteq> ERROR_NO_MORE_FILES \<or>
        (\<exists>c. \<not> po_realloc os c) \<or> length (po_entries os) \<ge> 2 ^ 32)
    | Inr a \<Rightarrow> pid \<notin> {0, 4} \<and> (\<exists>ks. tried = ks @ [pid] \<and> distinct tried \<and> 0 \<notin> set tried \<and> 4 \<notin> set tried \<and>
        set ks = {p. ps_below (snapshot_edges os) pid p} \<and>
        (\<forall>i<length ks. \<forall>j<length ks. (ks ! i, ks ! j) \<in> set (snapshot_edges os) \<longrightarrow> i < j)) \<and>
        a = PsKilled \<lparr>pk_killed = List.filter (\<lambda>p. ps_kill_one os p 1 = None) tried,
          pk_failed = List.map_filter (\<lambda>p. map_option (Pair p) (ps_kill_one os p 1)) tried\<rparr>"
  using kill_tree_cases [OF assms(1)]
proof (elim disjE exE conjE)
  fix e assume "v = Inl e" "tried = []" "pid \<in> {0, 4}"
  then show ?thesis using ps_tree_fits [of os pid] by (auto simp: not_le)
next
  fix e x assume e: "v = Inl e" "tried = []" "ps_tree os pid = Inl x"
  have "\<not> po_snapshot os \<or> po_end os \<noteq> ERROR_NO_MORE_FILES \<or> \<not> (\<forall>c. po_realloc os c) \<or> \<not> length (po_entries os) < 2 ^ 32"
    using ps_tree_fits [of os pid] e(3) by (metis Inr_not_Inl)
  then show ?thesis using e(1,2) by (simp add: not_less)
next
  fix ks
  assume k: "ps_tree os pid = Inr ks" "pid \<notin> {0, 4}" "tried = ks @ [pid]"
    "v = Inr (PsKilled \<lparr>pk_killed = List.filter (\<lambda>p. ps_kill_one os p 1 = None) tried,
         pk_failed = List.map_filter (\<lambda>p. map_option (Pair p) (ps_kill_one os p 1)) tried\<rparr>)"
  note f = ps_tree_facts [OF k(1) assms(2)]
  have "0 \<notin> set ks \<and> 4 \<notin> set ks \<and> pid \<notin> set ks" using f below_not_system by blast
  then have "distinct tried \<and> 0 \<notin> set tried \<and> 4 \<notin> set tried" using f k(2,3) by simp
  then show ?thesis using f k by auto
qed

definition demo_ps :: ps_os where
  "demo_ps = \<lparr>po_text = \<lparr>tx_wide = (\<lambda>_. None), tx_utf8 = (\<lambda>_. None), tx_malloc = (\<lambda>_. True)\<rparr>, po_snapshot = True,
     po_entries = map (\<lambda>(p, q). \<lparr>pe_pid = p, pe_ppid = q, pe_name = [], pe_threads = 1\<rparr>) [(4, 0), (9, 7), (7, 5), (5, 4), (8, 5), (3, 4)],
     po_end = ERROR_NO_MORE_FILES, po_proc = (\<lambda>_. None),
     po_kill = (\<lambda>p. \<lparr>pk_both = True, pk_only = None, pk_terminate = (\<lambda>_. p \<noteq> 8), pk_exit = Some STILL_ACTIVE\<rparr>),
     po_realloc = (\<lambda>_. True), po_wide = (\<lambda>_. None)\<rparr>"

definition demo_nodes :: "ps_node list" where
  "demo_nodes = map (\<lambda>(p, q, d). \<lparr>nd_pid = p, nd_ppid = q, nd_depth = d\<rparr>) [(4, 0, -1), (9, 7, -1), (7, 5, -1), (5, 4, 0), (8, 5, -1), (3, 4, -1)]"

lemma demo_ps_tree: "ps_tree demo_ps 5 = Inr [9, 7, 8]"
proof -
  have "ps_nodes demo_ps 5 (po_entries demo_ps) 0 [] = Inr demo_nodes" by (simp add: demo_ps_def demo_nodes_def Let_def)
  moreover have "map nd_pid (List.filter (\<lambda>n. nd_depth n \<ge> 0 \<and> nd_pid n \<noteq> 5) (ps_sort (ps_depths 6 demo_nodes))) = [9, 7, 8]" by code_simp
  moreover have "length demo_nodes = 6" by (simp add: demo_nodes_def)
  moreover have "po_snapshot demo_ps" "po_end demo_ps = ERROR_NO_MORE_FILES" by (simp_all add: demo_ps_def)
  ultimately show ?thesis by (simp add: ps_tree_def)
qed

lemma demo_ps_kill:
  "ps_kill_cmd demo_ps 5 [''-tree''] = (Inr (PsKilled \<lparr>pk_killed = [9, 7, 5], pk_failed = [(8, ''denied'')]\<rparr>), [9, 7, 8, 5])"
proof -
  have "ps_kill_one demo_ps p 1 = (if p = 8 then Some ''denied'' else None)" for p by (simp add: ps_kill_one_def demo_ps_def)
  then show ?thesis by (simp add: ps_kill_cmd_def demo_ps_tree ps_attempt_def)
qed

lemma ps_tree_exact_witness:
  "{9, 7, 8} = {p. ps_below (snapshot_edges demo_ps) 5 p} \<and> (9, 7) \<in> set (snapshot_edges demo_ps)"
proof -
  have "distinct (map pe_pid (po_entries demo_ps))" by (simp add: demo_ps_def)
  from ps_tree_exact [OF demo_ps_kill this] have "set [9, 7, 8] = {p. ps_below (snapshot_edges demo_ps) 5 p}" by auto
  then show ?thesis by (simp add: snapshot_edges_def demo_ps_def)
qed

end
