(* ===== verification/DirsPath.thy ===== *)
theory DirsPath
  imports TclValue Utf8 Bytes
begin

text \<open>
  Paths and links of \<^verbatim>\<open>src/dirs.c\<close>: the extended-length prefix of a root and its removal, joining, the
  decision which reparse points are names, the parse of a reparse payload, and the verb \<^verbatim>\<open>canon\<close>.

  Windows, the heap and Tcl's matcher are the environment. Other programs change the file system while a verb
  runs, so the environment is a function from moments to answers: every call, and every group of calls that the
  code makes on one object in a row, is answered at a moment of its own.
\<close>

section \<open>The environment\<close>

text \<open>
  A directory stream: whether the first query fails with a buffer of a size, the buffers (of that size) that the
  queries fill, and the error of the query after the last of them. A stream is finite.
\<close>

record dirs_stream =
  ds_first :: "nat \<Rightarrow> nat option"
  ds_batches :: "nat \<Rightarrow> string list"
  ds_last :: nat

datatype nlinks_answer = LinksOpen nat | LinksQuery nat | LinksCount nat

record file_info =
  fi_attributes :: dword
  fi_volume :: dword
  fi_index_high :: dword
  fi_index_low :: dword
  fi_links :: nat

text \<open>
  One moment. A handle is known by the path and by whether it was opened to follow a reparse point; the error of
  an open is \<open>Some\<close> code. \<open>dn_reparse\<close> is the payload buffer with the number of bytes Windows filled. The two
  calls that copy a path into a buffer of a size answer the count they return and the text.
\<close>

record dirs_now =
  dn_text :: text_env
  dn_malloc :: "nat \<Rightarrow> bool"
  dn_open :: "wstr \<Rightarrow> bool \<Rightarrow> nat option"
  dn_tag :: "wstr \<Rightarrow> bool \<Rightarrow> nat + dword \<times> dword"
  dn_stream :: "wstr \<Rightarrow> bool \<Rightarrow> dirs_stream"
  dn_nlinks :: "wstr \<Rightarrow> nlinks_answer"
  dn_reparse :: "wstr \<Rightarrow> bool \<Rightarrow> (string \<times> nat) option"
  dn_message :: "nat \<Rightarrow> wstr option"
  dn_match :: "cstr \<Rightarrow> cstr \<Rightarrow> bool"
  dn_fullpath :: "wstr \<Rightarrow> nat \<Rightarrow> nat \<times> wstr"
  dn_find :: "wstr \<Rightarrow> (dword \<times> dword) option"
  dn_info :: "wstr \<Rightarrow> file_info option"
  dn_final :: "wstr \<Rightarrow> nat \<Rightarrow> nat \<times> wstr"

type_synonym dirs_env = "nat \<Rightarrow> dirs_now"

abbreviation dirs_error :: "string \<Rightarrow> string \<Rightarrow> mt_error" where
  "dirs_error code msg \<equiv> MtError ''DIRS'' code msg"

text \<open>What a reader of a C string sees of a buffer.\<close>

definition c_str :: "string \<Rightarrow> cstr" where
  "c_str s = takeWhile (\<lambda>c. c \<noteq> NUL) s"

section \<open>Reparse tags\<close>

definition FILE_ATTRIBUTE_DIRECTORY :: dword where "FILE_ATTRIBUTE_DIRECTORY = 0x10"
definition FILE_ATTRIBUTE_REPARSE_POINT :: dword where "FILE_ATTRIBUTE_REPARSE_POINT = 0x400"

definition DIRS_SURROGATE :: dword where "DIRS_SURROGATE = 0x20000000"
definition DIRS_TAG_DFS :: dword where "DIRS_TAG_DFS = 0x8000000A"
definition DIRS_TAG_DFSR :: dword where "DIRS_TAG_DFSR = 0x80000012"
definition IO_REPARSE_TAG_SYMLINK :: nat where "IO_REPARSE_TAG_SYMLINK = 0xA000000C"
definition IO_REPARSE_TAG_MOUNT_POINT :: nat where "IO_REPARSE_TAG_MOUNT_POINT = 0xA0000003"

definition dirs_surrogate :: "dword \<Rightarrow> bool" where
  "dirs_surrogate tag \<longleftrightarrow> and tag DIRS_SURROGATE \<noteq> 0"

definition dirs_isname :: "dword \<Rightarrow> bool" where
  "dirs_isname tag \<longleftrightarrow> dirs_surrogate tag \<or> tag = DIRS_TAG_DFS \<or> tag = DIRS_TAG_DFSR"

definition links_type :: "dword \<Rightarrow> bool \<Rightarrow> string option" where
  "links_type tag isdir =
    (if unat tag = IO_REPARSE_TAG_SYMLINK then Some (if isdir then ''directory symlink'' else ''file symlink'')
     else if unat tag = IO_REPARSE_TAG_MOUNT_POINT then Some ''junction''
     else None)"

section \<open>Joining and showing paths\<close>

text \<open>A path is a wide C string: a name with a zero unit ends it.\<close>

definition dirs_join :: "dirs_now \<Rightarrow> wstr \<Rightarrow> wstr \<Rightarrow> wstr option" where
  "dirs_join now parent name =
    (let sep = (if parent \<noteq> [] \<and> last parent \<noteq> 92 then [92] else []) in
     if \<not> dn_malloc now ((length parent + length sep + length name + 1) * 2) then None
     else Some (wcs (parent @ sep @ name)))"

definition to_slash :: "cstr \<Rightarrow> cstr" where
  "to_slash s = map (\<lambda>c. if c = BS then CHR ''/'' else c) s"

definition dirs_strip :: "dirs_now \<Rightarrow> wstr \<Rightarrow> bool \<Rightarrow> cstr option" where
  "dirs_strip now w unc =
    (case to_utf8 (dn_text now) (List.drop (if unc then 8 else 4) w) (- 1) of
       None \<Rightarrow> None
     | Some tail \<Rightarrow>
         if unc then (if dn_malloc now (length tail + 3) then Some (to_slash (''//'' @ c_str tail)) else None)
         else Some (to_slash (c_str tail)))"

definition dirs_reason :: "dirs_now \<Rightarrow> nat \<Rightarrow> cstr option" where
  "dirs_reason now e =
    (case dn_message now e of
       None \<Rightarrow> None
     | Some m \<Rightarrow>
         if m = [] then None
         else let t = rev (dropWhile (\<lambda>u. u = 13 \<or> u = 10 \<or> u = 32) (rev m))
              in map_option c_str (to_utf8 (dn_text now) t (int (length t))))"

section \<open>The target of a link\<close>

text \<open>
  The payload is read field by field from the bytes of the buffer: the tag at 0, the offset and the length of the
  substitute name at 8 and 10, the flags of a symbolic link at 16, and the names behind a header of 20 or 16 bytes.
\<close>

definition word_at :: "string \<Rightarrow> nat \<Rightarrow> nat" where
  "word_at b i = byte_of (b ! i) + 256 * byte_of (b ! (i + 1))"

definition links_payload :: "string \<Rightarrow> nat \<Rightarrow> (wstr \<times> bool) option" where
  "links_payload raw got =
    (if got < 4 then None
     else
       let tag = dword_at raw 0; symlink = (tag = IO_REPARSE_TAG_SYMLINK); hdr = (if symlink then 20 else 16) in
       if \<not> symlink \<and> tag \<noteq> IO_REPARSE_TAG_MOUNT_POINT then None
       else if got < hdr then None
       else
         let off = word_at raw 8; len = word_at raw 10; relative = (symlink \<and> odd (dword_at raw 16)) in
         if hdr + off + len > got then None
         else Some (wide_of (take len (List.drop (hdr + off) raw)), relative))"

definition links_target :: "dirs_now \<Rightarrow> wstr \<Rightarrow> bool \<Rightarrow> cstr option" where
  "links_target now path isdir =
    (case dn_reparse now path isdir of
       None \<Rightarrow> None
     | Some (raw, got) \<Rightarrow>
         if \<not> dn_malloc now 16384 then None
         else case links_payload raw got of
           None \<Rightarrow> None
         | Some (name, relative) \<Rightarrow>
             let nt = (\<not> relative \<and> take 4 name = [92, 63, 63, 92]); name = (if nt then List.drop 4 name else name) in
             if nt \<and> length name \<ge> 4 \<and> name ! 0 \<in> {85, 117} \<and> name ! 1 \<in> {78, 110} \<and> name ! 2 \<in> {67, 99} \<and> name ! 3 = 92 then
               (case to_utf8 (dn_text now) (List.drop 3 name) (int (length name) - 3) of
                  None \<Rightarrow> None
                | Some tail \<Rightarrow> if dn_malloc now (length (c_str tail) + 2) then Some (BS # c_str tail) else None)
             else map_option c_str (to_utf8 (dn_text now) name (int (length name))))"

section \<open>The root\<close>

text \<open>Does a component end in a dot or a space (and is not one of the two dot names)? \<open>seg\<close> is the component so far.\<close>

definition dirs_bad_segment :: "wstr \<Rightarrow> bool" where
  "dirs_bad_segment seg \<longleftrightarrow> seg \<noteq> [] \<and> seg \<noteq> [46] \<and> seg \<noteq> [46, 46] \<and> (last seg = 46 \<or> last seg = 32)"

fun dirs_bad_component :: "wstr \<Rightarrow> wstr \<Rightarrow> bool" where
  "dirs_bad_component seg [] = dirs_bad_segment seg"
| "dirs_bad_component seg (c # cs) =
    (if c = 92 \<or> c = 47 then dirs_bad_segment seg \<or> dirs_bad_component [] cs else dirs_bad_component (seg @ [c]) cs)"

definition dirs_prefixed :: "wstr \<Rightarrow> bool" where
  "dirs_prefixed w \<longleftrightarrow> take 4 w = [92, 92, 63, 92]"

text \<open>Trailing separators come off, but a drive root keeps its own.\<close>

function dirs_trim :: "bool \<Rightarrow> wstr \<Rightarrow> wstr" where
  "dirs_trim already full =
    (if length full > 1 \<and> last full = 92 \<and>
        \<not> (length full = 3 \<and> full ! 1 = 58) \<and> \<not> (already \<and> length full = 7 \<and> full ! 5 = 58)
     then dirs_trim already (butlast full) else full)"
  by pat_completeness auto
termination by (relation "measure (\<lambda>(a, f). length f)") auto

declare dirs_trim.simps [simp del]

definition wide_upper :: "16 word \<Rightarrow> 16 word" where
  "wide_upper u = (if 97 \<le> u \<and> u \<le> 122 then u - 32 else u)"

definition UNC_PREFIX :: wstr where "UNC_PREFIX = [92, 92, 63, 92, 85, 78, 67, 92]"

definition dirs_full :: "dirs_env \<Rightarrow> nat \<Rightarrow> wstr \<Rightarrow> wstr res" where
  "dirs_full os t raw =
    (let need = fst (dn_fullpath (os t) raw 0) in
     if need = 0 then Inl (dirs_error ''badvalue'' ''the root is not a usable path'')
     else if \<not> dn_malloc (os t) (need * 2) then Inl (dirs_error ''badvalue'' ''out of memory'')
     else case dn_fullpath (os (t + 1)) raw need of
       (got, text) \<Rightarrow>
         if got = 0 \<or> got \<ge> need then Inl (dirs_error ''badvalue'' ''the root is not a usable path'')
         else Inr (wcs (take got text)))"

text \<open>The answer is the prefixed root and whether it is a network path. Moments \<open>t\<close> to \<open>t + 3\<close> are used.\<close>

definition dirs_prefix :: "dirs_env \<Rightarrow> nat \<Rightarrow> cstr \<Rightarrow> (wstr \<times> bool) res" where
  "dirs_prefix os t given =
    (if given = [] then Inl (dirs_error ''badvalue'' ''the root must not be empty'')
     else if (case given of
         c # d # rest \<Rightarrow> (in_range CHR ''A'' CHR ''Z'' c \<or> in_range CHR ''a'' CHR ''z'' c) \<and> d = CHR '':'' \<and>
           (rest = [] \<or> hd rest \<noteq> BS \<and> hd rest \<noteq> CHR ''/'')
       | _ \<Rightarrow> False) then
       Inl (dirs_error ''badvalue'' ''a drive-relative root resolves against hidden per-drive state -- write C:/ instead of C:'')
     else if take 4 given = [BS, BS, CHR ''.'', BS] \<or> take 4 given = ''//./'' then
       Inl (dirs_error ''badvalue'' ''a device path is not a directory tree'')
     else case map_option wcs (to_wide (dn_text (os t)) given) of
       None \<Rightarrow> Inl (dirs_error ''badvalue'' ''the root is not valid text'')
     | Some raw \<Rightarrow>
         bind_res
           (if dirs_prefixed raw then Inr raw
            else if dirs_bad_component [] raw then
              Inl (dirs_error ''badvalue'' (''a path component ending in '.' or a space is rewritten by Win32 normalisation and would name a different directory -- spell the root '' @
                [BS, BS] @ ''?'' @ [BS] @ ''C:'' @ [BS] @ ''... to reach it''))
            else dirs_full os (t + 1) raw)
           (\<lambda>full.
             let already = dirs_prefixed full; full = dirs_trim already full in
             if already then Inr (full, map wide_upper (take 8 full) = UNC_PREFIX)
             else if take 2 full = [92, 92] then
               (if dn_malloc (os (t + 3)) ((length full + 8) * 2) then Inr (butlast UNC_PREFIX @ tl full, True)
                else Inl (dirs_error ''badvalue'' ''out of memory''))
             else
               (if dn_malloc (os (t + 3)) ((length full + 5) * 2) then Inr ([92, 92, 63, 92] @ full, False)
                else Inl (dirs_error ''badvalue'' ''out of memory''))))"

section \<open>The verb \<^verbatim>\<open>canon\<close>\<close>

definition hex_text_of :: "nat \<Rightarrow> nat \<Rightarrow> string" where
  "hex_text_of digits n = map (\<lambda>i. hex_digit (n div 16 ^ i mod 16)) (rev [0..<digits])"

record canon_row =
  cn_path :: cstr
  cn_volume :: string
  cn_file :: string
  cn_kind :: string
  cn_links :: nat

text \<open>After the root (moments 0 to 3), one moment per call.\<close>

definition CanonCmd :: "dirs_env \<Rightarrow> tvalue list \<Rightarrow> canon_row res" where
  "CanonCmd os objv =
    (if length objv \<noteq> 1 then Inl WrongNumArgs
     else bind_res (dirs_prefix os 0 (vtext (objv ! 0))) (\<lambda>(pathw, _).
       case dn_open (os 4) pathw True of
         Some e \<Rightarrow>
           if dn_open (os 5) pathw False = None then
             Inl (dirs_error ''dangling'' ''the path exists but its target cannot be resolved'')
           else if e = 5 then Inl (dirs_error ''oserror'' ''the path cannot be opened'')
           else Inl (dirs_error ''notfound'' ''no such path'')
       | None \<Rightarrow>
           (case dn_info (os 6) pathw of
              None \<Rightarrow> Inl (dirs_error ''oserror'' ''the path could not be identified'')
            | Some fi \<Rightarrow>
                let need = fst (dn_final (os 7) pathw 0) in
                if need = 0 then Inl (dirs_error ''oserror'' ''the path could not be canonicalised'')
                else if \<not> dn_malloc (os 7) ((need + 1) * 2) then Inl (dirs_error ''oserror'' ''out of memory'')
                else case dn_final (os 8) pathw need of
                  (wrote, text) \<Rightarrow>
                    if wrote = 0 \<or> wrote \<ge> need + 1 then Inl (dirs_error ''oserror'' ''the path could not be canonicalised'')
                    else
                      let finalw = wcs (take wrote text) in
                      case dirs_strip (os 9) finalw (take 8 finalw = UNC_PREFIX) of
                        None \<Rightarrow> Inl (dirs_error ''oserror'' ''the path is not representable'')
                      | Some shown \<Rightarrow> Inr \<lparr>cn_path = shown, cn_volume = hex_text_of 16 (unat (fi_volume fi)),
                          cn_file = hex_text_of 16 (unat (fi_index_high fi) * 2 ^ 32 + unat (fi_index_low fi)),
                          cn_kind = (if and (fi_attributes fi) FILE_ATTRIBUTE_DIRECTORY \<noteq> 0 then ''directory'' else ''file''),
                          cn_links = fi_links fi\<rparr>)))"

section \<open>Bounds\<close>

lemma take_same_nth: "take n xs = take n ys \<Longrightarrow> i < n \<Longrightarrow> xs ! i = ys ! i"
  by (metis nth_take)

lemma take_same_slice:
  assumes "take n xs = take n ys" "m + k \<le> n"
  shows "take k (List.drop m xs) = take k (List.drop m ys)"
proof -
  have "take (m + k) xs = take (m + k) ys" using assms by (metis min.absorb1 take_take)
  then show ?thesis by (simp add: take_drop add.commute [of k m])
qed

text \<open>C38: The parse of a reparse payload depends only on the bytes that Windows filled: whatever the rest of the
  buffer holds, and whatever offsets and lengths a file system puts into the payload, the answer is the same, and
  a target is at most as long as the payload. So no field is read before it is known to be there, and no name
  outside.\<close>

theorem links_payload_bounded:
  assumes "take got raw = take got raw'" "got \<le> length raw"
  shows "links_payload raw got = links_payload raw' got \<and>
    (\<forall>name relative. links_payload raw got = Some (name, relative) \<longrightarrow> 16 + 2 * length name \<le> got)"
proof -
  have b: "raw ! i = raw' ! i" if "i < got" for i using take_same_nth [OF assms(1) that] .
  have d: "dword_at raw i = dword_at raw' i" if "i + 3 < got" for i using that b by (simp add: dword_at_def)
  have w: "word_at raw i = word_at raw' i" if "i + 1 < got" for i using that b by (simp add: word_at_def)
  have same: "links_payload raw got = links_payload raw' got"
  proof (cases "got < 16")
    case True
    then show ?thesis using d [of 0] by (simp add: links_payload_def Let_def)
  next
    case False
    have s: "hdr + word_at raw 8 + word_at raw 10 \<le> got \<Longrightarrow> take (word_at raw 10) (List.drop (hdr + word_at raw 8) raw) =
        take (word_at raw 10) (List.drop (hdr + word_at raw 8) raw')" for hdr
      using take_same_slice [OF assms(1)] by (simp add: add.assoc)
    show ?thesis using False d [of 0] d [of 16] w [of 8] w [of 10] s [of 16] s [of 20] by (auto simp: links_payload_def Let_def)
  qed
  have len: "2 * length (wide_of t) \<le> length t" for t by (induction t rule: wide_of.induct) auto
  have "16 + 2 * length name \<le> got" if p: "links_payload raw got = Some (name, relative)" for name relative
  proof -
    obtain hdr where h: "16 \<le> hdr" "hdr + word_at raw 8 + word_at raw 10 \<le> got" "name = wide_of (take (word_at raw 10) (List.drop (hdr + word_at raw 8) raw))"
      using p that [of 16] that [of 20] by (auto simp: links_payload_def Let_def split: if_splits)
    have "2 * length name \<le> word_at raw 10" using len [of "take (word_at raw 10) (List.drop (hdr + word_at raw 8) raw)"] h(3) by simp
    then show ?thesis using h(1,2) by linarith
  qed
  then show ?thesis using same by blast
qed

definition demo_payload :: string where
  "demo_payload = [CHR 0x03, NUL, NUL, CHR 0xA0, CHR 0x0C, NUL, NUL, NUL, NUL, NUL, CHR 0x04, NUL, CHR 0x06, NUL, NUL, NUL, CHR 0x43, NUL, CHR 0x3A, NUL]"

lemma demo_payload_facts: "length demo_payload = 20" "links_payload demo_payload 20 = Some ([67, 58], False)"
proof -
  show "length demo_payload = 20" by (simp add: demo_payload_def)
  have "dword_at demo_payload 0 = IO_REPARSE_TAG_MOUNT_POINT" by (simp add: demo_payload_def dword_at_def IO_REPARSE_TAG_MOUNT_POINT_def)
  moreover have "word_at demo_payload 8 = 0" "word_at demo_payload 10 = 4" by (simp_all add: demo_payload_def word_at_def)
  moreover have "wide_of (take 4 (List.drop 16 demo_payload)) = [67, 58]" by (simp add: demo_payload_def)
  ultimately show "links_payload demo_payload 20 = Some ([67, 58], False)"
    by (simp add: links_payload_def IO_REPARSE_TAG_MOUNT_POINT_def IO_REPARSE_TAG_SYMLINK_def)
qed

lemma links_payload_bounded_witness: "links_payload (demo_payload @ ''junk'') 20 = Some ([67, 58], False)"
proof -
  have "take 20 demo_payload = take 20 (demo_payload @ ''junk'')" by (simp add: demo_payload_facts(1))
  from links_payload_bounded [OF this] show ?thesis by (simp add: demo_payload_facts)
qed

end
