(* ===== verification/Dirs.thy ===== *)
theory Dirs
  imports DirsPath "HOL-Library.Multiset"
begin

text \<open>
  The walk of \<^verbatim>\<open>src/dirs.c\<close>: the enumeration of one directory, one turn of the loop over the stack, and the
  verbs \<^verbatim>\<open>dirs\<close> and \<^verbatim>\<open>links\<close>. The state is the struct \<^verbatim>\<open>DirsWalk\<close> with the moment that comes next
  and the number of directory handles that are open. The top of the stack is the head of the list.
\<close>

section \<open>State\<close>

datatype dirs_mode = DirsMode | LinksMode

record link_row =
  lr_path :: cstr
  lr_tag :: dword
  lr_surrogate :: bool
  lr_action :: string

record err_row =
  er_path :: cstr
  er_win32 :: nat
  er_reason :: cstr

record entry_row =
  en_path :: cstr
  en_type :: string
  en_target :: cstr
  en_tag :: dword

record dirs_w =
  dw_paths :: "cstr list"
  dw_links :: "link_row list"
  dw_errors :: "err_row list"
  dw_count :: nat
  dw_pruned :: nat
  dw_depthlimited :: nat
  dw_maxdepth :: nat
  dw_depthcap :: int
  dw_unc :: bool
  dw_prune :: "cstr list"
  dw_mode :: dirs_mode
  dw_hardlinks :: bool
  dw_entries :: "entry_row list"
  dw_multi :: "(cstr \<times> nat) list"
  dw_entered :: "link_row list"
  dw_files :: nat
  dw_multilink :: nat
  dw_now :: nat
  dw_handles :: int

record dirs_item =
  di_path :: wstr
  di_depth :: nat
  di_reparse :: bool
  di_tag :: dword
  di_surrogate :: bool
  di_noenter :: bool
  di_pruned :: bool

record dirs_child =
  dc_name :: cstr
  dc_wname :: wstr
  dc_tag :: dword
  dc_reparse :: bool
  dc_surrogate :: bool
  dc_noenter :: bool
  dc_pruned :: bool

definition dirs_init :: "dirs_mode \<Rightarrow> dirs_w" where
  "dirs_init mode = \<lparr>dw_paths = [], dw_links = [], dw_errors = [], dw_count = 0, dw_pruned = 0, dw_depthlimited = 0,
     dw_maxdepth = 0, dw_depthcap = - 1, dw_unc = False, dw_prune = [], dw_mode = mode, dw_hardlinks = False,
     dw_entries = [], dw_multi = [], dw_entered = [], dw_files = 0, dw_multilink = 0, dw_now = 0, dw_handles = 0\<rparr>"

definition dirs_tick :: "dirs_w \<Rightarrow> dirs_w" where
  "dirs_tick w = w\<lparr>dw_now := dw_now w + 1\<rparr>"

abbreviation dirs_at :: "dirs_env \<Rightarrow> dirs_w \<Rightarrow> dirs_now" where
  "dirs_at os w \<equiv> os (dw_now w)"

definition opt_text :: "cstr option \<Rightarrow> cstr" where
  "opt_text s = (case s of None \<Rightarrow> [] | Some t \<Rightarrow> t)"

section \<open>Rows\<close>

definition ERR_ACCESS_DENIED :: nat where "ERR_ACCESS_DENIED = 5"
definition ERR_NOT_ENOUGH_MEMORY :: nat where "ERR_NOT_ENOUGH_MEMORY = 8"
definition ERR_INVALID_DATA :: nat where "ERR_INVALID_DATA = 13"
definition ERR_NO_MORE_FILES :: nat where "ERR_NO_MORE_FILES = 18"
definition ERR_NOT_SUPPORTED :: nat where "ERR_NOT_SUPPORTED = 50"
definition ERR_NO_TRANSLATION :: nat where "ERR_NO_TRANSLATION = 1113"

definition dirs_fault :: "dirs_env \<Rightarrow> wstr \<Rightarrow> nat \<Rightarrow> dirs_w \<Rightarrow> dirs_w" where
  "dirs_fault os path e w =
    (let now = dirs_at os w in
     (dirs_tick w)\<lparr>dw_errors := dw_errors w @ [\<lparr>er_path = opt_text (dirs_strip now path (dw_unc w)), er_win32 = e,
        er_reason = opt_text (dirs_reason now e)\<rparr>]\<rparr>)"

definition dirs_faults :: "dirs_env \<Rightarrow> wstr \<Rightarrow> nat \<Rightarrow> nat \<Rightarrow> dirs_w \<Rightarrow> dirs_w" where
  "dirs_faults os path e n w = (dirs_fault os path e ^^ n) w"

text \<open>An answer of zero links is a failure, with the error to report.\<close>

definition links_nlinks :: "dirs_now \<Rightarrow> wstr \<Rightarrow> nat \<times> nat" where
  "links_nlinks now path =
    (case dn_nlinks now path of
       LinksOpen e \<Rightarrow> (0, e)
     | LinksQuery e \<Rightarrow> (0, if e \<noteq> 0 then e else ERR_ACCESS_DENIED)
     | LinksCount n \<Rightarrow> (n, if n = 0 then ERR_ACCESS_DENIED else 0))"

definition links_record :: "dirs_env \<Rightarrow> wstr \<Rightarrow> cstr option \<Rightarrow> dword \<Rightarrow> bool \<Rightarrow> dirs_w \<Rightarrow> dirs_w" where
  "links_record os full shown tag isdir w =
    (let ty = links_type tag isdir; target = links_target (dirs_at os w) full isdir;
         w = (dirs_tick w)\<lparr>dw_entries := dw_entries w @ [\<lparr>en_path = opt_text shown, en_type = opt_text ty,
                en_target = opt_text target, en_tag = tag\<rparr>]\<rparr>
     in if ty = None then dirs_fault os full ERR_NOT_SUPPORTED w
        else if target = None then dirs_fault os full ERR_INVALID_DATA w
        else w)"

section \<open>One directory\<close>

definition dot_name :: "wstr \<Rightarrow> bool" where
  "dot_name name \<longleftrightarrow> name = [46] \<or> name = [46, 46]"

definition dirs_reparse :: "dword \<Rightarrow> bool" where
  "dirs_reparse attrs \<longleftrightarrow> and attrs FILE_ATTRIBUTE_REPARSE_POINT \<noteq> 0"

text \<open>A file is dealt with when it is seen: its link row and, on request, its link count.\<close>

definition dirs_file :: "dirs_env \<Rightarrow> wstr \<Rightarrow> dword \<Rightarrow> dword \<Rightarrow> wstr \<Rightarrow> dirs_w \<Rightarrow> dirs_w" where
  "dirs_file os dir attrs ea name w =
    (if dw_mode w \<noteq> LinksMode then w
     else
       let w = w\<lparr>dw_files := dw_files w + 1\<rparr>; fileparse = dirs_reparse attrs; ftag = (if fileparse then ea else 0);
           named = (fileparse \<and> dirs_isname ftag)
       in if \<not> (named \<or> dw_hardlinks w) \<or> dot_name name then w
          else case dirs_join (dirs_at os w) dir name of
            None \<Rightarrow> dirs_fault os dir ERR_NOT_ENOUGH_MEMORY (dirs_tick w)
          | Some fp \<Rightarrow>
              let w = dirs_tick w; fshown = dirs_strip (dirs_at os w) fp (dw_unc w); w = dirs_tick w;
                  w = (if named then links_record os fp fshown ftag False w else w)
              in if dw_hardlinks w \<and> \<not> fileparse then
                   (case links_nlinks (dirs_at os w) fp of
                      (nl, err) \<Rightarrow>
                        let w = dirs_tick w in
                        if nl = 0 then dirs_fault os fp err w
                        else if nl > 1 then w\<lparr>dw_multilink := dw_multilink w + 1, dw_multi := dw_multi w @ [(opt_text fshown, nl)]\<rparr>
                        else w)
                 else w)"

text \<open>The children of a directory so far, with the capacity of their array and the numbers of lost ones.\<close>

record dirs_kids =
  dk_kids :: "dirs_child list"
  dk_cap :: nat
  dk_bad :: nat
  dk_lost :: nat

definition dirs_subdir :: "dirs_now \<Rightarrow> cstr list \<Rightarrow> dword \<Rightarrow> dword \<Rightarrow> wstr \<Rightarrow> dirs_kids \<Rightarrow> dirs_kids" where
  "dirs_subdir now prune attrs ea name k =
    (let full = (length (dk_kids k) = dk_cap k); ncap = (if dk_cap k \<noteq> 0 then dk_cap k * 2 else 32) in
     if full \<and> \<not> dn_malloc now (ncap * 48) then k\<lparr>dk_lost := dk_lost k + 1\<rparr>
     else
       let k = (if full then k\<lparr>dk_cap := ncap\<rparr> else k) in
       case to_utf8 (dn_text now) name (int (length name)) of
         None \<Rightarrow> k\<lparr>dk_bad := dk_bad k + 1\<rparr>
       | Some s \<Rightarrow>
           if \<not> dn_malloc now ((length name + 1) * 2) then k\<lparr>dk_lost := dk_lost k + 1\<rparr>
           else
             let re = dirs_reparse attrs; tag = (if re then ea else 0) in
             k\<lparr>dk_kids := dk_kids k @ [\<lparr>dc_name = c_str s, dc_wname = name, dc_tag = tag, dc_reparse = re,
                 dc_surrogate = (re \<and> dirs_surrogate tag), dc_noenter = (re \<and> dirs_isname tag),
                 dc_pruned = list_ex (dn_match now (c_str s)) prune\<rparr>]\<rparr>)"

text \<open>The fields of \<^verbatim>\<open>FILE_ID_BOTH_DIR_INFO\<close> that the walk reads, by their offsets; the name starts at 104.\<close>

definition de_next :: "string \<Rightarrow> nat \<Rightarrow> nat" where "de_next buf off = dword_at buf off"
definition de_attrs :: "string \<Rightarrow> nat \<Rightarrow> dword" where "de_attrs buf off = word_of_nat (dword_at buf (off + 56))"
definition de_nlen :: "string \<Rightarrow> nat \<Rightarrow> nat" where "de_nlen buf off = dword_at buf (off + 60)"
definition de_ea :: "string \<Rightarrow> nat \<Rightarrow> dword" where "de_ea buf off = word_of_nat (dword_at buf (off + 64))"
definition de_name :: "string \<Rightarrow> nat \<Rightarrow> wstr" where "de_name buf off = wide_of (take (de_nlen buf off) (List.drop (off + 104) buf))"

definition dirs_entry :: "dirs_env \<Rightarrow> wstr \<Rightarrow> dword \<times> dword \<times> wstr \<Rightarrow> dirs_w \<times> dirs_kids \<Rightarrow> dirs_w \<times> dirs_kids" where
  "dirs_entry os dir = (\<lambda>(attrs, ea, name) (w, k).
    if and attrs FILE_ATTRIBUTE_DIRECTORY = 0 then (dirs_file os dir attrs ea name w, k)
    else if dot_name name then (w, k)
    else (dirs_tick w, dirs_subdir (dirs_at os w) (dw_prune w) attrs ea name k))"

text \<open>
  The chain of entries in a buffer: those read, and whether it leaves the buffer. The code treats each entry when
  it reads it; the chain does not depend on that treatment, so it is a list here.
\<close>

function dirs_chain :: "string \<Rightarrow> nat \<Rightarrow> bool \<times> (dword \<times> dword \<times> wstr) list" where
  "dirs_chain buf off =
    (if off + 104 > length buf then (True, [])
     else if odd (de_nlen buf off) then (True, [])
     else if off + 104 + de_nlen buf off > length buf then (True, [])
     else
       let e = (de_attrs buf off, de_ea buf off, de_name buf off); next = de_next buf off in
       if next = 0 then (False, [e])
       else if next mod 8 \<noteq> 0 \<or> next < 104 + de_nlen buf off \<or> next > length buf - off then (True, [e])
       else case dirs_chain buf (off + next) of (overrun, es) \<Rightarrow> (overrun, e # es))"
  by pat_completeness auto
termination by (relation "measure (\<lambda>(buf, off). length buf - off)") auto

declare dirs_chain.simps [simp del]

definition dirs_entries :: "dirs_env \<Rightarrow> wstr \<Rightarrow> string \<Rightarrow> dirs_w \<times> dirs_kids \<Rightarrow> bool \<times> dirs_w \<times> dirs_kids" where
  "dirs_entries os dir buf acc = (case dirs_chain buf 0 of (overrun, es) \<Rightarrow> (overrun, fold (dirs_entry os dir) es acc))"

fun dirs_batches :: "dirs_env \<Rightarrow> wstr \<Rightarrow> string list \<Rightarrow> dirs_w \<times> dirs_kids \<Rightarrow> bool \<times> dirs_w \<times> dirs_kids" where
  "dirs_batches os dir [] acc = (False, acc)"
| "dirs_batches os dir (b # bs) acc =
    (case dirs_entries os dir b acc of
       (True, acc) \<Rightarrow> (True, acc)
     | (False, acc) \<Rightarrow> dirs_batches os dir bs acc)"

definition DIRS_BUFSZ :: nat where "DIRS_BUFSZ = 65536"

text \<open>The buffer doubles, up to 16 MB, on either of two errors; a size is never 0.\<close>

function dirs_grow :: "dirs_now \<Rightarrow> (nat \<Rightarrow> nat option) \<Rightarrow> nat \<Rightarrow> nat \<times> nat option" where
  "dirs_grow now first bufsz =
    (case first bufsz of
       None \<Rightarrow> (bufsz, None)
     | Some e \<Rightarrow>
         if (e = 234 \<or> e = 24) \<and> 0 < bufsz \<and> bufsz < 16777216 \<and> dn_malloc now (bufsz * 2) then dirs_grow now first (bufsz * 2)
         else (bufsz, Some e))"
  by pat_completeness auto
termination by (relation "measure (\<lambda>(now, first, bufsz). 16777216 - bufsz)") auto

declare dirs_grow.simps [simp del]

definition dirs_namecmp :: "dirs_child \<Rightarrow> dirs_child \<Rightarrow> int" where
  "dirs_namecmp x y =
    (let xn = length (dc_name x); yn = length (dc_name y); m = min xn yn; c = memcmp (take m (dc_name x)) (take m (dc_name y)) in
     if c \<noteq> 0 then c else if xn < yn then - 1 else if xn > yn then 1 else 0)"

text \<open>\<^verbatim>\<open>qsort\<close> with this comparison is the library's sort by the bytes of the name.\<close>

definition dirs_sort :: "dirs_child list \<Rightarrow> dirs_child list" where
  "dirs_sort kids = sort_key (\<lambda>k. map byte_of (dc_name k) :: nat list) kids"

definition no_kids :: dirs_kids where
  "no_kids = \<lparr>dk_kids = [], dk_cap = 0, dk_bad = 0, dk_lost = 0\<rparr>"

definition dirs_children :: "dirs_env \<Rightarrow> wstr \<Rightarrow> bool \<Rightarrow> dirs_w \<Rightarrow> dirs_w \<times> dirs_child list option" where
  "dirs_children os dir follow w =
    (if \<not> dn_malloc (dirs_at os w) DIRS_BUFSZ then (dirs_fault os dir ERR_NOT_ENOUGH_MEMORY (dirs_tick w), None)
     else
       let w = dirs_tick w; now = dirs_at os w; stream = dn_stream now dir follow; w = dirs_tick w in
       case dirs_grow now (ds_first stream) DIRS_BUFSZ of
         (_, Some e) \<Rightarrow> if e = ERR_NO_MORE_FILES then (w, Some []) else (dirs_fault os dir e w, None)
       | (bufsz, None) \<Rightarrow>
           (case dirs_batches os dir (ds_batches stream bufsz) (w, no_kids) of
              (overrun, w, k) \<Rightarrow>
                let w = (if \<not> overrun \<and> ds_last stream \<noteq> ERR_NO_MORE_FILES then dirs_fault os dir (ds_last stream) w else w);
                    w = (if overrun then dirs_fault os dir ERR_INVALID_DATA w else w);
                    w = dirs_faults os dir ERR_NO_TRANSLATION (dk_bad k) w;
                    w = dirs_faults os dir ERR_NOT_ENOUGH_MEMORY (dk_lost k) w
                in (w, Some (dirs_sort (dk_kids k)))))"

section \<open>One turn of the walk\<close>

text \<open>The line of the directory: listed and counted, or else an error row.\<close>

definition dirs_show :: "dirs_env \<Rightarrow> dirs_item \<Rightarrow> dirs_w \<Rightarrow> cstr option \<times> dirs_w" where
  "dirs_show os it w =
    (case dirs_strip (dirs_at os w) (di_path it) (dw_unc w) of
       Some s \<Rightarrow> (Some s, (dirs_tick w)\<lparr>dw_paths := (if dw_mode w = DirsMode then dw_paths w @ [s] else dw_paths w), dw_count := dw_count w + 1\<rparr>)
     | None \<Rightarrow> (None, dirs_fault os (di_path it) ERR_NOT_ENOUGH_MEMORY (dirs_tick w)))"

text \<open>The decisions made without a handle; \<open>Some\<close> action stops the descent.\<close>

definition dirs_policy :: "dirs_item \<Rightarrow> dirs_w \<Rightarrow> string option \<times> dirs_w" where
  "dirs_policy it w =
    (if dw_depthcap w \<ge> 0 \<and> int (di_depth it) \<ge> dw_depthcap w then (Some ''depthlimited'', w\<lparr>dw_depthlimited := dw_depthlimited w + 1\<rparr>)
     else if di_pruned it then (Some ''pruned'', w\<lparr>dw_pruned := dw_pruned w + 1\<rparr>)
     else if di_noenter it \<and> di_depth it > 0 then (Some ''nofollow'', w)
     else (None, w))"

definition handles_by :: "int \<Rightarrow> dirs_w \<Rightarrow> dirs_w" where
  "handles_by d w = w\<lparr>dw_handles := dw_handles w + d\<rparr>"

text \<open>
  Opening: \<open>Inl\<close> the action that stops the descent, or \<open>Inr\<close> how the handle was opened. Below the root the handle
  is asked for its tag; a name is not entered, and other reparse points are opened again, following.
\<close>

definition dirs_open :: "dirs_env \<Rightarrow> wstr \<Rightarrow> bool \<Rightarrow> dirs_w \<Rightarrow> bool \<times> dirs_w" where
  "dirs_open os path follow w =
    (case dn_open (dirs_at os w) path follow of
       Some e \<Rightarrow> (False, dirs_fault os path e (dirs_tick w))
     | None \<Rightarrow> (True, handles_by 1 (dirs_tick w)))"

definition dirs_enter :: "dirs_env \<Rightarrow> dirs_item \<Rightarrow> dirs_w \<Rightarrow> (string + bool) \<times> dirs_item \<times> dirs_w" where
  "dirs_enter os it w =
    (case dirs_open os (di_path it) (di_depth it = 0) w of
       (False, w) \<Rightarrow> (Inl ''failed'', it, w)
     | (True, w) \<Rightarrow>
         if di_depth it = 0 then (Inr True, it, w)
         else case dn_tag (dirs_at os w) (di_path it) False of
           Inr (attrs, tag) \<Rightarrow>
             let w = dirs_tick w in
             if dirs_reparse attrs then
               let it = it\<lparr>di_reparse := True, di_tag := tag, di_surrogate := dirs_surrogate tag, di_noenter := dirs_isname tag\<rparr>;
                   w = handles_by (- 1) w
               in if di_noenter it then (Inl ''nofollow'', it, w)
                  else case dirs_open os (di_path it) True w of
                    (False, w) \<Rightarrow> (Inl ''failed'', it, w)
                  | (True, w) \<Rightarrow> (Inr True, it, w)
             else (Inr False, it, w)
         | Inl e \<Rightarrow> (Inr False, it, dirs_tick w))"

text \<open>The children go on the stack in reverse, so that they come off in order; without room the rest is dropped.\<close>

definition child_item :: "nat \<Rightarrow> dirs_child \<Rightarrow> wstr \<Rightarrow> dirs_item" where
  "child_item depth k cp = \<lparr>di_path = cp, di_depth = depth + 1, di_reparse = dc_reparse k, di_tag = dc_tag k,
     di_surrogate = dc_surrogate k, di_noenter = dc_noenter k, di_pruned = dc_pruned k\<rparr>"

fun dirs_push :: "dirs_env \<Rightarrow> dirs_item \<Rightarrow> nat \<Rightarrow> dirs_child list \<Rightarrow> nat \<Rightarrow> dirs_item list \<Rightarrow> nat \<Rightarrow> nat \<times> dirs_item list \<times> nat" where
  "dirs_push os it cap [] t st dropped = (t, st, dropped)"
| "dirs_push os it cap (k # ks) t st dropped =
    (if length st = cap then (t, st, dropped + Suc (length ks))
     else case dirs_join (os t) (di_path it) (dc_wname k) of
       None \<Rightarrow> dirs_push os it cap ks (t + 1) st (dropped + 1)
     | Some cp \<Rightarrow> dirs_push os it cap ks (t + 1) (child_item (di_depth it) k cp # st) dropped)"

function dirs_ncap :: "nat \<Rightarrow> nat \<Rightarrow> nat" where
  "dirs_ncap cap need = (if 0 < cap \<and> cap < need then dirs_ncap (cap * 2) need else cap)"
  by pat_completeness auto
termination by (relation "measure (\<lambda>(cap, need). need - cap)") auto

declare dirs_ncap.simps [simp del]

definition dirs_descend :: "dirs_env \<Rightarrow> dirs_item \<Rightarrow> bool \<Rightarrow> dirs_w \<Rightarrow> dirs_item list \<Rightarrow> nat \<Rightarrow> (string \<times> bool) \<times> dirs_w \<times> dirs_item list \<times> nat" where
  "dirs_descend os it follow w st cap =
    (case dirs_children os (di_path it) follow w of
       (w, None) \<Rightarrow> ((''failed'', False), handles_by (- 1) w, st, cap)
     | (w, Some kids) \<Rightarrow>
         let w = handles_by (- 1) w; need = length st + length kids; ncap = dirs_ncap cap need;
             cap = (if kids \<noteq> [] \<and> need > cap \<and> dn_malloc (dirs_at os w) (ncap * 32) then ncap else cap);
             (t, st, dropped) = dirs_push os it cap (rev kids) (dw_now w + 1) st 0
         in ((''descended'', True), dirs_faults os (di_path it) ERR_NOT_ENOUGH_MEMORY dropped (w\<lparr>dw_now := t\<rparr>), st, cap))"

text \<open>The row of a reparse directory, whatever was decided.\<close>

definition dirs_row :: "dirs_env \<Rightarrow> dirs_item \<Rightarrow> cstr option \<Rightarrow> string \<Rightarrow> bool \<Rightarrow> dirs_w \<Rightarrow> dirs_w" where
  "dirs_row os it shown action entered w =
    (if \<not> di_reparse it then w
     else
       let row = \<lparr>lr_path = opt_text shown, lr_tag = di_tag it, lr_surrogate = di_surrogate it, lr_action = action\<rparr>;
           w = w\<lparr>dw_links := dw_links w @ [row]\<rparr>;
           w = (if dw_mode w = LinksMode \<and> dirs_isname (di_tag it) then links_record os (di_path it) shown (di_tag it) True w else w)
       in if dw_mode w = LinksMode \<and> \<not> dirs_isname (di_tag it) \<and> entered then w\<lparr>dw_entered := dw_entered w @ [row]\<rparr> else w)"

type_synonym dirs_state = "dirs_w \<times> dirs_item list \<times> nat"

definition dirs_visit :: "dirs_env \<Rightarrow> dirs_item \<Rightarrow> dirs_state \<Rightarrow> dirs_state" where
  "dirs_visit os it = (\<lambda>(w, st, cap).
    case dirs_show os it w of (shown, w) \<Rightarrow>
    case dirs_policy it (w\<lparr>dw_maxdepth := max (dw_maxdepth w) (di_depth it)\<rparr>) of
      (Some action, w) \<Rightarrow> (dirs_row os it shown action False w, st, cap)
    | (None, w) \<Rightarrow>
        (case dirs_enter os it w of
           (Inl action, it, w) \<Rightarrow> (dirs_row os it shown action False w, st, cap)
         | (Inr follow, it, w) \<Rightarrow>
             (case dirs_descend os it follow w st cap of
                ((action, entered), w, st, cap) \<Rightarrow> (dirs_row os it shown action entered w, st, cap))))"

definition dirs_step :: "dirs_env \<Rightarrow> dirs_state \<Rightarrow> dirs_state" where
  "dirs_step os = (\<lambda>(w, st, cap). case st of [] \<Rightarrow> (w, st, cap) | it # st \<Rightarrow> dirs_visit os it (w, st, cap))"

text \<open>The loop; a walk that never empties the stack is \<open>None\<close>.\<close>

partial_function (option) dirs_loop :: "dirs_env \<Rightarrow> dirs_state \<Rightarrow> dirs_w option" where
  "dirs_loop os s = (if fst (snd s) = [] then Some (fst s) else dirs_loop os (dirs_step os s))"

definition root_item :: "wstr \<Rightarrow> bool \<Rightarrow> dword \<Rightarrow> dirs_item" where
  "root_item rootw re tag = \<lparr>di_path = rootw, di_depth = 0, di_reparse = re, di_tag = (if re then tag else 0),
     di_surrogate = (re \<and> dirs_surrogate tag), di_noenter = (re \<and> dirs_isname tag), di_pruned = False\<rparr>"

text \<open>\<open>Some None\<close> is the return value 0: the stack could not be allocated.\<close>

definition dirs_walk :: "dirs_env \<Rightarrow> dirs_w \<Rightarrow> wstr \<Rightarrow> bool \<Rightarrow> dword \<Rightarrow> dirs_w option option" where
  "dirs_walk os w rootw re tag =
    (if \<not> dn_malloc (dirs_at os w) (64 * 32) \<or> \<not> dn_malloc (dirs_at os w) ((length rootw + 1) * 2) then Some None
     else map_option Some (dirs_loop os (dirs_tick w, [root_item rootw re tag], 64)))"

section \<open>The verbs\<close>

datatype dirs_field =
    DText cstr | DPaths "cstr list" | DCount nat | DLinks "link_row list" | DErrors "err_row list"
  | DEntries "entry_row list" | DMulti "(cstr \<times> nat) list"

definition dirs_dict :: "dirs_w \<Rightarrow> cstr \<Rightarrow> (string \<times> dirs_field) list" where
  "dirs_dict w root = [(''root'', DText root), (''paths'', DPaths (dw_paths w)), (''dirs'', DCount (dw_count w)),
     (''links'', DLinks (dw_links w)), (''errors'', DErrors (dw_errors w)), (''pruned'', DCount (dw_pruned w)),
     (''depthlimited'', DCount (dw_depthlimited w)), (''maxdepth'', DCount (dw_maxdepth w))]"

definition links_dict :: "dirs_w \<Rightarrow> cstr \<Rightarrow> (string \<times> dirs_field) list" where
  "links_dict w root = [(''root'', DText root), (''links'', DEntries (dw_entries w)), (''multilinked'', DMulti (dw_multi w)),
     (''entered'', DLinks (dw_entered w)), (''dirs'', DCount (dw_count w)), (''files'', DCount (dw_files w)),
     (''errors'', DErrors (dw_errors w)), (''pruned'', DCount (dw_pruned w)),
     (''depthlimited'', DCount (dw_depthlimited w)), (''maxdepth'', DCount (dw_maxdepth w))]"

text \<open>The Tcl readings of an option value: an integer and a list (\<open>None\<close> is \<^verbatim>\<open>TCL_ERROR\<close>).\<close>

record dirs_tcl =
  dt_wide :: "tvalue \<Rightarrow> int option"
  dt_list :: "tvalue \<Rightarrow> cstr list option"

definition dirs_opt_kv :: "dirs_tcl \<Rightarrow> string \<Rightarrow> tvalue \<Rightarrow> dirs_w \<Rightarrow> dirs_w res" where
  "dirs_opt_kv T a v w =
    (if a = ''-depth'' then
       (case dt_wide T v of
          Some d \<Rightarrow> if d < 0 \<or> d > 0x7fffffff then Inl (dirs_error ''badvalue'' ''-depth takes a non-negative integer'')
                    else Inr (w\<lparr>dw_depthcap := d\<rparr>)
        | None \<Rightarrow> Inl (dirs_error ''badvalue'' ''-depth takes a non-negative integer''))
     else if a = ''-prune'' then
       (case dt_list T v of
          Some ps \<Rightarrow> Inr (w\<lparr>dw_prune := ps\<rparr>)
        | None \<Rightarrow> Inl (dirs_error ''badvalue'' ''-prune takes a list of patterns''))
     else Inl (dirs_error ''usage'' ''unknown option''))"

fun dirs_parse :: "dirs_tcl \<Rightarrow> tvalue list \<Rightarrow> dirs_w \<Rightarrow> dirs_w res" where
  "dirs_parse T [] w = Inr w"
| "dirs_parse T [a] w = Inl (dirs_error ''usage'' ''option needs a value'')"
| "dirs_parse T (a # v # rest) w = bind_res (dirs_opt_kv T (vtext a) v w) (dirs_parse T rest)"

fun links_parse :: "dirs_tcl \<Rightarrow> tvalue list \<Rightarrow> dirs_w \<Rightarrow> dirs_w res" where
  "links_parse T [] w = Inr w"
| "links_parse T (a # rest) w =
    (if vtext a = ''-hardlinks'' then links_parse T rest (w\<lparr>dw_hardlinks := True\<rparr>)
     else case rest of
       [] \<Rightarrow> Inl (dirs_error ''usage'' ''option needs a value'')
     | v # rest \<Rightarrow> bind_res (dirs_opt_kv T (vtext a) v w) (links_parse T rest))"

text \<open>The reparse identity of the root: from a handle that does not follow, else from the scan of its parent.\<close>

definition root_class :: "dirs_env \<Rightarrow> nat \<Rightarrow> wstr \<Rightarrow> bool \<times> dword \<times> nat" where
  "root_class os t rootw =
    (case (case dn_open (os t) rootw False of
        Some e \<Rightarrow> (False, 0, e)
      | None \<Rightarrow>
          (case dn_tag (os (t + 1)) rootw False of
             Inr (attrs, tag) \<Rightarrow> if dirs_reparse attrs then (True, tag, 0) else (False, 0, 0)
           | Inl e \<Rightarrow> (False, 0, e))) of
       (re, tag, e) \<Rightarrow>
         if re then (re, tag, e)
         else case dn_find (os (t + 2)) rootw of
           Some (attrs, reserved) \<Rightarrow>
             if dirs_reparse attrs \<and> and attrs FILE_ATTRIBUTE_DIRECTORY \<noteq> 0 then (True, reserved, e) else (re, tag, e)
         | None \<Rightarrow> (re, tag, e))"

text \<open>After the root (moments 0 to 3) come its two openings with their queries and the scan of the parent.\<close>

definition dirs_core :: "dirs_env \<Rightarrow> tvalue \<Rightarrow> dirs_w \<Rightarrow> (string \<times> dirs_field) list res option" where
  "dirs_core os root w =
    (case dirs_prefix os 0 (vtext root) of
       Inl e \<Rightarrow> Some (Inl e)
     | Inr (rootw, unc) \<Rightarrow>
         if dn_open (os 4) rootw True \<noteq> None then Some (Inl (dirs_error ''notfound'' ''no such directory''))
         else if (case dn_tag (os 5) rootw True of Inl _ \<Rightarrow> True | Inr (attrs, _) \<Rightarrow> and attrs FILE_ATTRIBUTE_DIRECTORY = 0) then
           Some (Inl (dirs_error ''notfound'' ''the root is not a directory''))
         else case root_class os 6 rootw of
           (re, tag, e) \<Rightarrow>
             let w = w\<lparr>dw_unc := unc, dw_now := 9\<rparr>;
                 w = (if e \<noteq> 0 then dirs_fault os rootw e w else w);
                 shown = opt_text (dirs_strip (dirs_at os w) rootw unc)
             in case dirs_walk os (dirs_tick w) rootw re tag of
               None \<Rightarrow> None
             | Some None \<Rightarrow> Some (Inl (dirs_error ''oserror'' ''the walk could not be started''))
             | Some (Some w) \<Rightarrow> Some (Inr (if dw_mode w = LinksMode then links_dict w shown else dirs_dict w shown)))"

definition DirsCmd :: "dirs_env \<Rightarrow> dirs_tcl \<Rightarrow> tvalue list \<Rightarrow> (string \<times> dirs_field) list res option" where
  "DirsCmd os T objv =
    (case objv of
       [] \<Rightarrow> Some (Inl WrongNumArgs)
     | root # opts \<Rightarrow>
         (case dirs_parse T opts (dirs_init DirsMode) of
            Inl e \<Rightarrow> Some (Inl e)
          | Inr w \<Rightarrow> dirs_core os root w))"

definition LinksCmd :: "dirs_env \<Rightarrow> dirs_tcl \<Rightarrow> tvalue list \<Rightarrow> (string \<times> dirs_field) list res option" where
  "LinksCmd os T objv =
    (case objv of
       [] \<Rightarrow> Some (Inl WrongNumArgs)
     | root # opts \<Rightarrow>
         (case links_parse T opts (dirs_init LinksMode) of
            Inl e \<Rightarrow> Some (Inl e)
          | Inr w \<Rightarrow> dirs_core os root w))"

section \<open>What a visit sees\<close>

text \<open>
  The reference reading of one turn: \<open>None\<close> if the directory was not enumerated, else the subdirectories in the
  buffers that Windows filled, and whether the stream was cut short.
\<close>

definition is_subdir :: "dword \<times> dword \<times> wstr \<Rightarrow> bool" where
  "is_subdir = (\<lambda>(attrs, ea, name). and attrs FILE_ATTRIBUTE_DIRECTORY \<noteq> 0 \<and> \<not> dot_name name)"

fun stream_entries :: "string list \<Rightarrow> bool \<times> (dword \<times> dword \<times> wstr) list" where
  "stream_entries [] = (False, [])"
| "stream_entries (b # bs) =
    (case dirs_chain b 0 of
       (True, es) \<Rightarrow> (True, es)
     | (False, es) \<Rightarrow> (case stream_entries bs of (overrun, es') \<Rightarrow> (overrun, es @ es')))"

definition children_seen :: "dirs_env \<Rightarrow> wstr \<Rightarrow> bool \<Rightarrow> dirs_w \<Rightarrow> ((dword \<times> dword \<times> wstr) list \<times> bool) option" where
  "children_seen os dir follow w =
    (if \<not> dn_malloc (dirs_at os w) DIRS_BUFSZ then None
     else
       let now = dirs_at os (dirs_tick w); stream = dn_stream now dir follow in
       case dirs_grow now (ds_first stream) DIRS_BUFSZ of
         (_, Some e) \<Rightarrow> if e = ERR_NO_MORE_FILES then Some ([], False) else None
       | (bufsz, None) \<Rightarrow>
           (case stream_entries (ds_batches stream bufsz) of
              (overrun, es) \<Rightarrow> Some (List.filter is_subdir es, overrun \<or> ds_last stream \<noteq> ERR_NO_MORE_FILES)))"

definition visit_seen :: "dirs_env \<Rightarrow> dirs_item \<Rightarrow> dirs_w \<Rightarrow> ((dword \<times> dword \<times> wstr) list \<times> bool) option" where
  "visit_seen os it w =
    (case dirs_show os it w of (shown, w) \<Rightarrow>
     case dirs_policy it (w\<lparr>dw_maxdepth := max (dw_maxdepth w) (di_depth it)\<rparr>) of
       (Some action, w) \<Rightarrow> None
     | (None, w) \<Rightarrow>
         (case dirs_enter os it w of
            (Inl action, it, w) \<Rightarrow> None
          | (Inr follow, it, w) \<Rightarrow> children_seen os (di_path it) follow w))"

text \<open>The turns of a walk that ends, each with the state before it.\<close>

inductive dirs_history :: "dirs_env \<Rightarrow> dirs_state \<Rightarrow> (dirs_item \<times> dirs_w) list \<Rightarrow> dirs_w \<Rightarrow> bool" for os where
  walk_done: "dirs_history os (w, [], cap) [] w"
| walk_turn: "dirs_history os (dirs_visit os it (w, st, cap)) vs w' \<Longrightarrow> dirs_history os (w, it # st, cap) ((it, w) # vs) w'"

lemma loop_history: "dirs_loop os s = Some w \<Longrightarrow> \<exists>vs. dirs_history os s vs w"
proof (induction rule: dirs_loop.raw_induct [rotated, consumes 1, case_names 1])
  case (1 loop os s w)
  obtain u st cap where s: "s = (u, st, cap)" by (rule prod_cases3)
  show ?case
  proof (cases st)
    case Nil
    then have "u = w" using 1(2) s by simp
    then show ?thesis using Nil s walk_done [of os w cap] by blast
  next
    case (Cons it st')
    then have "loop os (dirs_visit os it (u, st', cap)) = Some w" using 1(2) s by (simp add: dirs_step_def)
    then obtain vs where "dirs_history os (dirs_visit os it (u, st', cap)) vs w" using 1(1) by blast
    then show ?thesis using s Cons walk_turn by blast
  qed
qed

lemma history_loop: "dirs_history os s vs w \<Longrightarrow> dirs_loop os s = Some w"
  by (induction rule: dirs_history.induct) (subst dirs_loop.simps; simp add: dirs_step_def)+

section \<open>Rows\<close>

text \<open>The part of the state that enumeration leaves alone, and how many error rows an operation adds.\<close>

definition walk_core :: "dirs_w \<Rightarrow> dirs_w" where
  "walk_core w = w\<lparr>dw_errors := [], dw_entries := [], dw_multi := [], dw_files := 0, dw_multilink := 0, dw_now := 0\<rparr>"

definition adds :: "nat \<Rightarrow> dirs_w \<Rightarrow> dirs_w \<Rightarrow> bool" where
  "adds n w w' \<longleftrightarrow> walk_core w' = walk_core w \<and> length (dw_errors w') = length (dw_errors w) + n"

lemma adds_refl [simp]: "adds 0 w w"
  by (simp add: adds_def)

lemma adds_trans: "adds m w w' \<Longrightarrow> adds n w' w'' \<Longrightarrow> adds (m + n) w w''"
  by (simp add: adds_def)

lemma adds_tick: "adds n (dirs_tick w) w' \<longleftrightarrow> adds n w w'" "adds 0 w (dirs_tick w)"
  by (simp_all add: adds_def dirs_tick_def walk_core_def)

lemma adds_now: "adds 0 w (w\<lparr>dw_now := t\<rparr>)"
  by (simp add: adds_def walk_core_def)

lemma adds_fault: "adds 1 w (dirs_fault os path e w)"
  by (simp add: adds_def dirs_fault_def Let_def dirs_tick_def walk_core_def)

lemma adds_faults: "adds n w (dirs_faults os path e n w)"
proof (induction n)
  case (Suc n)
  show ?case using adds_trans [OF Suc adds_fault] by (simp add: dirs_faults_def)
qed (simp add: dirs_faults_def)

lemma adds_core:
  assumes "adds n w w'"
  shows "dw_paths w' = dw_paths w" "dw_links w' = dw_links w" "dw_count w' = dw_count w" "dw_pruned w' = dw_pruned w"
    "dw_depthlimited w' = dw_depthlimited w" "dw_depthcap w' = dw_depthcap w" "dw_mode w' = dw_mode w"
    "dw_handles w' = dw_handles w" "dw_hardlinks w' = dw_hardlinks w" "length (dw_errors w') = length (dw_errors w) + n"
proof -
  have c: "walk_core w' = walk_core w" using assms by (simp add: adds_def)
  show "dw_paths w' = dw_paths w" using arg_cong [OF c, of dw_paths] by (simp add: walk_core_def)
  show "dw_links w' = dw_links w" using arg_cong [OF c, of dw_links] by (simp add: walk_core_def)
  show "dw_count w' = dw_count w" using arg_cong [OF c, of dw_count] by (simp add: walk_core_def)
  show "dw_pruned w' = dw_pruned w" using arg_cong [OF c, of dw_pruned] by (simp add: walk_core_def)
  show "dw_depthlimited w' = dw_depthlimited w" using arg_cong [OF c, of dw_depthlimited] by (simp add: walk_core_def)
  show "dw_depthcap w' = dw_depthcap w" using arg_cong [OF c, of dw_depthcap] by (simp add: walk_core_def)
  show "dw_mode w' = dw_mode w" using arg_cong [OF c, of dw_mode] by (simp add: walk_core_def)
  show "dw_handles w' = dw_handles w" using arg_cong [OF c, of dw_handles] by (simp add: walk_core_def)
  show "dw_hardlinks w' = dw_hardlinks w" using arg_cong [OF c, of dw_hardlinks] by (simp add: walk_core_def)
  show "length (dw_errors w') = length (dw_errors w) + n" using assms by (simp add: adds_def)
qed

text \<open>What \<open>links\<close> adds for files and links is not bounded here; \<open>dirs\<close> adds nothing.\<close>

definition adds_links :: "dirs_w \<Rightarrow> dirs_w \<Rightarrow> bool" where
  "adds_links w w' \<longleftrightarrow> (\<exists>n. adds n w w' \<and> (dw_mode w = DirsMode \<longrightarrow> n = 0))"

lemma adds_links_refl [simp]: "adds_links w w"
  by (auto simp: adds_links_def intro: exI [of _ 0])

lemma adds_links_trans: "adds_links w w' \<Longrightarrow> adds_links w' w'' \<Longrightarrow> adds_links w w''"
  unfolding adds_links_def using adds_trans adds_core(7) by (metis add_0)

lemma adds_links_of: "adds n w w' \<Longrightarrow> dw_mode w = LinksMode \<Longrightarrow> adds_links w w'"
  by (auto simp: adds_links_def)

lemma adds_links_record: "\<exists>n. adds n w (links_record os full shown tag isdir w)"
proof -
  define w1 where "w1 = (dirs_tick w)\<lparr>dw_entries := dw_entries w @ [\<lparr>en_path = opt_text shown, en_type = opt_text (links_type tag isdir),
    en_target = opt_text (links_target (dirs_at os w) full isdir), en_tag = tag\<rparr>]\<rparr>"
  have a: "adds 0 w w1" by (simp add: w1_def adds_def dirs_tick_def walk_core_def)
  have "adds (0 + 1) w (dirs_fault os full e w1)" for e by (rule adds_trans [OF a adds_fault])
  moreover have "links_record os full shown tag isdir w \<in> {w1, dirs_fault os full ERR_NOT_SUPPORTED w1, dirs_fault os full ERR_INVALID_DATA w1}"
    by (simp add: links_record_def Let_def w1_def)
  ultimately show ?thesis using a by fastforce
qed

lemma adds_record_links: "dw_mode w = LinksMode \<Longrightarrow> adds_links w (links_record os full shown tag isdir w)"
  using adds_links_record adds_links_of by blast

lemma adds_links_steps:
  "adds_links w (dirs_tick w)"
  "dw_mode w = LinksMode \<Longrightarrow> adds_links w (dirs_fault os path e w)"
  "dw_mode w = LinksMode \<Longrightarrow> adds_links w (w\<lparr>dw_multilink := a, dw_multi := b\<rparr>)"
  "dw_mode w = LinksMode \<Longrightarrow> adds_links w (w\<lparr>dw_files := c\<rparr>)"
proof -
  show "adds_links w (dirs_tick w)" using adds_tick(2) by (auto simp: adds_links_def)
  show "adds_links w (dirs_fault os path e w)" if "dw_mode w = LinksMode" using adds_fault that by (rule adds_links_of)
  show "adds_links w (w\<lparr>dw_multilink := a, dw_multi := b\<rparr>)" if "dw_mode w = LinksMode"
    using that by (intro adds_links_of [of 0]) (simp_all add: adds_def walk_core_def)
  show "adds_links w (w\<lparr>dw_files := c\<rparr>)" if "dw_mode w = LinksMode"
    using that by (intro adds_links_of [of 0]) (simp_all add: adds_def walk_core_def)
qed

lemma adds_links_mode: "adds_links w w' \<Longrightarrow> dw_mode w' = dw_mode w"
  unfolding adds_links_def using adds_core(7) by blast

lemma mode_tick [simp]: "dw_mode (dirs_tick w) = dw_mode w"
  by (simp add: dirs_tick_def)

lemma adds_dirs_file: "adds_links w (dirs_file os dir attrs ea name w)"
proof (cases "dw_mode w = LinksMode")
  case False
  then show ?thesis by (simp add: dirs_file_def)
next
  case True
  define w1 where "w1 = w\<lparr>dw_files := dw_files w + 1\<rparr>"
  have a1: "adds_links w w1" "dw_mode w1 = LinksMode" using True adds_links_steps(4) by (simp_all add: w1_def)
  define re where "re = dirs_reparse attrs"
  define ftag where "ftag = (if re then ea else 0)"
  define named where "named \<longleftrightarrow> re \<and> dirs_isname ftag"
  show ?thesis
  proof (cases "\<not> (named \<or> dw_hardlinks w1) \<or> dot_name name")
    case True
    then have "dirs_file os dir attrs ea name w = w1" using \<open>dw_mode w = LinksMode\<close>
      by (simp add: dirs_file_def Let_def w1_def re_def ftag_def named_def)
    then show ?thesis using a1 by simp
  next
    case go: False
    show ?thesis
    proof (cases "dirs_join (dirs_at os w1) dir name")
      case None
      then have "dirs_file os dir attrs ea name w = dirs_fault os dir ERR_NOT_ENOUGH_MEMORY (dirs_tick w1)" using go True
        unfolding dirs_file_def Let_def w1_def [symmetric] re_def [symmetric] ftag_def [symmetric] named_def [symmetric] by simp
      moreover have "adds_links w (dirs_fault os dir ERR_NOT_ENOUGH_MEMORY (dirs_tick w1))"
        by (rule adds_links_trans [OF a1(1) adds_links_trans [OF adds_links_steps(1) adds_links_steps(2)]]) (simp add: a1)
      ultimately show ?thesis by simp
    next
      case (Some fp)
      define w2 where "w2 = dirs_tick (dirs_tick w1)"
      define shown where "shown = dirs_strip (dirs_at os (dirs_tick w1)) fp (dw_unc (dirs_tick w1))"
      have a2: "adds_links w w2" "dw_mode w2 = LinksMode"
        using adds_links_trans [OF a1(1) adds_links_trans [OF adds_links_steps(1) adds_links_steps(1)]] a1(2) by (simp_all add: w2_def)
      define w3 where "w3 = (if named then links_record os fp shown ftag False w2 else w2)"
      have "adds_links w2 w3" using adds_record_links [OF a2(2)] by (simp add: w3_def)
      then have a3: "adds_links w w3" "dw_mode w3 = LinksMode" using adds_links_trans [OF a2(1)] adds_links_mode a2(2) by metis+
      define w4 where "w4 = dirs_tick w3"
      have a4: "adds_links w w4" "dw_mode w4 = LinksMode" using adds_links_trans [OF a3(1) adds_links_steps(1)] a3(2) by (simp_all add: w4_def)
      have "dirs_file os dir attrs ea name w = (if dw_hardlinks w3 \<and> \<not> re then
          (case links_nlinks (dirs_at os w3) fp of
             (nl, err) \<Rightarrow> if nl = 0 then dirs_fault os fp err w4
               else if nl > 1 then w4\<lparr>dw_multilink := dw_multilink w4 + 1, dw_multi := dw_multi w4 @ [(opt_text shown, nl)]\<rparr> else w4)
        else w3)"
        using go True Some unfolding dirs_file_def Let_def w1_def [symmetric] re_def [symmetric] ftag_def [symmetric]
          named_def [symmetric] shown_def w4_def w3_def w2_def by (simp del: if_split)
      moreover have "adds_links w (dirs_fault os fp e w4)" "adds_links w (w4\<lparr>dw_multilink := a, dw_multi := b\<rparr>)" for e a b
        using adds_links_trans [OF a4(1)] adds_links_steps(2,3) a4(2) by blast+
      ultimately show ?thesis using a3(1) a4(1) by (simp split: prod.split)
    qed
  qed
qed

section \<open>Enumeration\<close>

text \<open>Every subdirectory of a stream is kept, or lost with a cause; the flags of a kept one agree with its tag.\<close>

definition kids_total :: "dirs_kids \<Rightarrow> nat" where
  "kids_total k = length (dk_kids k) + dk_bad k + dk_lost k"

definition child_ok :: "dirs_child \<Rightarrow> bool" where
  "child_ok c \<longleftrightarrow> (dc_noenter c \<longrightarrow> dc_reparse c)"

lemma subdir_total: "kids_total (dirs_subdir now prune attrs ea name k) = kids_total k + 1"
  by (simp add: dirs_subdir_def Let_def kids_total_def split: option.splits)

lemma subdir_ok: "list_all child_ok (dk_kids k) \<Longrightarrow> list_all child_ok (dk_kids (dirs_subdir now prune attrs ea name k))"
  by (auto simp: dirs_subdir_def Let_def child_ok_def split: option.splits)

lemma entry_facts:
  assumes "dirs_entry os dir e (w, k) = (w', k')" "list_all child_ok (dk_kids k)"
  shows "adds_links w w'" "kids_total k' = kids_total k + (if is_subdir e then 1 else 0)" "list_all child_ok (dk_kids k')"
proof -
  obtain attrs ea name where e: "e = (attrs, ea, name)" by (rule prod_cases3)
  show "adds_links w w'" using assms adds_dirs_file adds_links_steps(1) by (auto simp: dirs_entry_def e split: if_splits)
  show "kids_total k' = kids_total k + (if is_subdir e then 1 else 0)" using assms subdir_total by (auto simp: dirs_entry_def e is_subdir_def split: if_splits)
  show "list_all child_ok (dk_kids k')" using assms subdir_ok by (auto simp: dirs_entry_def e split: if_splits)
qed

lemma entries_facts:
  "fold (dirs_entry os dir) es (w, k) = (w', k') \<Longrightarrow> list_all child_ok (dk_kids k) \<Longrightarrow>
     adds_links w w' \<and> kids_total k' = kids_total k + length (List.filter is_subdir es) \<and> list_all child_ok (dk_kids k')"
proof (induction es arbitrary: w k)
  case (Cons e es)
  obtain w1 k1 where e: "dirs_entry os dir e (w, k) = (w1, k1)" by (rule prod.exhaust)
  note f = entry_facts [OF e Cons(3)]
  have "fold (dirs_entry os dir) es (w1, k1) = (w', k')" using Cons(2) e by simp
  from Cons(1) [OF this f(3)] f(1,2) adds_links_trans show ?case by auto
qed simp

lemma batches_entries:
  "dirs_batches os dir bs acc = (fst (stream_entries bs), fold (dirs_entry os dir) (snd (stream_entries bs)) acc)"
proof (induction bs arbitrary: acc)
  case (Cons b bs)
  obtain o1 es where b: "dirs_chain b 0 = (o1, es)" by (rule prod.exhaust)
  obtain o2 es' where s: "stream_entries bs = (o2, es')" by (rule prod.exhaust)
  show ?case using Cons b s by (cases o1) (simp_all add: dirs_entries_def)
qed simp

lemma sort_kids: "set (dirs_sort kids) = set kids" "length (dirs_sort kids) = length kids" "list_all P (dirs_sort kids) = list_all P kids"
  by (simp_all add: dirs_sort_def list_all_iff)

text \<open>
  One directory: without a stream there is one more error row; with one, every subdirectory it shows is a child or has
  a row, and a stream that was cut has a row.
\<close>

definition adds_at_least :: "nat \<Rightarrow> dirs_w \<Rightarrow> dirs_w \<Rightarrow> bool" where
  "adds_at_least n w w' \<longleftrightarrow> (\<exists>m\<ge>n. adds m w w' \<and> (dw_mode w = DirsMode \<longrightarrow> m = n))"

lemma at_least_of: "adds n w w' \<Longrightarrow> adds_at_least n w w'"
  by (auto simp: adds_at_least_def)

lemma at_least_links: "adds_links w w' \<Longrightarrow> adds_at_least 0 w w'"
  by (auto simp: adds_at_least_def adds_links_def)

lemma at_least_core:
  assumes "adds_at_least n w w'"
  shows "dw_paths w' = dw_paths w" "dw_links w' = dw_links w" "dw_count w' = dw_count w" "dw_pruned w' = dw_pruned w"
    "dw_depthlimited w' = dw_depthlimited w" "dw_depthcap w' = dw_depthcap w" "dw_mode w' = dw_mode w"
    "dw_handles w' = dw_handles w" "length (dw_errors w') \<ge> length (dw_errors w) + n"
    "dw_mode w = DirsMode \<Longrightarrow> length (dw_errors w') = length (dw_errors w) + n"
proof -
  obtain m where m: "m \<ge> n" "adds m w w'" "dw_mode w = DirsMode \<longrightarrow> m = n" using assms unfolding adds_at_least_def by blast
  note c = adds_core [OF m(2)]
  show "dw_paths w' = dw_paths w" "dw_links w' = dw_links w" "dw_count w' = dw_count w" "dw_pruned w' = dw_pruned w"
    "dw_depthlimited w' = dw_depthlimited w" "dw_depthcap w' = dw_depthcap w" "dw_mode w' = dw_mode w"
    "dw_handles w' = dw_handles w" by (fact c)+
  show "length (dw_errors w') \<ge> length (dw_errors w) + n" using c(10) m(1) by simp
  show "dw_mode w = DirsMode \<Longrightarrow> length (dw_errors w') = length (dw_errors w) + n" using c(10) m(3) by simp
qed

lemma at_least_trans:
  assumes "adds_at_least m w w'" "adds_at_least n w' w''"
  shows "adds_at_least (m + n) w w''"
proof -
  obtain a where a: "a \<ge> m" "adds a w w'" "dw_mode w = DirsMode \<longrightarrow> a = m" using assms(1) unfolding adds_at_least_def by blast
  obtain b where b: "b \<ge> n" "adds b w' w''" "dw_mode w' = DirsMode \<longrightarrow> b = n" using assms(2) unfolding adds_at_least_def by blast
  have "adds (a + b) w w''" using adds_trans [OF a(2) b(2)] .
  then show ?thesis unfolding adds_at_least_def using a b adds_core(7) [OF a(2)] by (intro exI [of _ "a + b"]) auto
qed

lemma children_facts:
  assumes "dirs_children os dir follow w = (w', r)"
  shows "case r of
      None \<Rightarrow> children_seen os dir follow w = None \<and> adds_at_least 1 w w'
    | Some kids \<Rightarrow> \<exists>ds brk lost. children_seen os dir follow w = Some (ds, brk) \<and> length kids + lost = length ds \<and>
        adds_at_least (lost + (if brk then 1 else 0)) w w' \<and> list_all child_ok kids"
proof (cases "dn_malloc (dirs_at os w) DIRS_BUFSZ")
  case False
  then have "r = None" "w' = dirs_fault os dir ERR_NOT_ENOUGH_MEMORY (dirs_tick w)" using assms by (simp_all add: dirs_children_def)
  then show ?thesis using False at_least_of [OF adds_fault] adds_tick adds_trans [OF adds_tick(2) adds_fault, of w os dir ERR_NOT_ENOUGH_MEMORY]
    by (simp add: children_seen_def at_least_of)
next
  case True
  define now where "now = dirs_at os (dirs_tick w)"
  define stream where "stream = dn_stream now dir follow"
  define w2 where "w2 = dirs_tick (dirs_tick w)"
  have a2: "adds 0 w w2" using adds_trans [OF adds_tick(2) adds_tick(2)] by (simp add: w2_def)
  obtain bufsz err where g: "dirs_grow now (ds_first stream) DIRS_BUFSZ = (bufsz, err)" by (rule prod.exhaust)
  show ?thesis
  proof (cases err)
    case (Some e)
    then have "(w', r) = (if e = ERR_NO_MORE_FILES then (w2, Some []) else (dirs_fault os dir e w2, None))"
      using assms True g unfolding dirs_children_def Let_def now_def stream_def w2_def by simp
    moreover have "children_seen os dir follow w = (if e = ERR_NO_MORE_FILES then Some ([], False) else None)"
      using True g Some unfolding children_seen_def Let_def now_def stream_def by simp
    moreover have "adds_at_least 0 w w2" "adds_at_least 1 w (dirs_fault os dir e w2)"
      using at_least_of [OF a2] at_least_of [OF adds_trans [OF a2 adds_fault]] by simp_all
    ultimately show ?thesis by (cases "e = ERR_NO_MORE_FILES") (auto intro!: exI [of _ "[]"] exI [of _ False])
  next
    case None
    obtain overrun es where s: "stream_entries (ds_batches stream bufsz) = (overrun, es)" by (rule prod.exhaust)
    obtain w3 k where f: "fold (dirs_entry os dir) es (w2, no_kids) = (w3, k)" by (rule prod.exhaust)
    have b: "dirs_batches os dir (ds_batches stream bufsz) (w2, no_kids) = (overrun, w3, k)" by (simp add: batches_entries s f)
    define w4 where "w4 = (if \<not> overrun \<and> ds_last stream \<noteq> ERR_NO_MORE_FILES then dirs_fault os dir (ds_last stream) w3 else w3)"
    define w5 where "w5 = (if overrun then dirs_fault os dir ERR_INVALID_DATA w4 else w4)"
    define w6 where "w6 = dirs_faults os dir ERR_NO_TRANSLATION (dk_bad k) w5"
    define brk where "brk \<longleftrightarrow> overrun \<or> ds_last stream \<noteq> ERR_NO_MORE_FILES"
    have r: "r = Some (dirs_sort (dk_kids k))" "w' = dirs_faults os dir ERR_NOT_ENOUGH_MEMORY (dk_lost k) w6"
      using assms True g None b unfolding dirs_children_def Let_def now_def [symmetric] stream_def [symmetric] w2_def [symmetric]
        w4_def w5_def w6_def by (simp_all del: if_split)
    have seen: "children_seen os dir follow w = Some (List.filter is_subdir es, brk)"
      using True g None s unfolding children_seen_def Let_def now_def stream_def brk_def by simp
    have e: "adds_links w2 w3 \<and> kids_total k = length (List.filter is_subdir es) \<and> list_all child_ok (dk_kids k)"
      using entries_facts [OF f] by (simp add: no_kids_def kids_total_def)
    have "adds (if brk then 1 else 0) w3 w5" using adds_fault by (auto simp: w5_def w4_def brk_def)
    moreover have "adds (dk_bad k) w5 w6" unfolding w6_def by (rule adds_faults)
    moreover have "adds (dk_lost k) w6 w'" unfolding r(2) by (rule adds_faults)
    ultimately have "adds ((if brk then 1 else 0) + dk_bad k + dk_lost k) w3 w'" using adds_trans by blast
    moreover have "adds_at_least 0 w w3" using at_least_trans [OF at_least_of [OF a2] at_least_links] e by fastforce
    ultimately have "adds_at_least (0 + ((if brk then 1 else 0) + dk_bad k + dk_lost k)) w w'" using at_least_trans at_least_of by blast
    moreover have "length (dirs_sort (dk_kids k)) + (dk_bad k + dk_lost k) = length (List.filter is_subdir es)"
      using e by (simp add: kids_total_def sort_kids)
    ultimately show ?thesis using seen e by (simp add: r(1) sort_kids ac_simps exI [of _ "dk_bad k + dk_lost k"])
  qed
qed

section \<open>One turn\<close>

definition item_ok :: "dirs_item \<Rightarrow> bool" where
  "item_ok it \<longleftrightarrow> (di_noenter it \<longrightarrow> di_reparse it)"

definition nofollows :: "dirs_w \<Rightarrow> nat" where
  "nofollows w = length (List.filter (\<lambda>r. lr_action r = ''nofollow'') (dw_links w))"

lemma push_facts:
  "dirs_push os it cap ks t st d = (t', st', d') \<Longrightarrow> list_all child_ok ks \<Longrightarrow>
     \<exists>ns. st' = ns @ st \<and> length ns + d' = length ks + d \<and> list_all (\<lambda>n. di_depth n = di_depth it + 1 \<and> item_ok n) ns"
proof (induction ks arbitrary: t st d)
  case (Cons k ks)
  show ?case
  proof (cases "length st = cap")
    case True
    then show ?thesis using Cons(2) by auto
  next
    case full: False
    show ?thesis
    proof (cases "dirs_join (os t) (di_path it) (dc_wname k)")
      case None
      then have "dirs_push os it cap ks (t + 1) st (d + 1) = (t', st', d')" using Cons(2) full by simp
      from Cons(1) [OF this] Cons(3) show ?thesis by auto
    next
      case (Some cp)
      then have "dirs_push os it cap ks (t + 1) (child_item (di_depth it) k cp # st) d = (t', st', d')" using Cons(2) full by simp
      from Cons(1) [OF this] Cons(3) obtain ns where ns: "st' = ns @ child_item (di_depth it) k cp # st"
        "length ns + d' = length ks + d" "list_all (\<lambda>n. di_depth n = di_depth it + 1 \<and> item_ok n) ns" by auto
      have "item_ok (child_item (di_depth it) k cp)" using Cons(3) by (simp add: item_ok_def child_item_def child_ok_def)
      then have "list_all (\<lambda>n. di_depth n = di_depth it + 1 \<and> item_ok n) (ns @ [child_item (di_depth it) k cp])"
        using ns(3) by (simp add: child_item_def)
      then show ?thesis using ns(1,2) by (intro exI [of _ "ns @ [child_item (di_depth it) k cp]"]) simp
    qed
  qed
qed auto

lemma handles_by_simps [simp]:
  "handles_by a (handles_by b w) = handles_by (a + b) w" "handles_by 0 w = w"
  by (simp_all add: handles_by_def)

lemma adds_handles: "adds n w w' \<Longrightarrow> adds n (handles_by d w) (handles_by d w')"
proof -
  assume a: "adds n w w'"
  have "walk_core (handles_by d v) = handles_by d (walk_core v)" for v by (simp add: walk_core_def handles_by_def)
  then show ?thesis using a by (simp add: adds_def handles_by_def)
qed

lemma at_least_handles: "adds_at_least n w w' \<Longrightarrow> adds_at_least n (handles_by d w) (handles_by d w')"
  unfolding adds_at_least_def using adds_handles by (fastforce simp: handles_by_def)

text \<open>Opening: it fails with a row, stops at a name, or leaves one more handle open on something that is no name.\<close>

lemma open_facts:
  "dirs_open os path follow w = (ok, w') \<Longrightarrow> (if ok then adds 0 w (handles_by (- 1) w') else adds 1 w w') \<and>
     (ok \<longrightarrow> dw_now w' = dw_now w + 1)"
  using adds_trans [OF adds_tick(2) adds_fault, of w os path] adds_tick(2) [of w]
  by (auto simp: dirs_open_def handles_by_def dirs_tick_def split: option.splits)

lemma enter_facts:
  assumes "dirs_enter os it w = (r, it', w')"
  shows "di_path it' = di_path it \<and> di_depth it' = di_depth it \<and>
    (case r of
       Inl a \<Rightarrow> a = ''failed'' \<and> adds 1 w w' \<or> a = ''nofollow'' \<and> adds 0 w w' \<and> di_reparse it'
     | Inr follow \<Rightarrow> adds 0 w (handles_by (- 1) w') \<and>
        (di_depth it > 0 \<longrightarrow> (case dn_tag (os (dw_now w + 1)) (di_path it) False of
           Inr (attrs, tag) \<Rightarrow> \<not> (dirs_reparse attrs \<and> dirs_isname tag) | Inl _ \<Rightarrow> True)))"
proof -
  obtain ok w1 where o: "dirs_open os (di_path it) (di_depth it = 0) w = (ok, w1)" by (rule prod.exhaust)
  note f = open_facts [OF o]
  show ?thesis
  proof (cases "ok \<and> di_depth it \<noteq> 0")
    case False
    then show ?thesis using assms o f by (cases ok) (auto simp: dirs_enter_def)
  next
    case True
    then have n: "dw_now w1 = dw_now w + 1" and a1: "adds 0 w (handles_by (- 1) w1)" using f by simp_all
    have t: "adds 0 w (handles_by (- 1) (dirs_tick w1))" using adds_trans [OF a1 adds_handles [OF adds_tick(2)]] by simp
    show ?thesis
    proof (cases "dn_tag (os (dw_now w1)) (di_path it) False")
      case (Inl e)
      then show ?thesis using assms o True t n by (auto simp: dirs_enter_def)
    next
      case (Inr p)
      obtain attrs tag where p: "p = (attrs, tag)" by (rule prod.exhaust)
      show ?thesis
      proof (cases "dirs_reparse attrs \<and> \<not> dirs_isname tag")
        case False
        then show ?thesis using assms o True t n Inr p by (auto simp: dirs_enter_def Let_def split: if_splits)
      next
        case re: True
        obtain ok2 w2 where o2: "dirs_open os (di_path it) True (handles_by (- 1) (dirs_tick w1)) = (ok2, w2)" by (rule prod.exhaust)
        note f2 = open_facts [OF o2]
        have "if ok2 then adds 0 w (handles_by (- 1) w2) else adds 1 w w2" using f2 adds_trans [OF t] by (cases ok2) fastforce+
        moreover have "r = (if ok2 then Inr True else Inl ''failed'') \<and> w' = w2 \<and> di_path it' = di_path it \<and> di_depth it' = di_depth it"
          using assms o True Inr p re o2 by (cases ok2) (auto simp: dirs_enter_def Let_def)
        ultimately show ?thesis using n Inr p re by (cases ok2) simp_all
      qed
    qed
  qed
qed

lemma row_facts:
  assumes "w' = dirs_row os it shown action entered w"
  shows "dw_count w' = dw_count w" "dw_pruned w' = dw_pruned w" "dw_depthlimited w' = dw_depthlimited w" "dw_depthcap w' = dw_depthcap w"
    "dw_mode w' = dw_mode w" "dw_handles w' = dw_handles w" "dw_paths w' = dw_paths w"
    "nofollows w' = nofollows w + (if di_reparse it \<and> action = ''nofollow'' then 1 else 0)"
    "length (dw_errors w') \<ge> length (dw_errors w)" "dw_mode w = DirsMode \<Longrightarrow> length (dw_errors w') = length (dw_errors w)"
proof -
  define row where "row = \<lparr>lr_path = opt_text shown, lr_tag = di_tag it, lr_surrogate = di_surrogate it, lr_action = action\<rparr>"
  define w1 where "w1 = w\<lparr>dw_links := dw_links w @ [row]\<rparr>"
  define w2 where "w2 = (if dw_mode w1 = LinksMode \<and> dirs_isname (di_tag it) then links_record os (di_path it) shown (di_tag it) True w1 else w1)"
  have w': "w' = w \<and> \<not> di_reparse it \<or> di_reparse it \<and> (w' = w2 \<or> w' = w2\<lparr>dw_entered := dw_entered w2 @ [row]\<rparr>)"
    unfolding assms dirs_row_def Let_def row_def [symmetric] w1_def [symmetric] w2_def [symmetric] by simp
  have m1: "dw_mode w1 = dw_mode w" by (simp add: w1_def)
  have "adds_links w1 w2"
  proof (cases "dw_mode w1 = LinksMode \<and> dirs_isname (di_tag it)")
    case True
    then show ?thesis using adds_record_links by (simp add: w2_def)
  next
    case False
    then have "w2 = w1" by (simp only: w2_def if_False)
    then show ?thesis by simp
  qed
  note c = at_least_core [OF at_least_links [OF this]]
  have l: "dw_links w2 = dw_links w @ [row]" using c(2) by (simp add: w1_def)
  show "dw_count w' = dw_count w" "dw_pruned w' = dw_pruned w" "dw_depthlimited w' = dw_depthlimited w" "dw_depthcap w' = dw_depthcap w"
    "dw_mode w' = dw_mode w" "dw_handles w' = dw_handles w" "dw_paths w' = dw_paths w"
    using w' c(1-8) by (auto simp: w1_def)
  show "nofollows w' = nofollows w + (if di_reparse it \<and> action = ''nofollow'' then 1 else 0)" using w' l by (auto simp: nofollows_def row_def)
  show "length (dw_errors w') \<ge> length (dw_errors w)" using w' c(9) by (auto simp: w1_def)
  show "dw_mode w = DirsMode \<Longrightarrow> length (dw_errors w') = length (dw_errors w)" using w' c(10) m1 by (auto simp: w1_def)
qed

text \<open>The numbers that a turn moves, and those it keeps.\<close>

definition unentered :: "dirs_w \<Rightarrow> nat" where
  "unentered w = dw_pruned w + dw_depthlimited w + nofollows w"

definition keeps :: "dirs_w \<Rightarrow> dirs_w \<Rightarrow> bool" where
  "keeps w w' \<longleftrightarrow> dw_depthcap w' = dw_depthcap w \<and> dw_mode w' = dw_mode w \<and> dw_handles w' = dw_handles w"

definition more_errors :: "nat \<Rightarrow> dirs_w \<Rightarrow> dirs_w \<Rightarrow> bool" where
  "more_errors n w w' \<longleftrightarrow> length (dw_errors w') \<ge> length (dw_errors w) + n \<and>
     (dw_mode w = DirsMode \<longrightarrow> length (dw_errors w') = length (dw_errors w) + n)"

lemma more_errors_trans: "more_errors m w w' \<Longrightarrow> more_errors n w' w'' \<Longrightarrow> keeps w w' \<Longrightarrow> more_errors (m + n) w w''"
  by (auto simp: more_errors_def keeps_def)

lemma keeps_trans: "keeps w w' \<Longrightarrow> keeps w' w'' \<Longrightarrow> keeps w w''"
  by (simp add: keeps_def)

lemma show_facts:
  assumes "dirs_show os it w = (shown, w')"
  shows "\<exists>u. dw_count w' + u = dw_count w + 1 \<and> more_errors u w w' \<and> keeps w w' \<and> unentered w' = unentered w"
proof (cases shown)
  case None
  then have w: "w' = dirs_fault os (di_path it) ERR_NOT_ENOUGH_MEMORY (dirs_tick w)" using assms by (auto simp: dirs_show_def split: option.splits)
  have "adds 1 w w'" using adds_trans [OF adds_tick(2) adds_fault] w by simp
  note c = at_least_core [OF at_least_of [OF this]]
  show ?thesis using c(1-9) by (intro exI [of _ 1]) (simp add: more_errors_def keeps_def unentered_def nofollows_def c)
next
  case (Some s)
  then show ?thesis using assms
    by (intro exI [of _ 0]) (auto simp: dirs_show_def more_errors_def keeps_def unentered_def nofollows_def dirs_tick_def split: option.splits)
qed

lemma policy_facts:
  assumes "dirs_policy it w = (r, w')" "item_ok it"
  shows "dw_count w' = dw_count w" "dw_errors w' = dw_errors w" "keeps w w'" "dw_now w' = dw_now w"
    "case r of Some a \<Rightarrow> unentered w' + (if di_reparse it \<and> a = ''nofollow'' then 1 else 0) = unentered w + 1
       | None \<Rightarrow> unentered w' = unentered w \<and> (dw_depthcap w < 0 \<or> int (di_depth it) < dw_depthcap w) \<and> (di_depth it > 0 \<longrightarrow> \<not> di_noenter it)"
proof -
  show "dw_count w' = dw_count w" "dw_errors w' = dw_errors w" "keeps w w'" "dw_now w' = dw_now w"
    using assms(1) by (auto simp: dirs_policy_def keeps_def split: if_splits)
  show "case r of Some a \<Rightarrow> unentered w' + (if di_reparse it \<and> a = ''nofollow'' then 1 else 0) = unentered w + 1
       | None \<Rightarrow> unentered w' = unentered w \<and> (dw_depthcap w < 0 \<or> int (di_depth it) < dw_depthcap w) \<and> (di_depth it > 0 \<longrightarrow> \<not> di_noenter it)"
    using assms by (auto simp: dirs_policy_def item_ok_def unentered_def nofollows_def split: if_splits)
qed

lemma at_least_moves:
  assumes "adds_at_least n w w'"
  shows "more_errors n w w'" "keeps w w'" "unentered w' = unentered w" "dw_count w' = dw_count w"
  using at_least_core [OF assms] by (simp_all add: more_errors_def keeps_def unentered_def nofollows_def)

lemma descend_facts:
  assumes "dirs_descend os it follow w st cap = ((action, entered), w', st', cap')"
  shows "case children_seen os (di_path it) follow w of
      None \<Rightarrow> st' = st \<and> adds_at_least 1 (handles_by (- 1) w) w' \<and> \<not> entered \<and> action = ''failed''
    | Some (ds, brk) \<Rightarrow> entered \<and> action = ''descended'' \<and>
        (\<exists>ns l. st' = ns @ st \<and> length ns + l = length ds \<and> list_all (\<lambda>n. di_depth n = di_depth it + 1 \<and> item_ok n) ns \<and>
          adds_at_least (l + (if brk then 1 else 0)) (handles_by (- 1) w) w')"
proof -
  obtain w1 r where c: "dirs_children os (di_path it) follow w = (w1, r)" by (rule prod.exhaust)
  note f = children_facts [OF c]
  show ?thesis
  proof (cases r)
    case None
    then have "st' = st \<and> w' = handles_by (- 1) w1 \<and> \<not> entered \<and> action = ''failed''" using assms c by (simp add: dirs_descend_def)
    then show ?thesis using f None at_least_handles by simp
  next
    case (Some kids)
    define cap1 where "cap1 = (if kids \<noteq> [] \<and> length st + length kids > cap \<and>
      dn_malloc (dirs_at os (handles_by (- 1) w1)) (dirs_ncap cap (length st + length kids) * 32) then dirs_ncap cap (length st + length kids) else cap)"
    obtain t st1 dropped where p: "dirs_push os it cap1 (rev kids) (dw_now (handles_by (- 1) w1) + 1) st 0 = (t, st1, dropped)" by (rule prod_cases3)
    have r: "entered" "action = ''descended''" "st' = st1"
      "w' = dirs_faults os (di_path it) ERR_NOT_ENOUGH_MEMORY dropped ((handles_by (- 1) w1)\<lparr>dw_now := t\<rparr>)"
      using assms c Some p unfolding dirs_descend_def Let_def cap1_def by simp_all
    from f Some obtain ds brk lost where s: "children_seen os (di_path it) follow w = Some (ds, brk)" "length kids + lost = length ds"
      "adds_at_least (lost + (if brk then 1 else 0)) w w1" "list_all child_ok kids" by auto
    from push_facts [OF p] s(4) obtain ns where n: "st1 = ns @ st" "length ns + dropped = length kids"
      "list_all (\<lambda>n. di_depth n = di_depth it + 1 \<and> item_ok n) ns" by (auto simp: list_all_iff)
    have "adds (0 + dropped) (handles_by (- 1) w1) w'" unfolding r(4) by (rule adds_trans [OF adds_now adds_faults])
    then have "adds_at_least (lost + (if brk then 1 else 0) + (0 + dropped)) (handles_by (- 1) w) w'"
      using at_least_trans [OF at_least_handles [OF s(3)] at_least_of] by blast
    then have "adds_at_least (lost + dropped + (if brk then 1 else 0)) (handles_by (- 1) w) w'" by (simp add: ac_simps)
    moreover have "length ns + (lost + dropped) = length ds" using n(2) s(2) by simp
    ultimately show ?thesis using s(1) r(1-3) n(1,3) by auto
  qed
qed

lemma row_moves:
  assumes "w' = dirs_row os it shown action entered w"
  shows "more_errors 0 w w'" "keeps w w'" "dw_count w' = dw_count w"
    "unentered w' = unentered w + (if di_reparse it \<and> action = ''nofollow'' then 1 else 0)"
  using row_facts [OF assms] by (simp_all add: more_errors_def keeps_def unentered_def)

lemma keeps_refl: "keeps w w"
  by (simp add: keeps_def)

lemma more_errors_same: "dw_errors w' = dw_errors w \<Longrightarrow> more_errors 0 w w'"
  by (simp add: more_errors_def)

text \<open>Three operations in a row, as every turn has them.\<close>

lemma moves_chain:
  assumes "more_errors a w w1" "keeps w w1" "more_errors b w1 w2" "keeps w1 w2" "more_errors c w2 w3" "keeps w2 w3"
  shows "more_errors (a + b + c) w w3" "keeps w w3"
  using more_errors_trans [OF more_errors_trans [OF assms(1,3,2)] assms(5) keeps_trans [OF assms(2,4)]]
    keeps_trans [OF keeps_trans [OF assms(2,4)] assms(6)] by blast+

definition turn_accounts :: "dirs_env \<Rightarrow> dirs_item \<Rightarrow> dirs_w \<Rightarrow> dirs_item list \<Rightarrow> dirs_w \<Rightarrow> dirs_item list \<Rightarrow> bool" where
  "turn_accounts os it w st w' st' \<longleftrightarrow>
    keeps w w' \<and> (\<exists>u. dw_count w' + u = dw_count w + 1 \<and>
      (case visit_seen os it w of
         None \<Rightarrow> \<exists>f. st' = st \<and> unentered w' + f = unentered w + 1 \<and> more_errors (u + f) w w'
       | Some (ds, brk) \<Rightarrow> \<exists>ns l. st' = ns @ st \<and> length ns + l = length ds \<and> unentered w' = unentered w \<and>
           more_errors (u + (l + (if brk then 1 else 0))) w w' \<and>
           list_all (\<lambda>n. di_depth n = di_depth it + 1 \<and> item_ok n) ns \<and> (dw_depthcap w < 0 \<or> int (di_depth it) < dw_depthcap w)))"

lemma visit_accounts:
  assumes v: "dirs_visit os it (w, st, cap) = (w', st', cap')" and ok: "item_ok it"
  shows "turn_accounts os it w st w' st'"
proof -
  obtain shown w1 where s: "dirs_show os it w = (shown, w1)" by (rule prod.exhaust)
  define w1' where "w1' = w1\<lparr>dw_maxdepth := max (dw_maxdepth w1) (di_depth it)\<rparr>"
  obtain r w2 where p: "dirs_policy it w1' = (r, w2)" by (rule prod.exhaust)
  from show_facts [OF s] obtain u where u: "dw_count w1 + u = dw_count w + 1" "more_errors u w w1" "keeps w w1" "unentered w1 = unentered w" by blast
  note pf = policy_facts [OF p ok]
  have u2: "dw_count w2 + u = dw_count w + 1" "more_errors u w w2" "keeps w w2"
    using u pf(1-3) by (simp_all add: w1'_def more_errors_def keeps_def)
  have e1: "unentered w1' = unentered w" "dw_depthcap w1' = dw_depthcap w" using u(3,4) by (simp_all add: w1'_def unentered_def nofollows_def keeps_def)
  show ?thesis
  proof (cases r)
    case (Some a)
    have w': "w' = dirs_row os it shown a False w2" "st' = st" and seen: "visit_seen os it w = None"
      using v s p Some by (simp_all add: dirs_visit_def visit_seen_def w1'_def)
    note rm = row_moves [OF w'(1)]
    have "unentered w' = unentered w + 1" using rm(4) pf(5) e1 Some by (simp split: if_splits)
    moreover have "more_errors (u + 0) w w'" "keeps w w'" using more_errors_trans [OF u2(2) rm(1) u2(3)] keeps_trans [OF u2(3) rm(2)] by simp_all
    ultimately show ?thesis unfolding turn_accounts_def using seen w'(2) u2(1) rm(3) by (intro conjI exI [of _ u]) (auto intro!: exI [of _ 0])
  next
    case None
    have e2: "unentered w2 = unentered w" "dw_depthcap w < 0 \<or> int (di_depth it) < dw_depthcap w" using pf(5) e1 None by auto
    obtain r2 it2 w3 where e: "dirs_enter os it w2 = (r2, it2, w3)" by (rule prod_cases3)
    note ef = enter_facts [OF e]
    show ?thesis
    proof (cases r2)
      case (Inl a)
      have w': "w' = dirs_row os it2 shown a False w3" "st' = st" and seen: "visit_seen os it w = None"
        using v s p None e Inl by (simp_all add: dirs_visit_def visit_seen_def w1'_def)
      note rm = row_moves [OF w'(1)]
      from ef Inl obtain f :: nat where f: "adds_at_least f w2 w3" "f + (if di_reparse it2 \<and> a = ''nofollow'' then 1 else 0) = 1"
        using at_least_of [of 0 w2 w3] at_least_of [of 1 w2 w3] by (fastforce simp: list_eq_iff_nth_eq)
      note fm = at_least_moves [OF f(1)]
      have "more_errors (u + f) w w'" "keeps w w'" using moves_chain [OF u2(2,3) fm(1,2) rm(1,2)] by simp_all
      moreover have "unentered w' + f = unentered w + 1" "dw_count w' + u = dw_count w + 1" using rm(3,4) fm(3,4) e2(1) f(2) u2(1) by simp_all
      ultimately show ?thesis unfolding turn_accounts_def using seen w'(2) by (intro conjI exI [of _ u]) auto
    next
      case (Inr follow)
      obtain action entered w4 st4 cap4 where d: "dirs_descend os it2 follow w3 st cap = ((action, entered), w4, st4, cap4)" by (metis prod.exhaust)
      have w': "w' = dirs_row os it2 shown action entered w4" "st' = st4" and seen: "visit_seen os it w = children_seen os (di_path it2) follow w3"
        using v s p None e Inr d by (simp_all add: dirs_visit_def visit_seen_def w1'_def)
      note rm = row_moves [OF w'(1)] and df = descend_facts [OF d]
      have a3: "adds_at_least 0 w2 (handles_by (- 1) w3)" and depth: "di_depth it2 = di_depth it" using ef Inr at_least_of by simp_all
      show ?thesis
      proof (cases "children_seen os (di_path it2) follow w3")
        case no: None
        then have a4: "adds_at_least (0 + 1) w2 w4" and x: "st4 = st" "action = ''failed''" using df at_least_trans [OF a3] by simp_all
        note fm = at_least_moves [OF a4]
        have "more_errors (u + 1) w w'" "keeps w w'" using moves_chain [OF u2(2,3) fm(1,2) rm(1,2)] by simp_all
        moreover have "unentered w' + 1 = unentered w + 1" "dw_count w' + u = dw_count w + 1" using rm(3,4) fm(3,4) e2(1) u2(1) x(2) by simp_all
        ultimately show ?thesis unfolding turn_accounts_def using seen no w'(2) x(1) by (intro conjI exI [of _ u]) (auto intro!: exI [of _ 1])
      next
        case (Some dsb)
        obtain ds brk where dsb: "dsb = (ds, brk)" by (rule prod.exhaust)
        from df Some dsb obtain ns l where n: "st4 = ns @ st" "length ns + l = length ds" "list_all (\<lambda>n. di_depth n = di_depth it + 1 \<and> item_ok n) ns"
          "adds_at_least (l + (if brk then 1 else 0)) (handles_by (- 1) w3) w4" and x: "action = ''descended''" using depth by auto
        have a4: "adds_at_least (0 + (l + (if brk then 1 else 0))) w2 w4" by (rule at_least_trans [OF a3 n(4)])
        note fm = at_least_moves [OF a4]
        have "more_errors (u + (l + (if brk then 1 else 0))) w w'" "keeps w w'" using moves_chain [OF u2(2,3) fm(1,2) rm(1,2)] by simp_all
        moreover have "unentered w' = unentered w" "dw_count w' + u = dw_count w + 1" using rm(3,4) fm(3,4) e2(1) u2(1) x by simp_all
        ultimately show ?thesis unfolding turn_accounts_def using seen Some dsb w'(2) n(1-3) e2(2) by (intro conjI exI [of _ u]) auto
      qed
    qed
  qed
qed

section \<open>The whole walk\<close>

definition visit_entered :: "dirs_env \<Rightarrow> dirs_item \<times> dirs_w \<Rightarrow> bool" where
  "visit_entered os p \<longleftrightarrow> visit_seen os (fst p) (snd p) \<noteq> None"

definition visit_dirs :: "dirs_env \<Rightarrow> dirs_item \<times> dirs_w \<Rightarrow> (dword \<times> dword \<times> wstr) list" where
  "visit_dirs os p = (case visit_seen os (fst p) (snd p) of None \<Rightarrow> [] | Some (ds, brk) \<Rightarrow> ds)"

definition visit_cut :: "dirs_env \<Rightarrow> dirs_item \<times> dirs_w \<Rightarrow> bool" where
  "visit_cut os p = (case visit_seen os (fst p) (snd p) of None \<Rightarrow> False | Some (ds, brk) \<Rightarrow> brk)"

lemma history_accounts:
  "dirs_history os s vs w' \<Longrightarrow> s = (w, st, cap) \<Longrightarrow> list_all item_ok st \<Longrightarrow>
     keeps w w' \<and> (\<exists>u f l. dw_count w' + u = dw_count w + length vs \<and>
       length vs + l = length st + (\<Sum>p\<leftarrow>vs. length (visit_dirs os p)) \<and>
       unentered w' + f = unentered w + length (List.filter (\<lambda>p. \<not> visit_entered os p) vs) \<and>
       more_errors (u + f + l + length (List.filter (visit_cut os) vs)) w w')"
proof (induction arbitrary: w st cap rule: dirs_history.induct)
  case (walk_done v c)
  then show ?case by (intro conjI exI [of _ 0]) (simp_all add: keeps_refl more_errors_def)
next
  case (walk_turn it v st1 c vs w')
  then have vw: "v = w" "st = it # st1" by simp_all
  with walk_turn(4) have st: "v = w" "st = it # st1" "item_ok it" "list_all item_ok st1" by simp_all
  obtain w1 st2 c2 where v: "dirs_visit os it (w, st1, c) = (w1, st2, c2)" by (rule prod_cases3)
  from visit_accounts [OF v st(3)] obtain u where t: "keeps w w1" "dw_count w1 + u = dw_count w + 1"
    "case visit_seen os it w of
         None \<Rightarrow> \<exists>f. st2 = st1 \<and> unentered w1 + f = unentered w + 1 \<and> more_errors (u + f) w w1
       | Some (ds, brk) \<Rightarrow> \<exists>ns l. st2 = ns @ st1 \<and> length ns + l = length ds \<and> unentered w1 = unentered w \<and>
           more_errors (u + (l + (if brk then 1 else 0))) w w1 \<and>
           list_all (\<lambda>n. di_depth n = di_depth it + 1 \<and> item_ok n) ns \<and> (dw_depthcap w < 0 \<or> int (di_depth it) < dw_depthcap w)"
    unfolding turn_accounts_def by blast
  have "\<exists>f l. list_all item_ok st2 \<and> length st2 + l = length st1 + length (visit_dirs os (it, w)) \<and>
      unentered w1 + f = unentered w + (if visit_entered os (it, w) then 0 else 1) \<and> more_errors (u + f + l + (if visit_cut os (it, w) then 1 else 0)) w w1"
  proof (cases "visit_seen os it w")
    case None
    then show ?thesis using t(3) st(4) by (auto simp: visit_dirs_def visit_entered_def visit_cut_def intro!: exI [of _ 0])
  next
    case (Some dsb)
    obtain ds brk where dsb: "dsb = (ds, brk)" by (rule prod.exhaust)
    from t(3) Some dsb obtain ns l where n: "st2 = ns @ st1" "length ns + l = length ds" "unentered w1 = unentered w"
      "more_errors (u + (l + (if brk then 1 else 0))) w w1" "list_all (\<lambda>n. di_depth n = di_depth it + 1 \<and> item_ok n) ns" by auto
    have "list_all item_ok st2" using n(1,5) st(4) by (auto simp: list_all_iff)
    then show ?thesis using n Some dsb by (rule_tac exI [of _ 0], rule_tac exI [of _ l]) (simp add: visit_dirs_def visit_entered_def visit_cut_def ac_simps)
  qed
  then obtain f l where a: "list_all item_ok st2" "length st2 + l = length st1 + length (visit_dirs os (it, w))"
    "unentered w1 + f = unentered w + (if visit_entered os (it, w) then 0 else 1)"
    "more_errors (u + f + l + (if visit_cut os (it, w) then 1 else 0)) w w1" by blast
  from walk_turn(2) [of w1 st2 c2] v st(1) a(1) obtain u' f' l' where b: "keeps w1 w'" "dw_count w' + u' = dw_count w1 + length vs"
    "length vs + l' = length st2 + (\<Sum>p\<leftarrow>vs. length (visit_dirs os p))"
    "unentered w' + f' = unentered w1 + length (List.filter (\<lambda>p. \<not> visit_entered os p) vs)"
    "more_errors (u' + f' + l' + length (List.filter (visit_cut os) vs)) w1 w'" by auto
  have m: "more_errors (u + f + l + (if visit_cut os (it, w) then 1 else 0) + (u' + f' + l' + length (List.filter (visit_cut os) vs))) w w'"
    by (rule more_errors_trans [OF a(4) b(5) t(1)])
  have e: "u + f + l + (if visit_cut os (it, w) then 1 else 0) + (u' + f' + l' + length (List.filter (visit_cut os) vs)) =
    (u + u') + (f + f') + (l + l') + length (List.filter (visit_cut os) ((it, w) # vs))" by simp
  have "dw_count w' + (u + u') = dw_count w + length ((it, w) # vs)" using t(2) b(2) by simp
  moreover have "length ((it, w) # vs) + (l + l') = length st + (\<Sum>p\<leftarrow>(it, w) # vs. length (visit_dirs os p))" using a(2) b(3) st(2) by simp
  moreover have "unentered w' + (f + f') = unentered w + length (List.filter (\<lambda>p. \<not> visit_entered os p) ((it, w) # vs))"
    using a(3) b(4) by (cases "visit_entered os (it, w)") simp_all
  ultimately show ?case using keeps_trans [OF t(1) b(1)] m [unfolded e] st(1) by blast
qed

text \<open>With a depth cap every turn replaces a directory by deeper ones, none below the cap.\<close>

lemma depth_cap_ends:
  "R = mset (map (\<lambda>n. nat (dw_depthcap w) - di_depth n) st) \<Longrightarrow> 0 \<le> dw_depthcap w \<Longrightarrow> list_all item_ok st \<Longrightarrow>
     \<exists>vs w'. dirs_history os (w, st, cap) vs w'"
proof (induction R arbitrary: w st cap rule: wf_induct_rule [OF wf_mult [OF wf_less_than]])
  case (1 R)
  show ?case
  proof (cases st)
    case Nil
    then show ?thesis using walk_done by blast
  next
    case (Cons it st1)
    obtain w1 st2 c2 where v: "dirs_visit os it (w, st1, cap) = (w1, st2, c2)" by (rule prod_cases3)
    have "turn_accounts os it w st1 w1 st2" using visit_accounts [OF v] 1(4) Cons by simp
    then have k: "keeps w w1" and "\<exists>ns. st2 = ns @ st1 \<and> list_all (\<lambda>n. di_depth n = di_depth it + 1 \<and> item_ok n) ns \<and>
        (ns \<noteq> [] \<longrightarrow> dw_depthcap w < 0 \<or> int (di_depth it) < dw_depthcap w)"
      unfolding turn_accounts_def by (fastforce split: option.splits)+
    then obtain ns where n: "st2 = ns @ st1" "list_all (\<lambda>n. di_depth n = di_depth it + 1 \<and> item_ok n) ns"
      "ns \<noteq> [] \<longrightarrow> int (di_depth it) < dw_depthcap w" using 1(3) by auto
    define rank :: "dirs_item \<Rightarrow> nat" where "rank = (\<lambda>n. nat (dw_depthcap w) - di_depth n)"
    have "\<forall>k\<in>#mset (map rank ns). \<exists>j\<in>#{#rank it#}. (k, j) \<in> less_than" using n(2,3) by (auto simp: rank_def list_all_iff)
    then have "(mset (map rank st1) + mset (map rank ns), mset (map rank st1) + {#rank it#}) \<in> mult less_than"
      by (intro one_step_implies_mult) simp_all
    moreover have "mset (map rank st1) + mset (map rank ns) = mset (map (\<lambda>n. nat (dw_depthcap w1) - di_depth n) st2)"
      using n(1) k by (simp add: rank_def keeps_def)
    moreover have "mset (map rank st1) + {#rank it#} = R" using 1(2) Cons by (simp add: rank_def)
    ultimately have "(mset (map (\<lambda>n. nat (dw_depthcap w1) - di_depth n) st2), R) \<in> mult less_than" by simp
    moreover have "list_all item_ok st2" "0 \<le> dw_depthcap w1" using n(1,2) 1(3,4) k Cons by (auto simp: list_all_iff keeps_def)
    ultimately obtain vs w' where "dirs_history os (w1, st2, c2) vs w'" using 1(1) by blast
    then show ?thesis using walk_turn [of os it w st1 cap vs w'] v Cons by auto
  qed
qed

lemma entered_inside:
  assumes "visit_entered os (it, w)" "item_ok it" "di_depth it > 0"
  shows "\<not> di_noenter it \<and> (case dn_tag (os (dw_now (snd (dirs_show os it w)) + 1)) (di_path it) False of
      Inr (attrs, tag) \<Rightarrow> \<not> (dirs_reparse attrs \<and> dirs_isname tag) | Inl _ \<Rightarrow> True)"
proof -
  obtain shown w1 where s: "dirs_show os it w = (shown, w1)" by (rule prod.exhaust)
  obtain r w2 where p: "dirs_policy it (w1\<lparr>dw_maxdepth := max (dw_maxdepth w1) (di_depth it)\<rparr>) = (r, w2)" by (rule prod.exhaust)
  obtain r2 it2 w3 where e: "dirs_enter os it w2 = (r2, it2, w3)" by (rule prod_cases3)
  have "visit_seen os it w \<noteq> None" using assms(1) by (simp add: visit_entered_def)
  then have r: "r = None" and "\<exists>follow. r2 = Inr follow" using s p e by (auto simp: visit_seen_def split: option.splits sum.splits)
  then obtain follow where f: "r2 = Inr follow" by blast
  show ?thesis using policy_facts(4,5) [OF p assms(2)] enter_facts [OF e] r f s assms(3) by simp
qed

lemma history_items:
  "dirs_history os s vs w' \<Longrightarrow> s = (w, st, cap) \<Longrightarrow> list_all item_ok st \<Longrightarrow> p \<in> set vs \<Longrightarrow> item_ok (fst p)"
proof (induction arbitrary: w st cap rule: dirs_history.induct)
  case (walk_turn it v st1 c vs w')
  obtain w1 st2 c2 where v: "dirs_visit os it (v, st1, c) = (w1, st2, c2)" by (rule prod_cases3)
  have it: "item_ok it" "list_all item_ok st1" using walk_turn(3,4) by auto
  have "list_all item_ok st2" using visit_accounts [OF v it(1)] it(2) unfolding turn_accounts_def
    by (fastforce simp: list_all_iff split: option.splits)
  then show ?case using walk_turn(2) [of w1 st2 c2] walk_turn(5) v it(1) by auto
qed simp

lemma root_item_ok [simp]: "item_ok (root_item rootw re tag)"
  by (simp add: item_ok_def root_item_def)

lemma walk_started:
  "dirs_walk os w rootw re tag = Some (Some w') \<Longrightarrow> dirs_loop os (dirs_tick w, [root_item rootw re tag], 64) = Some w'"
  by (auto simp: dirs_walk_def split: if_splits)

lemma core_capped: "0 \<le> dw_depthcap w \<Longrightarrow> \<exists>r. dirs_core os root w = Some r"
proof -
  assume c: "0 \<le> dw_depthcap w"
  have "dirs_walk os v rootw re tag \<noteq> None" if "0 \<le> dw_depthcap v" for v rootw re tag
  proof -
    have "\<exists>vs w'. dirs_history os (dirs_tick v, [root_item rootw re tag], 64) vs w'"
      by (rule depth_cap_ends [OF refl]) (use that in \<open>simp_all add: dirs_tick_def\<close>)
    then show ?thesis using history_loop by (fastforce simp: dirs_walk_def)
  qed
  then have w: "dirs_walk os (dirs_tick (if e \<noteq> 0 then dirs_fault os rootw e (w\<lparr>dw_unc := unc, dw_now := 9\<rparr>) else w\<lparr>dw_unc := unc, dw_now := 9\<rparr>)) rootw re tag \<noteq> None"
    for e rootw unc re tag using c by (simp add: dirs_tick_def dirs_fault_def Let_def)
  show ?thesis
  proof (cases "dirs_prefix os 0 (vtext root)")
    case (Inr p)
    obtain rootw unc where p: "p = (rootw, unc)" by (rule prod.exhaust)
    obtain re tag e where r: "root_class os 6 rootw = (re, tag, e)" by (rule prod_cases3)
    show ?thesis using w [of e rootw unc re tag] by (auto simp: dirs_core_def Inr p r Let_def split: option.splits)
  qed (simp add: dirs_core_def)
qed

section \<open>Properties\<close>

text \<open>C2: A walk never presents a silent partial result, whatever Windows answers and whatever changes meanwhile. Every
  directory reached is counted or has an error row; every subdirectory that an enumeration shows is reached or
  has a row; every directory that is not enumerated is counted as pruned or depth limited, has a link row
  \<^verbatim>\<open>nofollow\<close>, or has an error row; and every enumeration that is cut short has a row. In \<^verbatim>\<open>dirs\<close> there are no
  other rows, so an answer without rows and without these counts is complete. All handles are closed.\<close>

theorem dirs_nothing_silent:
  assumes "dirs_walk os w rootw re tag = Some (Some w')" "dw_count w = 0" "unentered w = 0"
  shows "\<exists>vs unlisted lost failed. dirs_history os (dirs_tick w, [root_item rootw re tag], 64) vs w' \<and>
    dw_count w' + unlisted = length vs \<and>
    length vs + lost = 1 + (\<Sum>p\<leftarrow>vs. length (visit_dirs os p)) \<and>
    dw_pruned w' + dw_depthlimited w' + nofollows w' + failed = length (List.filter (\<lambda>p. \<not> visit_entered os p) vs) \<and>
    length (dw_errors w) + (unlisted + failed + lost + length (List.filter (visit_cut os) vs)) \<le> length (dw_errors w') \<and>
    (dw_mode w = DirsMode \<longrightarrow> length (dw_errors w') = length (dw_errors w) + (unlisted + failed + lost + length (List.filter (visit_cut os) vs))) \<and>
    dw_handles w' = dw_handles w"
proof -
  obtain vs where h: "dirs_history os (dirs_tick w, [root_item rootw re tag], 64) vs w'" using loop_history [OF walk_started [OF assms(1)]] by blast
  obtain u f l where a: "keeps (dirs_tick w) w'" "dw_count w' + u = dw_count (dirs_tick w) + length vs"
    "length vs + l = 1 + (\<Sum>p\<leftarrow>vs. length (visit_dirs os p))"
    "unentered w' + f = unentered (dirs_tick w) + length (List.filter (\<lambda>p. \<not> visit_entered os p) vs)"
    "more_errors (u + f + l + length (List.filter (visit_cut os) vs)) (dirs_tick w) w'"
    using history_accounts [OF h refl] by auto
  have "dw_count (dirs_tick w) = 0" "unentered (dirs_tick w) = 0" "dw_errors (dirs_tick w) = dw_errors w" "dw_handles (dirs_tick w) = dw_handles w"
    using assms(2,3) by (simp_all add: dirs_tick_def unentered_def nofollows_def)
  then show ?thesis using h a unfolding unentered_def more_errors_def keeps_def
    by (intro exI [of _ vs] exI [of _ u] exI [of _ l] exI [of _ f]) (simp add: add.assoc)
qed

text \<open>C12: Nothing below the root is entered through a name: a directory whose scan, or whose handle when it was opened,
  says that it is a name surrogate or a DFS redirection, is not enumerated.\<close>

theorem dirs_no_escape:
  assumes "dirs_walk os w rootw re tag = Some (Some w')"
  shows "\<exists>vs. dirs_history os (dirs_tick w, [root_item rootw re tag], 64) vs w' \<and>
    (\<forall>(it, u)\<in>set vs. visit_entered os (it, u) \<and> di_depth it > 0 \<longrightarrow> \<not> di_noenter it \<and>
      (case dn_tag (os (dw_now (snd (dirs_show os it u)) + 1)) (di_path it) False of
         Inr (attrs, tag) \<Rightarrow> \<not> (dirs_reparse attrs \<and> dirs_isname tag) | Inl _ \<Rightarrow> True))"
proof -
  obtain vs where h: "dirs_history os (dirs_tick w, [root_item rootw re tag], 64) vs w'" using loop_history [OF walk_started [OF assms]] by blast
  have "item_ok (fst p)" if "p \<in> set vs" for p by (rule history_items [OF h refl _ that]) simp
  then show ?thesis using h entered_inside by fastforce
qed

text \<open>C37: With \<^verbatim>\<open>-depth\<close> both verbs return, whatever Windows answers, also on a tree that grows while it is walked.\<close>

theorem dirs_depth_terminates:
  assumes "0 \<le> dw_depthcap w"
  shows "(dirs_parse T opts (dirs_init DirsMode) = Inr w \<longrightarrow> (\<exists>r. DirsCmd os T (root # opts) = Some r)) \<and>
    (links_parse T opts (dirs_init LinksMode) = Inr w \<longrightarrow> (\<exists>r. LinksCmd os T (root # opts) = Some r))"
  using core_capped [OF assms] by (simp add: DirsCmd_def LinksCmd_def)

text \<open>A root with one subdirectory \<open>b\<close>, walked with \<^verbatim>\<open>-depth 1\<close>: memory suffices and everything opens.\<close>

definition demo_entry :: string where
  "demo_entry = replicate 56 NUL @ dword_bytes 16 @ dword_bytes 2 @ dword_bytes 0 @ replicate 36 NUL @ [CHR ''b'', NUL]"

definition demo_dirs :: dirs_now where
  "demo_dirs = \<lparr>dn_text = \<lparr>tx_wide = (\<lambda>s. Some [92, 92, 63, 92, 67, 58, 92, 97]), tx_utf8 = (\<lambda>w. Some (map (\<lambda>u. char_of (unat u)) w)), tx_malloc = (\<lambda>_. True)\<rparr>,
     dn_malloc = (\<lambda>_. True), dn_open = (\<lambda>_ _. None), dn_tag = (\<lambda>_ _. Inr (0x10, 0)),
     dn_stream = (\<lambda>_ _. \<lparr>ds_first = (\<lambda>_. None), ds_batches = (\<lambda>_. [demo_entry]), ds_last = 18\<rparr>),
     dn_nlinks = (\<lambda>_. LinksCount 1), dn_reparse = (\<lambda>_ _. None), dn_message = (\<lambda>_. None), dn_match = (\<lambda>_ _. False),
     dn_fullpath = (\<lambda>_ _. (0, [])), dn_find = (\<lambda>_. None), dn_info = (\<lambda>_. None), dn_final = (\<lambda>_ _. (0, []))\<rparr>"

lemma demo_chain: "dirs_chain demo_entry 0 = (False, [(0x10, 0, [98])])"
proof -
  have "length demo_entry = 106" by (simp add: demo_entry_def)
  moreover have "dword_at demo_entry 56 = 16" using dword_at_bytes [of 16 "replicate 56 NUL"] by (simp add: demo_entry_def)
  moreover have "dword_at demo_entry 60 = 2" using dword_at_bytes [of 2 "replicate 56 NUL @ dword_bytes 16"] by (simp add: demo_entry_def)
  moreover have "dword_at demo_entry 64 = 0" using dword_at_bytes [of 0 "replicate 56 NUL @ dword_bytes 16 @ dword_bytes 2"] by (simp add: demo_entry_def)
  moreover have "dword_at demo_entry 0 = 0" by (simp add: demo_entry_def dword_at_def nth_append)
  moreover have "List.drop 104 demo_entry = [CHR ''b'', NUL]" by (simp add: demo_entry_def)
  ultimately show ?thesis by (subst dirs_chain.simps) (simp add: de_next_def de_attrs_def de_nlen_def de_ea_def de_name_def)
qed

definition demo_w :: dirs_w where
  "demo_w = (dirs_init DirsMode)\<lparr>dw_depthcap := 1\<rparr>"

abbreviation demo_walk :: "dirs_w option option" where
  "demo_walk \<equiv> dirs_walk (\<lambda>_. demo_dirs) demo_w [92, 92, 63, 92, 67, 58, 92, 97] False 0"

lemma demo_walk_ends: "\<exists>w'. demo_walk = Some (Some w')"
proof -
  have "\<exists>vs w'. dirs_history (\<lambda>_. demo_dirs) (dirs_tick demo_w, [root_item [92, 92, 63, 92, 67, 58, 92, 97] False 0], 64) vs w'"
    by (rule depth_cap_ends [OF refl]) (simp_all add: dirs_tick_def demo_w_def)
  then show ?thesis using history_loop by (fastforce simp: dirs_walk_def demo_dirs_def)
qed

lemma dirs_nothing_silent_witness:
  "\<exists>w' vs. demo_walk = Some (Some w') \<and>
    dirs_history (\<lambda>_. demo_dirs) (dirs_tick demo_w, [root_item [92, 92, 63, 92, 67, 58, 92, 97] False 0], 64) vs w' \<and>
    length (dw_errors w') + dw_count w' \<ge> length vs \<and> dw_handles w' = 0"
proof -
  obtain w' where w: "demo_walk = Some (Some w')" using demo_walk_ends by blast
  have "dw_count demo_w = 0" "unentered demo_w = 0" "dw_handles demo_w = 0" by (simp_all add: demo_w_def dirs_init_def unentered_def nofollows_def)
  with dirs_nothing_silent [OF w this(1,2)] w show ?thesis by fastforce
qed

lemma dirs_no_escape_witness:
  "\<exists>w' vs. demo_walk = Some (Some w') \<and>
    dirs_history (\<lambda>_. demo_dirs) (dirs_tick demo_w, [root_item [92, 92, 63, 92, 67, 58, 92, 97] False 0], 64) vs w' \<and>
    (\<forall>(it, u)\<in>set vs. visit_entered (\<lambda>_. demo_dirs) (it, u) \<and> di_depth it > 0 \<longrightarrow> \<not> di_noenter it)"
proof -
  obtain w' where w: "demo_walk = Some (Some w')" using demo_walk_ends by blast
  from dirs_no_escape [OF w] w show ?thesis by blast
qed

lemma dirs_depth_terminates_witness:
  "\<exists>r. DirsCmd (\<lambda>_. demo_dirs) \<lparr>dt_wide = (\<lambda>_. Some 1), dt_list = (\<lambda>_. None)\<rparr> [VText ''C:/a'', VText ''-depth'', VText ''1''] = Some r"
proof -
  have "dirs_parse \<lparr>dt_wide = (\<lambda>_. Some 1), dt_list = (\<lambda>_. None)\<rparr> [VText ''-depth'', VText ''1''] (dirs_init DirsMode) = Inr demo_w"
    by (simp add: dirs_opt_kv_def demo_w_def)
  moreover have "0 \<le> dw_depthcap demo_w" by (simp add: demo_w_def)
  ultimately show ?thesis using dirs_depth_terminates [of demo_w "\<lparr>dt_wide = (\<lambda>_. Some 1), dt_list = (\<lambda>_. None)\<rparr>" "[VText ''-depth'', VText ''1'']"] by blast
qed

end
