(* ===== verification/Store.thy ===== *)
theory Store
  imports TclValue Bytes
begin

text \<open>
  The verb \<^verbatim>\<open>store\<close> (\<^verbatim>\<open>src/store.c\<close>): one SQLite connection behind a narrow key/value interface. SQLite is a
  parameter: a state \<open>'d\<close> of its databases and an answer per call. A statement is known by its SQL text. What the
  code relies on is the hypothesis \<open>engine_ok\<close>: the documented meaning of these statements on one table.
\<close>

section \<open>SQLite\<close>

definition SQLITE_OK :: nat where "SQLITE_OK = 0"
definition SQLITE_ROW :: nat where "SQLITE_ROW = 100"
definition SQLITE_DONE :: nat where "SQLITE_DONE = 101"

definition SQL_CREATE :: string where
  "SQL_CREATE = ''CREATE TABLE IF NOT EXISTS kv(key TEXT PRIMARY KEY, value BLOB) WITHOUT ROWID;''"
definition SQL_PUT :: string where
  "SQL_PUT = ''INSERT INTO kv(key,value) VALUES(?1,?2) ON CONFLICT(key) DO UPDATE SET value=excluded.value;''"
definition SQL_GET :: string where "SQL_GET = ''SELECT value FROM kv WHERE key=?1;''"
definition SQL_KEYS :: string where "SQL_KEYS = ''SELECT key FROM kv ORDER BY key;''"
definition SQL_DEL :: string where "SQL_DEL = ''DELETE FROM kv WHERE key=?1;''"

text \<open>
  Result codes of the calls; \<open>sq_run\<close> is the stepping of a statement with its bound values: the rows that come, the
  code after the last of them, and the databases afterwards. \<open>sq_final\<close> is told the code of the last step.
\<close>

record 'd sqlite =
  sq_version :: string
  sq_open :: "string \<Rightarrow> 'd \<Rightarrow> nat \<times> 'd"
  sq_close :: "'d \<Rightarrow> nat \<times> 'd"
  sq_busy :: "'d \<Rightarrow> nat"
  sq_exec :: "string \<Rightarrow> 'd \<Rightarrow> nat \<times> string option \<times> 'd"
  sq_prepare :: "string \<Rightarrow> 'd \<Rightarrow> nat"
  sq_bind :: "string \<Rightarrow> nat \<Rightarrow> string \<Rightarrow> 'd \<Rightarrow> nat"
  sq_run :: "string \<Rightarrow> string list \<Rightarrow> 'd \<Rightarrow> string list \<times> nat \<times> 'd"
  sq_final :: "nat \<Rightarrow> 'd \<Rightarrow> nat"
  sq_changes :: "'d \<Rightarrow> nat"
  sq_errmsg :: "'d \<Rightarrow> string option"
  sq_utf8 :: "string \<Rightarrow> string"

section \<open>The command\<close>

text \<open>\<open>st_conns\<close> and \<open>st_stmts\<close> count the connections and the statements that are not released.\<close>

record 'd store_st =
  st_open :: bool
  st_data :: 'd
  st_conns :: nat
  st_stmts :: nat

datatype store_value = SNone | SText string | SBytes string | SKeys "string list" | SCount nat

abbreviation fail_code :: "string \<Rightarrow> string \<Rightarrow> mt_error" where
  "fail_code code msg \<equiv> MtError ''STORE'' code msg"

definition fail :: "string option \<Rightarrow> mt_error" where
  "fail msg = fail_code ''sqlite'' (case msg of None \<Rightarrow> ''error'' | Some m \<Rightarrow> m)"

definition needDb :: "'d store_st \<Rightarrow> mt_error option" where
  "needDb s = (if st_open s then None else Some (fail_code ''notopen'' ''store not open (::machteld::store open ?path?)''))"

definition db_close :: "'d sqlite \<Rightarrow> 'd store_st \<Rightarrow> 'd store_st" where
  "db_close S s = (case sq_close S (st_data s) of
     (rc, d) \<Rightarrow> s\<lparr>st_open := False, st_data := d, st_conns := (if rc = SQLITE_OK then st_conns s - 1 else st_conns s)\<rparr>)"

text \<open>A connection that fails to open is still released; so is one that cannot be set up.\<close>

definition store_open :: "'d sqlite \<Rightarrow> string \<Rightarrow> 'd store_st \<Rightarrow> store_value res \<times> 'd store_st" where
  "store_open S path s =
    (let s = (if st_open s then db_close S s else s) in
     case sq_open S path (st_data s) of
       (rc, d) \<Rightarrow>
         let s = s\<lparr>st_open := True, st_data := d, st_conns := st_conns s + 1\<rparr> in
         if rc \<noteq> SQLITE_OK then (Inl (fail (sq_errmsg S d)), db_close S s)
         else if sq_busy S d \<noteq> SQLITE_OK then (Inl (fail (sq_errmsg S d)), db_close S s)
         else case sq_exec S SQL_CREATE d of
           (rc, err, d) \<Rightarrow>
             let s = s\<lparr>st_data := d\<rparr> in
             if rc \<noteq> SQLITE_OK then (Inl (fail err), db_close S s) else (Inr SNone, s))"

definition store_put :: "'d sqlite \<Rightarrow> string \<Rightarrow> string \<Rightarrow> 'd store_st \<Rightarrow> store_value res \<times> 'd store_st" where
  "store_put S k v s =
    (let d = st_data s in
     if sq_prepare S SQL_PUT d \<noteq> SQLITE_OK then (Inl (fail (sq_errmsg S d)), s)
     else
       let s = s\<lparr>st_stmts := st_stmts s + 1\<rparr>; b = sq_bind S SQL_PUT 1 k d; rc = (if b = SQLITE_OK then sq_bind S SQL_PUT 2 v d else b) in
       if rc \<noteq> SQLITE_OK then (Inl (fail (sq_errmsg S d)), s\<lparr>st_stmts := st_stmts s - 1\<rparr>)
       else case sq_run S SQL_PUT [k, v] d of
         (rows, code, d) \<Rightarrow>
           let rc = (if rows = [] then code else SQLITE_ROW); frc = sq_final S rc d;
               s = s\<lparr>st_data := d, st_stmts := st_stmts s - 1\<rparr> in
           if rc \<noteq> SQLITE_DONE \<or> frc \<noteq> SQLITE_OK then (Inl (fail (sq_errmsg S d)), s) else (Inr SNone, s))"

definition store_get :: "'d sqlite \<Rightarrow> string \<Rightarrow> 'd store_st \<Rightarrow> store_value res \<times> 'd store_st" where
  "store_get S k s =
    (let d = st_data s in
     if sq_prepare S SQL_GET d \<noteq> SQLITE_OK then (Inl (fail (sq_errmsg S d)), s)
     else
       let s = s\<lparr>st_stmts := st_stmts s + 1\<rparr> in
       if sq_bind S SQL_GET 1 k d \<noteq> SQLITE_OK then (Inl (fail (sq_errmsg S d)), s\<lparr>st_stmts := st_stmts s - 1\<rparr>)
       else case sq_run S SQL_GET [k] d of
         (rows, code, d) \<Rightarrow>
           let rc = (if rows = [] then code else SQLITE_ROW); frc = sq_final S rc d;
               s = s\<lparr>st_data := d, st_stmts := st_stmts s - 1\<rparr> in
           if rc = SQLITE_DONE then (Inl (fail_code ''notfound'' ''store key not found''), s)
           else if rc \<noteq> SQLITE_ROW \<or> frc \<noteq> SQLITE_OK then (Inl (fail (sq_errmsg S d)), s)
           else (Inr (SBytes (hd rows)), s))"

definition store_keys :: "'d sqlite \<Rightarrow> 'd store_st \<Rightarrow> store_value res \<times> 'd store_st" where
  "store_keys S s =
    (let d = st_data s in
     if sq_prepare S SQL_KEYS d \<noteq> SQLITE_OK then (Inl (fail (sq_errmsg S d)), s)
     else
       let s = s\<lparr>st_stmts := st_stmts s + 1\<rparr> in
       case sq_run S SQL_KEYS [] d of
         (rows, rc, d) \<Rightarrow>
           let frc = sq_final S rc d; s = s\<lparr>st_data := d, st_stmts := st_stmts s - 1\<rparr> in
           if rc \<noteq> SQLITE_DONE \<or> frc \<noteq> SQLITE_OK then (Inl (fail (sq_errmsg S d)), s) else (Inr (SKeys rows), s))"

definition store_del :: "'d sqlite \<Rightarrow> string \<Rightarrow> 'd store_st \<Rightarrow> store_value res \<times> 'd store_st" where
  "store_del S k s =
    (let d = st_data s in
     if sq_prepare S SQL_DEL d \<noteq> SQLITE_OK then (Inl (fail (sq_errmsg S d)), s)
     else
       let s = s\<lparr>st_stmts := st_stmts s + 1\<rparr>; b = sq_bind S SQL_DEL 1 k d in
       case (if b = SQLITE_OK then sq_run S SQL_DEL [k] d else ([], b, d)) of
         (rows, code, d) \<Rightarrow>
           let rc = (if rows = [] then code else SQLITE_ROW); frc = sq_final S rc d;
               s = s\<lparr>st_data := d, st_stmts := st_stmts s - 1\<rparr> in
           if rc \<noteq> SQLITE_DONE \<or> frc \<noteq> SQLITE_OK then (Inl (fail (sq_errmsg S d)), s) else (Inr (SCount (sq_changes S d)), s))"

definition store_close :: "'d sqlite \<Rightarrow> 'd store_st \<Rightarrow> store_value res \<times> 'd store_st" where
  "store_close S s =
    (if \<not> st_open s then (Inr SNone, s)
     else case sq_close S (st_data s) of
       (rc, d) \<Rightarrow>
         if rc \<noteq> SQLITE_OK then (Inl (fail (sq_errmsg S d)), s\<lparr>st_data := d\<rparr>)
         else (Inr SNone, s\<lparr>st_open := False, st_data := d, st_conns := st_conns s - 1\<rparr>))"

definition with_db :: "'d store_st \<Rightarrow> store_value res \<times> 'd store_st \<Rightarrow> store_value res \<times> 'd store_st" where
  "with_db s r = (case needDb s of Some e \<Rightarrow> (Inl e, s) | None \<Rightarrow> r)"

definition StoreCmd :: "'d sqlite \<Rightarrow> tvalue list \<Rightarrow> 'd store_st \<Rightarrow> store_value res \<times> 'd store_st" where
  "StoreCmd S objv s =
    (case objv of
       [] \<Rightarrow> (Inl WrongNumArgs, s)
     | sub # args \<Rightarrow>
         if vtext sub = ''version'' then (if args \<noteq> [] then Inl WrongNumArgs else Inr (SText (sq_version S)), s)
         else if vtext sub = ''open'' then
           (case args of
              [] \<Rightarrow> store_open S '':memory:'' s
            | [path] \<Rightarrow>
                if vtext path = [] \<or> NUL \<in> set (vtext path) then
                  (Inl (fail_code ''badvalue'' ''store path must be a non-empty string without NUL bytes''), s)
                else store_open S (vtext path) s
            | _ \<Rightarrow> (Inl WrongNumArgs, s))
         else if vtext sub = ''put'' then
           (case args of
              [k, v] \<Rightarrow> with_db s (store_put S (vtext k) (Machteld_ValueBytes (sq_utf8 S) v) s)
            | _ \<Rightarrow> (Inl WrongNumArgs, s))
         else if vtext sub = ''get'' then
           (case args of [k] \<Rightarrow> with_db s (store_get S (vtext k) s) | _ \<Rightarrow> (Inl WrongNumArgs, s))
         else if vtext sub = ''keys'' then (if args \<noteq> [] then (Inl WrongNumArgs, s) else with_db s (store_keys S s))
         else if vtext sub = ''del'' then
           (case args of [k] \<Rightarrow> with_db s (store_del S (vtext k) s) | _ \<Rightarrow> (Inl WrongNumArgs, s))
         else if vtext sub = ''close'' then (if args \<noteq> [] then (Inl WrongNumArgs, s) else store_close S s)
         else (Inl TclError, s))"

definition StoreDelete :: "'d sqlite \<Rightarrow> 'd store_st \<Rightarrow> 'd store_st" where
  "StoreDelete S s = (if st_open s then db_close S s else s)"


section \<open>The abstract map\<close>

text \<open>
  The documented meaning of the statements, for the table \<open>tab d\<close> that the databases \<open>d\<close> hold: a map from keys to
  values. A statement that does not end with \<^verbatim>\<open>SQLITE_DONE\<close> changed nothing. Finalising reports only the error of
  the last step, binding answers no \<^verbatim>\<open>SQLITE_DONE\<close>, and a connection without open statements can be closed.
\<close>

definition law_put :: "'d sqlite \<Rightarrow> ('d \<Rightarrow> string \<Rightarrow> string option) \<Rightarrow> bool" where
  "law_put S tab \<longleftrightarrow> (\<forall>d k v rows c d'. sq_run S SQL_PUT [k, v] d = (rows, c, d') \<longrightarrow>
     rows = [] \<and> tab d' = (if c = SQLITE_DONE then (tab d)(k \<mapsto> v) else tab d))"

definition law_get :: "'d sqlite \<Rightarrow> ('d \<Rightarrow> string \<Rightarrow> string option) \<Rightarrow> bool" where
  "law_get S tab \<longleftrightarrow> (\<forall>d k rows c d'. sq_run S SQL_GET [k] d = (rows, c, d') \<longrightarrow>
     tab d' = tab d \<and> (rows = [] \<and> c = SQLITE_DONE \<longrightarrow> tab d k = None) \<and> (rows = [] \<longrightarrow> c \<noteq> SQLITE_ROW) \<and>
     (rows \<noteq> [] \<longrightarrow> tab d k = Some (hd rows)))"

definition key_sorted :: "string list \<Rightarrow> bool" where
  "key_sorted ks \<longleftrightarrow> sorted_wrt (\<lambda>a b. map byte_of a < (map byte_of b :: nat list)) ks"

definition law_keys :: "'d sqlite \<Rightarrow> ('d \<Rightarrow> string \<Rightarrow> string option) \<Rightarrow> bool" where
  "law_keys S tab \<longleftrightarrow> (\<forall>d rows c d'. sq_run S SQL_KEYS [] d = (rows, c, d') \<longrightarrow>
     tab d' = tab d \<and> (c = SQLITE_DONE \<longrightarrow> set rows = dom (tab d) \<and> key_sorted rows))"

definition law_del :: "'d sqlite \<Rightarrow> ('d \<Rightarrow> string \<Rightarrow> string option) \<Rightarrow> bool" where
  "law_del S tab \<longleftrightarrow> (\<forall>d k rows c d'. sq_run S SQL_DEL [k] d = (rows, c, d') \<longrightarrow>
     rows = [] \<and> tab d' = (if c = SQLITE_DONE then (tab d)(k := None) else tab d) \<and>
     (c = SQLITE_DONE \<longrightarrow> sq_changes S d' = (if tab d k = None then 0 else 1)))"

definition engine_ok :: "'d sqlite \<Rightarrow> ('d \<Rightarrow> string \<Rightarrow> string option) \<Rightarrow> bool" where
  "engine_ok S tab \<longleftrightarrow> law_put S tab \<and> law_get S tab \<and> law_keys S tab \<and> law_del S tab \<and>
    (\<forall>d. sq_final S SQLITE_DONE d = SQLITE_OK) \<and> (\<forall>d. fst (sq_close S d) = SQLITE_OK) \<and>
    (\<forall>q i v d. sq_bind S q i v d \<noteq> SQLITE_DONE)"

definition store_abs :: "('d \<Rightarrow> string \<Rightarrow> string option) \<Rightarrow> 'd store_st \<Rightarrow> (string \<Rightarrow> string option) option" where
  "store_abs tab s = (if st_open s then Some (tab (st_data s)) else None)"

text \<open>The subcommands and how many words may follow each.\<close>

definition store_names :: "string set" where
  "store_names = {''version'', ''open'', ''put'', ''get'', ''keys'', ''del'', ''close''}"

definition store_arity :: "string \<Rightarrow> nat set" where
  "store_arity c = (if c = ''open'' then {0, 1} else if c = ''put'' then {2} else if c \<in> {''get'', ''del''} then {1} else {0})"

abbreviation good_path :: "tvalue \<Rightarrow> bool" where
  "good_path p \<equiv> vtext p \<noteq> [] \<and> NUL \<notin> set (vtext p)"

text \<open>
  What the command promises of a map that is there or not. An error of SQLite leaves it as it was, but for one of
  \<^verbatim>\<open>open\<close>, which finds the old store already closed and leaves none. A usage error comes for exactly the wrong words.
\<close>

inductive kv_step :: "(string \<Rightarrow> string) \<Rightarrow> (string \<Rightarrow> string option) option \<Rightarrow> tvalue list \<Rightarrow> store_value res \<Rightarrow> (string \<Rightarrow> string option) option \<Rightarrow> bool"
  for utf8 where
  kv_put: "vtext c = ''put'' \<Longrightarrow> kv_step utf8 (Some m) [c, k, v] (Inr SNone) (Some (m(vtext k \<mapsto> Machteld_ValueBytes utf8 v)))"
| kv_get: "vtext c = ''get'' \<Longrightarrow> m (vtext k) = Some v \<Longrightarrow> kv_step utf8 (Some m) [c, k] (Inr (SBytes v)) (Some m)"
| kv_missing: "vtext c = ''get'' \<Longrightarrow> m (vtext k) = None \<Longrightarrow>
    kv_step utf8 (Some m) [c, k] (Inl (fail_code ''notfound'' ''store key not found'')) (Some m)"
| kv_keys: "vtext c = ''keys'' \<Longrightarrow> set ks = dom m \<Longrightarrow> key_sorted ks \<Longrightarrow>
    kv_step utf8 (Some m) [c] (Inr (SKeys ks)) (Some m)"
| kv_del: "vtext c = ''del'' \<Longrightarrow> kv_step utf8 (Some m) [c, k] (Inr (SCount (if m (vtext k) = None then 0 else 1))) (Some (m(vtext k := None)))"
| kv_open: "vtext c = ''open'' \<Longrightarrow> length args \<le> 1 \<Longrightarrow> \<forall>p\<in>set args. good_path p \<Longrightarrow> kv_step utf8 a (c # args) (Inr SNone) (Some m)"
| kv_close: "vtext c = ''close'' \<Longrightarrow> kv_step utf8 a [c] (Inr SNone) None"
| kv_version: "vtext c = ''version'' \<Longrightarrow> kv_step utf8 a [c] (Inr (SText t)) a"
| kv_notopen: "vtext c \<in> {''put'', ''get'', ''keys'', ''del''} \<Longrightarrow> length args \<in> store_arity (vtext c) \<Longrightarrow>
    kv_step utf8 None (c # args) (Inl (fail_code ''notopen'' ''store not open (::machteld::store open ?path?)'')) None"
| kv_no_words: "kv_step utf8 a [] (Inl WrongNumArgs) a"
| kv_usage: "vtext c \<in> store_names \<Longrightarrow> length args \<notin> store_arity (vtext c) \<Longrightarrow> kv_step utf8 a (c # args) (Inl WrongNumArgs) a"
| kv_unknown: "vtext c \<notin> store_names \<Longrightarrow> kv_step utf8 a (c # args) (Inl TclError) a"
| kv_bad_path: "vtext c = ''open'' \<Longrightarrow> \<not> good_path p \<Longrightarrow>
    kv_step utf8 a [c, p] (Inl (fail_code ''badvalue'' ''store path must be a non-empty string without NUL bytes'')) a"
| kv_sqlite: "vtext c \<in> {''put'', ''get'', ''keys'', ''del''} \<Longrightarrow> length args \<in> store_arity (vtext c) \<Longrightarrow>
    kv_step utf8 (Some m) (c # args) (Inl (fail msg)) (Some m)"
| kv_unopened: "vtext c = ''open'' \<Longrightarrow> length args \<le> 1 \<Longrightarrow> \<forall>p\<in>set args. good_path p \<Longrightarrow> kv_step utf8 a (c # args) (Inl (fail msg)) None"

inductive_cases kv_getE: "kv_step utf8 (Some m) [c, k] r a"

lemma engine_okD:
  assumes "engine_ok S tab"
  shows "sq_run S SQL_PUT [k, v] d = (rows, c, d') \<Longrightarrow> rows = [] \<and> tab d' = (if c = SQLITE_DONE then (tab d)(k \<mapsto> v) else tab d)"
    "sq_run S SQL_GET [k] d = (rows, c, d') \<Longrightarrow> tab d' = tab d \<and> (rows = [] \<and> c = SQLITE_DONE \<longrightarrow> tab d k = None) \<and>
       (rows = [] \<longrightarrow> c \<noteq> SQLITE_ROW) \<and> (rows \<noteq> [] \<longrightarrow> tab d k = Some (hd rows))"
    "sq_run S SQL_KEYS [] d = (rows, c, d') \<Longrightarrow> tab d' = tab d \<and> (c = SQLITE_DONE \<longrightarrow> set rows = dom (tab d) \<and> key_sorted rows)"
    "sq_run S SQL_DEL [k] d = (rows, c, d') \<Longrightarrow> rows = [] \<and> tab d' = (if c = SQLITE_DONE then (tab d)(k := None) else tab d) \<and>
       (c = SQLITE_DONE \<longrightarrow> sq_changes S d' = (if tab d k = None then 0 else 1))"
    "sq_final S SQLITE_DONE d = SQLITE_OK" "sq_close S d = (c, d') \<Longrightarrow> c = SQLITE_OK"
proof -
  have l: "law_put S tab" "law_get S tab" "law_keys S tab" "law_del S tab" "\<forall>d. fst (sq_close S d) = SQLITE_OK"
    using assms by (simp_all add: engine_ok_def)
  show "sq_run S SQL_PUT [k, v] d = (rows, c, d') \<Longrightarrow> rows = [] \<and> tab d' = (if c = SQLITE_DONE then (tab d)(k \<mapsto> v) else tab d)"
    by (rule l(1) [unfolded law_put_def, rule_format])
  show "sq_run S SQL_GET [k] d = (rows, c, d') \<Longrightarrow> tab d' = tab d \<and> (rows = [] \<and> c = SQLITE_DONE \<longrightarrow> tab d k = None) \<and>
       (rows = [] \<longrightarrow> c \<noteq> SQLITE_ROW) \<and> (rows \<noteq> [] \<longrightarrow> tab d k = Some (hd rows))" by (rule l(2) [unfolded law_get_def, rule_format])
  show "sq_run S SQL_KEYS [] d = (rows, c, d') \<Longrightarrow> tab d' = tab d \<and> (c = SQLITE_DONE \<longrightarrow> set rows = dom (tab d) \<and> key_sorted rows)"
    by (rule l(3) [unfolded law_keys_def, rule_format])
  show "sq_run S SQL_DEL [k] d = (rows, c, d') \<Longrightarrow> rows = [] \<and> tab d' = (if c = SQLITE_DONE then (tab d)(k := None) else tab d) \<and>
       (c = SQLITE_DONE \<longrightarrow> sq_changes S d' = (if tab d k = None then 0 else 1))" by (rule l(4) [unfolded law_del_def, rule_format])
  show "sq_final S SQLITE_DONE d = SQLITE_OK" using assms by (simp add: engine_ok_def)
  show "sq_close S d = (c, d') \<Longrightarrow> c = SQLITE_OK" using l(5) by (metis fst_conv)
qed

text \<open>The invariant: one connection exactly while the store is open, and no statement is left.\<close>

definition store_wf :: "'d store_st \<Rightarrow> bool" where
  "store_wf s \<longleftrightarrow> st_conns s = (if st_open s then 1 else 0) \<and> st_stmts s = 0"

lemma db_close_facts:
  assumes "engine_ok S tab" "st_conns s = 1" "st_stmts s = 0"
  shows "store_wf (db_close S s) \<and> store_abs tab (db_close S s) = None"
  using engine_okD(6) [OF assms(1)] assms(2,3) by (auto simp: db_close_def store_wf_def store_abs_def split: prod.splits)

lemma store_open_facts:
  assumes "engine_ok S tab" "store_open S path s = (r, s')" "store_wf s"
  shows "store_wf s' \<and> (r = Inr SNone \<and> store_abs tab s' \<noteq> None \<or> (\<exists>msg. r = Inl (fail msg)) \<and> store_abs tab s' = None)"
proof -
  define s0 where "s0 = (if st_open s then db_close S s else s)"
  have s0: "store_wf s0" "\<not> st_open s0"
    using db_close_facts [OF assms(1), of s] assms(3) by (auto simp: s0_def store_wf_def store_abs_def split: if_splits)
  obtain rc d where o: "sq_open S path (st_data s0) = (rc, d)" by (rule prod.exhaust)
  define s1 where "s1 = s0\<lparr>st_open := True, st_data := d, st_conns := st_conns s0 + 1\<rparr>"
  have c1: "st_conns s1 = 1" "st_stmts s1 = 0" using s0 by (simp_all add: s1_def store_wf_def)
  obtain rc2 err d2 where x: "sq_exec S SQL_CREATE d = (rc2, err, d2)" by (rule prod_cases3)
  have e: "(r, s') = (if rc \<noteq> SQLITE_OK \<or> sq_busy S d \<noteq> SQLITE_OK then (Inl (fail (sq_errmsg S d)), db_close S s1)
    else if rc2 \<noteq> SQLITE_OK then (Inl (fail err), db_close S (s1\<lparr>st_data := d2\<rparr>)) else (Inr SNone, s1\<lparr>st_data := d2\<rparr>))"
    using assms(2) o x unfolding store_open_def Let_def s0_def [symmetric] s1_def by (cases "rc = SQLITE_OK"; cases "sq_busy S d = SQLITE_OK") simp_all
  have "store_wf (s1\<lparr>st_data := d2\<rparr>)" "store_abs tab (s1\<lparr>st_data := d2\<rparr>) \<noteq> None" using c1 by (simp_all add: store_wf_def store_abs_def s1_def)
  moreover note db_close_facts [OF assms(1), of s1] db_close_facts [OF assms(1), of "s1\<lparr>st_data := d2\<rparr>"]
  ultimately show ?thesis using e c1 by (auto split: if_splits)
qed

text \<open>One statement on an open store: it is released, and the map moves as the statement says or not at all.\<close>

lemma store_get_facts:
  assumes "engine_ok S tab" "store_get S k s = (r, s')" "store_wf s" "st_open s"
  shows "store_wf s' \<and> st_open s' \<and> tab (st_data s') = tab (st_data s) \<and>
    (case r of
       Inr v \<Rightarrow> \<exists>b. tab (st_data s) k = Some b \<and> v = SBytes b
     | Inl e \<Rightarrow> e = fail_code ''notfound'' ''store key not found'' \<and> tab (st_data s) k = None \<or> (\<exists>msg. e = fail msg))"
proof -
  obtain rows c d where run: "sq_run S SQL_GET [k] (st_data s) = (rows, c, d)" by (rule prod_cases3)
  note l = engine_okD(2) [OF assms(1) run]
  have "SQLITE_ROW \<noteq> SQLITE_DONE" by (simp add: SQLITE_ROW_def SQLITE_DONE_def)
  then show ?thesis using assms(2-4) l by (auto simp: store_get_def Let_def run store_wf_def split: if_splits)
qed

lemma store_put_facts:
  assumes "engine_ok S tab" "store_put S k v s = (r, s')" "store_wf s" "st_open s"
  shows "store_wf s' \<and> st_open s' \<and>
    (case r of
       Inr u \<Rightarrow> u = SNone \<and> tab (st_data s') = (tab (st_data s))(k \<mapsto> v)
     | Inl e \<Rightarrow> tab (st_data s') = tab (st_data s) \<and> (\<exists>msg. e = fail msg))"
proof -
  obtain rows c d where run: "sq_run S SQL_PUT [k, v] (st_data s) = (rows, c, d)" by (rule prod_cases3)
  note l = engine_okD(1) [OF assms(1) run] engine_okD(5) [OF assms(1)]
  show ?thesis using assms(2-4) l by (auto simp: store_put_def Let_def run store_wf_def split: if_splits)
qed

lemma store_del_facts:
  assumes "engine_ok S tab" "store_del S k s = (r, s')" "store_wf s" "st_open s"
  shows "store_wf s' \<and> st_open s' \<and>
    (case r of
       Inr u \<Rightarrow> u = SCount (if tab (st_data s) k = None then 0 else 1) \<and> tab (st_data s') = (tab (st_data s))(k := None)
     | Inl e \<Rightarrow> tab (st_data s') = tab (st_data s) \<and> (\<exists>msg. e = fail msg))"
proof -
  obtain rows c d where run: "sq_run S SQL_DEL [k] (st_data s) = (rows, c, d)" by (rule prod_cases3)
  note l = engine_okD(4) [OF assms(1) run] engine_okD(5) [OF assms(1)]
  have q: "sq_bind S SQL_DEL 1 k (st_data s) \<noteq> SQLITE_DONE" using assms(1) by (simp add: engine_ok_def)
  show ?thesis
  proof (cases "sq_bind S SQL_DEL 1 k (st_data s) = SQLITE_OK")
    case True
    then show ?thesis using assms(2-4) l by (auto simp: store_del_def Let_def run store_wf_def split: if_splits)
  next
    case False
    then show ?thesis using assms(2-4) q by (auto simp: store_del_def Let_def store_wf_def split: if_splits)
  qed
qed

lemma store_keys_facts:
  assumes "engine_ok S tab" "store_keys S s = (r, s')" "store_wf s" "st_open s"
  shows "store_wf s' \<and> st_open s' \<and> tab (st_data s') = tab (st_data s) \<and>
    (case r of
       Inr v \<Rightarrow> \<exists>ks. v = SKeys ks \<and> set ks = dom (tab (st_data s)) \<and> key_sorted ks
     | Inl e \<Rightarrow> \<exists>msg. e = fail msg)"
proof -
  obtain rows c d where run: "sq_run S SQL_KEYS [] (st_data s) = (rows, c, d)" by (rule prod_cases3)
  note l = engine_okD(3) [OF assms(1) run]
  show ?thesis using assms(2-4) l by (auto simp: store_keys_def Let_def run store_wf_def split: if_splits)
qed

text \<open>One command is one step of the map: the command by its name, then by its arguments.\<close>

lemma StoreCmd_named:
  "vtext c = ''put'' \<Longrightarrow> StoreCmd S (c # args) s = (case args of [k, v] \<Rightarrow> with_db s (store_put S (vtext k) (Machteld_ValueBytes (sq_utf8 S) v) s) | _ \<Rightarrow> (Inl WrongNumArgs, s))"
  "vtext c = ''get'' \<Longrightarrow> StoreCmd S (c # args) s = (case args of [k] \<Rightarrow> with_db s (store_get S (vtext k) s) | _ \<Rightarrow> (Inl WrongNumArgs, s))"
  "vtext c = ''keys'' \<Longrightarrow> StoreCmd S (c # args) s = (case args of [] \<Rightarrow> with_db s (store_keys S s) | _ \<Rightarrow> (Inl WrongNumArgs, s))"
  "vtext c = ''del'' \<Longrightarrow> StoreCmd S (c # args) s = (case args of [k] \<Rightarrow> with_db s (store_del S (vtext k) s) | _ \<Rightarrow> (Inl WrongNumArgs, s))"
  "vtext c = ''close'' \<Longrightarrow> StoreCmd S (c # args) s = (case args of [] \<Rightarrow> store_close S s | _ \<Rightarrow> (Inl WrongNumArgs, s))"
  "vtext c = ''version'' \<Longrightarrow> StoreCmd S (c # args) s = (case args of [] \<Rightarrow> Inr (SText (sq_version S)) | _ \<Rightarrow> Inl WrongNumArgs, s)"
  by (simp_all add: StoreCmd_def split: list.split)

lemma StoreCmd_open:
  "vtext c = ''open'' \<Longrightarrow> StoreCmd S [c] s = store_open S '':memory:'' s"
  "vtext c = ''open'' \<Longrightarrow> StoreCmd S [c, p] s = (if vtext p = [] \<or> NUL \<in> set (vtext p) then
     (Inl (fail_code ''badvalue'' ''store path must be a non-empty string without NUL bytes''), s) else store_open S (vtext p) s)"
  "vtext c = ''open'' \<Longrightarrow> StoreCmd S (c # p # q # args) s = (Inl WrongNumArgs, s)"
  by (simp_all add: StoreCmd_def)

lemma StoreCmd_other:
  "vtext c \<notin> {''version'', ''open'', ''put'', ''get'', ''keys'', ''del'', ''close''} \<Longrightarrow> StoreCmd S (c # args) s = (Inl TclError, s)"
  by (simp add: StoreCmd_def)

definition store_kept :: "'d sqlite \<Rightarrow> ('d \<Rightarrow> string \<Rightarrow> string option) \<Rightarrow> tvalue list \<Rightarrow> 'd store_st \<Rightarrow> store_value res \<times> 'd store_st \<Rightarrow> bool" where
  "store_kept S tab objv s x \<longleftrightarrow> store_wf (snd x) \<and> kv_step (sq_utf8 S) (store_abs tab s) objv (fst x) (store_abs tab (snd x))"

lemma store_kept_usage:
  "store_wf s \<Longrightarrow> kv_step (sq_utf8 S) (store_abs tab s) objv (Inl e) (store_abs tab s) \<Longrightarrow> store_kept S tab objv s (Inl e, s)"
  by (simp add: store_kept_def)

lemma store_kept_with_db:
  assumes "store_wf s" "vtext c \<in> {''put'', ''get'', ''keys'', ''del''}" "length args \<in> store_arity (vtext c)"
    and "st_open s \<Longrightarrow> store_kept S tab (c # args) s x"
  shows "store_kept S tab (c # args) s (with_db s x)"
proof (cases "st_open s")
  case True
  then show ?thesis using assms(4) by (simp add: with_db_def needDb_def)
next
  case False
  then show ?thesis using assms(1) kv_notopen [OF assms(2,3)] by (simp add: with_db_def needDb_def store_kept_def store_abs_def)
qed

lemma store_kept_put:
  assumes "engine_ok S tab" "store_wf s" "vtext c = ''put''" "st_open s"
  shows "store_kept S tab [c, k, v] s (store_put S (vtext k) (Machteld_ValueBytes (sq_utf8 S) v) s)"
proof -
  obtain r s' where e: "store_put S (vtext k) (Machteld_ValueBytes (sq_utf8 S) v) s = (r, s')" by (rule prod.exhaust)
  note f = store_put_facts [OF assms(1) e assms(2,4)]
  show ?thesis using f e assms kv_put [of c "sq_utf8 S"] kv_sqlite [of c "[k, v]"] by (cases r) (auto simp: store_kept_def store_abs_def store_arity_def)
qed

lemma store_kept_get:
  assumes "engine_ok S tab" "store_wf s" "vtext c = ''get''" "st_open s"
  shows "store_kept S tab [c, k] s (store_get S (vtext k) s)"
proof -
  obtain r s' where e: "store_get S (vtext k) s = (r, s')" by (rule prod.exhaust)
  note f = store_get_facts [OF assms(1) e assms(2,4)]
  show ?thesis using f e assms kv_get [of c] kv_missing [of c] kv_sqlite [of c "[k]"] by (cases r) (auto simp: store_kept_def store_abs_def store_arity_def)
qed

lemma store_kept_keys:
  assumes "engine_ok S tab" "store_wf s" "vtext c = ''keys''" "st_open s"
  shows "store_kept S tab [c] s (store_keys S s)"
proof -
  obtain r s' where e: "store_keys S s = (r, s')" by (rule prod.exhaust)
  note f = store_keys_facts [OF assms(1) e assms(2,4)]
  show ?thesis using f e assms kv_keys [of c] kv_sqlite [of c "[]"] by (cases r) (auto simp: store_kept_def store_abs_def store_arity_def)
qed

lemma store_kept_del:
  assumes "engine_ok S tab" "store_wf s" "vtext c = ''del''" "st_open s"
  shows "store_kept S tab [c, k] s (store_del S (vtext k) s)"
proof -
  obtain r s' where e: "store_del S (vtext k) s = (r, s')" by (rule prod.exhaust)
  note f = store_del_facts [OF assms(1) e assms(2,4)]
  show ?thesis
    using f e assms kv_del [of c "sq_utf8 S" "tab (st_data s)" k] kv_sqlite [of c "[k]"] by (cases r) (auto simp: store_kept_def store_abs_def store_arity_def)
qed

lemma store_kept_open:
  assumes "engine_ok S tab" "store_wf s" "vtext c = ''open''" "length args \<le> 1" "\<forall>p\<in>set args. good_path p"
  shows "store_kept S tab (c # args) s (store_open S path s)"
proof -
  obtain r s' where e: "store_open S path s = (r, s')" by (rule prod.exhaust)
  note f = store_open_facts [OF assms(1) e assms(2)]
  show ?thesis using f e assms kv_open [OF assms(3-5)] kv_unopened [OF assms(3-5)] by (auto simp: store_kept_def)
qed

lemma store_kept_close:
  assumes "engine_ok S tab" "store_wf s" "vtext c = ''close''"
  shows "store_kept S tab [c] s (store_close S s)"
proof -
  obtain rc d where e: "sq_close S (st_data s) = (rc, d)" by (rule prod.exhaust)
  show ?thesis using assms e engine_okD(6) [OF assms(1) e] kv_close [of c]
    by (simp add: store_kept_def store_close_def store_abs_def store_wf_def)
qed

lemma StoreCmd_kept:
  assumes "engine_ok S tab" "store_wf s"
  shows "store_kept S tab objv s (StoreCmd S objv s)"
proof (cases objv)
  case Nil
  then show ?thesis using store_kept_usage [OF assms(2) kv_no_words] by (simp add: StoreCmd_def)
next
  case (Cons c args)
  note u = store_kept_usage [OF assms(2) kv_usage, of c args]
  note w = store_kept_with_db [OF assms(2), of c]
  consider "vtext c = ''put''" | "vtext c = ''get''" | "vtext c = ''keys''" | "vtext c = ''del''" | "vtext c = ''open''"
    | "vtext c = ''close''" | "vtext c = ''version''" | "vtext c \<notin> store_names" by (auto simp: store_names_def)
  then have "store_kept S tab (c # args) s (StoreCmd S (c # args) s)"
  proof cases
    case 1
    then show ?thesis using u w store_kept_put [OF assms 1]
      by (auto simp: StoreCmd_named(1) store_names_def store_arity_def split: list.split)
  next
    case 2
    then show ?thesis using u w store_kept_get [OF assms 2]
      by (auto simp: StoreCmd_named(2) store_names_def store_arity_def split: list.split)
  next
    case 3
    then show ?thesis using u w store_kept_keys [OF assms 3]
      by (auto simp: StoreCmd_named(3) store_names_def store_arity_def split: list.split)
  next
    case 4
    then show ?thesis using u w store_kept_del [OF assms 4]
      by (auto simp: StoreCmd_named(4) store_names_def store_arity_def split: list.split)
  next
    case 5
    note o = store_kept_open [OF assms 5]
    consider "args = []" | p where "args = [p]" "good_path p" | p where "args = [p]" "\<not> good_path p" | p q t where "args = p # q # t"
      by (metis list.exhaust)
    then show ?thesis
    proof cases
      case (3 p)
      then show ?thesis using store_kept_usage [OF assms(2) kv_bad_path [OF 5 3(2)]] 5 by (auto simp: StoreCmd_open)
    qed (use o u 5 in \<open>simp_all add: StoreCmd_open store_names_def store_arity_def\<close>)
  next
    case 6
    then show ?thesis using u store_kept_close [OF assms 6] by (auto simp: StoreCmd_named(5) store_names_def store_arity_def split: list.split)
  next
    case 7
    then show ?thesis using u assms(2) kv_version [OF 7]
      by (auto simp: StoreCmd_named(6) store_kept_def store_names_def store_arity_def split: list.split)
  next
    case 8
    then show ?thesis using store_kept_usage [OF assms(2) kv_unknown [OF 8]] by (simp add: StoreCmd_other store_names_def)
  qed
  then show ?thesis by (simp add: Cons)
qed

section \<open>Histories\<close>

fun store_run :: "'d sqlite \<Rightarrow> tvalue list list \<Rightarrow> 'd store_st \<Rightarrow> store_value res list \<times> 'd store_st" where
  "store_run S [] s = ([], s)"
| "store_run S (c # cs) s = (let (r, t) = StoreCmd S c s; (rs, u) = store_run S cs t in (r # rs, u))"

text \<open>The same history on the abstract map: each answer is one that the step relation allows.\<close>

inductive kv_run :: "(string \<Rightarrow> string) \<Rightarrow> (string \<Rightarrow> string option) option \<Rightarrow> tvalue list list \<Rightarrow> store_value res list \<Rightarrow>
    (string \<Rightarrow> string option) option \<Rightarrow> bool" for utf8 where
  kv_run_nil: "kv_run utf8 a [] [] a"
| kv_run_cons: "kv_step utf8 a c r b \<Longrightarrow> kv_run utf8 b cs rs d \<Longrightarrow> kv_run utf8 a (c # cs) (r # rs) d"

lemma store_run_kept:
  assumes "engine_ok S tab" "store_wf s" "store_run S cs s = (rs, t)"
  shows "store_wf t \<and> kv_run (sq_utf8 S) (store_abs tab s) cs rs (store_abs tab t)"
  using assms(2,3)
proof (induction cs arbitrary: s rs)
  case Nil
  then show ?case by (simp add: kv_run_nil)
next
  case (Cons c cs)
  obtain r u where u: "StoreCmd S c s = (r, u)" by (rule prod.exhaust)
  obtain qs v where v: "store_run S cs u = (qs, v)" by (rule prod.exhaust)
  have "store_wf u" "kv_step (sq_utf8 S) (store_abs tab s) c r (store_abs tab u)"
    using StoreCmd_kept [OF assms(1) Cons.prems(1), of c] u by (simp_all add: store_kept_def)
  moreover have "v = t" "rs = r # qs" using Cons.prems(2) u v by simp_all
  ultimately show ?case using Cons.IH [of u qs] v by (auto intro: kv_run_cons)
qed


text \<open>A command that neither opens nor closes the store and writes no key \<open>k\<close>.\<close>

definition kv_quiet :: "string \<Rightarrow> tvalue list \<Rightarrow> bool" where
  "kv_quiet k objv = (case objv of [] \<Rightarrow> True
     | c # args \<Rightarrow> vtext c \<notin> {''open'', ''close''} \<and>
         (vtext c \<in> {''put'', ''del''} \<longrightarrow> (case args of [] \<Rightarrow> True | a # _ \<Rightarrow> vtext a \<noteq> k)))"

lemma kv_quiet_keeps:
  assumes "kv_step utf8 (Some m) objv r a" "kv_quiet k objv"
  obtains m' where "a = Some m'" "m' k = m k"
  using assms by (cases rule: kv_step.cases) (auto simp: kv_quiet_def)

lemma kv_run_quiet:
  assumes "kv_run utf8 a cs rs b" "a = Some m" "\<forall>c \<in> set cs. kv_quiet k c"
  shows "\<exists>m'. b = Some m' \<and> m' k = m k"
  using assms
proof (induction arbitrary: m)
  case (kv_run_nil a)
  then show ?case by simp
next
  case (kv_run_cons a c r b cs rs d)
  obtain m' where "b = Some m'" "m' k = m k"
    by (rule kv_quiet_keeps [of utf8 m c r b k]) (use kv_run_cons in simp_all)
  with kv_run_cons.IH [of m'] kv_run_cons.prems show ?case by auto
qed






text \<open>C18: Bytes that a put stored come back, as long as no other program writes to the file in between: after a put that answered success and any commands that neither open, close
  nor write that key, a get answers those bytes, or an SQLite error, and never that the key or the store is missing.\<close>

theorem store_roundtrip:
  assumes "engine_ok S tab" "store_wf s" "vtext p = ''put''" "vtext g = ''get''"
    and "StoreCmd S [p, k, v] s = (Inr SNone, s1)"
    and "\<forall>c \<in> set cs. kv_quiet (vtext k) c" "store_run S cs s1 = (rs, s2)"
    and "vtext k' = vtext k"
  shows "fst (StoreCmd S [g, k'] s2) = Inr (SBytes (Machteld_ValueBytes (sq_utf8 S) v)) \<or>
    (\<exists>msg. fst (StoreCmd S [g, k'] s2) = Inl (fail msg))"
proof -
  have 1: "store_wf s1" "kv_step (sq_utf8 S) (store_abs tab s) [p, k, v] (Inr SNone) (store_abs tab s1)"
    using StoreCmd_kept [OF assms(1,2), of "[p, k, v]"] assms(5) by (simp_all add: store_kept_def)
  then obtain m where m: "store_abs tab s1 = Some m" "m (vtext k) = Some (Machteld_ValueBytes (sq_utf8 S) v)"
    using assms(3) by (auto elim: kv_step.cases)
  note 2 = store_run_kept [OF assms(1) 1(1) assms(7)]
  then obtain m' where m': "store_abs tab s2 = Some m'" "m' (vtext k) = m (vtext k)"
    using kv_run_quiet [OF _ m(1) assms(6)] by blast
  obtain r u where r: "StoreCmd S [g, k'] s2 = (r, u)" by (rule prod.exhaust)
  have o: "st_open s2" "tab (st_data s2) = m'" using m'(1) by (simp_all add: store_abs_def split: if_splits)
  then have e: "store_get S (vtext k) s2 = (r, u)"
    using assms(4,8) r by (simp add: StoreCmd_def with_db_def needDb_def)
  show ?thesis using store_get_facts [OF assms(1) e 2 [THEN conjunct1] o(1)] r o m' m(2) by (cases r) auto
qed

section \<open>An engine in memory\<close>

definition mem_keys :: "(string \<times> string) list \<Rightarrow> string list" where
  "mem_keys d = map (map char_of) (sort (remdups (map (\<lambda>(k, v). map byte_of k :: nat list) d)))"

definition mem_engine :: "((string \<times> string) list \<times> nat) sqlite" where
  "mem_engine = \<lparr>sq_version = ''3'', sq_open = (\<lambda>p d. (SQLITE_OK, [], 0)), sq_close = (\<lambda>d. (SQLITE_OK, d)), sq_busy = (\<lambda>d. SQLITE_OK),
    sq_exec = (\<lambda>q d. (SQLITE_OK, None, d)), sq_prepare = (\<lambda>q d. SQLITE_OK), sq_bind = (\<lambda>q i v d. SQLITE_OK),
    sq_run = (\<lambda>q args (d, n).
      if q = SQL_PUT then ([], SQLITE_DONE, (args ! 0, args ! 1) # d, 1)
      else if q = SQL_GET then (case map_of d (args ! 0) of None \<Rightarrow> [] | Some v \<Rightarrow> [v], SQLITE_DONE, d, n)
      else if q = SQL_KEYS then (mem_keys d, SQLITE_DONE, d, n)
      else (([], SQLITE_DONE, filter (\<lambda>(k, v). k \<noteq> args ! 0) d, if map_of d (args ! 0) = None then 0 else 1))),
    sq_final = (\<lambda>c d. SQLITE_OK), sq_changes = snd, sq_errmsg = (\<lambda>d. None), sq_utf8 = (\<lambda>s. s)\<rparr>"

lemma map_of_without: "map_of (filter (\<lambda>(a, v). a \<noteq> k) d) = (map_of d)(k := None)"
  by (induction d) (auto simp: fun_eq_iff)

lemma mem_keys_ok: "set (mem_keys d) = dom (map_of d)" "key_sorted (mem_keys d)"
proof -
  have r: "map (char_of :: nat \<Rightarrow> char) (map byte_of (x :: string)) = x" for x by (induction x) simp_all
  show "set (mem_keys d) = dom (map_of d)" using r by (force simp: mem_keys_def dom_map_of_conv_image_fst)
  have q: "map byte_of (map (char_of :: nat \<Rightarrow> char) x) = x" if "x \<in> set (map (\<lambda>(k, v). map byte_of k :: nat list) d)" for x
    using that r by auto
  have "sorted_wrt (<) (sort (remdups (map (\<lambda>(k, v). map byte_of k :: nat list) d)))"
    by (simp add: strict_sorted_iff)
  then show "key_sorted (mem_keys d)"
    unfolding key_sorted_def mem_keys_def sorted_wrt_map by (rule sorted_wrt_mono_rel [rotated]) (use q in simp)
qed

lemma mem_engine_ok: "engine_ok mem_engine (\<lambda>d. map_of (fst d))"
  unfolding engine_ok_def law_put_def law_get_def law_keys_def law_del_def
  by (auto simp: mem_engine_def SQL_PUT_def SQL_GET_def SQL_KEYS_def SQL_DEL_def SQLITE_OK_def SQLITE_ROW_def SQLITE_DONE_def
      map_of_without mem_keys_ok split: option.splits)


lemma store_roundtrip_witness:
  "fst (StoreCmd mem_engine [VText ''get'', VText ''a''] \<lparr>st_open = True, st_data = ([(''b'', ''2''), (''a'', ''1'')], 1), st_conns = 1, st_stmts = 0\<rparr>) = Inr (SBytes ''1'')"
proof -
  have 1: "StoreCmd mem_engine [VText ''put'', VText ''a'', VText ''1''] \<lparr>st_open = True, st_data = ([], 0), st_conns = 1, st_stmts = 0\<rparr> =
    (Inr SNone, \<lparr>st_open = True, st_data = ([(''a'', ''1'')], 1), st_conns = 1, st_stmts = 0\<rparr>)" by code_simp
  have 2: "store_run mem_engine [[VText ''put'', VText ''b'', VText ''2'']] \<lparr>st_open = True, st_data = ([(''a'', ''1'')], 1), st_conns = 1, st_stmts = 0\<rparr> =
    ([Inr SNone], \<lparr>st_open = True, st_data = ([(''b'', ''2''), (''a'', ''1'')], 1), st_conns = 1, st_stmts = 0\<rparr>)" by code_simp
  have 3: "isl (fst (StoreCmd mem_engine [VText ''get'', VText ''a''] \<lparr>st_open = True, st_data = ([(''b'', ''2''), (''a'', ''1'')], 1), st_conns = 1, st_stmts = 0\<rparr>)) = False"
    by code_simp
  show ?thesis
    using store_roundtrip [OF mem_engine_ok _ _ _ 1 _ 2, of "VText ''get''" "VText ''a''"] 3
    by (auto simp: store_wf_def kv_quiet_def mem_engine_def Machteld_ValueBytes_def)
qed

end
