(* ===== verification/Publish.thy ===== *)
theory Publish
  imports TclValue Opts DirsPath
begin

text \<open>
  Atomic publication (\<^verbatim>\<open>src/publish.c\<close>): a finished candidate file takes the name of the destination. Windows is a
  parameter that answers each call as it likes, given the trace of all calls before it: so the theorems hold whatever
  other programs do to the same names between two calls. Paths are Tcl's business: \<open>pub_fs\<close>.
\<close>

section \<open>Windows and Tcl\<close>

datatype pub_access = FILE_READ_ATTRIBUTES | FILE_WRITE_ATTRIBUTES | GENERIC_WRITE | DELETE
datatype pub_share = FILE_SHARE_READ | FILE_SHARE_WRITE | FILE_SHARE_DELETE
datatype pub_disposition = OPEN_EXISTING | CREATE_NEW

record pub_mode =
  pm_access :: "pub_access list"
  pm_share :: "pub_share list"
  pm_disposition :: pub_disposition

abbreviation share_all :: "pub_share list" where "share_all \<equiv> [FILE_SHARE_READ, FILE_SHARE_WRITE, FILE_SHARE_DELETE]"

definition MODE_PROBE :: pub_mode where
  "MODE_PROBE = \<lparr>pm_access = [FILE_READ_ATTRIBUTES], pm_share = share_all, pm_disposition = OPEN_EXISTING\<rparr>"
definition MODE_CANDIDATE :: pub_mode where
  "MODE_CANDIDATE = \<lparr>pm_access = [FILE_READ_ATTRIBUTES, DELETE], pm_share = [FILE_SHARE_READ, FILE_SHARE_DELETE], pm_disposition = OPEN_EXISTING\<rparr>"
definition MODE_MARKER :: pub_mode where
  "MODE_MARKER = \<lparr>pm_access = [FILE_READ_ATTRIBUTES, GENERIC_WRITE, DELETE], pm_share = share_all, pm_disposition = CREATE_NEW\<rparr>"
definition MODE_DELETE :: pub_mode where
  "MODE_DELETE = \<lparr>pm_access = [FILE_READ_ATTRIBUTES, FILE_WRITE_ATTRIBUTES, DELETE], pm_share = share_all, pm_disposition = OPEN_EXISTING\<rparr>"

text \<open>
  The four answers of one identification: the type of the handle; attributes, volume and file index (high, low), if the
  old query works; attributes or an error code; extended volume and identifier or an error code.
\<close>

type_synonym pub_answers = "nat \<times> (dword \<times> dword \<times> dword \<times> dword) option \<times> (nat + dword) \<times> (nat + 64 word \<times> string)"

text \<open>A failed call carries its error code. A handle is the number of events before the call that opened it.\<close>

datatype pub_event =
    EvOpen wstr pub_mode "nat option"
  | EvQuery nat pub_answers
  | EvBasic nat "nat + dword"
  | EvSetAttr nat dword "nat option"
  | EvDispose nat "nat option"
  | EvClose nat
  | EvMove wstr wstr "nat option"
  | EvRestore wstr wstr "nat option"
  | EvReplace wstr wstr wstr "nat option"
  | EvDelete wstr
  | EvRandom "8 word list option"
  | EvAlloc bool

type_synonym pub_trace = "pub_event list"

record pub_os =
  po_open :: "pub_trace \<Rightarrow> wstr \<Rightarrow> pub_mode \<Rightarrow> nat option"
  po_query :: "pub_trace \<Rightarrow> nat \<Rightarrow> pub_answers"
  po_basic :: "pub_trace \<Rightarrow> nat \<Rightarrow> nat + dword"
  po_set_attr :: "pub_trace \<Rightarrow> nat \<Rightarrow> dword \<Rightarrow> nat option"
  po_dispose :: "pub_trace \<Rightarrow> nat \<Rightarrow> nat option"
  po_move :: "pub_trace \<Rightarrow> wstr \<Rightarrow> wstr \<Rightarrow> nat option"
  po_replace :: "pub_trace \<Rightarrow> wstr \<Rightarrow> wstr \<Rightarrow> wstr \<Rightarrow> nat option"
  po_random :: "pub_trace \<Rightarrow> 8 word list option"
  po_alloc :: "pub_trace \<Rightarrow> nat \<Rightarrow> bool"

record pub_fs =
  fs_normal :: "string \<Rightarrow> string option"
  fs_native :: "string \<Rightarrow> wstr option"
  fs_split :: "string \<Rightarrow> string list option"
  fs_join :: "string list \<Rightarrow> string option"

definition ERROR_FILE_NOT_FOUND :: nat where "ERROR_FILE_NOT_FOUND = 2"
definition ERROR_PATH_NOT_FOUND :: nat where "ERROR_PATH_NOT_FOUND = 3"
definition ERROR_SHARING_VIOLATION :: nat where "ERROR_SHARING_VIOLATION = 32"
definition ERROR_FILE_EXISTS :: nat where "ERROR_FILE_EXISTS = 80"
definition ERROR_ALREADY_EXISTS :: nat where "ERROR_ALREADY_EXISTS = 183"
definition ERROR_DIRECTORY :: nat where "ERROR_DIRECTORY = 267"
definition FILE_TYPE_DISK :: nat where "FILE_TYPE_DISK = 1"
definition FILE_ATTRIBUTE_READONLY :: dword where "FILE_ATTRIBUTE_READONLY = 1"
definition FILE_ATTRIBUTE_NORMAL :: dword where "FILE_ATTRIBUTE_NORMAL = 0x80"

definition missing_error :: "nat \<Rightarrow> bool" where
  "missing_error e \<longleftrightarrow> e = ERROR_FILE_NOT_FOUND \<or> e = ERROR_PATH_NOT_FOUND"

definition exists_error :: "nat \<Rightarrow> bool" where
  "exists_error e \<longleftrightarrow> e = ERROR_FILE_EXISTS \<or> e = ERROR_ALREADY_EXISTS"

section \<open>Identities\<close>

record pub_identity =
  pi_extended :: "(64 word \<times> string) option"
  pi_legacy :: "(dword \<times> 64 word) option"

record pub_info =
  pf_attributes :: dword
  pf_type :: nat
  pf_identity :: pub_identity

text \<open>An error is a code with its text, or a Windows error, perhaps with the path where the prior destination remains.\<close>

datatype pub_error = PubError string string | PubWinError string nat "wstr option"

abbreviation badvalue :: "string \<Rightarrow> pub_error" where "badvalue msg \<equiv> PubError ''badvalue'' msg"

definition query_info :: "pub_answers \<Rightarrow> nat + pub_info" where
  "query_info a = (case a of (ty, legacy, tag, ext) \<Rightarrow>
     let ident = \<lparr>pi_extended = (case ext of Inl _ \<Rightarrow> None | Inr x \<Rightarrow> Some x),
                  pi_legacy = (case legacy of None \<Rightarrow> None | Some (_, vol, high, low) \<Rightarrow> Some (vol, or (push_bit 32 (ucast high)) (ucast low)))\<rparr> in
     case (tag, legacy) of
       (Inl e, None) \<Rightarrow> Inl e
     | (Inl _, Some (attrs, _)) \<Rightarrow> Inr \<lparr>pf_attributes = attrs, pf_type = ty, pf_identity = ident\<rparr>
     | (Inr attrs, Some _) \<Rightarrow> Inr \<lparr>pf_attributes = attrs, pf_type = ty, pf_identity = ident\<rparr>
     | (Inr attrs, None) \<Rightarrow> (case ext of Inl e \<Rightarrow> Inl e | Inr _ \<Rightarrow> Inr \<lparr>pf_attributes = attrs, pf_type = ty, pf_identity = ident\<rparr>))"

definition same_identity_value :: "pub_identity \<Rightarrow> pub_identity \<Rightarrow> bool" where
  "same_identity_value l r = (case (pi_extended l, pi_extended r) of
     (Some (v, i), Some (w, j)) \<Rightarrow> v = w \<and> memcmp i j = 0
   | _ \<Rightarrow> (case (pi_legacy l, pi_legacy r) of (Some (v, f), Some (w, g)) \<Rightarrow> v = w \<and> f = g | _ \<Rightarrow> False))"

definition same_volume :: "pub_identity \<Rightarrow> pub_identity \<Rightarrow> bool" where
  "same_volume l r = (case (pi_extended l, pi_extended r) of
     (Some (v, _), Some (w, _)) \<Rightarrow> v = w
   | _ \<Rightarrow> (case (pi_legacy l, pi_legacy r) of (Some (v, _), Some (w, _)) \<Rightarrow> v = w | _ \<Rightarrow> False))"

definition same_identity :: "pub_info \<Rightarrow> pub_info \<Rightarrow> bool" where
  "same_identity l r = same_identity_value (pf_identity l) (pf_identity r)"

definition is_regular :: "pub_info \<Rightarrow> bool" where
  "is_regular i \<longleftrightarrow> pf_type i = FILE_TYPE_DISK \<and> and (pf_attributes i) (or FILE_ATTRIBUTE_DIRECTORY FILE_ATTRIBUTE_REPARSE_POINT) = 0"

definition is_plain_directory :: "pub_info \<Rightarrow> bool" where
  "is_plain_directory i \<longleftrightarrow> pf_type i = FILE_TYPE_DISK \<and> and (pf_attributes i) FILE_ATTRIBUTE_DIRECTORY \<noteq> 0 \<and>
     and (pf_attributes i) FILE_ATTRIBUTE_REPARSE_POINT = 0"

section \<open>Handles and probes\<close>

definition pub_open :: "pub_os \<Rightarrow> wstr \<Rightarrow> pub_mode \<Rightarrow> pub_trace \<Rightarrow> (nat + nat) \<times> pub_trace" where
  "pub_open os path mode tr = (case po_open os tr path mode of
     Some e \<Rightarrow> (Inl e, EvOpen path mode (Some e) # tr)
   | None \<Rightarrow> (Inr (length tr), EvOpen path mode None # tr))"

definition query_handle :: "pub_os \<Rightarrow> nat \<Rightarrow> pub_trace \<Rightarrow> (nat + pub_info) \<times> pub_trace" where
  "query_handle os h tr = (let a = po_query os tr h in (query_info a, EvQuery h a # tr))"

datatype pub_probe = PUBLISH_PROBE_ERROR nat | PUBLISH_PROBE_ABSENT | PUBLISH_PROBE_PRESENT pub_info

definition probe_path :: "pub_os \<Rightarrow> wstr \<Rightarrow> pub_mode \<Rightarrow> pub_trace \<Rightarrow> pub_probe \<times> pub_trace" where
  "probe_path os path mode tr = (case pub_open os path mode tr of
     (Inl e, tr) \<Rightarrow> (if missing_error e then PUBLISH_PROBE_ABSENT else PUBLISH_PROBE_ERROR e, tr)
   | (Inr h, tr) \<Rightarrow> (case query_handle os h tr of
       (q, tr) \<Rightarrow> (case q of Inl e \<Rightarrow> PUBLISH_PROBE_ERROR e | Inr i \<Rightarrow> PUBLISH_PROBE_PRESENT i, EvClose h # tr)))"

definition check_parent :: "pub_os \<Rightarrow> wstr \<Rightarrow> string \<Rightarrow> pub_trace \<Rightarrow> (pub_error + pub_info) \<times> pub_trace" where
  "check_parent os parent label tr = (case probe_path os parent MODE_PROBE tr of
     (p, tr) \<Rightarrow> (case p of
        PUBLISH_PROBE_ABSENT \<Rightarrow> Inl (badvalue (label @ '' does not exist''))
      | PUBLISH_PROBE_ERROR e \<Rightarrow> Inl (PubWinError ''cannot inspect the publication parent directory'' e None)
      | PUBLISH_PROBE_PRESENT i \<Rightarrow>
          if \<not> is_plain_directory i then Inl (badvalue (label @ '' must be a directory and not a reparse point'')) else Inr i, tr))"

definition check_candidate :: "pub_os \<Rightarrow> wstr \<Rightarrow> pub_info option \<Rightarrow> pub_trace \<Rightarrow> (pub_error + pub_info) \<times> pub_trace" where
  "check_candidate os candidate expected tr = (case probe_path os candidate MODE_CANDIDATE tr of
     (p, tr) \<Rightarrow> (case p of
        PUBLISH_PROBE_ABSENT \<Rightarrow> Inl (badvalue ''publication candidate does not exist'')
      | PUBLISH_PROBE_ERROR e \<Rightarrow>
          if e = ERROR_SHARING_VIOLATION then Inl (badvalue ''publication candidate is still open for writing'')
          else Inl (PubWinError ''cannot inspect the publication candidate'' e None)
      | PUBLISH_PROBE_PRESENT current \<Rightarrow>
          if \<not> is_regular current then Inl (badvalue ''publication candidate must be a regular file and not a reparse point'')
          else if (case expected of None \<Rightarrow> False | Some i \<Rightarrow> \<not> same_identity i current) then
            Inl (badvalue ''publication candidate changed during publication'')
          else Inr current, tr))"

text \<open>The answer: an error, or the file that is there, if any.\<close>

definition check_destination :: "pub_os \<Rightarrow> wstr \<Rightarrow> pub_trace \<Rightarrow> (pub_error + pub_info option) \<times> pub_trace" where
  "check_destination os destination tr = (case probe_path os destination MODE_PROBE tr of
     (p, tr) \<Rightarrow> (case p of
        PUBLISH_PROBE_ERROR e \<Rightarrow> Inl (PubWinError ''cannot inspect the publication destination'' e None)
      | PUBLISH_PROBE_ABSENT \<Rightarrow> Inr None
      | PUBLISH_PROBE_PRESENT i \<Rightarrow>
          if \<not> is_regular i then Inl (badvalue ''publication destination must be a regular file and not a reparse point'')
          else Inr (Some i), tr))"

section \<open>The backup name\<close>

definition hex_digits :: wstr where "hex_digits = wide_ascii ''0123456789abcdef''"

definition marker_path :: "wstr \<Rightarrow> 8 word list \<Rightarrow> wstr" where
  "marker_path parent random =
    parent @ (if parent \<noteq> [] \<and> last parent \<noteq> 92 \<and> last parent \<noteq> 47 then [92] else []) @
    wide_ascii ''.machteld-publish-backup-'' @ concat (map (\<lambda>b. [hex_digits ! unat (drop_bit 4 b), hex_digits ! unat (and b 15)]) random)"

fun backup_marker :: "pub_os \<Rightarrow> wstr \<Rightarrow> nat \<Rightarrow> pub_trace \<Rightarrow> (pub_error + wstr \<times> pub_info) \<times> pub_trace" where
  "backup_marker os parent 0 tr = (Inl (PubError ''oserror'' ''cannot reserve a unique publication backup path''), tr)"
| "backup_marker os parent (Suc n) tr =
    (let random = po_random os tr; tr = EvRandom random # tr in
     case random of
       None \<Rightarrow> (Inl (PubError ''oserror'' ''the system random generator failed while publishing''), tr)
     | Some bytes \<Rightarrow>
         let path = marker_path parent bytes; ok = po_alloc os tr (2 * (length path + 1)); tr = EvAlloc ok # tr in
         if \<not> ok then (Inl (PubError ''oserror'' ''out of memory creating the publication backup path''), tr)
         else (case pub_open os path MODE_MARKER tr of
           (Inl e, tr) \<Rightarrow>
             if exists_error e then backup_marker os parent n tr
             else (Inl (PubWinError ''cannot reserve the publication backup path'' e None), tr)
         | (Inr h, tr) \<Rightarrow> (case query_handle os h tr of
             (Inl e, tr) \<Rightarrow> (Inl (PubWinError ''cannot identify the publication backup marker'' e None), EvDelete path # EvClose h # tr)
           | (Inr marker, tr) \<Rightarrow> (Inr (path, marker), EvClose h # tr))))"

section \<open>Deleting and recovering\<close>

definition delete_open_handle :: "pub_os \<Rightarrow> nat \<Rightarrow> pub_trace \<Rightarrow> (nat + unit) \<times> pub_trace" where
  "delete_open_handle os h tr = (case query_handle os h tr of
     (Inl e, tr) \<Rightarrow> (Inl e, tr)
   | (Inr current, tr) \<Rightarrow>
       if \<not> is_regular current then (Inl ERROR_DIRECTORY, tr)
       else
         let (w, tr) =
           (if and (pf_attributes current) FILE_ATTRIBUTE_READONLY \<noteq> 0 then
              let basic = po_basic os tr h; tr = EvBasic h basic # tr in
              case basic of
                Inl e \<Rightarrow> (Some e, tr)
              | Inr attrs \<Rightarrow>
                  let cleared = and attrs (not FILE_ATTRIBUTE_READONLY); cleared = (if cleared = 0 then FILE_ATTRIBUTE_NORMAL else cleared);
                      x = po_set_attr os tr h cleared in (x, EvSetAttr h cleared x # tr)
            else (None, tr)) in
         case w of
           Some e \<Rightarrow> (Inl e, tr)
         | None \<Rightarrow> let x = po_dispose os tr h in (case x of Some e \<Rightarrow> Inl e | None \<Rightarrow> Inr (), EvDispose h x # tr))"

definition delete_identity :: "pub_os \<Rightarrow> wstr \<Rightarrow> pub_info \<Rightarrow> pub_trace \<Rightarrow> bool \<times> pub_trace" where
  "delete_identity os path expected tr = (case pub_open os path MODE_DELETE tr of
     (Inl _, tr) \<Rightarrow> (False, tr)
   | (Inr h, tr) \<Rightarrow> (case query_handle os h tr of
       (q, tr) \<Rightarrow>
         let (removed, tr) =
           (case q of
              Inl _ \<Rightarrow> (False, tr)
            | Inr current \<Rightarrow>
                if is_regular current \<and> same_identity current expected then
                  (case delete_open_handle os h tr of (r, tr) \<Rightarrow> (r = Inr (), tr))
                else (False, tr)) in (removed, EvClose h # tr)))"

definition delete_backup_after_replace :: "pub_os \<Rightarrow> nat \<Rightarrow> pub_trace \<Rightarrow> pub_trace" where
  "delete_backup_after_replace os h tr = snd (delete_open_handle os h tr)"

text \<open>Is the destination back? The last check of \<^verbatim>\<open>recover_replace_failure\<close>.\<close>

definition recover_confirm :: "pub_os \<Rightarrow> wstr \<Rightarrow> pub_info \<Rightarrow> pub_trace \<Rightarrow> bool \<times> pub_trace" where
  "recover_confirm os destination held tr = (case probe_path os destination MODE_PROBE tr of
     (p, tr) \<Rightarrow> (case p of PUBLISH_PROBE_PRESENT i \<Rightarrow> \<not> (is_regular i \<and> same_identity i held) | _ \<Rightarrow> True, tr))"

definition recover_replace_failure :: "pub_os \<Rightarrow> nat \<Rightarrow> wstr \<Rightarrow> wstr \<Rightarrow> pub_info \<Rightarrow> pub_trace \<Rightarrow> bool \<times> pub_trace" where
  "recover_replace_failure os old backup destination marker tr = (case query_handle os old tr of
     (Inl _, tr) \<Rightarrow> (True, tr)
   | (Inr held, tr) \<Rightarrow>
       if \<not> is_regular held then (True, tr)
       else (case probe_path os backup MODE_PROBE tr of
         (PUBLISH_PROBE_ERROR _, tr) \<Rightarrow> (True, tr)
       | (PUBLISH_PROBE_ABSENT, tr) \<Rightarrow> recover_confirm os destination held tr
       | (PUBLISH_PROBE_PRESENT current, tr) \<Rightarrow>
           if \<not> is_regular current then (True, tr)
           else if same_identity current held then
             (case probe_path os destination MODE_PROBE tr of
                (PUBLISH_PROBE_ABSENT, tr) \<Rightarrow>
                  let x = po_move os tr backup destination in (x \<noteq> None, EvRestore backup destination x # tr)
              | (_, tr) \<Rightarrow> (True, tr))
           else if \<not> same_identity current marker then (True, tr)
           else (case delete_identity os backup marker tr of
             (_, tr) \<Rightarrow> (case probe_path os backup MODE_PROBE tr of
                (PUBLISH_PROBE_ABSENT, tr) \<Rightarrow> recover_confirm os destination held tr
              | (_, tr) \<Rightarrow> (True, tr)))))"

section \<open>The command\<close>

definition native_path_from_obj :: "pub_fs \<Rightarrow> string \<Rightarrow> string \<Rightarrow> pub_error + (string \<times> wstr)" where
  "native_path_from_obj fs v label =
    (if v = [] then Inl (badvalue (label @ '' path must not be empty''))
     else case fs_normal fs v of
       None \<Rightarrow> Inl (badvalue (label @ '' is not a usable path''))
     | Some n \<Rightarrow> (case fs_native fs n of
         None \<Rightarrow> Inl (badvalue (label @ '' must be on the native Windows filesystem''))
       | Some w \<Rightarrow> Inr (n, w)))"

definition native_parent :: "pub_fs \<Rightarrow> string \<Rightarrow> string \<Rightarrow> pub_error + (string \<times> wstr)" where
  "native_parent fs child label = (case fs_split fs child of
     None \<Rightarrow> Inl (badvalue (label @ '' has no publishable parent directory''))
   | Some parts \<Rightarrow>
       if length parts < 2 then Inl (badvalue (label @ '' has no publishable parent directory''))
       else (case fs_join fs (butlast parts) of
         None \<Rightarrow> Inl (badvalue ''cannot resolve the publication parent directory'')
       | Some j \<Rightarrow> (case fs_native fs j of
           None \<Rightarrow> Inl (badvalue ''the publication parent must be on the native Windows filesystem'')
         | Some w \<Rightarrow> Inr (j, w))))"

text \<open>The names of candidate and destination and of their parents; nothing is called for them.\<close>

definition pub_names :: "pub_fs \<Rightarrow> string \<Rightarrow> string \<Rightarrow> pub_error + (wstr \<times> wstr \<times> wstr \<times> wstr)" where
  "pub_names fs c d =
    (case native_path_from_obj fs c ''publication candidate'' of Inl e \<Rightarrow> Inl e | Inr (co, candidate) \<Rightarrow>
     (case native_path_from_obj fs d ''publication destination'' of Inl e \<Rightarrow> Inl e | Inr (dobj, destination) \<Rightarrow>
      (case native_parent fs co ''publication candidate'' of Inl e \<Rightarrow> Inl e | Inr (_, cparent) \<Rightarrow>
       (case native_parent fs dobj ''publication destination'' of Inl e \<Rightarrow> Inl e | Inr (_, dparent) \<Rightarrow>
          Inr (candidate, destination, cparent, dparent)))))"

datatype pub_next = Again | Finish "pub_error option"

definition publish_replace :: "pub_os \<Rightarrow> wstr \<Rightarrow> wstr \<Rightarrow> wstr \<Rightarrow> pub_info \<Rightarrow> pub_info \<Rightarrow> pub_trace \<Rightarrow> pub_next \<times> pub_trace" where
  "publish_replace os candidate destination backup marker final tr =
    (case pub_open os destination MODE_DELETE tr of
       (Inl e, tr) \<Rightarrow> (case delete_identity os backup marker tr of
         (_, tr) \<Rightarrow> (if missing_error e then Again
            else Finish (Some (PubWinError ''cannot retain the publication destination during replacement'' e None)), tr))
     | (Inr old, tr) \<Rightarrow> (case query_handle os old tr of
         (Inl e, tr) \<Rightarrow> (case delete_identity os backup marker (EvClose old # tr) of
           (_, tr) \<Rightarrow> (Finish (Some (PubWinError ''cannot identify the retained publication destination'' e None)), tr))
       | (Inr held, tr) \<Rightarrow>
           if \<not> is_regular held \<or> \<not> same_identity held final then
             (case delete_identity os backup marker (EvClose old # tr) of (_, tr) \<Rightarrow> (Again, tr))
           else
             let x = po_replace os tr destination candidate backup; tr = EvReplace destination candidate backup x # tr in
             case x of
               None \<Rightarrow> (Finish None, EvClose old # delete_backup_after_replace os old tr)
             | Some e \<Rightarrow> (case recover_replace_failure os old backup destination marker tr of
                 (retained, tr) \<Rightarrow>
                   (if missing_error e \<and> \<not> retained then Again
                    else Finish (Some (PubWinError ''cannot atomically replace the destination'' e (if retained then Some backup else None))),
                    EvClose old # tr))))"

definition publish_over :: "pub_os \<Rightarrow> wstr \<Rightarrow> wstr \<Rightarrow> wstr \<Rightarrow> pub_info \<Rightarrow> pub_info \<Rightarrow> pub_trace \<Rightarrow> pub_next \<times> pub_trace" where
  "publish_over os candidate destination dparent original old tr =
    (case backup_marker os dparent 16 tr of
       (Inl e, tr) \<Rightarrow> (Finish (Some e), tr)
     | (Inr (backup, marker), tr) \<Rightarrow> (case check_candidate os candidate (Some original) tr of
         (Inl e, tr) \<Rightarrow> (case delete_identity os backup marker tr of (_, tr) \<Rightarrow> (Finish (Some e), tr))
       | (Inr _, tr) \<Rightarrow> (case check_destination os destination tr of
           (Inl e, tr) \<Rightarrow> (case delete_identity os backup marker tr of (_, tr) \<Rightarrow> (Finish (Some e), tr))
         | (Inr None, tr) \<Rightarrow> (case delete_identity os backup marker tr of (_, tr) \<Rightarrow> (Again, tr))
         | (Inr (Some final), tr) \<Rightarrow>
             if \<not> same_identity old final then (case delete_identity os backup marker tr of (_, tr) \<Rightarrow> (Again, tr))
             else publish_replace os candidate destination backup marker final tr)))"

definition publish_attempt :: "pub_os \<Rightarrow> wstr \<Rightarrow> wstr \<Rightarrow> wstr \<Rightarrow> pub_info \<Rightarrow> pub_info \<Rightarrow> pub_trace \<Rightarrow> pub_next \<times> pub_trace" where
  "publish_attempt os candidate destination dparent original dinfo tr =
    (case check_candidate os candidate (Some original) tr of
       (Inl e, tr) \<Rightarrow> (Finish (Some e), tr)
     | (Inr current, tr) \<Rightarrow> (case check_destination os destination tr of
         (Inl e, tr) \<Rightarrow> (Finish (Some e), tr)
       | (Inr None, tr) \<Rightarrow>
           let x = po_move os tr candidate destination in
           (case x of
              None \<Rightarrow> Finish None
            | Some e \<Rightarrow> if exists_error e then Again else Finish (Some (PubWinError ''cannot publish the completed candidate'' e None)),
            EvMove candidate destination x # tr)
       | (Inr (Some old), tr) \<Rightarrow>
           if same_identity current old then
             (Finish (Some (badvalue ''publication candidate and destination name the same file'')), tr)
           else if \<not> same_volume (pf_identity old) (pf_identity dinfo) then
             (Finish (Some (badvalue ''publication destination changed volumes during publication'')), tr)
           else publish_over os candidate destination dparent original old tr))"

fun publish_loop :: "pub_os \<Rightarrow> wstr \<Rightarrow> wstr \<Rightarrow> wstr \<Rightarrow> pub_info \<Rightarrow> pub_info \<Rightarrow> nat \<Rightarrow> pub_trace \<Rightarrow> pub_error option \<times> pub_trace" where
  "publish_loop os candidate destination dparent original dinfo 0 tr =
    (Some (PubError ''oserror'' ''publication destination changed too often to publish safely''), tr)"
| "publish_loop os candidate destination dparent original dinfo (Suc n) tr =
    (case publish_attempt os candidate destination dparent original dinfo tr of
       (Finish r, tr) \<Rightarrow> (r, tr)
     | (Again, tr) \<Rightarrow> publish_loop os candidate destination dparent original dinfo n tr)"

definition publish_paths :: "pub_os \<Rightarrow> wstr \<times> wstr \<times> wstr \<times> wstr \<Rightarrow> pub_error option \<times> pub_trace" where
  "publish_paths os names = (case names of (candidate, destination, cparent, dparent) \<Rightarrow>
    (case check_candidate os candidate None [] of
       (Inl e, tr) \<Rightarrow> (Some e, tr)
     | (Inr original, tr) \<Rightarrow> (case check_parent os cparent ''publication candidate parent'' tr of
         (Inl e, tr) \<Rightarrow> (Some e, tr)
       | (Inr _, tr) \<Rightarrow> (case check_parent os dparent ''publication destination parent'' tr of
           (Inl e, tr) \<Rightarrow> (Some e, tr)
         | (Inr dinfo, tr) \<Rightarrow>
             if \<not> same_volume (pf_identity original) (pf_identity dinfo) then
               (Some (badvalue ''publication candidate and destination must be on the same volume''), tr)
             else publish_loop os candidate destination dparent original dinfo 8 tr))))"

definition PublishCmd :: "pub_fs \<Rightarrow> pub_os \<Rightarrow> string list \<Rightarrow> (pub_error + string) \<times> pub_trace" where
  "PublishCmd fs os objv = (case objv of
     [c, d] \<Rightarrow>
       (case pub_names fs c d of
          Inl e \<Rightarrow> (Inl e, [])
        | Inr names \<Rightarrow> (case publish_paths os names of
            (r, tr) \<Rightarrow> (case r of Some e \<Rightarrow> Inl e | None \<Rightarrow> Inr d, tr)))
   | _ \<Rightarrow> (Inl (badvalue ''usage: ::machteld::Publish candidate destination''), []))"

section \<open>What a trace may be\<close>












lemma mode_simps [simp]:
  "MODE_PROBE \<noteq> MODE_MARKER" "MODE_CANDIDATE \<noteq> MODE_MARKER" "MODE_DELETE \<noteq> MODE_MARKER" "MODE_PROBE \<noteq> MODE_CANDIDATE"
  "MODE_CANDIDATE \<noteq> MODE_PROBE" "MODE_DELETE \<noteq> MODE_PROBE" "MODE_DELETE \<noteq> MODE_CANDIDATE" "MODE_MARKER \<noteq> MODE_PROBE"
  "MODE_MARKER \<noteq> MODE_CANDIDATE"
  by (simp_all add: MODE_PROBE_def MODE_CANDIDATE_def MODE_MARKER_def MODE_DELETE_def)























section \<open>An undisturbed publication\<close>

text \<open>
  Nobody interferes: names open, and show the same files as often as they are looked at; the destination is there or not;
  markers can be made; the one call that commits works. Nothing is said of the removal of the old destination.
\<close>

definition pub_quiet :: "pub_os \<Rightarrow> (wstr \<Rightarrow> pub_info) \<Rightarrow> wstr \<times> wstr \<times> wstr \<times> wstr \<Rightarrow> bool \<Rightarrow> bool" where
  "pub_quiet os see names present = (case names of (cn, dn, cp, dp) \<Rightarrow>
     (\<forall>t p m. \<exists>i. query_info (po_query os (EvOpen p m None # t) (length t)) = Inr i \<and> (m \<noteq> MODE_MARKER \<longrightarrow> i = see p)) \<and>
     (\<forall>t. po_open os t cn MODE_CANDIDATE = None) \<and> (\<forall>t. po_open os t cp MODE_PROBE = None) \<and> (\<forall>t. po_open os t dp MODE_PROBE = None) \<and>
     (\<forall>t. po_open os t dn MODE_PROBE = (if present then None else Some ERROR_FILE_NOT_FOUND)) \<and> (\<forall>t. po_open os t dn MODE_DELETE = None) \<and>
     (\<forall>t p. po_open os t p MODE_MARKER = None) \<and> (\<forall>t. po_random os t \<noteq> None) \<and> (\<forall>t n. po_alloc os t n) \<and>
     (\<forall>t. po_move os t cn dn = None) \<and> (\<forall>t b. po_replace os t dn cn b = None))"

text \<open>The files are what a publication needs: a candidate of its own, plain directories, one volume, a regular destination.\<close>

definition pub_files :: "(wstr \<Rightarrow> pub_info) \<Rightarrow> wstr \<times> wstr \<times> wstr \<times> wstr \<Rightarrow> bool \<Rightarrow> bool" where
  "pub_files see names present = (case names of (cn, dn, cp, dp) \<Rightarrow>
     is_regular (see cn) \<and> same_identity (see cn) (see cn) \<and> is_plain_directory (see cp) \<and> is_plain_directory (see dp) \<and>
     same_volume (pf_identity (see cn)) (pf_identity (see dp)) \<and>
     (if present then is_regular (see dn) \<and> same_identity (see dn) (see dn) \<and> \<not> same_identity (see cn) (see dn) \<and>
        same_volume (pf_identity (see dn)) (pf_identity (see dp)) else True))"

lemma probe_quiet:
  assumes "po_open os tr p m = None" "query_info (po_query os (EvOpen p m None # tr) (length tr)) = Inr i"
  shows "fst (probe_path os p m tr) = PUBLISH_PROBE_PRESENT i"
  using assms by (simp add: probe_path_def pub_open_def query_handle_def Let_def)

lemma backup_marker_quiet:
  assumes "\<forall>t p. po_open os t p MODE_MARKER = None" "\<forall>t. po_random os t \<noteq> None" "\<forall>t n. po_alloc os t n"
    and "\<forall>t p m. \<exists>i. query_info (po_query os (EvOpen p m None # t) (length t)) = Inr i \<and> (m \<noteq> MODE_MARKER \<longrightarrow> i = see p)"
  shows "\<exists>path marker t. backup_marker os dparent (Suc n) tr = (Inr (path, marker), t)"
proof -
  obtain bytes where b: "po_random os tr = Some bytes" using assms(2) by auto
  let ?t = "EvAlloc True # EvRandom (Some bytes) # tr"
  obtain i where "query_info (po_query os (EvOpen (marker_path dparent bytes) MODE_MARKER None # ?t) (length ?t)) = Inr i"
    using assms(4) by meson
  then show ?thesis using assms(1,3) b by (simp add: Let_def pub_open_def query_handle_def)
qed

lemma quiet_checks:
  assumes "pub_quiet os see (cn, dn, cp, dp) present" "pub_files see (cn, dn, cp, dp) present"
  shows "ex = None \<or> ex = Some (see cn) \<Longrightarrow> \<exists>t. check_candidate os cn ex tr = (Inr (see cn), t)"
    and "p = cp \<or> p = dp \<Longrightarrow> \<exists>t. check_parent os p l tr = (Inr (see p), t)"
    and "present \<Longrightarrow> \<exists>t. check_destination os dn tr = (Inr (Some (see dn)), t)"
    and "\<not> present \<Longrightarrow> \<exists>t. check_destination os dn tr = (Inr None, t)"
proof -
  have see: "\<forall>t p m. \<exists>i. query_info (po_query os (EvOpen p m None # t) (length t)) = Inr i \<and> (m \<noteq> MODE_MARKER \<longrightarrow> i = see p)"
    using assms(1) by (simp add: pub_quiet_def)
  then have look: "m \<noteq> MODE_MARKER \<Longrightarrow> query_info (po_query os (EvOpen p m None # t) (length t)) = Inr (see p)" for t p m by metis
  note files = assms(2) [unfolded pub_files_def, simplified]
  note q = assms(1) [unfolded pub_quiet_def, simplified]
  show "\<exists>t. check_candidate os cn ex tr = (Inr (see cn), t)" if "ex = None \<or> ex = Some (see cn)"
  proof -
    have "fst (probe_path os cn MODE_CANDIDATE tr) = PUBLISH_PROBE_PRESENT (see cn)" using q by (intro probe_quiet look) simp_all
    then show ?thesis using that files by (cases "probe_path os cn MODE_CANDIDATE tr") (auto simp: check_candidate_def)
  qed
  show "\<exists>t. check_parent os p l tr = (Inr (see p), t)" if "p = cp \<or> p = dp"
  proof -
    have "fst (probe_path os p MODE_PROBE tr) = PUBLISH_PROBE_PRESENT (see p)" using q that by (intro probe_quiet look) auto
    then show ?thesis using that files by (cases "probe_path os p MODE_PROBE tr") (auto simp: check_parent_def)
  qed
  show "\<exists>t. check_destination os dn tr = (Inr (Some (see dn)), t)" if "present"
  proof -
    have "fst (probe_path os dn MODE_PROBE tr) = PUBLISH_PROBE_PRESENT (see dn)" using q that by (intro probe_quiet look) simp_all
    then show ?thesis using that files by (cases "probe_path os dn MODE_PROBE tr") (auto simp: check_destination_def)
  qed
  show "\<exists>t. check_destination os dn tr = (Inr None, t)" if "\<not> present"
    using q that by (simp add: check_destination_def probe_path_def pub_open_def missing_error_def)
qed

lemma quiet_attempt:
  assumes "pub_quiet os see (cn, dn, cp, dp) present" "pub_files see (cn, dn, cp, dp) present"
  shows "fst (publish_attempt os cn dn dp (see cn) (see dp) tr) = Finish None"
proof -
  have see: "\<forall>t p m. \<exists>i. query_info (po_query os (EvOpen p m None # t) (length t)) = Inr i \<and> (m \<noteq> MODE_MARKER \<longrightarrow> i = see p)"
    using assms(1) by (simp add: pub_quiet_def)
  then have look: "m \<noteq> MODE_MARKER \<Longrightarrow> query_info (po_query os (EvOpen p m None # t) (length t)) = Inr (see p)" for t p m by metis
  note files = assms(2) [unfolded pub_files_def, simplified]
  note q = assms(1) [unfolded pub_quiet_def, simplified]
  note cand = quiet_checks(1) [OF assms] and dest = quiet_checks(3) [OF assms] and nodest = quiet_checks(4) [OF assms]
  have repl: "fst (publish_replace os cn dn b mk (see dn) tr) = Finish None" if present for b mk tr
    using q files that look [of MODE_DELETE dn tr] by (simp add: publish_replace_def pub_open_def query_handle_def Let_def)
  have over: "fst (publish_over os cn dn dp (see cn) (see dn) tr) = Finish None" if here: present for tr
  proof -
    obtain b mk t1 where "backup_marker os dp 16 tr = (Inr (b, mk), t1)"
      using backup_marker_quiet [OF _ _ _ see, of dp 15 tr] q by auto
    moreover obtain t2 where "check_candidate os cn (Some (see cn)) t1 = (Inr (see cn), t2)" using cand by blast
    moreover obtain t3 where "check_destination os dn t2 = (Inr (Some (see dn)), t3)" using dest here by blast
    ultimately show ?thesis using repl here files by (simp add: publish_over_def)
  qed
  show ?thesis
  proof -
    obtain t1 where t1: "check_candidate os cn (Some (see cn)) tr = (Inr (see cn), t1)" using cand by blast
    show ?thesis
    proof (cases present)
      case True
      moreover obtain t2 where "check_destination os dn t1 = (Inr (Some (see dn)), t2)" using dest True by (metis (full_types))
      ultimately show ?thesis using t1 over files by (simp add: publish_attempt_def)
    next
      case False
      moreover obtain t2 where "check_destination os dn t1 = (Inr None, t2)" using nodest False by (metis (full_types))
      ultimately show ?thesis using t1 q by (simp add: publish_attempt_def Let_def)
    qed
  qed
qed

text \<open>C20: Undisturbed, a publication of a suitable candidate succeeds, over a destination that is there and over one that is not.\<close>

theorem publish_succeeds:
  assumes "pub_names fs c d = Inr names" "pub_quiet os see names present" "pub_files see names present"
  shows "fst (PublishCmd fs os [c, d]) = Inr d"
proof -
  obtain cn dn cp dp where n: "names = (cn, dn, cp, dp)" by (rule prod_cases4)
  note q = assms(2,3) [unfolded n]
  note cand = quiet_checks(1) [OF q] and parent = quiet_checks(2) [OF q]
  note files = q(2) [unfolded pub_files_def, simplified]
  have loop: "fst (publish_loop os cn dn dp (see cn) (see dp) (Suc n) tr) = None" for n tr
    using quiet_attempt [OF q, of tr] by (cases "publish_attempt os cn dn dp (see cn) (see dp) tr") simp
  have "fst (publish_paths os names) = None"
  proof -
    obtain t1 where "check_candidate os cn None [] = (Inr (see cn), t1)" using cand by blast
    moreover obtain t2 where "check_parent os cp ''publication candidate parent'' t1 = (Inr (see cp), t2)" using parent by blast
    moreover obtain t3 where "check_parent os dp ''publication destination parent'' t2 = (Inr (see dp), t3)" using parent by blast
    ultimately show ?thesis using loop [of 7 t3] files by (simp add: publish_paths_def n)
  qed
  then show ?thesis using assms(1) by (cases "publish_paths os names") (simp add: PublishCmd_def)
qed

section \<open>What an error says of the destination\<close>



















section \<open>A small disk\<close>

text \<open>Every name opens, and shows a file with an identity of its own; \<^verbatim>\<open>c:\<close> is a directory; replacing works or is refused.\<close>

definition demo_fs :: pub_fs where
  "demo_fs = \<lparr>fs_normal = Some, fs_native = (\<lambda>s. Some (wide_ascii s)), fs_split = (\<lambda>s. Some [''c:'', drop 3 s]), fs_join = (\<lambda>ps. Some (hd ps))\<rparr>"

definition demo_answers :: "wstr \<Rightarrow> pub_answers" where
  "demo_answers p = (1, None, Inr (if p = wide_ascii ''c:'' then FILE_ATTRIBUTE_DIRECTORY else FILE_ATTRIBUTE_NORMAL),
     Inr (1, [char_of (unat (hd (rev p)))]))"

definition demo_os :: "nat option \<Rightarrow> pub_os" where
  "demo_os repl = \<lparr>po_open = (\<lambda>_ _ _. None),
     po_query = (\<lambda>tr h. case rev tr ! h of EvOpen p _ _ \<Rightarrow> demo_answers p | _ \<Rightarrow> demo_answers []), po_basic = (\<lambda>_ _. Inl 5),
     po_set_attr = (\<lambda>_ _ _. None), po_dispose = (\<lambda>_ _. None), po_move = (\<lambda>_ _ _. None), po_replace = (\<lambda>_ _ _ _. repl),
     po_random = (\<lambda>_. Some (replicate 16 0x5A)), po_alloc = (\<lambda>_ _. True)\<rparr>"

lemma publish_succeeds_witness: "fst (PublishCmd demo_fs (demo_os None) [''c:/a'', ''c:/b'']) = Inr ''c:/b''"
proof (rule publish_succeeds)
  show "pub_names demo_fs ''c:/a'' ''c:/b'' = Inr (wide_ascii ''c:/a'', wide_ascii ''c:/b'', wide_ascii ''c:'', wide_ascii ''c:'')"
    by (simp add: pub_names_def native_path_from_obj_def native_parent_def demo_fs_def)
  let ?see = "\<lambda>p. projr (query_info (demo_answers p))"
  show "pub_quiet (demo_os None) ?see (wide_ascii ''c:/a'', wide_ascii ''c:/b'', wide_ascii ''c:'', wide_ascii ''c:'') True"
    by (simp add: pub_quiet_def demo_os_def nth_append demo_answers_def query_info_def)
  show "pub_files ?see (wide_ascii ''c:/a'', wide_ascii ''c:/b'', wide_ascii ''c:'', wide_ascii ''c:'') True"
    by code_simp
qed


end
