(* ===== verification/Http.thy ===== *)
theory Http
  imports Units Utf8 TclValue DirsPath "HOL-Library.AList"
begin

text \<open>
  The verb \<^verbatim>\<open>http\<close> (\<^verbatim>\<open>src/http.c\<close>): options, one request over WinHTTP, the response headers as text and as a
  dict, and the body under a cap. WinHTTP is a parameter: each of its calls is made once per request, in a fixed order,
  so a record of answers says all it can do; the two calls of the body loop answer once per turn.
\<close>

section \<open>Errors\<close>

text \<open>\<^verbatim>\<open>%lu\<close>.\<close>

fun dec_text :: "nat \<Rightarrow> string" where
  "dec_text n = (if n < 10 then [char_of (48 + n)] else dec_text (n div 10) @ [char_of (48 + n mod 10)])"

definition http_win_error :: "string \<Rightarrow> string \<Rightarrow> nat \<Rightarrow> mt_error" where
  "http_win_error code what e = http_error code (what @ '': win32 '' @ dec_text e)"

definition ERROR_WINHTTP_TIMEOUT :: nat where "ERROR_WINHTTP_TIMEOUT = 12002"
definition ERROR_WINHTTP_NAME_NOT_RESOLVED :: nat where "ERROR_WINHTTP_NAME_NOT_RESOLVED = 12007"
definition ERROR_WINHTTP_CANNOT_CONNECT :: nat where "ERROR_WINHTTP_CANNOT_CONNECT = 12029"
definition ERROR_WINHTTP_SECURE_FAILURE :: nat where "ERROR_WINHTTP_SECURE_FAILURE = 12175"
definition ERROR_INSUFFICIENT_BUFFER :: nat where "ERROR_INSUFFICIENT_BUFFER = 122"

definition http_request_error :: "nat \<Rightarrow> string \<Rightarrow> mt_error" where
  "http_request_error e what =
    (if e = ERROR_WINHTTP_SECURE_FAILURE then http_win_error ''tls'' ''the secure connection was refused'' e
     else if e = ERROR_WINHTTP_TIMEOUT then http_win_error ''timeout'' what e
     else if e = ERROR_WINHTTP_NAME_NOT_RESOLVED \<or> e = ERROR_WINHTTP_CANNOT_CONNECT then
       http_win_error ''notfound'' ''cannot reach the host'' e
     else http_win_error ''oserror'' what e)"

section \<open>Response headers\<close>

text \<open>A dict is its pairs in insertion order. \<open>alloc\<close> is the heap for the lower-cased name.\<close>

type_synonym tcl_dict = "(string \<times> string) list"

definition http_put_header :: "(nat \<Rightarrow> bool) \<Rightarrow> string \<Rightarrow> tcl_dict \<Rightarrow> tcl_dict option" where
  "http_put_header alloc line d =
    (if CHR '':'' \<notin> set line \<or> hd line = CHR '':'' then Some d
     else
       let name = takeWhile (\<lambda>c. c \<noteq> CHR '':'') line; v = dropWhile (\<lambda>c. c = SPC \<or> c = TAB) (drop (length name + 1) line) in
       if \<not> alloc (length name + 1) then None
       else
         let key = map ascii_lower name in
         Some (case map_of d key of None \<Rightarrow> AList.update key v d | Some prev \<Rightarrow> AList.update key (prev @ '', '' @ v) d))"

text \<open>\<^verbatim>\<open>strstr(p, "\r\n")\<close>: the line, and what follows the line end if there is one.\<close>

fun crlf_split :: "cstr \<Rightarrow> cstr \<times> cstr option" where
  "crlf_split [] = ([], None)"
| "crlf_split (c # s) =
    (if c = CR \<and> s \<noteq> [] \<and> hd s = LF then ([], Some (tl s)) else (case crlf_split s of (l, r) \<Rightarrow> (c # l, r)))"

lemma crlf_split_shorter: "crlf_split p = (l, Some q) \<Longrightarrow> length q < length p"
  by (induction p arbitrary: l) (auto split: if_splits prod.splits)

function http_headers :: "(nat \<Rightarrow> bool) \<Rightarrow> cstr \<Rightarrow> bool \<Rightarrow> tcl_dict \<Rightarrow> tcl_dict option" where
  "http_headers alloc p firstline d =
    (if p = [] then Some d
     else case crlf_split p of
       (line, nl) \<Rightarrow>
         (case (if line \<noteq> [] \<and> \<not> firstline then http_put_header alloc line d else Some d) of
            None \<Rightarrow> None
          | Some d \<Rightarrow> (case nl of None \<Rightarrow> Some d | Some q \<Rightarrow> http_headers alloc q False d)))"
  by pat_completeness auto
termination by (relation "measure (\<lambda>(_, p, _, _). length p)") (auto dest: crlf_split_shorter [OF sym])

section \<open>Options\<close>

record http_options =
  ho_timeout :: int
  ho_maxbody :: int
  ho_agent :: cstr
  ho_headers :: "tcl_dict option"
  ho_type :: "cstr option"
  ho_has_content_type :: bool
  ho_redirect_none :: bool

definition http_defaults :: http_options where
  "http_defaults = \<lparr>ho_timeout = 30000, ho_maxbody = 64 * 1024 * 1024, ho_agent = ''machteld'', ho_headers = None, ho_type = None,
     ho_has_content_type = False, ho_redirect_none = False\<rparr>"

text \<open>\<open>dict\<close> is the reading of a word as a Tcl dict.\<close>

fun http_opts :: "(string \<Rightarrow> tcl_dict option) \<Rightarrow> bool \<Rightarrow> string list \<Rightarrow> http_options \<Rightarrow> http_options res" where
  "http_opts dict allow_type [] opt = Inr opt"
| "http_opts dict allow_type [a] opt = Inl (http_error ''usage'' ''option needs a value'')"
| "http_opts dict allow_type (a # v # ws) opt =
    (if a = ''-timeout'' then
       bind_res (http_duration v) (\<lambda>t. http_opts dict allow_type ws (opt\<lparr>ho_timeout := t\<rparr>))
     else if a = ''-redirect'' then
       (if v \<noteq> ''none'' then Inl (http_error ''badvalue'' ''-redirect takes exactly \"none\"'')
        else http_opts dict allow_type ws (opt\<lparr>ho_redirect_none := True\<rparr>))
     else if a = ''-maxbody'' then
       bind_res (http_size v) (\<lambda>n. http_opts dict allow_type ws (opt\<lparr>ho_maxbody := n\<rparr>))
     else if a = ''-agent'' then
       (if \<not> http_text_safe v False then Inl (http_error ''badvalue'' ''-agent contains a forbidden newline or NUL'')
        else http_opts dict allow_type ws (opt\<lparr>ho_agent := v\<rparr>))
     else if a = ''-type'' then
       (if \<not> allow_type then Inl (http_error ''usage'' ''-type is only valid for http post'')
        else if \<not> http_text_safe v False then Inl (http_error ''badvalue'' ''-type contains a forbidden newline or NUL'')
        else http_opts dict allow_type ws (opt\<lparr>ho_type := Some v\<rparr>))
     else if a = ''-headers'' then
       (case dict v of
          None \<Rightarrow> Inl (http_error ''badvalue'' ''-headers takes a dict'')
        | Some d \<Rightarrow>
            if \<not> list_all (\<lambda>(k, w). http_text_safe k True \<and> http_text_safe w False) d then
              Inl (http_error ''badvalue'' ''header names and values may not contain controls, colon, newline, or NUL'')
            else http_opts dict allow_type ws
              (opt\<lparr>ho_headers := Some d,
                   ho_has_content_type := ho_has_content_type opt \<or> list_ex (\<lambda>(k, w). http_header_is k ''content-type'') d\<rparr>))
     else Inl (http_error ''usage'' ''unknown option''))"

section \<open>The request\<close>

datatype http_scheme = INTERNET_SCHEME_HTTP | INTERNET_SCHEME_HTTPS | OTHER_SCHEME
datatype http_policy = WINHTTP_OPTION_REDIRECT_POLICY_NEVER | WINHTTP_OPTION_REDIRECT_POLICY_DISALLOW_HTTPS_TO_HTTP

text \<open>What \<^verbatim>\<open>WinHttpCrackUrl\<close> tells: \<open>uc_url\<close> are the units from the path on, the path and the rest by their lengths.\<close>

record http_url =
  uc_scheme :: http_scheme
  uc_host :: wstr
  uc_port :: nat
  uc_url :: wstr
  uc_path_len :: nat
  uc_extra_len :: nat

text \<open>An answer \<open>None\<close> is success, \<open>Some\<close> the error code.\<close>

record http_env =
  he_text :: text_env
  he_dict :: "string \<Rightarrow> tcl_dict option"
  he_alloc :: "nat \<Rightarrow> bool"
  he_crack :: "wstr \<Rightarrow> nat + http_url"
  he_session :: "nat option"
  he_timeouts :: "nat option"
  he_policy :: "nat option"
  he_connect :: "nat option"
  he_request :: "nat option"
  he_receive_opt :: "nat option"
  he_response_opt :: "nat option"
  he_add_headers :: "nat option"
  he_last_error :: nat
  he_send :: "nat option"
  he_response :: "nat option"
  he_status :: "nat + nat"
  he_raw_size :: "bool \<times> nat \<times> nat"
  he_raw :: "nat + wstr \<times> nat"
  he_avail :: "nat \<Rightarrow> nat + nat"
  he_realloc :: "nat \<Rightarrow> bool"
  he_read :: "nat \<Rightarrow> nat + string"

datatype http_handle = HConn | HReq | HSession

text \<open>What is asked of WinHTTP. The three opening calls say whether a handle came.\<close>

datatype http_event =
    OpenSession wstr bool
  | SetTimeouts int
  | SetPolicy http_policy
  | Connect wstr nat bool
  | OpenRequest wstr wstr bool bool
  | SetReceive int
  | SetResponse int
  | AddHeaders wstr
  | SendRequest string
  | ReadData int nat int
  | CloseHandle http_handle

record http_req =
  hr_session :: bool
  hr_conn :: bool
  hr_req :: bool

definition http_cleanup :: "http_req \<Rightarrow> http_event list" where
  "http_cleanup r = (if hr_req r then [CloseHandle HReq] else []) @ (if hr_conn r then [CloseHandle HConn] else []) @
     (if hr_session r then [CloseHandle HSession] else [])"

type_synonym 'a http_out = "'a res \<times> http_event list"

text \<open>One call with its event: if it fails, what is held is released; if not, the code goes on.\<close>

definition http_call :: "http_event list \<Rightarrow> mt_error option \<Rightarrow> http_req \<Rightarrow> 'a http_out \<Rightarrow> 'a http_out" where
  "http_call evs e r next = (case e of Some e \<Rightarrow> (Inl e, evs @ http_cleanup r) | None \<Rightarrow> (fst next, evs @ snd next))"

abbreviation refused :: "string \<Rightarrow> string \<Rightarrow> nat option \<Rightarrow> mt_error option" where
  "refused code what e \<equiv> map_option (http_win_error code what) e"

definition http_path :: "http_url \<Rightarrow> wstr" where
  "http_path uc =
    (let plen = uc_path_len uc + uc_extra_len uc in
     if plen = 0 then [47]
     else
       let p = takeWhile (\<lambda>w. w \<noteq> 35) (takeWhile (\<lambda>w. w \<noteq> 0) (take plen (uc_url uc))) in
       if p = [] then [47] else if hd p = 63 then 47 # p else p)"

definition http_header_block :: "http_options \<Rightarrow> string" where
  "http_header_block opt =
    (case ho_headers opt of None \<Rightarrow> [] | Some d \<Rightarrow> concat (map (\<lambda>(k, v). k @ '': '' @ v @ [CR, LF]) d)) @
    (case ho_type opt of None \<Rightarrow> [] | Some t \<Rightarrow> ''Content-Type: '' @ t @ [CR, LF])"

section \<open>The body\<close>

text \<open>The doubling of the buffer; it would not end for a buffer of no size, so it is partial.\<close>

partial_function (option) http_ncap :: "int \<Rightarrow> int \<Rightarrow> int \<Rightarrow> int option" where
  "http_ncap maxbody need ncap =
    (if ncap < need then (if ncap > maxbody div 2 then Some need else http_ncap maxbody need (ncap * 2)) else Some ncap)"

definition http_grow :: "int \<Rightarrow> int \<Rightarrow> int \<Rightarrow> int option" where
  "http_grow maxbody need cap =
    (let ncap = (if cap \<noteq> 0 then cap else 65536); ncap = (if ncap > maxbody then maxbody else ncap) in http_ncap maxbody need ncap)"

text \<open>One turn per answer of \<^verbatim>\<open>WinHttpQueryDataAvailable\<close>; \<open>None\<close> is a doubling that does not end.\<close>

function http_body :: "http_env \<Rightarrow> http_req \<Rightarrow> int \<Rightarrow> nat \<Rightarrow> string \<Rightarrow> int \<Rightarrow> string http_out option" where
  "http_body env r maxbody n buf cap =
    (let used = int (length buf) in
     case he_avail env n of
       Inl e \<Rightarrow> Some (Inl (http_request_error e ''the response could not be read''), http_cleanup r)
     | Inr avail \<Rightarrow>
         if avail = 0 then Some (Inr buf, [])
         else if used > maxbody - int avail then
           Some (Inl (http_error ''toobig'' ''the response exceeds -maxbody; choose a larger explicit cap''), http_cleanup r)
         else
           (case (if used + int avail > cap then http_grow maxbody (used + int avail) cap else Some cap) of
              None \<Rightarrow> None
            | Some ncap \<Rightarrow>
                if used + int avail > cap \<and> \<not> he_realloc env n then
                  Some (Inl (http_error ''oserror'' ''out of memory reading the response''), http_cleanup r)
                else
                  (case he_read env n of
                     Inl e \<Rightarrow> Some (Inl (http_request_error e ''the response could not be read''), ReadData used avail ncap # http_cleanup r)
                   | Inr data \<Rightarrow>
                       if data = [] then Some (Inr buf, [ReadData used avail ncap])
                       else map_option (\<lambda>(x, evs). (x, ReadData used avail ncap # evs)) (http_body env r maxbody (n + 1) (buf @ data) ncap))))"
  by pat_completeness auto
termination by (relation "measure (\<lambda>(_, _, maxbody, _, buf, _). nat (maxbody - int (length buf)))") auto

section \<open>The response\<close>

record http_result =
  hs_status :: nat
  hs_headers :: tcl_dict
  hs_raw :: string
  hs_body :: string
  hs_bytes :: int

definition http_raw_headers :: "http_env \<Rightarrow> (tcl_dict \<times> string) res" where
  "http_raw_headers env = (case he_raw_size env of (ok, e, rawlen) \<Rightarrow>
     if ok \<or> e \<noteq> ERROR_INSUFFICIENT_BUFFER then Inl (http_win_error ''oserror'' ''cannot size the response headers'' e)
     else if rawlen = 0 then Inr ([], [])
     else if \<not> he_alloc env (rawlen + 2) then Inl (http_error ''oserror'' ''out of memory reading response headers'')
     else case he_raw env of
       Inl e \<Rightarrow> Inl (http_win_error ''oserror'' ''cannot read the response headers'' e)
     | Inr (raw, len) \<Rightarrow>
         if len mod 2 \<noteq> 0 then Inl (http_error ''oserror'' ''the response headers have an invalid byte length'')
         else (case to_utf8 (he_text env) (take (len div 2) raw @ [0]) (- 1) of
           None \<Rightarrow> Inl (http_error ''oserror'' ''response headers are not representable'')
         | Some u \<Rightarrow> (case http_headers (he_alloc env) (c_str u) True [] of
             None \<Rightarrow> Inl (http_error ''oserror'' ''out of memory reading response headers'')
           | Some d \<Rightarrow> Inr (d, c_str u))))"

definition http_receive :: "http_env \<Rightarrow> http_req \<Rightarrow> http_options \<Rightarrow> http_result http_out option" where
  "http_receive env r opt =
    (case he_status env of
       Inl e \<Rightarrow> Some (Inl (http_win_error ''oserror'' ''cannot read the response status'' e), http_cleanup r)
     | Inr status \<Rightarrow> (case http_raw_headers env of
         Inl e \<Rightarrow> Some (Inl e, http_cleanup r)
       | Inr (hdict, raw) \<Rightarrow> map_option (\<lambda>(x, evs). case x of
             Inl e \<Rightarrow> (Inl e, evs)
           | Inr body \<Rightarrow> (Inr \<lparr>hs_status = status, hs_headers = hdict, hs_raw = raw, hs_body = body, hs_bytes = int (length body)\<rparr>,
                          evs @ http_cleanup r))
           (http_body env r (ho_maxbody opt) 0 [] 0)))"

text \<open>Sending on an open request; the calls before it only fail or go on.\<close>

definition http_send :: "http_env \<Rightarrow> http_req \<Rightarrow> string \<Rightarrow> http_options \<Rightarrow> unit http_out" where
  "http_send env r body opt =
    (let hdr = http_header_block opt; wh = to_wide (he_text env) (c_str hdr) in
     http_call (if hdr \<noteq> [] \<and> wh \<noteq> None then [AddHeaders (the wh)] else [])
       (if hdr = [] then None
        else if wh = None then Some (http_win_error ''badvalue'' ''the request headers were refused'' (he_last_error env))
        else refused ''badvalue'' ''the request headers were refused'' (he_add_headers env)) r
     (http_call [SendRequest body] (map_option (\<lambda>e. http_request_error e ''the request failed'') (he_send env)) r
     (http_call [] (map_option (\<lambda>e. http_request_error e ''the response could not be received'') (he_response env)) r
     (Inr (), []))))"

definition http_open :: "http_env \<Rightarrow> wstr \<Rightarrow> wstr \<Rightarrow> wstr \<Rightarrow> http_url \<Rightarrow> wstr \<Rightarrow> string \<Rightarrow> http_options \<Rightarrow> unit http_out" where
  "http_open env wagent wverb whost uc wpath body opt =
    (let r0 = \<lparr>hr_session = False, hr_conn = False, hr_req = False\<rparr>; r1 = r0\<lparr>hr_session := True\<rparr>;
         r2 = r1\<lparr>hr_conn := True\<rparr>; r3 = r2\<lparr>hr_req := True\<rparr>; t = ho_timeout opt;
         policy = (if ho_redirect_none opt then WINHTTP_OPTION_REDIRECT_POLICY_NEVER
                   else WINHTTP_OPTION_REDIRECT_POLICY_DISALLOW_HTTPS_TO_HTTP) in
     http_call [OpenSession wagent (he_session env = None)] (refused ''oserror'' ''cannot open an http session'' (he_session env)) r0
     (http_call [SetTimeouts t] (refused ''oserror'' ''cannot configure http timeouts'' (he_timeouts env)) r1
     (http_call [SetPolicy policy] (refused ''oserror'' ''cannot configure redirect policy'' (he_policy env)) r1
     (http_call [Connect whost (uc_port uc) (he_connect env = None)] (refused ''notfound'' ''cannot reach the host'' (he_connect env)) r1
     (http_call [OpenRequest wverb wpath (uc_scheme uc = INTERNET_SCHEME_HTTPS) (he_request env = None)]
        (refused ''oserror'' ''cannot build the request'' (he_request env)) r2
     (http_call [SetReceive t] (refused ''oserror'' ''cannot configure the receive timeout'' (he_receive_opt env)) r3
     (http_call [SetResponse t] (refused ''oserror'' ''cannot configure the response timeout'' (he_response_opt env)) r3
     (http_send env r3 body opt))))))))"

definition http_do :: "http_env \<Rightarrow> cstr \<Rightarrow> cstr \<Rightarrow> string \<Rightarrow> http_options \<Rightarrow> http_result http_out option" where
  "http_do env verb url body opt =
    (if length body > 4294967295 then Some (Inl (http_error ''toobig'' ''the request body exceeds WinHTTP's size limit''), [])
     else case (to_wide (he_text env) url, to_wide (he_text env) verb, to_wide (he_text env) (ho_agent opt)) of
       (Some wurl, Some wverb, Some wagent) \<Rightarrow>
         (case he_crack env wurl of
            Inl e \<Rightarrow> Some (Inl (http_win_error ''badvalue'' ''the url could not be parsed'' e), [])
          | Inr uc \<Rightarrow>
              if uc_scheme uc \<noteq> INTERNET_SCHEME_HTTP \<and> uc_scheme uc \<noteq> INTERNET_SCHEME_HTTPS then
                Some (Inl (http_error ''badvalue'' ''only http and https urls are supported''), [])
              else if \<not> he_alloc env (2 * (length (uc_host uc) + 1)) then Some (Inl (http_error ''oserror'' ''out of memory''), [])
              else if \<not> he_alloc env (2 * (uc_path_len uc + uc_extra_len uc + 2)) then Some (Inl (http_error ''oserror'' ''out of memory''), [])
              else (case http_open env wagent wverb (uc_host uc) uc (http_path uc) body opt of
                  (Inl e, evs) \<Rightarrow> Some (Inl e, evs)
                | (Inr _, evs) \<Rightarrow>
                    map_option (\<lambda>(x, evs'). (x, evs @ evs')) (http_receive env \<lparr>hr_session = True, hr_conn = True, hr_req = True\<rparr> opt)))
     | _ \<Rightarrow> Some (Inl (http_error ''badvalue'' ''the url is not representable''), []))"

definition HttpCmd :: "http_env \<Rightarrow> (string \<Rightarrow> string) \<Rightarrow> tvalue list \<Rightarrow> http_result http_out option" where
  "HttpCmd env utf8 objv = (case objv of
     sub # url # ws \<Rightarrow>
       if vtext sub \<notin> {''get'', ''post''} then Some (Inl TclError, [])
       else if \<not> http_text_safe (vtext url) False then Some (Inl (http_error ''badvalue'' ''the url contains NUL or a newline''), [])
       else if vtext sub = ''get'' then
         (case http_opts (he_dict env) False (map vtext ws) http_defaults of
            Inl e \<Rightarrow> Some (Inl e, [])
          | Inr opt \<Rightarrow> http_do env ''GET'' (vtext url) [] opt)
       else (case ws of
           [] \<Rightarrow> Some (Inl WrongNumArgs, [])
         | b # ws \<Rightarrow>
             (case http_opts (he_dict env) True (map vtext ws) http_defaults of
                Inl e \<Rightarrow> Some (Inl e, [])
              | Inr opt \<Rightarrow> http_do env ''POST'' (vtext url) (Machteld_ValueBytes utf8 b)
                  (if ho_type opt = None \<and> \<not> ho_has_content_type opt then opt\<lparr>ho_type := Some ''application/octet-stream''\<rparr> else opt)))
   | _ \<Rightarrow> Some (Inl WrongNumArgs, []))"

section \<open>The buffer\<close>

declare http_body.simps [simp del] http_headers.simps [simp del]

lemma http_ncap_fits:
  assumes "1 \<le> ncap" "ncap \<le> maxbody" "need \<le> maxbody"
  shows "\<exists>c. http_ncap maxbody need ncap = Some c \<and> need \<le> c \<and> ncap \<le> c \<and> c \<le> maxbody"
  using assms
proof (induction "nat (maxbody - ncap)" arbitrary: ncap rule: less_induct)
  case less
  show ?case
  proof (cases "ncap < need \<and> \<not> ncap > maxbody div 2")
    case False
    then show ?thesis using less.prems by (subst http_ncap.simps) auto
  next
    case True
    then have "ncap * 2 \<le> maxbody" "nat (maxbody - ncap * 2) < nat (maxbody - ncap)" using less.prems by auto
    then obtain c where "http_ncap maxbody need (ncap * 2) = Some c" "need \<le> c" "ncap * 2 \<le> c" "c \<le> maxbody"
      using less.hyps [of "ncap * 2"] less.prems by auto
    then show ?thesis using True less.prems by (subst http_ncap.simps) auto
  qed
qed

lemma http_grow_fits:
  assumes "1 \<le> maxbody" "0 \<le> cap" "cap \<le> maxbody" "need \<le> maxbody"
  shows "\<exists>c. http_grow maxbody need cap = Some c \<and> need \<le> c \<and> 0 \<le> c \<and> c \<le> maxbody"
proof -
  define n where "n = (let ncap = (if cap \<noteq> 0 then cap else 65536) in if ncap > maxbody then maxbody else ncap)"
  have "1 \<le> n" "n \<le> maxbody" using assms by (auto simp: n_def Let_def)
  from http_ncap_fits [OF this assms(4)] show ?thesis using \<open>1 \<le> n\<close> by (auto simp: http_grow_def n_def Let_def)
qed

text \<open>What the server serves from turn \<open>n\<close> on: every turn announces bytes and gives some.\<close>

fun http_served :: "http_env \<Rightarrow> nat \<Rightarrow> string list \<Rightarrow> bool" where
  "http_served env n [] = True"
| "http_served env n (d # ds) \<longleftrightarrow> (\<exists>a. he_avail env n = Inr (Suc a)) \<and> he_read env n = Inr d \<and> d \<noteq> [] \<and> http_served env (Suc n) ds"

definition http_ended :: "http_env \<Rightarrow> nat \<Rightarrow> bool" where
  "http_ended env n \<longleftrightarrow> he_avail env n = Inr 0 \<or> (\<exists>a. he_avail env n = Inr (Suc a)) \<and> he_read env n = Inr []"

text \<open>The documented contract of \<^verbatim>\<open>WinHttpReadData\<close>: not more than it was asked for.\<close>

definition http_contract :: "http_env \<Rightarrow> bool" where
  "http_contract env \<longleftrightarrow> (\<forall>n a d. he_avail env n = Inr a \<longrightarrow> he_read env n = Inr d \<longrightarrow> length d \<le> a)"

definition toobig :: mt_error where
  "toobig = http_error ''toobig'' ''the response exceeds -maxbody; choose a larger explicit cap''"

definition http_body_good :: "http_env \<Rightarrow> http_req \<Rightarrow> int \<Rightarrow> nat \<Rightarrow> string \<Rightarrow> string http_out option \<Rightarrow> bool" where
  "http_body_good env r maxbody m buf out \<longleftrightarrow> (\<exists>x reads ds. out = Some (x, reads @ (if isl x then http_cleanup r else [])) \<and>
     http_served env m ds \<and>
     (\<forall>e \<in> set reads. \<exists>u a c. e = ReadData u a c \<and> 0 \<le> u \<and> u + int a \<le> c \<and> c \<le> maxbody) \<and>
     (case x of
        Inr body \<Rightarrow> http_ended env (m + length ds) \<and> body = buf @ concat ds \<and> int (length body) \<le> maxbody
      | Inl e \<Rightarrow>
          e = toobig \<and> (\<exists>a. he_avail env (m + length ds) = Inr (Suc a) \<and> maxbody < int (length (buf @ concat ds)) + int (Suc a)) \<or>
          e = http_error ''oserror'' ''out of memory reading the response'' \<and> \<not> he_realloc env (m + length ds) \<or>
          (\<exists>c. e = http_request_error c ''the response could not be read'' \<and>
             (he_avail env (m + length ds) = Inl c \<or> he_read env (m + length ds) = Inl c))))"

lemma http_body_good_step:
  assumes "http_body_good env r maxbody (Suc m) (buf @ d) out" "he_avail env m = Inr (Suc a)" "he_read env m = Inr d" "d \<noteq> []"
    and "u + int b \<le> c" "0 \<le> u" "c \<le> maxbody"
  shows "http_body_good env r maxbody m buf (map_option (\<lambda>(x, evs). (x, ReadData u b c # evs)) out)"
proof -
  obtain x reads ds where o: "out = Some (x, reads @ (if isl x then http_cleanup r else []))" "http_served env (Suc m) ds"
    "\<forall>e \<in> set reads. \<exists>u a c. e = ReadData u a c \<and> 0 \<le> u \<and> u + int a \<le> c \<and> c \<le> maxbody"
    "case x of Inr body \<Rightarrow> http_ended env (Suc m + length ds) \<and> body = (buf @ d) @ concat ds \<and> int (length body) \<le> maxbody
      | Inl e \<Rightarrow> e = toobig \<and> (\<exists>a. he_avail env (Suc m + length ds) = Inr (Suc a) \<and> maxbody < int (length ((buf @ d) @ concat ds)) + int (Suc a)) \<or>
          e = http_error ''oserror'' ''out of memory reading the response'' \<and> \<not> he_realloc env (Suc m + length ds) \<or>
          (\<exists>c. e = http_request_error c ''the response could not be read'' \<and>
             (he_avail env (Suc m + length ds) = Inl c \<or> he_read env (Suc m + length ds) = Inl c))"
    using assms(1) unfolding http_body_good_def by blast
  show ?thesis unfolding http_body_good_def
    by (intro exI [of _ x] exI [of _ "ReadData u b c # reads"] exI [of _ "d # ds"])
      (use o assms(2-7) in \<open>auto split: sum.splits\<close>)
qed

text \<open>The turn as it stands, once the buffer is known to grow.\<close>

lemma http_body_good:
  assumes "http_contract env" "1 \<le> maxbody" "0 \<le> cap" "cap \<le> maxbody" "int (length buf) \<le> maxbody"
  shows "http_body_good env r maxbody m buf (http_body env r maxbody m buf cap)"
  using assms(3-5)
proof (induction "nat (maxbody - int (length buf))" arbitrary: m buf cap rule: less_induct)
  case less
  define used where "used = int (length buf)"
  note run = http_body.simps [of env r maxbody m buf cap, folded used_def, unfolded Let_def, folded used_def]
  have leaf: "http_body_good env r maxbody m buf (Some (x, reads @ (if isl x then http_cleanup r else [])))"
    if "\<forall>e \<in> set reads. \<exists>u a c. e = ReadData u a c \<and> 0 \<le> u \<and> u + int a \<le> c \<and> c \<le> maxbody"
      and "case x of Inr body \<Rightarrow> http_ended env m \<and> body = buf | Inl e \<Rightarrow>
          e = toobig \<and> (\<exists>a. he_avail env m = Inr (Suc a) \<and> maxbody < int (length buf) + int (Suc a)) \<or>
          e = http_error ''oserror'' ''out of memory reading the response'' \<and> \<not> he_realloc env m \<or>
          (\<exists>c. e = http_request_error c ''the response could not be read'' \<and> (he_avail env m = Inl c \<or> he_read env m = Inl c))" for x reads
    unfolding http_body_good_def
    by (rule exI [of _ x], rule exI [of _ reads], rule exI [of _ "[]"]) (use that less.prems(3) in \<open>auto split: sum.splits\<close>)
  show ?case
  proof (cases "he_avail env m")
    case (Inl e)
    then show ?thesis using leaf [of "[]" "Inl (http_request_error e ''the response could not be read'')"] by (auto simp: run)
  next
    case (Inr avail)
    consider "avail = 0" | "avail \<noteq> 0" "used > maxbody - int avail" | "avail \<noteq> 0" "used + int avail \<le> maxbody" by linarith
    then show ?thesis
    proof cases
      case 1
      then show ?thesis using leaf [of "[]" "Inr buf"] Inr by (simp add: run http_ended_def)
    next
      case 2
      then obtain a where "avail = Suc a" by (cases avail) auto
      then show ?thesis using leaf [of "[]" "Inl toobig"] Inr 2 by (simp add: run toobig_def used_def)
    next
      case 3
      then obtain a where a: "avail = Suc a" by (cases avail) auto
      have av: "he_avail env m = Inr (Suc a)" using Inr a by simp
      obtain ncap where nc: "(if used + int avail > cap then http_grow maxbody (used + int avail) cap else Some cap) = Some ncap"
        "used + int avail \<le> ncap" "0 \<le> ncap" "ncap \<le> maxbody"
        using http_grow_fits [OF assms(2) less.prems(1,2), of "used + int avail"] 3 less.prems by (cases "used + int avail > cap") auto
      have body: "http_body env r maxbody m buf cap =
        (if used + int avail > cap \<and> \<not> he_realloc env m then Some (Inl (http_error ''oserror'' ''out of memory reading the response''), http_cleanup r)
         else case he_read env m of
             Inl e \<Rightarrow> Some (Inl (http_request_error e ''the response could not be read''), ReadData used avail ncap # http_cleanup r)
           | Inr data \<Rightarrow> if data = [] then Some (Inr buf, [ReadData used avail ncap])
               else map_option (\<lambda>(x, evs). (x, ReadData used avail ncap # evs)) (http_body env r maxbody (m + 1) (buf @ data) ncap))"
        unfolding run [unfolded Inr sum.case nc(1) option.case] using 3 by simp
      have rd: "\<forall>e \<in> set [ReadData used avail ncap]. \<exists>u a c. e = ReadData u a c \<and> 0 \<le> u \<and> u + int a \<le> c \<and> c \<le> maxbody"
        using nc by (simp add: used_def)
      consider "used + int avail > cap" "\<not> he_realloc env m" | e where "\<not> (used + int avail > cap \<and> \<not> he_realloc env m)" "he_read env m = Inl e"
        | "\<not> (used + int avail > cap \<and> \<not> he_realloc env m)" "he_read env m = Inr []"
        | data where "\<not> (used + int avail > cap \<and> \<not> he_realloc env m)" "he_read env m = Inr data" "data \<noteq> []"
        by (metis sum.exhaust)
      then show ?thesis
      proof cases
        case 1
        then show ?thesis using leaf [of "[]" "Inl (http_error ''oserror'' ''out of memory reading the response'')"] by (simp add: body)
      next
        case (2 e)
        then show ?thesis using leaf [OF rd, of "Inl (http_request_error e ''the response could not be read'')"] by (auto simp: body)
      next
        case 3
        then show ?thesis using leaf [OF rd, of "Inr buf"] av by (auto simp: body http_ended_def)
      next
        case (4 data)
        have "length data \<le> avail" using assms(1) 4(2) Inr by (auto simp: http_contract_def)
        then have le: "int (length (buf @ data)) \<le> maxbody" using 3 by (simp add: used_def)
        have lt: "nat (maxbody - int (length (buf @ data))) < nat (maxbody - int (length buf))" using le 4(3) by (cases data) auto
        have "http_body_good env r maxbody (Suc m) (buf @ data) (http_body env r maxbody (Suc m) (buf @ data) ncap)"
          by (rule less.hyps [OF lt nc(3,4) le])
        from http_body_good_step [OF this av 4(2,3) nc(2) _ nc(4)] show ?thesis using 4 by (auto simp: body used_def)
      qed
    qed
  qed
qed

section \<open>The calls\<close>

text \<open>A reader of what is asked of WinHTTP: each call is made on handles that are open, each handle closed once, after its children.\<close>

fun http_ledger :: "http_event list \<Rightarrow> http_handle list \<Rightarrow> http_handle list option" where
  "http_ledger [] hs = Some hs"
| "http_ledger (OpenSession w ok # evs) hs = (if hs = [] then http_ledger evs (if ok then [HSession] else []) else None)"
| "http_ledger (SetTimeouts t # evs) hs = (if hs = [HSession] then http_ledger evs hs else None)"
| "http_ledger (SetPolicy p # evs) hs = (if hs = [HSession] then http_ledger evs hs else None)"
| "http_ledger (Connect w p ok # evs) hs = (if hs = [HSession] then http_ledger evs (if ok then HConn # hs else hs) else None)"
| "http_ledger (OpenRequest w p s ok # evs) hs = (if hs = [HConn, HSession] then http_ledger evs (if ok then HReq # hs else hs) else None)"
| "http_ledger (SetReceive t # evs) hs = (if hs = [HReq, HConn, HSession] then http_ledger evs hs else None)"
| "http_ledger (SetResponse t # evs) hs = (if hs = [HReq, HConn, HSession] then http_ledger evs hs else None)"
| "http_ledger (AddHeaders w # evs) hs = (if hs = [HReq, HConn, HSession] then http_ledger evs hs else None)"
| "http_ledger (SendRequest b # evs) hs = (if hs = [HReq, HConn, HSession] then http_ledger evs hs else None)"
| "http_ledger (ReadData u a c # evs) hs = (if hs = [HReq, HConn, HSession] then http_ledger evs hs else None)"
| "http_ledger (CloseHandle h # evs) hs = (case hs of [] \<Rightarrow> None | k # ks \<Rightarrow> if h = k then http_ledger evs ks else None)"

definition is_read :: "http_event \<Rightarrow> bool" where
  "is_read e = (case e of ReadData _ _ _ \<Rightarrow> True | _ \<Rightarrow> False)"

lemma is_read_simps [simp]: "is_read (ReadData u a c)" "\<not> is_read (SendRequest b)" "\<not> is_read (AddHeaders w)"
  by (simp_all add: is_read_def)

lemma http_body_events:
  "http_body env r maxbody m buf cap = Some (x, evs) \<Longrightarrow>
     \<exists>reads. evs = reads @ (if isl x then http_cleanup r else []) \<and> list_all is_read reads"
proof (induction env r maxbody m buf cap arbitrary: x evs rule: http_body.induct)
  case (1 env r maxbody m buf cap)
  have leaf: "\<exists>reads. evs = reads @ (if isl x then http_cleanup r else []) \<and> list_all is_read reads"
    if "evs = rs @ (if isl x then http_cleanup r else [])" "list_all is_read rs" for rs
    using that by blast
  show ?case
  proof (cases "he_avail env m")
    case (Inl e)
    then show ?thesis using 1(2) leaf [of "[]"] by (auto simp: http_body.simps Let_def)
  next
    case (Inr avail)
    show ?thesis
    proof (cases "avail = 0 \<or> int (length buf) > maxbody - int avail")
      case True
      then show ?thesis using 1(2) Inr leaf [of "[]"] by (auto simp: http_body.simps Let_def split: if_splits)
    next
      case False
      define u where "u = int (length buf)"
      obtain ncap where nc: "(if u + int avail > cap then http_grow maxbody (u + int avail) cap else Some cap) = Some ncap"
        using 1(2) Inr False unfolding http_body.simps [of env r maxbody m buf cap] Let_def u_def
        by (cases "if int (length buf) + int avail > cap then http_grow maxbody (int (length buf) + int avail) cap else Some cap") simp_all
      note run = 1(2) [unfolded http_body.simps [of env r maxbody m buf cap] Let_def Inr sum.case, folded u_def, unfolded nc option.case]
      show ?thesis
      proof (cases "u + int avail > cap \<and> \<not> he_realloc env m")
        case True
        then show ?thesis using run False leaf [of "[]"] by (auto simp: u_def)
      next
        case r2: False
        show ?thesis
        proof (cases "he_read env m")
          case (Inl e)
          then show ?thesis using run False r2 leaf [of "[ReadData u avail ncap]"] by (auto simp: u_def)
        next
          case rd: (Inr data)
          show ?thesis
          proof (cases "data = []")
            case True
            then show ?thesis using run False r2 rd leaf [of "[ReadData u avail ncap]"] by (auto simp: u_def)
          next
            case d: False
            obtain evs' where e: "http_body env r maxbody (m + 1) (buf @ data) ncap = Some (x, evs')" "evs = ReadData u avail ncap # evs'"
              using run False r2 rd d by (auto simp: u_def)
            have "\<exists>reads. evs' = reads @ (if isl x then http_cleanup r else []) \<and> list_all is_read reads"
              by (rule 1(1) [OF u_def Inr _ _ _ r2 rd d e(1)]) (use False nc u_def in auto)
            then obtain reads where "evs' = reads @ (if isl x then http_cleanup r else [])" "list_all is_read reads" by blast
            then show ?thesis using e(2) leaf [of "ReadData u avail ncap # reads"] by simp
          qed
        qed
      qed
    qed
  qed
qed

abbreviation http_closes :: "http_event list" where
  "http_closes \<equiv> [CloseHandle HReq, CloseHandle HConn, CloseHandle HSession]"

lemma http_receive_events:
  assumes "http_receive env \<lparr>hr_session = True, hr_conn = True, hr_req = True\<rparr> opt = Some (x, evs)"
  shows "\<exists>reads. evs = reads @ http_closes \<and> list_all is_read reads"
proof -
  let ?r = "\<lparr>hr_session = True, hr_conn = True, hr_req = True\<rparr>"
  have c: "http_cleanup ?r = http_closes" by (simp add: http_cleanup_def)
  consider "evs = http_closes" | y evs' where "http_body env ?r (ho_maxbody opt) 0 [] 0 = Some (y, evs')"
      "evs = evs' @ (if isl y then [] else http_closes)"
    using assms c by (auto simp: http_receive_def split: sum.splits)
  then show ?thesis
  proof cases
    case 1
    then show ?thesis by (intro exI [of _ "[]"]) simp
  next
    case 2
    from http_body_events [OF 2(1)] show ?thesis using 2(2) c by auto
  qed
qed

text \<open>The calls up to the request, and what is sent on it.\<close>

definition http_opening :: "wstr \<Rightarrow> wstr \<Rightarrow> http_url \<Rightarrow> http_options \<Rightarrow> http_event list" where
  "http_opening wagent wverb uc opt =
    [OpenSession wagent True, SetTimeouts (ho_timeout opt),
     SetPolicy (if ho_redirect_none opt then WINHTTP_OPTION_REDIRECT_POLICY_NEVER else WINHTTP_OPTION_REDIRECT_POLICY_DISALLOW_HTTPS_TO_HTTP),
     Connect (uc_host uc) (uc_port uc) True, OpenRequest wverb (http_path uc) (uc_scheme uc = INTERNET_SCHEME_HTTPS) True,
     SetReceive (ho_timeout opt), SetResponse (ho_timeout opt)]"

definition http_sending :: "text_env \<Rightarrow> string \<Rightarrow> http_options \<Rightarrow> http_event list" where
  "http_sending T body opt = (if http_header_block opt = [] then [] else [AddHeaders (the (to_wide T (c_str (http_header_block opt))))]) @
     [SendRequest body]"

lemma http_ledger_reads:
  "list_all is_read reads \<Longrightarrow> http_ledger (reads @ evs) [HReq, HConn, HSession] = http_ledger evs [HReq, HConn, HSession]"
  by (induction reads) (auto simp: is_read_def split: http_event.splits)

lemma http_send_events:
  assumes "http_send env r body opt = (x, evs)"
  shows "(\<exists>e. x = Inl e) \<and> evs = http_sending (he_text env) body opt @ http_cleanup r \<and>
      (http_header_block opt = [] \<or> to_wide (he_text env) (c_str (http_header_block opt)) \<noteq> None) \<or>
    (\<exists>e. x = Inl e) \<and> evs \<in> (\<lambda>h. h @ http_cleanup r) ` ({[]} \<union> (\<lambda>w. [AddHeaders w]) ` UNIV) \<or>
    x = Inr () \<and> evs = http_sending (he_text env) body opt \<and>
      (http_header_block opt = [] \<or> to_wide (he_text env) (c_str (http_header_block opt)) \<noteq> None)"
proof (cases "http_header_block opt = []")
  case True
  then show ?thesis using assms by (auto simp: http_send_def http_call_def http_sending_def Let_def split: option.splits)
next
  case False
  then show ?thesis using assms
    by (cases "to_wide (he_text env) (c_str (http_header_block opt))")
      (auto simp: http_send_def http_call_def http_sending_def Let_def split: option.splits)
qed

lemma http_open_events:
  assumes "http_open env wagent wverb (uc_host uc) uc (http_path uc) body opt = (x, evs)"
  shows "(\<exists>e. x = Inl e) \<and> (\<forall>b. SendRequest b \<notin> set evs) \<and> http_ledger evs [] = Some [] \<or>
    (\<exists>e. x = Inl e) \<and> evs = http_opening wagent wverb uc opt @ http_sending (he_text env) body opt @ http_closes \<and>
      (http_header_block opt = [] \<or> to_wide (he_text env) (c_str (http_header_block opt)) \<noteq> None) \<or>
    x = Inr () \<and> evs = http_opening wagent wverb uc opt @ http_sending (he_text env) body opt \<and>
      (http_header_block opt = [] \<or> to_wide (he_text env) (c_str (http_header_block opt)) \<noteq> None)"
proof -
  let ?r = "\<lparr>hr_session = True, hr_conn = True, hr_req = True\<rparr>"
  obtain y es where y: "http_send env ?r body opt = (y, es)" by (rule prod.exhaust)
  have c: "http_cleanup ?r = http_closes" by (simp add: http_cleanup_def)
  show ?thesis
  proof (cases "he_session env = None \<and> he_timeouts env = None \<and> he_policy env = None \<and> he_connect env = None \<and> he_request env = None \<and>
      he_receive_opt env = None \<and> he_response_opt env = None")
    case True
    then have "x = y" "evs = http_opening wagent wverb uc opt @ es"
      using assms y by (simp_all add: http_open_def http_call_def Let_def http_opening_def)
    then show ?thesis using http_send_events [OF y] unfolding c
      by (auto simp: http_opening_def)
  next
    case False
    then have "(\<exists>e. x = Inl e) \<and> (\<forall>b. SendRequest b \<notin> set evs) \<and> http_ledger evs [] = Some []"
      using assms by (auto simp: http_open_def http_call_def Let_def http_cleanup_def split: option.splits)
    then show ?thesis by blast
  qed
qed

lemma http_path_shape: "http_path uc \<noteq> [] \<and> 35 \<notin> set (http_path uc)"
  by (auto simp: http_path_def Let_def dest: set_takeWhileD)

lemma http_request_whole:
  assumes "list_all is_read reads"
  shows "http_ledger (http_opening wagent wverb uc opt @ http_sending tx body opt @ reads @ http_closes) [] = Some []"
    "\<exists>b. SendRequest b \<in> set (http_opening wagent wverb uc opt @ http_sending tx body opt @ reads @ http_closes)"
proof -
  show "http_ledger (http_opening wagent wverb uc opt @ http_sending tx body opt @ reads @ http_closes) [] = Some []"
    using assms by (simp add: http_opening_def http_sending_def http_ledger_reads)
  show "\<exists>b. SendRequest b \<in> set (http_opening wagent wverb uc opt @ http_sending tx body opt @ reads @ http_closes)"
    by (intro exI [of _ body]) (simp add: http_sending_def)
qed

text \<open>C7: On every way through a request each WinHTTP call is made on handles that are open and every handle is closed once,
  after its children. A body is sent only for an http or https URL as Windows cracked it, on a request that is secure exactly for https, for
  a path without fragment, after the redirect policy (never, under \<open>-redirect none\<close>) and the timeouts were set and
  exactly the caller's headers were added; the calls are then exactly these, and nothing is answered if nothing was sent.\<close>

theorem http_request_exact:
  assumes "http_do env verb url body opt = Some (x, evs)"
  shows "http_ledger evs [] = Some [] \<and>
    (if \<exists>b. SendRequest b \<in> set evs then
       \<exists>wurl wverb wagent uc reads. to_wide (he_text env) url = Some wurl \<and> to_wide (he_text env) verb = Some wverb \<and>
         to_wide (he_text env) (ho_agent opt) = Some wagent \<and> he_crack env wurl = Inr uc \<and> uc_scheme uc \<noteq> OTHER_SCHEME \<and>
         http_path uc \<noteq> [] \<and> 35 \<notin> set (http_path uc) \<and>
         (http_header_block opt = [] \<or> to_wide (he_text env) (c_str (http_header_block opt)) \<noteq> None) \<and>
         evs = http_opening wagent wverb uc opt @ http_sending (he_text env) body opt @ reads @ http_closes \<and> list_all is_read reads
     else isl x)"
proof -
  consider (early) e where "x = Inl e" "evs = []"
    | (run) wurl wverb wagent uc y es where "to_wide (he_text env) url = Some wurl" "to_wide (he_text env) verb = Some wverb"
      "to_wide (he_text env) (ho_agent opt) = Some wagent" "he_crack env wurl = Inr uc" "uc_scheme uc \<noteq> OTHER_SCHEME"
      "http_open env wagent wverb (uc_host uc) uc (http_path uc) body opt = (y, es)"
      "(\<exists>e. y = Inl e \<and> x = Inl e \<and> evs = es) \<or> (\<exists>es'. y = Inr () \<and>
         http_receive env \<lparr>hr_session = True, hr_conn = True, hr_req = True\<rparr> opt = Some (x, es') \<and> evs = es @ es')"
    using assms by (auto simp: http_do_def split: if_splits option.splits sum.splits prod.splits)
  then show ?thesis
  proof cases
    case early
    then show ?thesis by simp
  next
    case (run wurl wverb wagent uc y es)
    have done': ?thesis if "list_all is_read reads" "http_header_block opt = [] \<or> to_wide (he_text env) (c_str (http_header_block opt)) \<noteq> None"
      "evs = http_opening wagent wverb uc opt @ http_sending (he_text env) body opt @ reads @ http_closes" for reads
    proof -
      have "\<exists>b. SendRequest b \<in> set evs" "http_ledger evs [] = Some []" unfolding that(3) by (rule http_request_whole [OF that(1)])+
      then show ?thesis using that run(1-5) http_path_shape by auto
    qed
    from http_open_events [OF run(6)] consider (failed) "\<exists>e. y = Inl e" "\<forall>b. SendRequest b \<notin> set es" "http_ledger es [] = Some []"
      | (refused) "\<exists>e. y = Inl e" "es = http_opening wagent wverb uc opt @ http_sending (he_text env) body opt @ http_closes"
          "http_header_block opt = [] \<or> to_wide (he_text env) (c_str (http_header_block opt)) \<noteq> None"
      | (opened) "y = Inr ()" "es = http_opening wagent wverb uc opt @ http_sending (he_text env) body opt"
          "http_header_block opt = [] \<or> to_wide (he_text env) (c_str (http_header_block opt)) \<noteq> None" by blast
    then show ?thesis
    proof cases
      case failed
      then show ?thesis using run(7) by auto
    next
      case refused
      show ?thesis by (rule done' [of "[]"]) (use refused run(7) in auto)
    next
      case opened
      then obtain es' where es': "http_receive env \<lparr>hr_session = True, hr_conn = True, hr_req = True\<rparr> opt = Some (x, es')" "evs = es @ es'"
        using run(7) by auto
      obtain reads where "es' = reads @ http_closes" "list_all is_read reads" using http_receive_events [OF es'(1)] by blast
      then show ?thesis by (intro done' [of reads]) (use opened es'(2) in simp_all)
    qed
  qed
qed

section \<open>Lines\<close>

text \<open>The lines of a block as the reader of response headers sees them.\<close>

function crlf_lines :: "cstr \<Rightarrow> cstr list" where
  "crlf_lines p = (if p = [] then [] else case crlf_split p of (l, nl) \<Rightarrow> l # (case nl of None \<Rightarrow> [] | Some q \<Rightarrow> crlf_lines q))"
  by pat_completeness auto
termination by (relation "measure length") (auto dest: crlf_split_shorter [OF sym])

declare crlf_lines.simps [simp del]

lemma crlf_split_line: "CR \<notin> set l \<Longrightarrow> crlf_split (l @ CR # LF # q) = (l, Some q)"
  by (induction l) auto

lemma crlf_lines_line: "CR \<notin> set l \<Longrightarrow> crlf_lines (l @ CR # LF # q) = l # crlf_lines q"
  by (subst crlf_lines.simps) (simp add: crlf_split_line)

lemma crlf_lines_Nil [simp]: "crlf_lines [] = []"
  by (simp add: crlf_lines.simps)

definition http_sent_headers :: "http_options \<Rightarrow> tcl_dict" where
  "http_sent_headers opt = (case ho_headers opt of None \<Rightarrow> [] | Some d \<Rightarrow> d) @
     (case ho_type opt of None \<Rightarrow> [] | Some t \<Rightarrow> [(''Content-Type'', t)])"

definition http_safe_opts :: "http_options \<Rightarrow> bool" where
  "http_safe_opts opt \<longleftrightarrow> list_all (\<lambda>(k, v). http_text_safe k True \<and> http_text_safe v False) (http_sent_headers opt) \<and>
     http_text_safe (ho_agent opt) False \<and> 1 \<le> ho_maxbody opt \<and> 1 \<le> ho_timeout opt \<and> ho_timeout opt \<le> 2147483647"

lemma http_content_type_safe: "http_text_safe ''Content-Type'' True"
  by (simp add: http_text_safe_def)

lemma http_quantities_bounds:
  "http_duration v = Inr t \<Longrightarrow> 1 \<le> t \<and> t \<le> 2147483647"
  "http_size v = Inr n \<Longrightarrow> 1 \<le> n"
  using http_duration_iff [of v t] http_size_iff [of v n] by auto

lemma http_opts_safe:
  "http_opts dict allow ws opt = Inr opt' \<Longrightarrow> http_safe_opts opt \<Longrightarrow> http_safe_opts opt'"
proof (induction dict allow ws opt rule: http_opts.induct)
  case (3 dict allow a v ws opt)
  show ?case
    using 3 http_quantities_bounds [of v] http_content_type_safe
    by (auto simp: http_safe_opts_def http_sent_headers_def bind_res_Inr split: if_splits option.splits)
qed simp_all

lemma http_header_block_sent:
  "http_header_block opt = concat (map (\<lambda>(k, v). k @ '': '' @ v @ [CR, LF]) (http_sent_headers opt))"
  by (simp add: http_header_block_def http_sent_headers_def split: option.split)

lemma http_text_safe_line:
  assumes "http_text_safe k True" "http_text_safe v False"
  shows "CR \<notin> set (k @ '': '' @ v)" "CHR '':'' \<notin> set k" "k \<noteq> []"
  using assms by (auto simp: http_text_safe_def list_all_iff)

lemma crlf_lines_block:
  "list_all (\<lambda>(k, v). http_text_safe k True \<and> http_text_safe v False) ps \<Longrightarrow>
     crlf_lines (concat (map (\<lambda>(k, v). k @ '': '' @ v @ [CR, LF]) ps)) = map (\<lambda>(k, v). k @ '': '' @ v) ps"
proof (induction ps)
  case (Cons p ps)
  obtain k v where p: "p = (k, v)" by (rule prod.exhaust)
  have "CR \<notin> set (k @ '': '' @ v)" using Cons.prems p by (intro http_text_safe_line) simp_all
  from crlf_lines_line [OF this, of "concat (map (\<lambda>(k, v). k @ '': '' @ v @ [CR, LF]) ps)"] Cons p show ?case by simp
qed simp

text \<open>What a reader of header lines takes from one: the name before the colon, the value after it and the blanks.\<close>

definition http_pair :: "string \<Rightarrow> (string \<times> string) option" where
  "http_pair line = (if CHR '':'' \<notin> set line \<or> hd line = CHR '':'' then None
     else Some (map ascii_lower (takeWhile (\<lambda>c. c \<noteq> CHR '':'') line),
                dropWhile (\<lambda>c. c = SPC \<or> c = TAB) (tl (dropWhile (\<lambda>c. c \<noteq> CHR '':'') line))))"

lemma http_pair_line:
  assumes "CHR '':'' \<notin> set k" "k \<noteq> []"
  shows "http_pair (k @ '': '' @ v) = Some (map ascii_lower k, dropWhile (\<lambda>c. c = SPC \<or> c = TAB) v)"
proof -
  have "hd (k @ '': '' @ v) \<noteq> CHR '':''" using assms by (cases k) auto
  moreover have "\<forall>c \<in> set k. c \<noteq> CHR '':''" using assms(1) by auto
  then have "takeWhile (\<lambda>c. c \<noteq> CHR '':'') (k @ '': '' @ v) = k" "dropWhile (\<lambda>c. c \<noteq> CHR '':'') (k @ '': '' @ v) = '': '' @ v"
    by (simp_all add: takeWhile_append2 dropWhile_append2)
  ultimately show ?thesis by (simp add: http_pair_def)
qed

text \<open>A reader that lets any CR, any LF and CRLF end a line.\<close>

abbreviation line_char :: "char \<Rightarrow> bool" where "line_char c \<equiv> c \<noteq> CR \<and> c \<noteq> LF"

function loose_lines :: "string \<Rightarrow> string list" where
  "loose_lines s = (if s = [] then [] else takeWhile line_char s # (case dropWhile line_char s of
     [] \<Rightarrow> []
   | c # q \<Rightarrow> loose_lines (if c = CR \<and> q \<noteq> [] \<and> hd q = LF then tl q else q)))"
  by pat_completeness auto
termination
proof (relation "measure length")
  fix s c q
  assume "dropWhile line_char s = c # q"
  then have "length q < length s" by (metis length_dropWhile_le Suc_le_lessD length_Cons)
  then show "(if c = CR \<and> q \<noteq> [] \<and> hd q = LF then tl q else q, s) \<in> measure length" by auto
qed simp

declare loose_lines.simps [simp del]

lemma loose_lines_line: "\<forall>c\<in>set l. line_char c \<Longrightarrow> loose_lines (l @ CR # LF # q) = l # loose_lines q"
  by (subst loose_lines.simps) (simp add: takeWhile_append2 dropWhile_append2)

lemma loose_lines_Nil [simp]: "loose_lines [] = []"
  by (simp add: loose_lines.simps)

lemma http_safe_chars:
  assumes "http_text_safe s name"
  shows "NUL \<notin> set s" "CR \<notin> set s" "LF \<notin> set s"
  using assms by (auto simp: http_text_safe_def list_all_iff)

lemma loose_lines_block:
  "list_all (\<lambda>(k, v). http_text_safe k True \<and> http_text_safe v False) ps \<Longrightarrow>
     loose_lines (concat (map (\<lambda>(k, v). k @ '': '' @ v @ [CR, LF]) ps)) = map (\<lambda>(k, v). k @ '': '' @ v) ps"
proof (induction ps)
  case (Cons p ps)
  obtain k v where p: "p = (k, v)" by (rule prod.exhaust)
  have "\<forall>c\<in>set (k @ '': '' @ v). line_char c" using Cons.prems http_safe_chars [of k True] http_safe_chars [of v False] p by auto
  note line = loose_lines_line [OF this, of "concat (map (\<lambda>(k, v). k @ '': '' @ v @ [CR, LF]) ps)"]
  have "loose_lines (concat (map (\<lambda>(k, v). k @ '': '' @ v @ [CR, LF]) ps)) = map (\<lambda>(k, v). k @ '': '' @ v) ps"
    using Cons.prems by (intro Cons.IH) simp
  then show ?case using line unfolding p by simp
qed simp

text \<open>What the words ask for, without the option loop: the pairs they form, of each option the last one. The type a body is
  given by default is left out if any \<^verbatim>\<open>-headers\<close> names one, also an earlier one that a later one replaced.\<close>

fun word_pairs :: "string list \<Rightarrow> (string \<times> string) list" where
  "word_pairs (a # v # ws) = (a, v) # word_pairs ws"
| "word_pairs ws = []"

definition named_type :: "(string \<Rightarrow> tcl_dict option) \<Rightarrow> string list \<Rightarrow> bool" where
  "named_type dict ws \<longleftrightarrow> list_ex (\<lambda>(a, v). a = ''-headers'' \<and>
     list_ex (\<lambda>(k, w). map ascii_lower k = ''content-type'') (the (dict v))) (word_pairs ws)"

definition asked_headers :: "(string \<Rightarrow> tcl_dict option) \<Rightarrow> bool \<Rightarrow> string list \<Rightarrow> tcl_dict" where
  "asked_headers dict post ws =
    (case map_of (rev (word_pairs ws)) ''-headers'' of None \<Rightarrow> [] | Some v \<Rightarrow> the (dict v)) @
    (case map_of (rev (word_pairs ws)) ''-type'' of
       Some t \<Rightarrow> [(''Content-Type'', t)]
     | None \<Rightarrow> if post \<and> \<not> named_type dict ws then [(''Content-Type'', ''application/octet-stream'')] else [])"

lemma header_is_lower: "http_header_is s e \<longleftrightarrow> map ascii_lower s = e"
  by (auto simp: http_header_is_def list_all2_conv_all_nth intro: nth_equalityI)

lemma http_opts_asked:
  "http_opts dict allow ws opt = Inr opt' \<Longrightarrow>
     ho_headers opt' = (case map_of (rev (word_pairs ws)) ''-headers'' of None \<Rightarrow> ho_headers opt | Some v \<Rightarrow> Some (the (dict v))) \<and>
     ho_type opt' = (case map_of (rev (word_pairs ws)) ''-type'' of None \<Rightarrow> ho_type opt | Some t \<Rightarrow> Some t) \<and>
     ho_has_content_type opt' = (ho_has_content_type opt \<or> named_type dict ws)"
proof (induction dict allow ws opt rule: http_opts.induct)
  case (3 dict allow a v ws opt)
  show ?case
    using 3 by (auto simp: bind_res_Inr named_type_def header_is_lower map_add_def split: if_splits option.splits)
qed (simp_all add: named_type_def)

definition final_opts :: "bool \<Rightarrow> http_options \<Rightarrow> http_options" where
  "final_opts post opt = (if post \<and> ho_type opt = None \<and> \<not> ho_has_content_type opt
     then opt\<lparr>ho_type := Some ''application/octet-stream''\<rparr> else opt)"

lemma asked_block:
  assumes "http_opts dict allow ws http_defaults = Inr opt"
  shows "http_sent_headers (final_opts post opt) = asked_headers dict post ws"
    "list_all (\<lambda>(k, v). http_text_safe k True \<and> http_text_safe v False) (asked_headers dict post ws)"
proof -
  show e: "http_sent_headers (final_opts post opt) = asked_headers dict post ws"
    using http_opts_asked [OF assms]
    by (auto simp: asked_headers_def http_sent_headers_def final_opts_def http_defaults_def split: option.splits)
  have "http_safe_opts http_defaults" by (simp add: http_safe_opts_def http_defaults_def http_sent_headers_def http_text_safe_def)
  then have 1: "http_safe_opts opt" by (rule http_opts_safe [OF assms(1)])
  have 2: "http_text_safe ''application/octet-stream'' False" by (simp add: http_text_safe_def)
  show "list_all (\<lambda>(k, v). http_text_safe k True \<and> http_text_safe v False) (asked_headers dict post ws)"
    using 1 2 http_content_type_safe unfolding e [symmetric]
    by (auto simp: http_safe_opts_def http_sent_headers_def final_opts_def)
qed

text \<open>What a request hands to \<^verbatim>\<open>WinHttpAddRequestHeaders\<close> is its header block, and a block there is gets handed over.\<close>

lemma http_send_headers:
  assumes "http_send env r body opt = (x, evs)"
  shows "(AddHeaders w \<in> set evs \<longrightarrow> http_header_block opt \<noteq> [] \<and> to_wide (he_text env) (c_str (http_header_block opt)) = Some w) \<and>
    (SendRequest b \<in> set evs \<and> http_header_block opt \<noteq> [] \<longrightarrow> (\<exists>w. AddHeaders w \<in> set evs))"
  using assms
  by (auto simp: http_send_def http_call_def http_cleanup_def Let_def split: option.splits if_splits)

lemma http_open_headers:
  assumes "http_open env wagent wverb whost uc wpath body opt = (x, evs)"
  shows "(AddHeaders w \<in> set evs \<longrightarrow> http_header_block opt \<noteq> [] \<and> to_wide (he_text env) (c_str (http_header_block opt)) = Some w) \<and>
    (SendRequest b \<in> set evs \<and> http_header_block opt \<noteq> [] \<longrightarrow> (\<exists>w. AddHeaders w \<in> set evs))"
proof -
  let ?r = "\<lparr>hr_session = True, hr_conn = True, hr_req = True\<rparr>"
  obtain y es where y: "http_send env ?r body opt = (y, es)" by (rule prod.exhaust)
  show ?thesis
    using assms http_send_headers [OF y, of w b] y
    by (auto simp: http_open_def http_call_def http_cleanup_def Let_def split: option.splits)
qed

lemma http_do_headers:
  assumes "http_do env verb url body opt = Some (x, evs)"
  shows "(AddHeaders w \<in> set evs \<longrightarrow> http_header_block opt \<noteq> [] \<and> to_wide (he_text env) (c_str (http_header_block opt)) = Some w) \<and>
    (SendRequest b \<in> set evs \<and> http_header_block opt \<noteq> [] \<longrightarrow> (\<exists>w. AddHeaders w \<in> set evs))"
proof -
  consider (early) "evs = []"
    | (run) wagent wverb uc y es es' where "http_open env wagent wverb (uc_host uc) uc (http_path uc) body opt = (y, es)" "evs = es @ es'"
      "es' = [] \<or> http_receive env \<lparr>hr_session = True, hr_conn = True, hr_req = True\<rparr> opt = Some (x, es')"
    using assms by (fastforce simp: http_do_def split: if_splits option.splits sum.splits prod.splits)
  then show ?thesis
  proof cases
    case (run wagent wverb uc y es es')
    have "is_read e \<or> e \<in> set http_closes" if "e \<in> set es'" for e
      using that run(3) http_receive_events [of env opt x es'] by (auto simp: list_all_iff)
    then have "AddHeaders w \<notin> set es'" "SendRequest b \<notin> set es'" for w b by fastforce+
    then show ?thesis using http_open_headers [OF run(1), of w b] run(2) by auto
  qed simp
qed

text \<open>C39: No header is injected and none is lost, from the words of the command to the request: whatever
  \<^verbatim>\<open>http get\<close> or \<^verbatim>\<open>http post\<close> adds to a request holds no NUL, and a reader that ends lines at any CR and at any LF
  reads from it exactly the headers the last \<^verbatim>\<open>-headers\<close> names and the content type, one line each, each with its
  name and value; and a request is only sent with them.\<close>

theorem http_no_injection:
  assumes "HttpCmd env utf8 (sub # url # ws) = Some (x, evs)"
  shows "let post = (vtext sub = ''post''); asked = asked_headers (he_dict env) post (map vtext (if post then tl ws else ws)) in
    (\<forall>w. AddHeaders w \<in> set evs \<longrightarrow> (\<exists>h. to_wide (he_text env) h = Some w \<and> NUL \<notin> set h \<and>
       loose_lines h = map (\<lambda>(k, v). k @ '': '' @ v) asked \<and>
       map http_pair (loose_lines h) = map (\<lambda>(k, v). Some (map ascii_lower k, dropWhile (\<lambda>c. c = SPC \<or> c = TAB) v)) asked)) \<and>
    (asked \<noteq> [] \<and> (\<exists>b. SendRequest b \<in> set evs) \<longrightarrow> (\<exists>w. AddHeaders w \<in> set evs))"
proof -
  let ?post = "vtext sub = ''post''"
  let ?ws = "map vtext (if ?post then tl ws else ws)"
  let ?asked = "asked_headers (he_dict env) ?post ?ws"
  consider (refused) "evs = []"
    | (ran) allow opt verb body where "http_opts (he_dict env) allow ?ws http_defaults = Inr opt"
        "http_do env verb (vtext url) body (final_opts ?post opt) = Some (x, evs)"
    using assms by (auto simp: HttpCmd_def final_opts_def split: if_splits sum.splits list.splits)
  then show ?thesis
  proof cases
    case (ran allow opt verb body)
    note a = asked_block [OF ran(1), of ?post]
    have blk: "http_header_block (final_opts ?post opt) = concat (map (\<lambda>(k, v). k @ '': '' @ v @ [CR, LF]) ?asked)" (is "?h = _")
      by (simp add: http_header_block_sent a(1))
    have nul: "NUL \<notin> set ?h" using a(2) unfolding blk by (auto simp: list_all_iff dest: http_safe_chars bspec)
    have lines: "loose_lines ?h = map (\<lambda>(k, v). k @ '': '' @ v) ?asked" unfolding blk by (rule loose_lines_block [OF a(2)])
    have "http_pair (k @ '': '' @ v) = Some (map ascii_lower k, dropWhile (\<lambda>c. c = SPC \<or> c = TAB) v)" if "(k, v) \<in> set ?asked" for k v
      using that a(2) http_text_safe_line [of k v] by (intro http_pair_line) (auto simp: list_all_iff)
    then have pairs: "map http_pair (loose_lines ?h) =
        map (\<lambda>(k, v). Some (map ascii_lower k, dropWhile (\<lambda>c. c = SPC \<or> c = TAB) v)) ?asked"
      unfolding lines by auto
    have "?h \<noteq> []" if "?asked \<noteq> []" using that unfolding blk by (cases ?asked) auto
    then have sent: "\<exists>w. AddHeaders w \<in> set evs" if "?asked \<noteq> []" "SendRequest b \<in> set evs" for b
      using that http_do_headers [OF ran(2), of undefined b] by blast
    have whole: "c_str ?h = ?h" using nul by (auto simp: c_str_def takeWhile_eq_all_conv)
    have "to_wide (he_text env) ?h = Some w" if "AddHeaders w \<in> set evs" for w
      using that http_do_headers [OF ran(2), of w] unfolding whole by blast
    then show ?thesis using nul lines pairs sent unfolding Let_def by blast
  qed simp
qed

section \<open>The dict of the response headers\<close>

definition http_join :: "string option \<Rightarrow> string list \<Rightarrow> string option" where
  "http_join acc vs = foldl (\<lambda>acc v. Some (case acc of None \<Rightarrow> v | Some p \<Rightarrow> p @ '', '' @ v)) acc vs"

lemma http_join_simps [simp]:
  "http_join acc [] = acc"
  "http_join acc (v # vs) = http_join (Some (case acc of None \<Rightarrow> v | Some p \<Rightarrow> p @ '', '' @ v)) vs"
  by (simp_all add: http_join_def)

lemma http_join_Some: "http_join (Some p) vs = Some (p @ concat (map (\<lambda>v. '', '' @ v) vs))"
  by (induction vs arbitrary: p) simp_all

definition http_values :: "string \<Rightarrow> string list \<Rightarrow> string list" where
  "http_values name lines = [v. Some (k, v) \<leftarrow> map http_pair lines, k = name]"

lemma http_values_simps [simp]:
  "http_values name [] = []"
  "http_values name (l # ls) = (case http_pair l of None \<Rightarrow> [] | Some (k, v) \<Rightarrow> if k = name then [v] else []) @ http_values name ls"
  by (simp_all add: http_values_def split: option.split)

lemma http_put_header_spec:
  assumes "http_put_header alloc line d = Some d'"
  shows "map_of d' name = http_join (map_of d name) (http_values name [line])" "distinct (map fst d) \<Longrightarrow> distinct (map fst d')"
proof -
  have t: "drop (Suc (length (takeWhile (\<lambda>c. c \<noteq> CHR '':'') line))) line = tl (dropWhile (\<lambda>c. c \<noteq> CHR '':'') line)"
    by (simp add: dropWhile_eq_drop drop_Suc drop_tl [symmetric])
  show "map_of d' name = http_join (map_of d name) (http_values name [line])"
    using assms t by (auto simp: http_put_header_def http_pair_def Let_def update_conv' split: if_splits option.splits)
  show "distinct (map fst d')" if "distinct (map fst d)"
    using assms that by (auto simp: http_put_header_def Let_def distinct_update split: if_splits option.splits)
qed

lemma http_headers_spec:
  "http_headers alloc p firstline d = Some d' \<Longrightarrow>
     map_of d' name = http_join (map_of d name) (http_values name (if firstline then tl (crlf_lines p) else crlf_lines p)) \<and>
     (distinct (map fst d) \<longrightarrow> distinct (map fst d'))"
proof (induction alloc p firstline d rule: http_headers.induct)
  case (1 alloc p firstline d)
  show ?case
  proof (cases "p = []")
    case True
    then show ?thesis using "1.prems" by (auto simp: http_headers.simps)
  next
    case False
    obtain line nl where sp: "crlf_split p = (line, nl)" by (rule prod.exhaust)
    define put where "put = (if line \<noteq> [] \<and> \<not> firstline then http_put_header alloc line d else Some d)"
    have lines: "crlf_lines p = line # (case nl of None \<Rightarrow> [] | Some q \<Rightarrow> crlf_lines q)"
      using False sp by (subst crlf_lines.simps) simp
    obtain d1 where d1: "put = Some d1" "(case nl of None \<Rightarrow> Some d1 | Some q \<Rightarrow> http_headers alloc q False d1) = Some d'"
      using "1.prems" False sp by (subst (asm) http_headers.simps) (auto simp: put_def split: option.splits)
    have v: "http_values name [line] = []" if "line = []" using that by (simp add: http_pair_def)
    have m1: "map_of d1 name = http_join (map_of d name) (if firstline then [] else http_values name [line])"
      "distinct (map fst d) \<longrightarrow> distinct (map fst d1)"
      using d1(1) http_put_header_spec [of alloc line d d1] v by (auto simp: put_def split: if_splits)
    have app: "http_join (http_join a (http_values name [l])) (http_values name ls) = http_join a (http_values name (l # ls))" for a l ls
      by (simp add: http_join_def split: option.split)
    show ?thesis
    proof (cases nl)
      case None
      then show ?thesis using d1(2) m1 lines by (cases firstline) simp_all
    next
      case (Some q)
      then have q: "http_headers alloc q False d1 = Some d'" using d1(2) by simp
      have "map_of d' name = http_join (map_of d1 name) (http_values name (if False then tl (crlf_lines q) else crlf_lines q)) \<and>
          (distinct (map fst d1) \<longrightarrow> distinct (map fst d'))"
        by (rule "1.IH" [OF False sp [symmetric] d1(1) [unfolded put_def] Some q])
      then show ?thesis using m1 lines Some app by (cases firstline) simp_all
    qed
  qed
qed

text \<open>The dict of response headers has each name once, lower-cased, with the values of all lines of that name in their order, joined by a comma
  and a space; the status line and lines that are no header are left out, and nothing else is.\<close>

theorem http_headers_exact:
  assumes "http_headers alloc p True [] = Some d"
  shows "distinct (map fst d) \<and> map_of d name = (case http_values name (tl (crlf_lines p)) of
     [] \<Rightarrow> None | v # vs \<Rightarrow> Some (v @ concat (map (\<lambda>w. '', '' @ w) vs)))"
proof -
  note spec = http_headers_spec [OF assms, of name]
  show ?thesis
  proof (cases "http_values name (tl (crlf_lines p))")
    case Nil
    then show ?thesis using spec by simp
  next
    case (Cons v vs)
    then have "map_of d name = http_join (Some v) vs" using spec by simp
    then have "map_of d name = Some (v @ concat (map (\<lambda>w. '', '' @ w) vs))" unfolding http_join_Some .
    then show ?thesis unfolding Cons list.case by (rule conjI [rotated]) (use spec in simp)
  qed
qed

lemma http_opts_maxbody: "http_opts dict allow ws http_defaults = Inr opt \<Longrightarrow> 1 \<le> ho_maxbody opt"
  using http_opts_safe [of dict allow ws http_defaults opt]
  by (simp add: http_safe_opts_def http_defaults_def http_sent_headers_def http_text_safe_def)

definition http_fits :: "int \<Rightarrow> http_event \<Rightarrow> bool" where
  "http_fits maxbody e = (case e of ReadData u a c \<Rightarrow> 0 \<le> u \<and> u + int a \<le> c \<and> c \<le> maxbody | _ \<Rightarrow> True)"

lemma http_fits_reads:
  "list_all (http_fits m) (http_cleanup r)"
  "\<forall>e \<in> set reads. \<exists>u a c. e = ReadData u a c \<and> 0 \<le> u \<and> u + int a \<le> c \<and> c \<le> m \<Longrightarrow> list_all (http_fits m) reads"
  by (auto simp: http_cleanup_def http_fits_def list_all_iff)

lemma http_fits_open:
  assumes "http_open env wa wv wh uc wp body opt = (x, evs)"
  shows "list_all (http_fits m) evs"
  using assms by (auto simp: http_open_def http_send_def http_call_def Let_def http_cleanup_def http_fits_def split: option.splits if_splits)

lemma http_receive_good:
  assumes "http_contract env" "1 \<le> ho_maxbody opt"
  shows "\<exists>x evs. http_receive env r opt = Some (x, evs) \<and> list_all (http_fits (ho_maxbody opt)) evs \<and>
    (case x of Inl _ \<Rightarrow> True | Inr res \<Rightarrow>
       \<exists>ds. http_served env 0 ds \<and> http_ended env (length ds) \<and> hs_body res = concat ds \<and>
         hs_bytes res = int (length (concat ds)) \<and> hs_bytes res \<le> ho_maxbody opt)"
proof -
  have "int (length ([] :: string)) \<le> ho_maxbody opt" "(0 :: int) \<le> ho_maxbody opt" using assms(2) by simp_all
  from http_body_good [OF assms order_refl this(2,1), of r 0]
  obtain y reads ds where b: "http_body env r (ho_maxbody opt) 0 [] 0 = Some (y, reads @ (if isl y then http_cleanup r else []))"
    "http_served env 0 ds" "\<forall>e \<in> set reads. \<exists>u a c. e = ReadData u a c \<and> 0 \<le> u \<and> u + int a \<le> c \<and> c \<le> ho_maxbody opt"
    "\<forall>body. y = Inr body \<longrightarrow> http_ended env (0 + length ds) \<and> body = [] @ concat ds \<and> int (length body) \<le> ho_maxbody opt"
    unfolding http_body_good_def by (elim exE conjE) (rule that, assumption+, force)
  note f = http_fits_reads(1) [of "ho_maxbody opt" r] http_fits_reads(2) [OF b(3)]
  show ?thesis
  proof (cases y)
    case (Inl e)
    then show ?thesis using b(1) f by (auto simp: http_receive_def split: sum.splits)
  next
    case (Inr body)
    then show ?thesis using b f by (auto simp: http_receive_def split: sum.splits)
  qed
qed

lemma http_do_cases:
  obtains e where "http_do env verb url body opt = Some (Inl e, [])"
    | wa wv wh uc wp where "http_do env verb url body opt = (case http_open env wa wv wh uc wp body opt of
         (Inl e, evs) \<Rightarrow> Some (Inl e, evs)
       | (Inr _, evs) \<Rightarrow> map_option (\<lambda>(x, evs'). (x, evs @ evs')) (http_receive env \<lparr>hr_session = True, hr_conn = True, hr_req = True\<rparr> opt))"
proof (cases "length body > 4294967295 \<or> to_wide (he_text env) url = None \<or> to_wide (he_text env) verb = None \<or> to_wide (he_text env) (ho_agent opt) = None")
  case True
  then have "\<exists>e. http_do env verb url body opt = Some (Inl e, [])"
    by (auto simp: http_do_def split: option.split)
  then show ?thesis using that(1) by blast
next
  case False
  then obtain wurl wv wa where w: "to_wide (he_text env) url = Some wurl" "to_wide (he_text env) verb = Some wv" "to_wide (he_text env) (ho_agent opt) = Some wa"
    by auto
  show ?thesis
  proof (cases "he_crack env wurl")
    case (Inl e)
    then show ?thesis using that(1) False w by (simp add: http_do_def)
  next
    case (Inr uc)
    show ?thesis
    proof (cases "uc_scheme uc \<noteq> INTERNET_SCHEME_HTTP \<and> uc_scheme uc \<noteq> INTERNET_SCHEME_HTTPS \<or> \<not> he_alloc env (2 * (length (uc_host uc) + 1)) \<or>
        \<not> he_alloc env (2 * (uc_path_len uc + uc_extra_len uc + 2))")
      case True
      then have "\<exists>e. http_do env verb url body opt = Some (Inl e, [])"
        using False w Inr by (auto simp: http_do_def)
      then show ?thesis using that(1) by blast
    next
      case ok: False
      have "http_do env verb url body opt = (case http_open env wa wv (uc_host uc) uc (http_path uc) body opt of
         (Inl e, evs) \<Rightarrow> Some (Inl e, evs)
       | (Inr _, evs) \<Rightarrow> map_option (\<lambda>(x, evs'). (x, evs @ evs')) (http_receive env \<lparr>hr_session = True, hr_conn = True, hr_req = True\<rparr> opt))"
        using False w Inr ok by (auto simp: http_do_def)
      then show ?thesis by (rule that(2))
    qed
  qed
qed

text \<open>C6: A request always returns. Every read of the body fits its buffer, which never exceeds the cap of the options; and a
  response that is answered has as its body everything the server gave until it ended, no longer than the cap: nothing is
  ever cut.\<close>

theorem http_body_exact:
  assumes "http_contract env" "http_opts dict allow ws http_defaults = Inr opt"
  shows "\<exists>x evs. http_do env verb url body opt = Some (x, evs) \<and> list_all (http_fits (ho_maxbody opt)) evs \<and>
    (case x of Inl _ \<Rightarrow> True | Inr res \<Rightarrow>
       \<exists>ds. http_served env 0 ds \<and> http_ended env (length ds) \<and> hs_body res = concat ds \<and>
         hs_bytes res = int (length (concat ds)) \<and> hs_bytes res \<le> ho_maxbody opt)"
proof -
  have m: "1 \<le> ho_maxbody opt" by (rule http_opts_maxbody [OF assms(2)])
  let ?r = "\<lparr>hr_session = True, hr_conn = True, hr_req = True\<rparr>"
  obtain x evs where r: "http_receive env ?r opt = Some (x, evs)" "list_all (http_fits (ho_maxbody opt)) evs"
    "case x of Inl _ \<Rightarrow> True | Inr res \<Rightarrow>
       \<exists>ds. http_served env 0 ds \<and> http_ended env (length ds) \<and> hs_body res = concat ds \<and>
         hs_bytes res = int (length (concat ds)) \<and> hs_bytes res \<le> ho_maxbody opt"
    using http_receive_good [OF assms(1) m, of ?r] by blast
  show ?thesis
  proof (cases rule: http_do_cases [of env verb url body opt])
    case (1 e)
    then show ?thesis by simp
  next
    case (2 wa wv wh uc wp)
    obtain y es where y: "http_open env wa wv wh uc wp body opt = (y, es)" by (rule prod.exhaust)
    note f = http_fits_open [OF y, of "ho_maxbody opt"]
    show ?thesis
    proof (cases y)
      case (Inl e)
      then show ?thesis using 2 y f by simp
    next
      case (Inr u)
      then show ?thesis using 2 y f r by simp
    qed
  qed
qed

section \<open>A small server\<close>

definition demo_http :: http_env where
  "demo_http = \<lparr>he_text = \<lparr>tx_wide = (\<lambda>s. Some (replicate (length s) 97)), tx_utf8 = (\<lambda>w. Some (map (\<lambda>u. char_of (unat u)) w)), tx_malloc = (\<lambda>_. True)\<rparr>,
     he_dict = (\<lambda>_. None), he_alloc = (\<lambda>_. True),
     he_crack = (\<lambda>u. Inr \<lparr>uc_scheme = INTERNET_SCHEME_HTTPS, uc_host = [104], uc_port = 443, uc_url = [47, 35, 97], uc_path_len = 1, uc_extra_len = 2\<rparr>),
     he_session = None, he_timeouts = None, he_policy = None, he_connect = None, he_request = None, he_receive_opt = None,
     he_response_opt = None, he_add_headers = None, he_last_error = 0, he_send = None, he_response = None, he_status = Inr 200,
     he_raw_size = (False, ERROR_INSUFFICIENT_BUFFER, 0), he_raw = Inl 1, he_avail = (\<lambda>n. Inr (if n = 0 then 3 else 0)), he_realloc = (\<lambda>_. True),
     he_read = (\<lambda>n. Inr (if n = 0 then ''abc'' else []))\<rparr>"

definition demo_calls :: "http_event list" where
  "demo_calls = [OpenSession [97, 97, 97, 97, 97, 97, 97, 97] True, SetTimeouts 30000, SetPolicy WINHTTP_OPTION_REDIRECT_POLICY_DISALLOW_HTTPS_TO_HTTP,
     Connect [104] 443 True, OpenRequest [97, 97, 97] [47] True True, SetReceive 30000, SetResponse 30000, SendRequest [],
     ReadData 0 3 65536] @ http_closes"

lemma demo_http_body:
  "http_body demo_http r 67108864 0 [] 0 = Some (Inr ''abc'', [ReadData 0 3 65536])"
proof -
  have g: "http_grow 67108864 3 0 = Some 65536" by (simp add: http_grow_def http_ncap.simps)
  have e: "http_body demo_http r 67108864 (Suc 0) ''abc'' 65536 = Some (Inr ''abc'', [])"
    by (subst http_body.simps) (simp add: demo_http_def)
  show ?thesis by (subst http_body.simps) (use g e in \<open>simp add: demo_http_def [THEN arg_cong [of _ _ he_avail]] demo_http_def [THEN arg_cong [of _ _ he_read]] demo_http_def [THEN arg_cong [of _ _ he_realloc]]\<close>)
qed

lemma demo_http_do: "http_do demo_http ''GET'' ''h'' [] http_defaults =
  Some (Inr \<lparr>hs_status = 200, hs_headers = [], hs_raw = [], hs_body = ''abc'', hs_bytes = 3\<rparr>, demo_calls)"
proof -
  let ?r = "\<lparr>hr_session = True, hr_conn = True, hr_req = True\<rparr>"
  have 1: "http_receive demo_http ?r http_defaults =
    Some (Inr \<lparr>hs_status = 200, hs_headers = [], hs_raw = [], hs_body = ''abc'', hs_bytes = 3\<rparr>, [ReadData 0 3 65536] @ http_closes)"
    using demo_http_body [of ?r]
    by (simp add: http_receive_def http_raw_headers_def http_defaults_def http_cleanup_def demo_http_def [THEN arg_cong [of _ _ he_status]]
        demo_http_def [THEN arg_cong [of _ _ he_raw_size]])
  have 2: "http_open demo_http [97, 97, 97, 97, 97, 97, 97, 97] [97, 97, 97] [104] \<lparr>uc_scheme = INTERNET_SCHEME_HTTPS, uc_host = [104], uc_port = 443, uc_url = [47, 35, 97],
      uc_path_len = 1, uc_extra_len = 2\<rparr> [47] [] http_defaults = (Inr (), take 8 demo_calls)"
    by (simp add: http_open_def http_send_def http_call_def Let_def http_header_block_def http_defaults_def demo_http_def demo_calls_def)
  have p: "http_path \<lparr>uc_scheme = INTERNET_SCHEME_HTTPS, uc_host = [104], uc_port = 443, uc_url = [47, 35, 97], uc_path_len = 1, uc_extra_len = 2\<rparr> = [47]"
    by (simp add: http_path_def)
  have w: "to_wide (he_text demo_http) s = Some (replicate (length s) 97)" for s by (simp add: to_wide_eq demo_http_def)
  have c: "he_crack demo_http u = Inr \<lparr>uc_scheme = INTERNET_SCHEME_HTTPS, uc_host = [104], uc_port = 443, uc_url = [47, 35, 97], uc_path_len = 1, uc_extra_len = 2\<rparr>"
    "he_alloc demo_http n" for u n by (simp_all add: demo_http_def)
  have 3: "ho_agent http_defaults = ''machteld''" by (simp add: http_defaults_def)
  show ?thesis unfolding http_do_def w c 3 using 1 2 p by (simp add: c demo_calls_def)
qed

lemma http_request_exact_witness: "http_ledger demo_calls [] = Some []"
  using http_request_exact [OF demo_http_do] by blast

lemma http_body_exact_witness:
  "\<exists>ds. http_served demo_http 0 ds \<and> http_ended demo_http (length ds) \<and> concat ds = ''abc''"
proof -
  have 1: "http_contract demo_http" by (simp add: http_contract_def demo_http_def)
  have 2: "http_opts (\<lambda>_. None) False [] http_defaults = Inr http_defaults" by simp
  show ?thesis using http_body_exact [OF 1 2, of "''GET''" "''h''" "[]"] unfolding demo_http_do by auto
qed

lemma http_no_injection_witness:
  "\<exists>h. to_wide (he_text demo_http) h = Some (replicate 34 97) \<and> loose_lines h = [''X-A: 1'', ''Content-Type: text/plain'']"
proof -
  let ?env = "demo_http\<lparr>he_dict := \<lambda>_. Some [(''X-A'', ''1'')], he_add_headers := Some 5\<rparr>"
  have w: "to_wide (he_text demo_http) s = Some (replicate (length s) 97)" for s by (simp add: to_wide_eq demo_http_def)
  have rep: "replicate 34 97 = ([97, 97, 97, 97, 97, 97, 97, 97, 97, 97, 97, 97, 97, 97, 97, 97, 97, 97, 97, 97, 97, 97, 97, 97, 97, 97, 97, 97, 97, 97, 97, 97, 97, 97] :: wstr)" by (simp add: eval_nat_numeral)
  have "\<exists>x evs. HttpCmd ?env id [VText ''post'', VText ''h'', VText [], VText ''-headers'', VText ''d'', VText ''-type'', VText ''text/plain''] =
      Some (x, evs) \<and> AddHeaders (replicate 34 97) \<in> set evs"
    by (simp add: HttpCmd_def http_do_def w http_defaults_def http_text_safe_def http_header_is_def demo_http_def [THEN arg_cong [of _ _ he_crack]]
        demo_http_def [THEN arg_cong [of _ _ he_alloc]] http_open_def http_send_def http_call_def http_header_block_def c_str_def Let_def
        Machteld_ValueBytes_def demo_http_def [THEN arg_cong [of _ _ he_session]] demo_http_def [THEN arg_cong [of _ _ he_timeouts]] demo_http_def [THEN arg_cong [of _ _ he_policy]] demo_http_def [THEN arg_cong [of _ _ he_connect]] demo_http_def [THEN arg_cong [of _ _ he_request]] demo_http_def [THEN arg_cong [of _ _ he_receive_opt]] demo_http_def [THEN arg_cong [of _ _ he_response_opt]] rep)
  then obtain x evs where r: "HttpCmd ?env id (VText ''post'' # VText ''h'' # [VText [], VText ''-headers'', VText ''d'', VText ''-type'', VText ''text/plain'']) =
      Some (x, evs)" "AddHeaders (replicate 34 97) \<in> set evs" by blast
  from http_no_injection [OF r(1)] r(2) show ?thesis
    by (auto simp: asked_headers_def Let_def)
qed

lemma http_headers_exact_witness:
  "map_of [(''a'', ''1, 2''), (''b'', ''x'')] ''a'' = (case http_values ''a'' (tl (crlf_lines (''HTTP/1.1 200'' @ [CR, LF] @ ''A: 1'' @ [CR, LF] @ ''b:x'' @ [CR, LF] @ ''a:2''))) of
     [] \<Rightarrow> None | v # vs \<Rightarrow> Some (v @ concat (map (\<lambda>w. '', '' @ w) vs)))"
proof -
  have "http_headers (\<lambda>_. True) (''HTTP/1.1 200'' @ [CR, LF] @ ''A: 1'' @ [CR, LF] @ ''b:x'' @ [CR, LF] @ ''a:2'') True [] = Some [(''a'', ''1, 2''), (''b'', ''x'')]"
    by code_simp
  from http_headers_exact [OF this, of "''a''"] show ?thesis by blast
qed

end
