(* ===== verification/Entry.thy ===== *)
theory Entry
  imports TclValue
begin

text \<open>
  The boundary between Tcl and a program (\<^verbatim>\<open>src/entry.c\<close>, the mains \<^verbatim>\<open>src/machteld_main.c\<close> and
  \<^verbatim>\<open>src/machteld_gui_main.c\<close>): host routes, the capture of the program file, the check that it opts in, and its
  evaluation. Windows and the Tcl library are a parameter: each of their calls is made once on a way through the gate,
  so a record of answers says all they can do. What the gate does is its list of events.
\<close>

section \<open>Host modes\<close>

datatype host_mode = MACHTELD_HOST_NORMAL | MACHTELD_HOST_HELP | MACHTELD_HOST_VERSION | MACHTELD_HOST_DOCS
  | MACHTELD_HOST_DOCS_GUI | MACHTELD_HOST_STDIN | MACHTELD_HOST_ENCODING

text \<open>The choice of the console main from the words after the program name; \<open>startup\<close> says that a program is embedded.\<close>

definition tmain_mode :: "bool \<Rightarrow> string list \<Rightarrow> host_mode \<times> string list" where
  "tmain_mode startup args =
    (if \<not> startup \<and> args \<noteq> [] \<and> hd args = ''--docs'' then (MACHTELD_HOST_DOCS, ''docs'' # tl args)
     else if startup \<and> args \<noteq> [] \<and> hd args = ''--machteld-docs'' then (MACHTELD_HOST_DOCS, tl args)
     else if \<not> startup \<and> length args = 1 \<and> hd args = ''--help'' then (MACHTELD_HOST_HELP, [])
     else if \<not> startup \<and> length args = 1 \<and> hd args = ''--version'' then (MACHTELD_HOST_VERSION, [])
     else if \<not> startup \<and> args \<noteq> [] \<and> hd args = ''-encoding'' then (MACHTELD_HOST_ENCODING, args)
     else if \<not> startup \<and> args \<noteq> [] \<and> hd args = ''-'' then (MACHTELD_HOST_STDIN, args)
     else (MACHTELD_HOST_NORMAL, args))"

text \<open>The GUI main: \<open>None\<close> is the refusal of an executable without its program.\<close>

definition twinmain_mode :: "bool \<Rightarrow> string list \<Rightarrow> (host_mode \<times> string list) option" where
  "twinmain_mode startup args =
    (if \<not> startup then None
     else if args \<noteq> [] \<and> hd args = ''--machteld-docs'' then Some (MACHTELD_HOST_DOCS_GUI, tl args)
     else Some (MACHTELD_HOST_NORMAL, args))"

section \<open>The program text\<close>

abbreviation EntryError :: "string \<Rightarrow> string \<Rightarrow> mt_error" where
  "EntryError code msg \<equiv> MtError ''ENTRY'' code msg"

text \<open>\<^verbatim>\<open>%lu\<close> is left to the text of the error: the code of Windows is kept with it.\<close>

datatype entry_error = Plain mt_error | WinError string nat | Detail string string | TclLeft

abbreviation CTRL_Z :: char where "CTRL_Z \<equiv> CHR 0x1A"

definition cut_eof :: "string \<Rightarrow> string" where
  "cut_eof bytes = takeWhile (\<lambda>c. c \<noteq> CTRL_Z) bytes"

definition skip_bom :: "string \<Rightarrow> string" where
  "skip_bom bytes = (if length bytes \<ge> 3 \<and> bytes ! 0 = CHR 0xEF \<and> bytes ! 1 = CHR 0xBB \<and> bytes ! 2 = CHR 0xBF then drop 3 bytes else bytes)"

fun newlines :: "string \<Rightarrow> string" where
  "newlines [] = []"
| "newlines (c # s) = (if c = CR then LF # newlines (if s \<noteq> [] \<and> hd s = LF then tl s else s) else c # newlines s)"

section \<open>Commands\<close>

text \<open>Tokens as \<^verbatim>\<open>Tcl_ParseCommand\<close> lays them out: a word, then its components.\<close>

datatype token_type = TCL_TOKEN_WORD | TCL_TOKEN_SIMPLE_WORD | TCL_TOKEN_EXPAND_WORD | TCL_TOKEN_TEXT | TCL_TOKEN_OTHER

record tcl_token =
  tk_type :: token_type
  tk_text :: string
  tk_components :: nat

record tcl_parse =
  pr_tokens :: "tcl_token list"
  pr_words :: nat
  pr_size :: int

text \<open>The loop over the words: \<open>n\<close> of them are left, the token of the next one is first.\<close>

fun literal_word_at :: "nat \<Rightarrow> tcl_token list \<Rightarrow> nat \<Rightarrow> string option" where
  "literal_word_at 0 toks wanted = None"
| "literal_word_at (Suc n) toks 0 =
    (case toks of
       t # u # _ \<Rightarrow> if tk_type t \<noteq> TCL_TOKEN_SIMPLE_WORD \<or> tk_components t \<noteq> 1 \<or> tk_type u \<noteq> TCL_TOKEN_TEXT then None else Some (tk_text u)
     | _ \<Rightarrow> None)"
| "literal_word_at (Suc n) toks (Suc w) = (case toks of [] \<Rightarrow> None | t # r \<Rightarrow> literal_word_at n (drop (tk_components t) r) w)"

definition literal_word :: "tcl_parse \<Rightarrow> nat \<Rightarrow> string option" where
  "literal_word p wanted = literal_word_at (pr_words p) (pr_tokens p) wanted"

definition word_is :: "tcl_parse \<Rightarrow> nat \<Rightarrow> string \<Rightarrow> bool" where
  "word_is p w expected = (case literal_word p w of None \<Rightarrow> False | Some s \<Rightarrow> length s = length expected \<and> s = expected)"

definition opt_in_command :: "tcl_parse \<Rightarrow> bool" where
  "opt_in_command p =
    (if word_is p 0 ''package'' \<and> word_is p 1 ''require'' then
       (if pr_words p = 3 \<and> word_is p 2 ''machteld'' then True
        else if pr_words p = 4 \<and> word_is p 2 ''machteld'' then literal_word p 3 \<noteq> None
        else if pr_words p = 5 \<and> word_is p 2 ''-exact'' \<and> word_is p 3 ''machteld'' then literal_word p 4 \<noteq> None
        else False)
     else False)"

text \<open>The first command that has words decides. \<open>parse\<close> is \<^verbatim>\<open>Tcl_ParseCommand\<close>, \<open>None\<close> its error.\<close>

function opt_in_loop :: "(string \<Rightarrow> tcl_parse option) \<Rightarrow> string \<Rightarrow> bool option" where
  "opt_in_loop parse s =
    (if s = [] then Some False
     else case parse s of
       None \<Rightarrow> None
     | Some p \<Rightarrow>
         if pr_words p \<noteq> 0 then Some (opt_in_command p)
         else if pr_size p \<le> 0 \<or> pr_size p > int (length s) then Some False
         else opt_in_loop parse (drop (nat (pr_size p)) s))"
  by pat_completeness auto
termination by (relation "measure (\<lambda>(_, s). length s)") auto

definition has_opt_in :: "(string \<Rightarrow> tcl_parse option) \<Rightarrow> string \<Rightarrow> entry_error option" where
  "has_opt_in parse script = (case opt_in_loop parse (skip_bom script) of
     None \<Rightarrow> Some TclLeft
   | Some True \<Rightarrow> None
   | Some False \<Rightarrow> Some (Plain (EntryError ''optin''
       ''not a machteld program: the first executable command must be \"package require machteld\"'')))"

section \<open>Capture\<close>

text \<open>
  The answers. \<open>ea_open\<close>, \<open>ea_close\<close>: an error code, if any. \<open>ea_read\<close> answers per turn, for the bytes asked for.
  \<open>ea_status\<close> is the completion code of the program, \<open>ea_level\<close> the return level it left, \<open>ea_relevel\<close> the code
  after the options are set again.
\<close>

record entry_answers =
  ea_normalized :: bool
  ea_native :: bool
  ea_open :: "nat option"
  ea_disk :: bool
  ea_size :: "nat + int"
  ea_alloc :: "nat \<Rightarrow> bool"
  ea_read :: "nat \<Rightarrow> nat \<Rightarrow> nat + string"
  ea_close :: "nat option"
  ea_encoding :: bool
  ea_decode :: "string \<Rightarrow> string option"
  ea_parse :: "string \<Rightarrow> tcl_parse option"
  ea_query :: bool
  ea_status :: nat
  ea_restore :: bool
  ea_level :: "int option"
  ea_relevel :: "int \<Rightarrow> nat"
  ea_channel :: bool
  ea_channel_utf8 :: bool
  ea_channel_eof :: bool
  ea_chars :: "string option"
  ea_channel_close :: bool
  ea_create :: bool
  ea_startup :: "string option"
  ea_interactive :: "bool option"
  ea_regular :: "string \<Rightarrow> bool"
  ea_argv :: "string list option"
  ea_dispatch :: "string list \<Rightarrow> bool"

datatype entry_event =
    OpenProgram
  | ReadProgram nat string
  | CloseProgram
  | OpenChannel
  | CloseChannel
  | EvalProgram string string
  | RestoreScript
  | StartupNUL
  | Dispatch "string list"

definition READ_MAX :: nat where "READ_MAX = 0x40000000"

text \<open>The reading loop on \<open>count\<close> bytes; \<open>bytes\<close> are those so far. Its handle is closed on every way out.\<close>

function read_program :: "entry_answers \<Rightarrow> nat \<Rightarrow> nat \<Rightarrow> string \<Rightarrow> (entry_error + string) \<times> entry_event list" where
  "read_program ea count n bytes =
    (if length bytes < count then
       let request = (if count - length bytes > READ_MAX then READ_MAX else count - length bytes) in
       (case ea_read ea n request of
          Inl e \<Rightarrow> (Inl (WinError ''cannot read the startup program'' e), [CloseProgram])
        | Inr received \<Rightarrow>
            if received = [] then
              (Inl (Plain (EntryError ''oserror'' ''the startup program ended while it was being read'')), [CloseProgram])
            else (case read_program ea count (n + 1) (bytes @ received) of (r, evs) \<Rightarrow> (r, ReadProgram request received # evs)))
     else (case ea_close ea of
         Some e \<Rightarrow> (Inl (WinError ''cannot close the captured startup program'' e), [CloseProgram])
       | None \<Rightarrow> (Inr bytes, [CloseProgram])))"
  by pat_completeness auto
termination by (relation "measure (\<lambda>(_, count, _, bytes). count - length bytes)") (auto simp: neq_Nil_conv)

text \<open>\<open>Inr None\<close>: the program is not on the native file system.\<close>

definition capture_native_startup :: "entry_answers \<Rightarrow> (entry_error + string option) \<times> entry_event list" where
  "capture_native_startup ea =
    (if \<not> ea_normalized ea then (Inl (Plain (EntryError ''badvalue'' ''cannot normalize the startup program path'')), [])
     else if \<not> ea_native ea then (Inr None, [])
     else case ea_open ea of
       Some e \<Rightarrow>
         (Inl (if e = 2 \<or> e = 3 then Plain (EntryError ''notfound'' ''the startup program does not exist'')
               else WinError ''cannot open the startup program'' e), [])
     | None \<Rightarrow>
         if \<not> ea_disk ea then (Inl (Plain (EntryError ''badvalue'' ''the startup program is not a regular file'')), [OpenProgram, CloseProgram])
         else case ea_size ea of
           Inl e \<Rightarrow> (Inl (WinError ''cannot size the startup program'' e), [OpenProgram, CloseProgram])
         | Inr sz \<Rightarrow>
             if sz < 0 \<or> sz > 9223372036854775807 then
               (Inl (Plain (EntryError ''badvalue'' ''the startup program is too large to evaluate'')), [OpenProgram, CloseProgram])
             else
               let count = nat sz in
               if \<not> ea_alloc ea (if count = 0 then 1 else count) then
                 (Inl (Plain (EntryError ''oserror'' ''out of memory reading the startup program'')), [OpenProgram, CloseProgram])
               else (case read_program ea count 0 [] of
                   (Inl e, evs) \<Rightarrow> (Inl e, OpenProgram # evs)
                 | (Inr bytes, evs) \<Rightarrow>
                     (if \<not> ea_encoding ea then Inl (Detail ''encoding'' ''cannot load the UTF-8 decoder for the startup program'')
                      else case ea_decode ea (skip_bom (cut_eof bytes)) of
                        None \<Rightarrow> Inl (Detail ''encoding'' ''the startup program is not valid UTF-8'')
                      | Some text' \<Rightarrow> Inr (Some (newlines text')), OpenProgram # evs)))"

section \<open>Evaluation\<close>

definition TCL_OK :: nat where "TCL_OK = 0"
definition TCL_ERROR :: nat where "TCL_ERROR = 1"
definition TCL_RETURN :: nat where "TCL_RETURN = 2"

definition unwind_file_return :: "entry_answers \<Rightarrow> nat" where
  "unwind_file_return ea = (case ea_level ea of None \<Rightarrow> TCL_ERROR | Some level \<Rightarrow> if level < 1 then TCL_ERROR else ea_relevel ea (level - 1))"

definition eval_captured_startup :: "entry_answers \<Rightarrow> string \<Rightarrow> string \<Rightarrow> entry_error option \<times> entry_event list" where
  "eval_captured_startup ea path script =
    (if \<not> ea_query ea then (Some TclLeft, [])
     else if \<not> ea_restore ea then
       (Some (Plain (EntryError ''state'' ''cannot restore the startup script context'')), [EvalProgram path script, RestoreScript])
     else
       let status = (if ea_status ea = TCL_RETURN then unwind_file_return ea else ea_status ea) in
       if status = TCL_ERROR then (Some TclLeft, [EvalProgram path script, RestoreScript])
       else if status \<noteq> TCL_OK then
         (Some (Plain (EntryError ''completion'' ''startup program returned unexpected completion code'')), [EvalProgram path script, RestoreScript])
       else (None, [EvalProgram path script, RestoreScript, StartupNUL]))"

definition validate_file :: "entry_answers \<Rightarrow> entry_error option \<times> entry_event list" where
  "validate_file ea =
    (if \<not> ea_channel ea then (Some (Detail ''notfound'' ''cannot read machteld entry''), [])
     else if \<not> ea_channel_utf8 ea \<or> \<not> ea_channel_eof ea then (Some TclLeft, [OpenChannel, CloseChannel])
     else case ea_chars ea of
       None \<Rightarrow> (Some TclLeft, [OpenChannel, CloseChannel])
     | Some script \<Rightarrow>
         (if \<not> ea_channel_close ea then Some TclLeft else has_opt_in (ea_parse ea) script, [OpenChannel, CloseChannel]))"

definition EntryCheckCmd :: "entry_answers \<Rightarrow> string list \<Rightarrow> (entry_error + string) \<times> entry_event list" where
  "EntryCheckCmd ea objv = (case objv of
     [path] \<Rightarrow> (case validate_file ea of (Some e, evs) \<Rightarrow> (Inl e, evs) | (None, evs) \<Rightarrow> (Inr path, evs))
   | _ \<Rightarrow> (Inl (Plain (EntryError ''badvalue'' ''wrong # args: should be \"::machteld::EntryCheck program-file\"'')), []))"

section \<open>The gate\<close>

text \<open>The gate returns to Tcl, or the process exits with a status after the result is written.\<close>

datatype entry_out = Returned bool | Exited nat "entry_error option"

definition Machteld_Fatal :: "entry_error \<Rightarrow> entry_out" where "Machteld_Fatal e = Exited 1 (Some e)"

definition dispatch_command :: "entry_answers \<Rightarrow> string \<Rightarrow> bool \<Rightarrow> entry_out \<times> entry_event list" where
  "dispatch_command ea command with_argv =
    (if with_argv \<and> ea_argv ea = None then (Exited 2 (Some TclLeft), [])
     else
       let call = command # (if with_argv then the (ea_argv ea) else []) in
       (if ea_dispatch ea call then Exited 0 None else Exited 1 (Some TclLeft), [Dispatch call]))"

definition gate_program :: "entry_answers \<Rightarrow> string \<Rightarrow> entry_out \<times> entry_event list" where
  "gate_program ea startup = (case capture_native_startup ea of
     (Inl e, evs) \<Rightarrow> (Machteld_Fatal e, evs)
   | (Inr (Some captured), evs) \<Rightarrow> (case has_opt_in (ea_parse ea) captured of
       Some e \<Rightarrow> (Machteld_Fatal e, evs)
     | None \<Rightarrow> (case eval_captured_startup ea startup captured of
         (Some e, evs') \<Rightarrow> (Machteld_Fatal e, evs @ evs')
       | (None, evs') \<Rightarrow> (Returned True, evs @ evs')))
   | (Inr None, evs) \<Rightarrow> (case validate_file ea of
       (Some e, evs') \<Rightarrow> (Machteld_Fatal e, evs @ evs')
     | (None, evs') \<Rightarrow> (Returned True, evs @ evs')))"

definition Machteld_EntryGate :: "host_mode \<Rightarrow> entry_answers \<Rightarrow> entry_out \<times> entry_event list" where
  "Machteld_EntryGate mode ea =
    (if \<not> ea_create ea then (Returned False, [])
     else case mode of
       MACHTELD_HOST_HELP \<Rightarrow> dispatch_command ea ''::machteld::help'' False
     | MACHTELD_HOST_VERSION \<Rightarrow> dispatch_command ea ''::machteld::version'' False
     | MACHTELD_HOST_DOCS \<Rightarrow> dispatch_command ea ''::machteld::DocsHost'' True
     | MACHTELD_HOST_DOCS_GUI \<Rightarrow> dispatch_command ea ''::machteld::DocsHostGui'' True
     | MACHTELD_HOST_STDIN \<Rightarrow> (Machteld_Fatal (Plain (EntryError ''usage'' ''stdin programs are not accepted; use an opted-in program file'')), [])
     | MACHTELD_HOST_ENCODING \<Rightarrow>
         (Machteld_Fatal (Plain (EntryError ''encoding'' ''the -encoding host option is not accepted; machteld programs are UTF-8'')), [])
     | MACHTELD_HOST_NORMAL \<Rightarrow> (case ea_startup ea of
         None \<Rightarrow>
           (case ea_interactive ea of
              None \<Rightarrow> Machteld_Fatal (Plain (EntryError ''state'' ''host did not establish a valid interactive-input state''))
            | Some False \<Rightarrow> Machteld_Fatal (Plain (EntryError ''stdin'' ''redirected stdin is not accepted; use an opted-in program file''))
            | Some True \<Rightarrow> Returned True, [])
       | Some selected \<Rightarrow>
           if selected = ''wrap'' \<and> \<not> ea_regular ea selected then dispatch_command ea ''::machteld::wrap'' True
           else if selected = ''docs'' \<and> \<not> ea_regular ea selected then dispatch_command ea ''::machteld::DocsHost'' True
           else if selected = ''-'' \<or> selected = [] then
             (Machteld_Fatal (Plain (EntryError ''usage'' ''stdin programs are not accepted; use an opted-in program file'')), [])
           else gate_program ea selected))"

declare read_program.simps [simp del] opt_in_loop.simps [simp del]

section \<open>Opting in\<close>

text \<open>
  The documented layout of a parse: each word is a token followed by its components. A word is literal when it is simple
  text. A program opts in when its first command that has words is one of the three forms.
\<close>

definition tcl_laid :: "tcl_parse \<Rightarrow> (tcl_token \<times> tcl_token list) list \<Rightarrow> bool" where
  "tcl_laid p ws \<longleftrightarrow> pr_tokens p = concat (map (\<lambda>(t, cs). t # cs) ws) \<and> pr_words p = length ws \<and>
     list_all (\<lambda>(t, cs). tk_components t = length cs) ws"

definition literal :: "tcl_token \<times> tcl_token list \<Rightarrow> string option" where
  "literal w = (case w of (t, [u]) \<Rightarrow> if tk_type t = TCL_TOKEN_SIMPLE_WORD \<and> tk_type u = TCL_TOKEN_TEXT then Some (tk_text u) else None | _ \<Rightarrow> None)"

definition parse_law :: "(string \<Rightarrow> tcl_parse option) \<Rightarrow> bool" where
  "parse_law parse \<longleftrightarrow> (\<forall>s p. parse s = Some p \<longrightarrow> (\<exists>ws. tcl_laid p ws))"

definition opt_in_words :: "string option list \<Rightarrow> bool" where
  "opt_in_words ws \<longleftrightarrow> ws = [Some ''package'', Some ''require'', Some ''machteld''] \<or>
     (\<exists>v. ws = [Some ''package'', Some ''require'', Some ''machteld'', Some v]) \<or>
     (\<exists>v. ws = [Some ''package'', Some ''require'', Some ''-exact'', Some ''machteld'', Some v])"

inductive opts_in :: "(string \<Rightarrow> tcl_parse option) \<Rightarrow> string \<Rightarrow> bool" for parse where
  opts_in_here: "s \<noteq> [] \<Longrightarrow> parse s = Some p \<Longrightarrow> tcl_laid p ws \<Longrightarrow> opt_in_words (map literal ws) \<Longrightarrow> opts_in parse s"
| opts_in_later: "s \<noteq> [] \<Longrightarrow> parse s = Some p \<Longrightarrow> tcl_laid p [] \<Longrightarrow> 0 < pr_size p \<Longrightarrow> pr_size p \<le> int (length s) \<Longrightarrow>
    opts_in parse (drop (nat (pr_size p)) s) \<Longrightarrow> opts_in parse s"

inductive_simps opts_in_Nil [simp]: "opts_in parse []"

lemma literal_word_at_laid:
  assumes "list_all (\<lambda>(t, cs). tk_components t = length cs) ws"
  shows "literal_word_at (length ws) (concat (map (\<lambda>(t, cs). t # cs) ws)) i = (if i < length ws then literal (ws ! i) else None)"
  using assms
proof (induction ws arbitrary: i)
  case (Cons w ws)
  obtain t cs where w: "w = (t, cs)" by (rule prod.exhaust)
  show ?case
  proof (cases i)
    case 0
    have n: "tk_components t = length cs" using Cons.prems w by simp
    consider "cs = []" | u where "cs = [u]" | u v r where "cs = u # v # r" by (metis list.exhaust)
    then show ?thesis using 0 w n by cases (auto simp: literal_def split: list.split)
  next
    case (Suc j)
    then show ?thesis using Cons w by simp
  qed
qed simp

lemma literal_word_laid:
  "tcl_laid p ws \<Longrightarrow> literal_word p i = (if i < length ws then literal (ws ! i) else None)"
  using literal_word_at_laid [of ws i] by (simp add: literal_word_def tcl_laid_def)

lemma tcl_laid_Nil: "tcl_laid p ws \<Longrightarrow> tcl_laid p ws' \<Longrightarrow> map literal ws = map literal ws'"
proof -
  assume a: "tcl_laid p ws" "tcl_laid p ws'"
  then have "length ws = length ws'" by (simp add: tcl_laid_def)
  then show "map literal ws = map literal ws'"
    using literal_word_laid [OF a(1)] literal_word_laid [OF a(2)] by (intro nth_equalityI) (simp_all, metis)
qed

lemma opt_in_command_iff:
  assumes "tcl_laid p ws"
  shows "opt_in_command p \<longleftrightarrow> opt_in_words (map literal ws)"
proof -
  have n: "pr_words p = length ws" using assms by (simp add: tcl_laid_def)
  have w: "word_is p i s \<longleftrightarrow> i < length ws \<and> literal (ws ! i) = Some s" for i s
    using literal_word_laid [OF assms, of i] by (auto simp: word_is_def split: option.splits)
  consider "length ws < 3" | a b x where "ws = [a, b, x]" | a b x y where "ws = [a, b, x, y]" | a b x y z where "ws = [a, b, x, y, z]" | "5 < length ws"
  proof -
    have "length ws < 3 \<or> length ws = 3 \<or> length ws = 4 \<or> length ws = 5 \<or> 5 < length ws" by linarith
    then show thesis using that by (auto simp: length_Suc_conv numeral_eq_Suc)
  qed
  then show ?thesis
    by cases (auto simp: opt_in_command_def opt_in_words_def n w literal_word_laid [OF assms])
qed

lemma opts_in_unfold:
  assumes "s \<noteq> []" "parse s = Some p" "tcl_laid p ws"
  shows "opts_in parse s \<longleftrightarrow> opt_in_words (map literal ws) \<or>
    ws = [] \<and> 0 < pr_size p \<and> pr_size p \<le> int (length s) \<and> opts_in parse (drop (nat (pr_size p)) s)"
proof
  assume "opts_in parse s"
  then show "opt_in_words (map literal ws) \<or>
    ws = [] \<and> 0 < pr_size p \<and> pr_size p \<le> int (length s) \<and> opts_in parse (drop (nat (pr_size p)) s)"
  proof cases
    case (opts_in_here q vs)
    then show ?thesis using assms tcl_laid_Nil [of p ws vs] by simp
  next
    case (opts_in_later q)
    then have "tcl_laid p []" using assms(2) by simp
    then have "ws = []" using assms(3) by (simp add: tcl_laid_def)
    then show ?thesis using assms(2) opts_in_later by simp
  qed
next
  assume "opt_in_words (map literal ws) \<or>
    ws = [] \<and> 0 < pr_size p \<and> pr_size p \<le> int (length s) \<and> opts_in parse (drop (nat (pr_size p)) s)"
  then show "opts_in parse s"
  proof
    assume "opt_in_words (map literal ws)"
    then show ?thesis by (rule opts_in_here [of s parse p ws, OF assms])
  next
    assume a: "ws = [] \<and> 0 < pr_size p \<and> pr_size p \<le> int (length s) \<and> opts_in parse (drop (nat (pr_size p)) s)"
    then have "tcl_laid p []" using assms(3) by simp
    from opts_in_later [of s parse p, OF assms(1,2) this] a show ?thesis by blast
  qed
qed

lemma opts_in_no_parse: "parse s = None \<Longrightarrow> \<not> opts_in parse s"
  by (metis option.distinct(1) opts_in.cases)

lemma opt_in_loop_iff:
  assumes "parse_law parse"
  shows "opt_in_loop parse s = Some True \<longleftrightarrow> opts_in parse s"
proof (induction s rule: length_induct)
  case (1 s)
  show ?case
  proof (cases "s = [] \<or> parse s = None")
    case True
    then show ?thesis using opts_in_no_parse [of parse s] by (auto simp: opt_in_loop.simps [of parse s])
  next
    case False
    then obtain p where p: "parse s = Some p" "s \<noteq> []" by auto
    obtain ws where ws: "tcl_laid p ws" using assms p by (auto simp: parse_law_def)
    have words: "pr_words p = length ws" using ws by (simp add: tcl_laid_def)
    note u = opts_in_unfold [of s parse p ws, OF p(2,1) ws]
    show ?thesis
    proof (cases "ws = []")
      case False
      then show ?thesis using p words opt_in_command_iff [OF ws] u by (simp add: opt_in_loop.simps [of parse s])
    next
      case True
      define rest where "rest = drop (nat (pr_size p)) s"
      have 2: "opts_in parse s \<longleftrightarrow> 0 < pr_size p \<and> pr_size p \<le> int (length s) \<and> opts_in parse rest"
        using u True by (simp add: opt_in_words_def rest_def)
      have 3: "opt_in_loop parse s = (if pr_size p \<le> 0 \<or> pr_size p > int (length s) then Some False else opt_in_loop parse rest)"
        using p True words by (simp add: opt_in_loop.simps [of parse s] rest_def)
      show ?thesis
      proof (cases "0 < pr_size p \<and> pr_size p \<le> int (length s)")
        case True
        then have "length rest < length s" using p(2) by (cases s) (auto simp: rest_def)
        then have "opt_in_loop parse rest = Some True \<longleftrightarrow> opts_in parse rest" using 1 by blast
        then show ?thesis using True 2 3 by simp
      next
        case False
        then show ?thesis using 2 3 by auto
      qed
    qed
  qed
qed

text \<open>C40: A program is accepted exactly if its first command that has words, after an optional byte order mark, is
  \<open>package require machteld\<close>, with an optional literal version, or with \<open>-exact\<close> and a literal version.\<close>

theorem has_opt_in_exact:
  assumes "parse_law parse"
  shows "has_opt_in parse script = None \<longleftrightarrow> opts_in parse (skip_bom script)"
  using opt_in_loop_iff [OF assms, of "skip_bom script"] by (auto simp: has_opt_in_def split: option.splits bool.splits)

section \<open>What the gate does\<close>

text \<open>The documented contract of \<^verbatim>\<open>ReadFile\<close>: not more than it was asked for.\<close>

definition read_law :: "entry_answers \<Rightarrow> bool" where
  "read_law ea \<longleftrightarrow> (\<forall>n k d. ea_read ea n k = Inr d \<longrightarrow> length d \<le> k)"

definition is_reading :: "entry_event \<Rightarrow> bool" where
  "is_reading e = (case e of ReadProgram _ _ \<Rightarrow> True | _ \<Rightarrow> False)"

lemma is_reading_simps [simp]: "is_reading (ReadProgram k d)" "\<not> is_reading (EvalProgram p t)"
  by (simp_all add: is_reading_def)

fun read_data :: "entry_event list \<Rightarrow> string" where
  "read_data [] = []"
| "read_data (ReadProgram k d # evs) = d @ read_data evs"
| "read_data (e # evs) = read_data evs"

lemma read_program_spec:
  assumes "read_law ea" "length bytes \<le> count" "read_program ea count n bytes = (r, evs)"
  shows "\<exists>reads. evs = reads @ [CloseProgram] \<and> list_all is_reading reads \<and>
    (case r of Inl _ \<Rightarrow> True | Inr all \<Rightarrow> all = bytes @ read_data reads \<and> length all = count)"
  using assms(2,3)
proof (induction "count - length bytes" arbitrary: n bytes evs rule: less_induct)
  case less
  note run = less.prems(2) [unfolded read_program.simps [of ea count n bytes]]
  show ?case
  proof (cases "length bytes < count")
    case False
    then show ?thesis using run less.prems(1) by (intro exI [of _ "[]"]) (auto split: option.splits)
  next
    case True
    define k where "k = (if count - length bytes > READ_MAX then READ_MAX else count - length bytes)"
    note run = run [unfolded Let_def, folded k_def]
    show ?thesis
    proof (cases "ea_read ea n k")
      case (Inl e)
      then show ?thesis using run True by (intro exI [of _ "[]"]) auto
    next
      case (Inr d)
      show ?thesis
      proof (cases "d = []")
        case d: True
        then show ?thesis using run True Inr by (intro exI [of _ "[]"]) auto
      next
        case d: False
        obtain evs' where e: "read_program ea count (n + 1) (bytes @ d) = (r, evs')" "evs = ReadProgram k d # evs'"
          using run True Inr d by (auto split: prod.splits)
        have "length d \<le> k" using assms(1) Inr by (auto simp: read_law_def)
        then have le: "length (bytes @ d) \<le> count" using True by (auto simp: k_def split: if_splits)
        have lt: "count - length (bytes @ d) < count - length bytes" using True d by (cases d) auto
        obtain reads where "evs' = reads @ [CloseProgram]" "list_all is_reading reads"
          "case r of Inl _ \<Rightarrow> True | Inr all \<Rightarrow> all = (bytes @ d) @ read_data reads \<and> length all = count"
          using less.hyps [OF lt le e(1)] by blast
        then show ?thesis using e(2) by (intro exI [of _ "ReadProgram k d # reads"]) (auto split: sum.splits)
      qed
    qed
  qed
qed

text \<open>The text of the program: all bytes of the file, cut, decoded and with its line ends translated.\<close>

definition entry_text :: "entry_answers \<Rightarrow> entry_event list \<Rightarrow> string \<Rightarrow> bool" where
  "entry_text ea reads t \<longleftrightarrow> list_all is_reading reads \<and> ea_size ea = Inr (int (length (read_data reads))) \<and>
     (\<exists>decoded. ea_decode ea (skip_bom (cut_eof (read_data reads))) = Some decoded \<and> t = newlines decoded)"

lemma capture_spec:
  assumes "read_law ea" "capture_native_startup ea = (r, evs)"
  shows "r = Inr None \<and> evs = [] \<and> \<not> ea_native ea \<or>
    (\<exists>e. r = Inl e) \<and> (evs = [] \<or> (\<exists>reads. evs = OpenProgram # reads @ [CloseProgram] \<and> list_all is_reading reads)) \<or>
    (\<exists>t reads. r = Inr (Some t) \<and> evs = OpenProgram # reads @ [CloseProgram] \<and> entry_text ea reads t)"
proof -
  consider "r = Inr None" "evs = []" "\<not> ea_native ea" | e where "r = Inl e" "evs = []" | e where "r = Inl e" "evs = OpenProgram # [] @ [CloseProgram]"
    | sz x es where "ea_size ea = Inr sz" "0 \<le> sz" "read_program ea (nat sz) 0 [] = (x, es)" "evs = OpenProgram # es"
      "r = (case x of Inl e \<Rightarrow> Inl e | Inr bytes \<Rightarrow> if \<not> ea_encoding ea then Inl (Detail ''encoding'' ''cannot load the UTF-8 decoder for the startup program'')
              else case ea_decode ea (skip_bom (cut_eof bytes)) of
                None \<Rightarrow> Inl (Detail ''encoding'' ''the startup program is not valid UTF-8'')
              | Some text' \<Rightarrow> Inr (Some (newlines text')))"
  proof (cases "ea_normalized ea \<and> ea_native ea \<and> ea_open ea = None \<and> ea_disk ea")
    case False
    then show thesis using assms(2) that(1-3) by (auto simp: capture_native_startup_def split: if_splits option.splits)
  next
    case True
    show thesis
    proof (cases "ea_size ea")
      case (Inl e)
      then show thesis using True assms(2) that(3) by (auto simp: capture_native_startup_def)
    next
      case (Inr sz)
      obtain x es where x: "read_program ea (nat sz) 0 [] = (x, es)" by (rule prod.exhaust)
      show thesis
      proof (cases "sz < 0 \<or> sz > 9223372036854775807 \<or> \<not> ea_alloc ea (if nat sz = 0 then 1 else nat sz)")
        case bad: True
        then show thesis using True Inr assms(2) that(3) by (auto simp: capture_native_startup_def Let_def split: if_splits)
      next
        case False
        then show thesis using True Inr assms(2) x by (intro that(4) [OF Inr _ x]) (auto simp: capture_native_startup_def Let_def split: sum.splits)
      qed
    qed
  qed
  then show ?thesis
  proof cases
    case 4
    from read_program_spec [OF assms(1) _ 4(3)] obtain reads where reads: "es = reads @ [CloseProgram]" "list_all is_reading reads"
      "case x of Inl _ \<Rightarrow> True | Inr all \<Rightarrow> all = [] @ read_data reads \<and> length all = nat sz" by auto
    show ?thesis
    proof (cases x)
      case (Inl e)
      then show ?thesis using 4 reads by auto
    next
      case (Inr bytes)
      then have "int (length (read_data reads)) = sz" "bytes = read_data reads" using reads(3) 4(2) by auto
      then show ?thesis using 4 reads Inr by (auto simp: entry_text_def split: if_splits option.splits)
    qed
  qed auto
qed

text \<open>The program file and the channel are closed once each, and a program is evaluated only while nothing is open.\<close>

fun entry_ledger :: "entry_event list \<Rightarrow> bool \<Rightarrow> bool" where
  "entry_ledger [] open' = (\<not> open')"
| "entry_ledger (OpenProgram # evs) open' = (\<not> open' \<and> entry_ledger evs True)"
| "entry_ledger (OpenChannel # evs) open' = (\<not> open' \<and> entry_ledger evs True)"
| "entry_ledger (ReadProgram k d # evs) open' = (open' \<and> entry_ledger evs True)"
| "entry_ledger (CloseProgram # evs) open' = (open' \<and> entry_ledger evs False)"
| "entry_ledger (CloseChannel # evs) open' = (open' \<and> entry_ledger evs False)"
| "entry_ledger (e # evs) open' = (\<not> open' \<and> entry_ledger evs open')"

lemma entry_ledger_reads: "list_all is_reading reads \<Longrightarrow> entry_ledger (reads @ evs) True = entry_ledger evs True"
  by (induction reads) (auto simp: is_reading_def split: entry_event.splits)

lemma no_eval_reads: "list_all is_reading reads \<Longrightarrow> EvalProgram p t \<notin> set reads"
  by (auto simp: list_all_iff)

lemma validate_file_spec:
  "validate_file ea = (r, evs) \<Longrightarrow> entry_ledger evs False \<and> (\<forall>p t. EvalProgram p t \<notin> set evs) \<and>
     (r = None \<longrightarrow> (\<exists>script. ea_chars ea = Some script \<and> has_opt_in (ea_parse ea) script = None))"
  by (auto simp: validate_file_def split: if_splits option.splits)

definition gate_evaluated :: "entry_answers \<Rightarrow> string \<Rightarrow> entry_out \<Rightarrow> entry_event list \<Rightarrow> bool" where
  "gate_evaluated ea p out evs \<longleftrightarrow> (\<exists>t reads. entry_text ea reads t \<and> has_opt_in (ea_parse ea) t = None \<and>
     evs = OpenProgram # reads @ [CloseProgram, EvalProgram p t, RestoreScript] @ (if out = Returned True then [StartupNUL] else []))"

definition gate_checked :: "entry_answers \<Rightarrow> bool" where
  "gate_checked ea \<longleftrightarrow> \<not> ea_native ea \<and> (\<exists>script. ea_chars ea = Some script \<and> has_opt_in (ea_parse ea) script = None)"

lemma gate_program_spec:
  assumes "read_law ea" "gate_program ea p = (out, evs)"
  shows "entry_ledger evs False \<and>
    (if \<exists>p t. EvalProgram p t \<in> set evs then gate_evaluated ea p out evs else out = Returned True \<longrightarrow> gate_checked ea)"
proof -
  obtain r es where c: "capture_native_startup ea = (r, es)" by (rule prod.exhaust)
  obtain v vs where v: "validate_file ea = (v, vs)" by (rule prod.exhaust)
  note vspec = validate_file_spec [OF v]
  from capture_spec [OF assms(1) c] consider "r = Inr None" "es = []" "\<not> ea_native ea"
    | e where "r = Inl e" "es = []"
    | e reads where "r = Inl e" "es = OpenProgram # reads @ [CloseProgram]" "list_all is_reading reads"
    | t reads where "r = Inr (Some t)" "es = OpenProgram # reads @ [CloseProgram]" "entry_text ea reads t" by blast
  then show ?thesis
  proof cases
    case 1
    then have "evs = vs" "out = (case v of Some e \<Rightarrow> Machteld_Fatal e | None \<Rightarrow> Returned True)"
      using assms(2) c v by (auto simp: gate_program_def split: option.splits)
    then show ?thesis using vspec 1(3) by (auto simp: gate_checked_def Machteld_Fatal_def split: option.splits)
  next
    case 2
    then show ?thesis using assms(2) c by (auto simp: gate_program_def Machteld_Fatal_def)
  next
    case 3
    then show ?thesis using assms(2) c no_eval_reads [OF 3(3)] by (auto simp: gate_program_def Machteld_Fatal_def entry_ledger_reads)
  next
    case (4 t reads)
    have rd: "list_all is_reading reads" using 4(3) by (simp add: entry_text_def)
    show ?thesis
    proof (cases "has_opt_in (ea_parse ea) t")
      case (Some e)
      then show ?thesis using assms(2) c 4 no_eval_reads [OF rd] by (auto simp: gate_program_def Machteld_Fatal_def entry_ledger_reads [OF rd])
    next
      case None
      obtain x xs where x: "eval_captured_startup ea p t = (x, xs)" by (rule prod.exhaust)
      have run: "out = (case x of Some e \<Rightarrow> Machteld_Fatal e | None \<Rightarrow> Returned True)" "evs = es @ xs"
        using assms(2) c 4 None x by (auto simp: gate_program_def split: option.splits)
      have xs: "x \<noteq> None \<and> xs = [] \<or> xs = [EvalProgram p t, RestoreScript] @ (if x = None then [StartupNUL] else [])"
        using x by (auto simp: eval_captured_startup_def Let_def split: if_splits)
      then show ?thesis
      proof
        assume a: "x \<noteq> None \<and> xs = []"
        then show ?thesis using run 4 no_eval_reads [OF rd] by (auto simp: Machteld_Fatal_def entry_ledger_reads [OF rd])
      next
        assume a: "xs = [EvalProgram p t, RestoreScript] @ (if x = None then [StartupNUL] else [])"
        have o: "(out = Returned True) = (x = None)" using run(1) by (auto simp: Machteld_Fatal_def split: option.splits)
        have "gate_evaluated ea p out evs" unfolding gate_evaluated_def
          by (rule exI [of _ t], rule exI [of _ reads]) (use 4 None run a o in simp)
        moreover have "EvalProgram p t \<in> set evs" "entry_ledger evs False" using run a 4 by (auto simp: entry_ledger_reads [OF rd])
        ultimately show ?thesis by auto
      qed
    qed
  qed
qed

text \<open>C4: A program is evaluated only by the normal host, only as the text that was read from the startup file in one reading,
  whole, and closed before; and only if that same text opts in. Without an evaluation the gate lets Tcl go on only for an interactive console or
  for an embedded file whose text opts in. Every file opened is closed once.\<close>

theorem entry_only_opted_in:
  assumes "read_law ea" "Machteld_EntryGate mode ea = (out, evs)"
  shows "entry_ledger evs False \<and>
    (if \<exists>p t. EvalProgram p t \<in> set evs then
       mode = MACHTELD_HOST_NORMAL \<and> (\<exists>p. ea_startup ea = Some p \<and> gate_evaluated ea p out evs)
     else out = Returned True \<longrightarrow> mode = MACHTELD_HOST_NORMAL \<and>
       (ea_startup ea = None \<and> ea_interactive ea = Some True \<or> ea_startup ea \<noteq> None \<and> gate_checked ea))"
proof -
  have d: "entry_ledger es False \<and> (\<forall>p t. EvalProgram p t \<notin> set es) \<and> x \<noteq> Returned True" if "dispatch_command ea cmd w = (x, es)" for cmd w x es
    using that by (auto simp: dispatch_command_def Let_def split: if_splits)
  consider (dispatched) cmd w where "dispatch_command ea cmd w = (out, evs)" | (stopped) "evs = []" "out \<noteq> Returned True"
    | (console) "evs = []" "out = Returned True" "mode = MACHTELD_HOST_NORMAL" "ea_startup ea = None" "ea_interactive ea = Some True"
    | (program) p where "mode = MACHTELD_HOST_NORMAL" "ea_startup ea = Some p" "gate_program ea p = (out, evs)"
    using assms(2) unfolding Machteld_EntryGate_def Machteld_Fatal_def
    by (auto split: if_splits host_mode.splits option.splits bool.splits)
  then show ?thesis
  proof cases
    case dispatched
    then show ?thesis using d by auto
  next
    case program
    then show ?thesis using gate_program_spec [OF assms(1) program(3)] by (simp split: if_splits)
  qed auto
qed

section \<open>A program\<close>

definition demo_word :: "string \<Rightarrow> tcl_token \<times> tcl_token list" where
  "demo_word s = (\<lparr>tk_type = TCL_TOKEN_SIMPLE_WORD, tk_text = s, tk_components = 1\<rparr>, [\<lparr>tk_type = TCL_TOKEN_TEXT, tk_text = s, tk_components = 0\<rparr>])"

text \<open>A parse that knows comments and one command: what starts with a hash is passed over.\<close>

definition demo_parse :: "string \<Rightarrow> tcl_parse option" where
  "demo_parse s =
    (let ws = (if s \<noteq> [] \<and> hd s = CHR ''#'' then [] else map demo_word [''package'', ''require'', ''machteld'']) in
     Some \<lparr>pr_tokens = concat (map (\<lambda>(t, cs). t # cs) ws), pr_words = length ws, pr_size = 2\<rparr>)"

lemma demo_parse_law: "parse_law demo_parse"
proof -
  have "tcl_laid p (if s \<noteq> [] \<and> hd s = CHR ''#'' then [] else map demo_word [''package'', ''require'', ''machteld''])" if "demo_parse s = Some p" for s p
    using that by (auto simp: demo_parse_def Let_def tcl_laid_def demo_word_def)
  then show ?thesis by (auto simp: parse_law_def)
qed

lemma has_opt_in_exact_witness: "opts_in demo_parse (skip_bom (''#'' @ [LF] @ ''package require machteld''))"
proof -
  have "has_opt_in demo_parse (''#'' @ [LF] @ ''package require machteld'') = None" by code_simp
  then show ?thesis using has_opt_in_exact [OF demo_parse_law] by blast
qed

definition demo_entry :: entry_answers where
  "demo_entry = \<lparr>ea_normalized = True, ea_native = True, ea_open = None, ea_disk = True, ea_size = Inr 2, ea_alloc = (\<lambda>_. True),
     ea_read = (\<lambda>n k. Inr (if 0 < k then ''#'' else [])), ea_close = None, ea_encoding = True, ea_decode = Some, ea_parse = (\<lambda>s. demo_parse ''p''), ea_query = True,
     ea_status = 0, ea_restore = True, ea_level = None, ea_relevel = (\<lambda>_. 0), ea_channel = True, ea_channel_utf8 = True, ea_channel_eof = True,
     ea_chars = None, ea_channel_close = True, ea_create = True, ea_startup = Some ''a'', ea_interactive = None, ea_regular = (\<lambda>_. True),
     ea_argv = None, ea_dispatch = (\<lambda>_. True)\<rparr>"

lemma entry_only_opted_in_witness:
  "gate_evaluated demo_entry ''a'' (Returned True) [OpenProgram, ReadProgram 2 ''#'', ReadProgram 1 ''#'', CloseProgram, EvalProgram ''a'' ''##'', RestoreScript, StartupNUL]"
proof -
  have 1: "read_law demo_entry" by (simp add: read_law_def demo_entry_def)
  have 2: "Machteld_EntryGate MACHTELD_HOST_NORMAL demo_entry =
    (Returned True, [OpenProgram, ReadProgram 2 ''#'', ReadProgram 1 ''#'', CloseProgram, EvalProgram ''a'' ''##'', RestoreScript, StartupNUL])"
  proof -
    have h: "has_opt_in (\<lambda>s. demo_parse ''p'') ''##'' = None" by code_simp
    have r: "read_program demo_entry 2 0 [] = (Inr ''##'', [ReadProgram 2 ''#'', ReadProgram 1 ''#'', CloseProgram])"
    proof -
      have e: "read_program demo_entry 2 n ''##'' = (Inr ''##'', [CloseProgram])" for n by (subst read_program.simps) (simp add: demo_entry_def)
      have "read_program demo_entry 2 n ''#'' = (Inr ''##'', [ReadProgram 1 ''#'', CloseProgram])" for n
        by (subst read_program.simps) (simp add: e READ_MAX_def demo_entry_def [THEN arg_cong [of _ _ ea_read]])
      then show ?thesis by (subst read_program.simps) (simp add: READ_MAX_def demo_entry_def [THEN arg_cong [of _ _ ea_read]])
    qed
    have c: "capture_native_startup demo_entry = (Inr (Some ''##''), OpenProgram # [ReadProgram 2 ''#'', ReadProgram 1 ''#'', CloseProgram])"
      unfolding capture_native_startup_def using r
      by (simp add: demo_entry_def [THEN arg_cong [of _ _ ea_normalized]] demo_entry_def [THEN arg_cong [of _ _ ea_native]]
          demo_entry_def [THEN arg_cong [of _ _ ea_open]] demo_entry_def [THEN arg_cong [of _ _ ea_disk]] demo_entry_def [THEN arg_cong [of _ _ ea_size]]
          demo_entry_def [THEN arg_cong [of _ _ ea_alloc]] demo_entry_def [THEN arg_cong [of _ _ ea_encoding]]
          demo_entry_def [THEN arg_cong [of _ _ ea_decode]] skip_bom_def cut_eof_def)
    show ?thesis unfolding Machteld_EntryGate_def gate_program_def c using h
      by (simp add: demo_entry_def eval_captured_startup_def TCL_OK_def TCL_ERROR_def TCL_RETURN_def)
  qed
  show ?thesis using entry_only_opted_in [OF 1 2] by (auto simp: demo_entry_def)
qed

end
