(* ===== verification/AppInit.thy ===== *)
theory AppInit
  imports Entry
begin



text \<open>The state of an interpreter: the associated data with the payload root.\<close>

record app_state =
  as_root :: "string option"

abbreviation state_error :: "string \<Rightarrow> entry_error" where "state_error msg \<equiv> Plain (EntryError ''state'' msg)"

section \<open>The payload\<close>





definition PayloadRootCmd :: "app_state \<Rightarrow> string list \<Rightarrow> entry_error + string" where
  "PayloadRootCmd s objv =
    (if objv \<noteq> [] then Inl (Plain (EntryError ''badvalue'' ''wrong # args: should be \"::machteld::PayloadRoot\"''))
     else case as_root s of None \<Rightarrow> Inl (state_error ''embedded runtime payload root is unavailable'') | Some r \<Rightarrow> Inr r)"


section \<open>Libraries\<close>




section \<open>The hosts\<close>




section \<open>Trust\<close>

















lemma Fatal_not_returned [simp]: "Machteld_Fatal e \<noteq> Returned b"
  by (simp add: Machteld_Fatal_def)






end
