(* ===== verification/Spec2Isabelle.thy ===== *)
theory Spec2Isabelle
  imports Prelude Bytes Cmdline Units Utf8 JsonDoc JsonText JsonVerb JsonLife Registry TclValue Hash Job Opts EnvBlock Streams Kernel Monitor Launch Child Reap ProcCmd Pty Watch Proc Ps DirsPath Dirs Store Publish Http Entry AppInit
begin

text \<open>
  A verification library for machteld, a Tcl 9 executable for Windows whose machine-control verbs (processes,
  pseudoconsoles, directory watches, JSON, hashing and others) are written in C under \<^verbatim>\<open>src/\<close>.

  \<^bold>\<open>Parts and how they interact.\<close> The hosts \<^verbatim>\<open>machteld_main.c\<close> and \<^verbatim>\<open>machteld_gui_main.c\<close> choose a route, find the payload of
  the running executable and register the libraries (\<^verbatim>\<open>machteld_appinit.c\<close>); the gate of \<^verbatim>\<open>entry.c\<close> then runs only programs that
  opt in. A verb is a C function over Tcl words; it answers a value or an error \<^verbatim>\<open>MACHTELD <DOMAIN> <code>\<close>. Verbs with live
  handles keep a list of entries named by tokens. The process verbs (\<^verbatim>\<open>proc.c\<close>) parse options, resolve the program, build the
  environment block and the command line (\<^verbatim>\<open>winjob_cmdline.c\<close>), create a job (\<^verbatim>\<open>winjob_job.c\<close>), launch a process born in it
  (\<^verbatim>\<open>winjob_launch.c\<close>) and supervise it with a monitor thread and reader and writer threads; all text crosses the boundary of
  \<^verbatim>\<open>wintext.c\<close>. The other verbs (\<^verbatim>\<open>json.c\<close>, \<^verbatim>\<open>hash.c\<close>, \<^verbatim>\<open>ps.c\<close>, \<^verbatim>\<open>dirs.c\<close>, \<^verbatim>\<open>http.c\<close>, \<^verbatim>\<open>store.c\<close>, \<^verbatim>\<open>publish.c\<close>) stand by themselves.

  \<^bold>\<open>Theories.\<close>
  \<^item> \<^verbatim>\<open>Prelude\<close>, \<^verbatim>\<open>Bytes\<close>, \<^verbatim>\<open>TclValue\<close>, \<^verbatim>\<open>Registry\<close>, \<^verbatim>\<open>Kernel\<close>: C strings, results, limits; bytes in memory; Tcl values and the
    byte rule of \<^verbatim>\<open>machteld.h\<close>; the contract of the token registries as a locale, interpreted on the lists of hash contexts,
    children, ptys and watches; the handle table of Windows, where closing a handle that is not open is a fault.
  \<^item> \<^verbatim>\<open>Cmdline\<close> (\<^verbatim>\<open>winjob_cmdline.c\<close>): the growing buffer, escaping and batch quoting; the round trip through the
    documented reader of command lines and the safety of batch command lines.
  \<^item> \<^verbatim>\<open>Units\<close>, \<^verbatim>\<open>Utf8\<close> (\<^verbatim>\<open>proc.c\<close>, \<^verbatim>\<open>http.c\<close>, \<^verbatim>\<open>wintext.c\<close>): quantities with units and UTF-8, against reference definitions.
  \<^item> \<^verbatim>\<open>JsonDoc\<close>, \<^verbatim>\<open>JsonText\<close>, \<^verbatim>\<open>JsonVerb\<close>, \<^verbatim>\<open>JsonLife\<close> (\<^verbatim>\<open>json.c\<close>): plain mapping and strictness, writing, the seven subcommands
    on values, and the documents behind typed values with their reference counts, which answer as on values.
  \<^item> \<^verbatim>\<open>Hash\<close> (\<^verbatim>\<open>hash.c\<close>): one-shot and incremental digests with their CNG handles.
  \<^item> \<^verbatim>\<open>Job\<close>, \<^verbatim>\<open>Launch\<close> (\<^verbatim>\<open>winjob_job.c\<close>, \<^verbatim>\<open>winjob_launch.c\<close>): jobs as traces of calls under a lock; both launchers.
  \<^item> \<^verbatim>\<open>Opts\<close>, \<^verbatim>\<open>EnvBlock\<close>, \<^verbatim>\<open>Streams\<close>, \<^verbatim>\<open>Monitor\<close> (\<^verbatim>\<open>proc.c\<close>): options and program resolution, the environment block, the
    threads of a child and the line pump, the monitor thread.
  \<^item> \<^verbatim>\<open>Child\<close>, \<^verbatim>\<open>Reap\<close>, \<^verbatim>\<open>ProcCmd\<close> (\<^verbatim>\<open>proc.c\<close>): the life of a child from launch to release with every handle in a slot of the
    ledger, and the verbs \<^verbatim>\<open>run\<close>, \<^verbatim>\<open>child\<close> and \<^verbatim>\<open>detach\<close>; the registry as a refinement of an abstract map from tokens to lives.
  \<^item> \<^verbatim>\<open>Pty\<close>, \<^verbatim>\<open>Watch\<close> (\<^verbatim>\<open>proc.c\<close>): pseudoconsoles with the output retained during a send, and directory watches with
    their reader thread, the notification buffer and coalescing.
  \<^item> \<^verbatim>\<open>Proc\<close> (\<^verbatim>\<open>proc.c\<close>): the process verbs in one system, with \<^verbatim>\<open>wait\<close>, start-up and teardown; the ledger of handles as an
    invariant of every history of commands.
  \<^item> \<^verbatim>\<open>Ps\<close> (\<^verbatim>\<open>ps.c\<close>): rows of processes; \<^verbatim>\<open>kill -tree\<close> ends exactly the tree of the snapshot, children first.
  \<^item> \<^verbatim>\<open>DirsPath\<close>, \<^verbatim>\<open>Dirs\<close> (\<^verbatim>\<open>dirs.c\<close>): path prefixing, reparse payloads within their buffer, and the walk: nothing is left out in
    silence, nothing is entered through a link, a bounded depth makes it end.
  \<^item> \<^verbatim>\<open>Store\<close> (\<^verbatim>\<open>store.c\<close>): the store as a refinement of a map, over SQLite as a parameter.
  \<^item> \<^verbatim>\<open>Publish\<close> (\<^verbatim>\<open>publish.c\<close>): atomic replacement against an environment that may interfere before every call.
  \<^item> \<^verbatim>\<open>Http\<close> (\<^verbatim>\<open>http.c\<close>): requests as traces of WinHTTP calls; whole bodies, paired handles, headers without injection.
  \<^item> \<^verbatim>\<open>Entry\<close>, \<^verbatim>\<open>AppInit\<close> (\<^verbatim>\<open>entry.c\<close>, \<^verbatim>\<open>machteld_appinit.c\<close>, the two mains): host routes, the program captured once, checked for its
    opt-in and only then evaluated; the trust in the payload and the order of the set-up.

  \<^bold>\<open>Conventions.\<close> Definitions keep the names of the code; a stretch of a long function that has a name of its own is
  mapped to its lines in the manifest. What Windows, Tcl, yyjson, the heap and the clock answer are parameters: records of
  answers or lists of observations, one per turn of a waiting loop. A wait that has not ended with the given observations
  is \<open>None\<close>; no fuel is used otherwise, and every other recursion terminates by structure or by a measure. Counters
  of tokens and of dropped events are natural numbers: their overflow past 2 to the power 31 is not modelled.

  \<^bold>\<open>Not modelled.\<close> The Tcl prelude under \<^verbatim>\<open>src/tcl\<close>; the \<open>Init\<close> functions that only register commands and packages in Tcl;
  the edits of \<^verbatim>\<open>errorInfo\<close> in \<^verbatim>\<open>entry.c\<close>; reclamation of memory other than handles, SQLite statements and JSON documents;
  Windows, Tcl, Tk, SQLite and yyjson themselves, which are parameters with the documented behaviour the code relies on.
\<close>

end
